(* ===== verification/Calybris_Prelude.thy ===== *)
theory Calybris_Prelude
  imports Main "HOL-Library.Word" "HOL-Library.Multiset"
begin

text \<open>
  What the component theories share: the Rust integer types as words, the integer operations
  of the Rust standard library that the sources call (checked, saturating, clamping and
  converting ones), the little-endian and big-endian byte encodings behind every digest, and
  generic facts on options, sums and lists.

  Unsigned integers are words and are read with \<open>unat\<close>; an \<open>i64\<close> is a 64-bit word as well,
  read with \<open>sint\<close> (two's complement). Plain \<open>+\<close>, \<open>-\<close> and \<open>*\<close> on words wrap, which is what
  the release profile of the crate does. An \<open>i128\<close> is an \<open>int\<close>: the kernel theory proves that
  no \<open>i128\<close> operation of the code leaves the range of the type.
\<close>

unbundle bit_operations_syntax

type_synonym u8 = "8 word"
type_synonym u16 = "16 word"
type_synonym u32 = "32 word"
type_synonym u64 = "64 word"
type_synonym u128 = "128 word"
type_synonym i64 = "64 word"
type_synonym i128 = int
type_synonym bytes = "u8 list"

named_theorems word_fit \<open>reading a word operation that does not overflow\<close>
named_theorems codec \<open>lengths and injectivity of byte encodings\<close>

section \<open>Rust's integer operations\<close>

definition checked_add :: "'a::len word \<Rightarrow> 'a word \<Rightarrow> 'a word option" where
  "checked_add a b = (if unat a + unat b < 2 ^ LENGTH('a) then Some (a + b) else None)"

definition checked_mul :: "'a::len word \<Rightarrow> 'a word \<Rightarrow> 'a word option" where
  "checked_mul a b = (if unat a * unat b < 2 ^ LENGTH('a) then Some (a * b) else None)"

definition saturating_add :: "'a::len word \<Rightarrow> 'a word \<Rightarrow> 'a word" where
  "saturating_add a b = (if unat a + unat b < 2 ^ LENGTH('a) then a + b else - 1)"

definition saturating_mul :: "'a::len word \<Rightarrow> 'a word \<Rightarrow> 'a word" where
  "saturating_mul a b = (if unat a * unat b < 2 ^ LENGTH('a) then a * b else - 1)"

definition i64_min :: int where
  "i64_min = - (2 ^ 63)"

definition i64_max :: int where
  "i64_max = 2 ^ 63 - 1"

definition in_i64 :: "int \<Rightarrow> bool" where
  "in_i64 v \<longleftrightarrow> i64_min \<le> v \<and> v \<le> i64_max"

definition in_i128 :: "int \<Rightarrow> bool" where
  "in_i128 v \<longleftrightarrow> - (2 ^ 127) \<le> v \<and> v \<le> 2 ^ 127 - 1"

definition checked_add_i64 :: "i64 \<Rightarrow> i64 \<Rightarrow> i64 option" where
  "checked_add_i64 a b = (if in_i64 (sint a + sint b) then Some (a + b) else None)"

definition checked_sub_i64 :: "i64 \<Rightarrow> i64 \<Rightarrow> i64 option" where
  "checked_sub_i64 a b = (if in_i64 (sint a - sint b) then Some (a - b) else None)"

definition saturating_sub_i64 :: "i64 \<Rightarrow> i64 \<Rightarrow> i64" where
  "saturating_sub_i64 a b = word_of_int (max i64_min (min i64_max (sint a - sint b)))"

text \<open>\<open>i64::try_from\<close> on an \<open>i128\<close>, \<open>u16::try_from(n).unwrap_or(u16::MAX)\<close> on a
  \<open>usize\<close>, and \<open>u64::try_from(n).unwrap_or(u64::MAX)\<close> on a \<open>u128\<close>.\<close>

definition i64_try_from :: "i128 \<Rightarrow> i64 option" where
  "i64_try_from v = (if in_i64 v then Some (word_of_int v) else None)"

definition u16_of_usize :: "nat \<Rightarrow> u16" where
  "u16_of_usize n = (if n < 2 ^ 16 then of_nat n else - 1)"

definition u64_of_u128 :: "u128 \<Rightarrow> u64" where
  "u64_of_u128 x = (if unat x < 2 ^ 64 then ucast x else - 1)"

section \<open>Byte encodings\<close>

primrec le_bytes :: "nat \<Rightarrow> 'a::len word \<Rightarrow> bytes" where
  "le_bytes 0 w = []"
| "le_bytes (Suc n) w = ucast w # le_bytes n (drop_bit 8 w)"

definition be_bytes :: "nat \<Rightarrow> 'a::len word \<Rightarrow> bytes" where
  "be_bytes n w = rev (le_bytes n w)"

primrec le_val :: "bytes \<Rightarrow> nat" where
  "le_val [] = 0"
| "le_val (b # bs) = unat b + 256 * le_val bs"

text \<open>The ASCII bytes of a string literal.\<close>

definition ascii :: "string \<Rightarrow> bytes" where
  "ascii s = map (\<lambda>c. of_nat (of_char c)) s"

section \<open>Results\<close>

text \<open>The \<open>?\<close> operator and \<open>map_err\<close> on \<open>Result\<close>, with \<open>Inl\<close> for \<open>Err\<close>.\<close>

fun and_then :: "'e + 'a \<Rightarrow> ('a \<Rightarrow> 'e + 'b) \<Rightarrow> 'e + 'b" where
  "and_then (Inl e) f = Inl e"
| "and_then (Inr a) f = f a"

fun map_err :: "('e \<Rightarrow> 'f) \<Rightarrow> 'e + 'a \<Rightarrow> 'f + 'a" where
  "map_err f (Inl e) = Inl (f e)"
| "map_err f (Inr a) = Inr a"

fun ok_or :: "'e \<Rightarrow> 'a option \<Rightarrow> 'e + 'a" where
  "ok_or e None = Inl e"
| "ok_or e (Some a) = Inr a"

section \<open>Words that do not overflow\<close>

lemma checked_add_Some [simp]:
  "checked_add a b = Some c \<longleftrightarrow> unat a + unat b < 2 ^ LENGTH('a) \<and> c = a + b"
  for a b :: "'a::len word"
  by (auto simp: checked_add_def)

lemma checked_add_None [simp]:
  "checked_add a b = None \<longleftrightarrow> 2 ^ LENGTH('a) \<le> unat a + unat b"
  for a b :: "'a::len word"
  by (auto simp: checked_add_def)

lemma checked_mul_Some [simp]:
  "checked_mul a b = Some c \<longleftrightarrow> unat a * unat b < 2 ^ LENGTH('a) \<and> c = a * b"
  for a b :: "'a::len word"
  by (auto simp: checked_mul_def)

lemma checked_mul_None [simp]:
  "checked_mul a b = None \<longleftrightarrow> 2 ^ LENGTH('a) \<le> unat a * unat b"
  for a b :: "'a::len word"
  by (auto simp: checked_mul_def)

lemma unat_add_fit [word_fit]:
  "unat a + unat b < 2 ^ LENGTH('a) \<Longrightarrow> unat (a + b) = unat a + unat b"
  for a b :: "'a::len word"
  by (simp add: unat_word_ariths)

lemma unat_mul_fit [word_fit]:
  "unat a * unat b < 2 ^ LENGTH('a) \<Longrightarrow> unat (a * b) = unat a * unat b"
  for a b :: "'a::len word"
  by (simp add: unat_word_ariths)

lemma unat_minus_1 [simp]: "unat (- 1 :: 'a::len word) = 2 ^ LENGTH('a) - 1"
  by (simp add: unsigned_minus_1_eq_mask mask_eq_exp_minus_1)

lemma unat_saturating_add:
  "unat (saturating_add a b) = min (2 ^ LENGTH('a) - 1) (unat a + unat b)"
  for a b :: "'a::len word"
proof (cases "unat a + unat b < 2 ^ LENGTH('a)")
  case True
  then show ?thesis by (simp add: saturating_add_def word_fit)
next
  case False
  then show ?thesis by (simp add: saturating_add_def)
qed

lemma unat_saturating_mul:
  "unat (saturating_mul a b) = min (2 ^ LENGTH('a) - 1) (unat a * unat b)"
  for a b :: "'a::len word"
proof (cases "unat a * unat b < 2 ^ LENGTH('a)")
  case True
  then show ?thesis by (simp add: saturating_mul_def word_fit)
next
  case False
  then show ?thesis by (simp add: saturating_mul_def)
qed

lemma unat_lt2p: "unat w < 2 ^ LENGTH('a)" for w :: "'a::len word"
  by (rule unsigned_less)

lemma unat_ucast_up [simp]:
  fixes w :: "'a::len word"
  assumes "LENGTH('a) \<le> LENGTH('b)"
  shows "unat (ucast w :: 'b::len word) = unat w"
proof -
  have "unat w < 2 ^ LENGTH('b)"
    by (rule order_less_le_trans [OF unsigned_less]) (simp add: assms)
  then show ?thesis by (simp add: unsigned_ucast_eq take_bit_nat_eq_self)
qed

lemma unat_u16_of_usize: "unat (u16_of_usize n) = min (2 ^ 16 - 1) n"
  by (simp add: u16_of_usize_def unat_of_nat min_def)

lemma unat_u64_of_u128: "unat (u64_of_u128 x) = min (2 ^ 64 - 1) (unat x)"
  by (simp add: u64_of_u128_def unsigned_ucast_eq take_bit_eq_mod min_def)

section \<open>Signed words\<close>

lemma sint_eq_iff: "sint a = sint b \<longleftrightarrow> a = b" for a b :: "'a::len word"
  by (auto intro: signed_word_eqI)

lemma uint_eq_iff: "uint a = uint b \<longleftrightarrow> a = b" for a b :: "'a::len word"
  by (auto intro: unsigned_word_eqI)

lemma unat_eq_iff: "unat a = unat b \<longleftrightarrow> a = b" for a b :: "'a::len word"
  by (auto intro: unsigned_word_eqI)

lemma sint_in_i64 [simp]: "in_i64 (sint (a :: i64))"
  using sint_ge [of a] sint_lt [of a] by (simp add: in_i64_def i64_min_def i64_max_def)

lemma in_i64_self: "in_i64 v \<Longrightarrow> sint (word_of_int v :: i64) = v"
  by (simp add: in_i64_def i64_min_def i64_max_def signed_take_bit_int_eq_self_iff
      sint_sbintrunc')

lemma sint_add_fit [word_fit]: "in_i64 (sint a + sint b) \<Longrightarrow> sint (a + b) = sint a + sint b"
  for a b :: i64
  by (simp add: in_i64_def i64_min_def i64_max_def sint_word_add signed_take_bit_int_eq_self_iff)

lemma sint_sub_fit [word_fit]: "in_i64 (sint a - sint b) \<Longrightarrow> sint (a - b) = sint a - sint b"
  for a b :: i64
  by (simp add: in_i64_def i64_min_def i64_max_def sint_word_diff signed_take_bit_int_eq_self_iff)

lemma checked_add_i64_Some [simp]:
  "checked_add_i64 a b = Some c \<longleftrightarrow> in_i64 (sint a + sint b) \<and> c = a + b"
  by (auto simp: checked_add_i64_def)

lemma checked_add_i64_None [simp]:
  "checked_add_i64 a b = None \<longleftrightarrow> \<not> in_i64 (sint a + sint b)"
  by (auto simp: checked_add_i64_def)

lemma checked_sub_i64_Some [simp]:
  "checked_sub_i64 a b = Some c \<longleftrightarrow> in_i64 (sint a - sint b) \<and> c = a - b"
  by (auto simp: checked_sub_i64_def)

lemma checked_sub_i64_None [simp]:
  "checked_sub_i64 a b = None \<longleftrightarrow> \<not> in_i64 (sint a - sint b)"
  by (auto simp: checked_sub_i64_def)

lemma i64_try_from_Some [simp]:
  "i64_try_from v = Some w \<longleftrightarrow> in_i64 v \<and> w = word_of_int v"
  by (auto simp: i64_try_from_def)

lemma sint_eq_uint_nonneg: "0 \<le> sint a \<Longrightarrow> uint a = sint a" for a :: i64
  using sint_lt [of a] by (simp add: uint_sint take_bit_eq_mod)

section \<open>Byte encodings are injective\<close>

lemma length_le_bytes [simp, codec]: "length (le_bytes n w) = n"
  by (induction n arbitrary: w) simp_all

lemma length_be_bytes [simp, codec]: "length (be_bytes n w) = n"
  by (simp add: be_bytes_def)

lemma le_val_le_bytes: "le_val (le_bytes n w) = unat w mod 256 ^ n"
proof (induction n arbitrary: w)
  case 0
  then show ?case by simp
next
  case (Suc n)
  have "unat (drop_bit 8 w) = unat w div 256"
    by (simp only: unsigned_drop_bit_eq) (simp add: drop_bit_eq_div take_bit_eq_mod)
  then have "le_val (le_bytes (Suc n) w) = unat w mod 256 + 256 * (unat w div 256 mod 256 ^ n)"
    using Suc.IH [of "drop_bit 8 w"] by (simp add: unsigned_ucast_eq take_bit_eq_mod)
  also have "\<dots> = unat w mod 256 ^ Suc n"
    by (simp add: mod_mult2_eq)
  finally show ?case .
qed

lemma le_bytes_inject [codec]:
  fixes v w :: "'a::len word"
  assumes "LENGTH('a) \<le> 8 * n"
  shows "le_bytes n v = le_bytes n w \<longleftrightarrow> v = w"
proof
  assume eq: "le_bytes n v = le_bytes n w"
  have small: "unat u < 256 ^ n" for u :: "'a word"
  proof -
    have "unat u < 2 ^ LENGTH('a)" by (rule unsigned_less)
    also have "(2::nat) ^ LENGTH('a) \<le> 2 ^ (8 * n)" using assms by (intro power_increasing) auto
    also have "(2::nat) ^ (8 * n) = 256 ^ n" by (simp add: power_mult)
    finally show ?thesis .
  qed
  from eq have "unat v mod 256 ^ n = unat w mod 256 ^ n"
    by (metis le_val_le_bytes)
  with small have "unat v = unat w" by simp
  then show "v = w" by (rule unsigned_word_eqI)
qed simp

lemma be_bytes_inject [codec]:
  "LENGTH('a) \<le> 8 * n \<Longrightarrow> be_bytes n v = be_bytes n w \<longleftrightarrow> v = w" for v w :: "'a::len word"
  by (simp add: be_bytes_def le_bytes_inject)

lemma length_ascii [simp]: "length (ascii s) = length s"
  by (simp add: ascii_def)

lemma ascii_inject [simp]: "ascii s = ascii t \<longleftrightarrow> s = t"
proof -
  have "inj (\<lambda>c. of_nat (of_char c) :: u8)"
  proof (rule injI)
    fix c d :: char
    assume "of_nat (of_char c) = (of_nat (of_char d) :: u8)"
    then have "of_char c mod 256 = (of_char d mod 256 :: nat)" by (simp add: unat_eq_iff [symmetric] unat_of_nat)
    then show "c = d" by simp
  qed
  then show ?thesis by (simp add: ascii_def inj_map_eq_map)
qed

section \<open>Results and lists\<close>

lemma and_then_Inr [simp]: "and_then r f = Inr b \<longleftrightarrow> (\<exists>a. r = Inr a \<and> f a = Inr b)"
  by (cases r) auto

lemma map_err_Inr [simp]: "map_err f r = Inr a \<longleftrightarrow> r = Inr a"
  by (cases r) auto

lemma ok_or_Inr [simp]: "ok_or e x = Inr a \<longleftrightarrow> x = Some a"
  by (cases x) auto

section \<open>Hashes\<close>

text \<open>
  A digest, an array of 32 bytes, is a 256-bit word written big-endian. SHA-256 is not part of the
  crate: it is the argument \<open>H\<close> of every definition that hashes. Statements on digests name the
  hashed byte strings and hold up to a \<open>collision\<close> between them.
\<close>

type_synonym hash = "256 word"
type_synonym hasher = "bytes \<Rightarrow> hash"

definition hash_bytes :: "hash \<Rightarrow> bytes" where
  "hash_bytes h = be_bytes 32 h"

definition collision :: "hasher \<Rightarrow> bytes list \<Rightarrow> bytes list \<Rightarrow> bool" where
  "collision H xs ys \<longleftrightarrow> (\<exists>x \<in> set xs. \<exists>y \<in> set ys. x \<noteq> y \<and> H x = H y)"

lemma length_hash_bytes [simp, codec]: "length (hash_bytes h) = 32"
  by (simp add: hash_bytes_def)

lemma hash_bytes_inject [simp, codec]: "hash_bytes g = hash_bytes h \<longleftrightarrow> g = h"
  by (simp add: hash_bytes_def be_bytes_inject)

lemma collision_mono: "collision H xs ys \<Longrightarrow> set xs \<subseteq> set xs' \<Longrightarrow> set ys \<subseteq> set ys' \<Longrightarrow> collision H xs' ys'"
  unfolding collision_def by blast

lemma collisionI: "H x = H y \<Longrightarrow> x \<noteq> y \<Longrightarrow> x \<in> set xs \<Longrightarrow> y \<in> set ys \<Longrightarrow> collision H xs ys"
  unfolding collision_def by blast

section \<open>State machines\<close>

text \<open>
  A component as a machine: a start state, one total step function per operation (returning its
  result and the next state) and an invariant that every step keeps. Everything that holds of all
  reachable states of a component is proved from this contract.
\<close>

locale machine =
  fixes start :: 's and step :: "'op \<Rightarrow> 's \<Rightarrow> 'r \<times> 's" and inv :: "'s \<Rightarrow> bool"
  assumes inv_start: "inv start"
    and inv_step: "inv s \<Longrightarrow> inv (snd (step op s))"
begin

lemma inv_fold: "inv s \<Longrightarrow> inv (fold (\<lambda>op s. snd (step op s)) ops s)"
  by (induction ops arbitrary: s) (simp_all add: inv_step)

lemma inv_run: "inv (fold (\<lambda>op s. snd (step op s)) ops start)"
  by (rule inv_fold [OF inv_start])

lemma fold_stable:
  assumes stable: "\<And>op s. inv s \<Longrightarrow> R s s0 \<Longrightarrow> R (snd (step op s)) s0"
    and "inv s" "R s s0"
  shows "R (fold (\<lambda>op s. snd (step op s)) ops s) s0"
  using assms(2,3)
proof (induction ops arbitrary: s)
  case (Cons op ops)
  then show ?case using stable [of s op] inv_step [of s op] by simp
qed simp

end

end
