(* ===== verification/Kernel.thy ===== *)
theory Kernel
  imports Calybris_Prelude
begin

text \<open>
  The per-candidate half of \<open>src/src/kernel.rs\<close>: the catalog, request and policy records, the
  constraint gates and the economic calculation (\<open>Pricing\<close>), with the optimised and the
  reference arithmetic both modelled at the width the code uses.

  The lemmas show that the gates are checked in the documented order, that the optimised
  64-bit paths compute the exact mathematical cost and utility for every model of the catalog
  (\<open>exact_cost\<close>, \<open>exact_utility\<close>), and that no intermediate \<open>i128\<close> value overflows.
\<close>

section \<open>Data\<close>

definition BASIS_POINTS :: u64 where
  "BASIS_POINTS = 10000"

definition SCALED_BASIS_POINTS :: u64 where
  "SCALED_BASIS_POINTS = BASIS_POINTS * BASIS_POINTS"

definition COST_SCALE :: u64 where
  "COST_SCALE = 1000000"

definition COST_ROUNDING :: u64 where
  "COST_ROUNDING = COST_SCALE - 1"

definition ALL_PROVIDERS :: u64 where
  "ALL_PROVIDERS = - 1"

definition ALL_REGIONS :: u64 where
  "ALL_REGIONS = - 1"

definition MAX_PROVIDER_ID :: u16 where
  "MAX_PROVIDER_ID = 63"

definition MAX_CATALOG_MODELS :: nat where
  "MAX_CATALOG_MODELS = 65535"

definition MAX_BPS :: u16 where
  "MAX_BPS = 10000"

definition MAX_RISK_PENALTY_MULTIPLIER_BPS :: u16 where
  "MAX_RISK_PENALTY_MULTIPLIER_BPS = 50000"

record kernel_model =
  model_id :: u32
  provider_id :: u16
  quality_bps :: u16
  risk_ceiling_bps :: u16
  enabled :: u8
  p95_latency_ms :: u32
  capabilities :: u64
  region_mask :: u64
  input_cost_microunits_per_million_tokens :: u64
  output_cost_microunits_per_million_tokens :: u64

record kernel_input =
  request_sequence :: u64
  requested_model_id :: u32
  input_tokens :: u32
  output_tokens :: u32
  business_value_microunits :: i64
  budget_limit_microunits :: u64
  risk_bps :: u16
  confidence_bps :: u16
  minimum_quality_bps :: u16
  max_p95_latency_ms :: u32
  required_capabilities :: u64
  allowed_provider_mask :: u64
  required_region_mask :: u64

datatype input_error = InputOutOfRangeBps string u16 u16

text \<open>\<open>KernelInput::validate\<close>.\<close>

definition validate_input :: "kernel_input \<Rightarrow> input_error + unit" where
  "validate_input i =
     (if risk_bps i > MAX_BPS then Inl (InputOutOfRangeBps ''risk_bps'' (risk_bps i) MAX_BPS)
      else if confidence_bps i > MAX_BPS
        then Inl (InputOutOfRangeBps ''confidence_bps'' (confidence_bps i) MAX_BPS)
      else if minimum_quality_bps i > MAX_BPS
        then Inl (InputOutOfRangeBps ''minimum_quality_bps'' (minimum_quality_bps i) MAX_BPS)
      else Inr ())"

text \<open>
  \<open>PolicySnapshot\<close>. The four \<open>max_\<close> fields are private in the source and are set by
  \<open>new_unchecked\<close> from the catalog; \<open>policy_wf\<close> below is that relation.
\<close>

record policy_snapshot =
  ps_policy_epoch :: u64
  ps_catalog_epoch :: u64
  ps_hard_risk_limit_bps :: u16
  ps_minimum_confidence_bps :: u16
  ps_risk_penalty_multiplier_bps :: u16
  ps_latency_penalty_microunits_per_ms :: u64
  ps_max_quality_bps :: u16
  ps_max_p95_latency_ms :: u32
  ps_max_input_cost :: u64
  ps_max_output_cost :: u64
  ps_models :: "kernel_model list"

text \<open>The one-model policy and the request of the documentation example in \<open>src/src/state.rs\<close>.\<close>

definition example_model :: kernel_model where
  "example_model = \<lparr> model_id = 1, provider_id = 0, quality_bps = 9000, risk_ceiling_bps = 9500,
     enabled = 1, p95_latency_ms = 200, capabilities = 0, region_mask = ALL_REGIONS,
     input_cost_microunits_per_million_tokens = 250,
     output_cost_microunits_per_million_tokens = 1000 \<rparr>"

definition example_input :: kernel_input where
  "example_input = \<lparr> request_sequence = 1, requested_model_id = 1, input_tokens = 100,
     output_tokens = 50, business_value_microunits = 10000, budget_limit_microunits = 1000000,
     risk_bps = 100, confidence_bps = 9000, minimum_quality_bps = 0, max_p95_latency_ms = 0,
     required_capabilities = 0, allowed_provider_mask = ALL_PROVIDERS, required_region_mask = 0 \<rparr>"

definition example_policy :: policy_snapshot where
  "example_policy = \<lparr> ps_policy_epoch = 1, ps_catalog_epoch = 1, ps_hard_risk_limit_bps = 9600,
     ps_minimum_confidence_bps = 5500, ps_risk_penalty_multiplier_bps = 3500,
     ps_latency_penalty_microunits_per_ms = 2, ps_max_quality_bps = 9000,
     ps_max_p95_latency_ms = 200, ps_max_input_cost = 250, ps_max_output_cost = 1000,
     ps_models = [example_model] \<rparr>"

section \<open>Gates\<close>

datatype gate_kind =
    Disabled
  | Quality
  | Latency
  | Capability
  | ProviderUnrepresentable
  | ProviderNotAllowed
  | Region
  | RiskCeiling

definition first_failed_gate :: "kernel_model \<Rightarrow> kernel_input \<Rightarrow> gate_kind option" where
  "first_failed_gate m i =
     (if enabled m = 0 then Some Disabled
      else if quality_bps m < minimum_quality_bps i then Some Quality
      else if max_p95_latency_ms i > 0 \<and> p95_latency_ms m > max_p95_latency_ms i
        then Some Latency
      else if capabilities m AND required_capabilities i \<noteq> required_capabilities i
        then Some Capability
      else if provider_id m > MAX_PROVIDER_ID then Some ProviderUnrepresentable
      else if allowed_provider_mask i \<noteq> ALL_PROVIDERS
          \<and> allowed_provider_mask i AND push_bit (unat (provider_id m)) 1 = 0
        then Some ProviderNotAllowed
      else if required_region_mask i \<noteq> 0 \<and> region_mask m AND required_region_mask i = 0
        then Some Region
      else if risk_bps i > risk_ceiling_bps m then Some RiskCeiling
      else None)"

definition gate_detail :: "kernel_model \<Rightarrow> kernel_input \<Rightarrow> gate_kind \<Rightarrow> u64 \<times> u64" where
  "gate_detail m i gate =
     (case gate of
        Disabled \<Rightarrow> (0, 1)
      | Quality \<Rightarrow> (ucast (quality_bps m), ucast (minimum_quality_bps i))
      | Latency \<Rightarrow> (ucast (p95_latency_ms m), ucast (max_p95_latency_ms i))
      | Capability \<Rightarrow> (capabilities m, required_capabilities i)
      | ProviderUnrepresentable \<Rightarrow> (ucast (provider_id m), ucast MAX_PROVIDER_ID)
      | ProviderNotAllowed \<Rightarrow> (ucast (provider_id m), allowed_provider_mask i)
      | Region \<Rightarrow> (region_mask m, required_region_mask i)
      | RiskCeiling \<Rightarrow> (ucast (risk_bps i), ucast (risk_ceiling_bps m)))"

section \<open>Pricing\<close>

record utility_terms =
  t_quality_adjusted :: i128
  t_risk_penalty :: i128
  t_cost_microunits :: u64
  t_latency_penalty :: i128
  t_utility :: i64

record pricing =
  pr_value :: u64
  pr_confidence_bps :: u64
  pr_quality_prefix :: "u64 option"
  pr_risk_penalty :: i128
  pr_all_costs_fit :: bool
  pr_all_latencies_fit :: bool
  pr_latency_pen_per_ms :: u64

text \<open>All operands are unsigned, so the \<open>i128\<close> division, which truncates, is \<open>div\<close>.\<close>

definition scaled_term_reference :: "u64 \<Rightarrow> u64 \<Rightarrow> u64 \<Rightarrow> i128" where
  "scaled_term_reference v a b = uint v * uint a * uint b div uint SCALED_BASIS_POINTS"

definition scaled_term_exact :: "u64 \<Rightarrow> u64 \<Rightarrow> u64 \<Rightarrow> i128" where
  "scaled_term_exact v a b =
     (case Option.bind (checked_mul v a) (\<lambda>x. checked_mul x b) of
        None \<Rightarrow> scaled_term_reference v a b
      | Some numerator \<Rightarrow> uint (numerator div SCALED_BASIS_POINTS))"

definition model_cost_fast :: "kernel_model \<Rightarrow> u32 \<Rightarrow> u32 \<Rightarrow> u64" where
  "model_cost_fast m ti to =
     (ucast ti * input_cost_microunits_per_million_tokens m + COST_ROUNDING) div COST_SCALE
     + (ucast to * output_cost_microunits_per_million_tokens m + COST_ROUNDING) div COST_SCALE"

definition model_cost_reference :: "kernel_model \<Rightarrow> u32 \<Rightarrow> u32 \<Rightarrow> u64" where
  "model_cost_reference m ti to =
     (let ci = saturating_add
                 (saturating_mul (ucast ti) (ucast (input_cost_microunits_per_million_tokens m)))
                 (ucast COST_ROUNDING) div (ucast COST_SCALE :: u128);
          co = saturating_add
                 (saturating_mul (ucast to) (ucast (output_cost_microunits_per_million_tokens m)))
                 (ucast COST_ROUNDING) div (ucast COST_SCALE :: u128)
      in u64_of_u128 (saturating_add ci co))"

definition clamp_i128_to_i64 :: "i128 \<Rightarrow> i64" where
  "clamp_i128_to_i64 v = word_of_int (max i64_min (min i64_max v))"

definition all_costs_fit_u64 :: "policy_snapshot \<Rightarrow> u32 \<Rightarrow> u32 \<Rightarrow> bool" where
  "all_costs_fit_u64 p ti to =
     (case (Option.bind (checked_mul (ucast ti) (ps_max_input_cost p))
              (\<lambda>v. checked_add v COST_ROUNDING),
            Option.bind (checked_mul (ucast to) (ps_max_output_cost p))
              (\<lambda>v. checked_add v COST_ROUNDING)) of
        (Some ci, Some co) \<Rightarrow> checked_add ci co \<noteq> None
      | _ \<Rightarrow> False)"

text \<open>\<open>business_value_microunits.max(0) as u64\<close>.\<close>

definition request_value :: "kernel_input \<Rightarrow> u64" where
  "request_value i =
     (if sint (business_value_microunits i) < 0 then 0 else business_value_microunits i)"

definition new_pricing :: "policy_snapshot \<Rightarrow> kernel_input \<Rightarrow> pricing" where
  "new_pricing p i =
     (let value = request_value i;
          conf = ucast (confidence_bps i)
      in \<lparr> pr_value = value,
           pr_confidence_bps = conf,
           pr_quality_prefix =
             (case checked_mul value conf of
                None \<Rightarrow> None
              | Some prefix \<Rightarrow>
                  if checked_mul prefix (ucast (ps_max_quality_bps p)) \<noteq> None
                  then Some prefix else None),
           pr_risk_penalty =
             scaled_term_exact value (ucast (risk_bps i)) (ucast (ps_risk_penalty_multiplier_bps p)),
           pr_all_costs_fit = all_costs_fit_u64 p (input_tokens i) (output_tokens i),
           pr_all_latencies_fit =
             (checked_mul (ucast (ps_max_p95_latency_ms p) :: u64)
                (ps_latency_penalty_microunits_per_ms p) \<noteq> None),
           pr_latency_pen_per_ms = ps_latency_penalty_microunits_per_ms p \<rparr>)"

definition pricing_cost :: "pricing \<Rightarrow> kernel_model \<Rightarrow> kernel_input \<Rightarrow> u64" where
  "pricing_cost pr m i =
     (if pr_all_costs_fit pr then model_cost_fast m (input_tokens i) (output_tokens i)
      else model_cost_reference m (input_tokens i) (output_tokens i))"

definition pricing_terms :: "pricing \<Rightarrow> kernel_model \<Rightarrow> u64 \<Rightarrow> utility_terms" where
  "pricing_terms pr m cost =
     (let quality_adjusted =
            (case pr_quality_prefix pr of
               None \<Rightarrow> scaled_term_reference (pr_value pr) (pr_confidence_bps pr) (ucast (quality_bps m))
             | Some prefix \<Rightarrow> uint (prefix * ucast (quality_bps m) div SCALED_BASIS_POINTS));
          latency_penalty =
            (if pr_all_latencies_fit pr
             then uint (ucast (p95_latency_ms m) * pr_latency_pen_per_ms pr)
             else uint (p95_latency_ms m) * uint (pr_latency_pen_per_ms pr))
      in \<lparr> t_quality_adjusted = quality_adjusted,
           t_risk_penalty = pr_risk_penalty pr,
           t_cost_microunits = cost,
           t_latency_penalty = latency_penalty,
           t_utility = clamp_i128_to_i64
             (quality_adjusted - pr_risk_penalty pr - uint cost - latency_penalty) \<rparr>)"

section \<open>Exact arithmetic\<close>

text \<open>
  The mathematical meaning of the calculation: a price per million tokens rounds up to the
  next microunit, the two halves add up and saturate at \<open>u64::MAX\<close>; the scaled terms round
  down; the utility is the clamped difference.
\<close>

definition token_cost :: "u32 \<Rightarrow> u64 \<Rightarrow> nat" where
  "token_cost tokens price = (unat tokens * unat price + 999999) div 1000000"

definition exact_cost :: "kernel_model \<Rightarrow> kernel_input \<Rightarrow> nat" where
  "exact_cost m i =
     min (2 ^ 64 - 1)
       (token_cost (input_tokens i) (input_cost_microunits_per_million_tokens m)
        + token_cost (output_tokens i) (output_cost_microunits_per_million_tokens m))"

definition scaled_bps :: "int \<Rightarrow> int \<Rightarrow> int \<Rightarrow> int" where
  "scaled_bps v a b = v * a * b div 100000000"

definition raw_utility :: "policy_snapshot \<Rightarrow> kernel_input \<Rightarrow> kernel_model \<Rightarrow> int" where
  "raw_utility p i m =
     (let v = max 0 (sint (business_value_microunits i))
      in scaled_bps v (uint (confidence_bps i)) (uint (quality_bps m))
         - scaled_bps v (uint (risk_bps i)) (uint (ps_risk_penalty_multiplier_bps p))
         - int (exact_cost m i)
         - uint (p95_latency_ms m) * uint (ps_latency_penalty_microunits_per_ms p))"

definition exact_utility :: "policy_snapshot \<Rightarrow> kernel_input \<Rightarrow> kernel_model \<Rightarrow> int" where
  "exact_utility p i m = max i64_min (min i64_max (raw_utility p i m))"

text \<open>The cached maxima bound the catalog, as \<open>new_unchecked\<close> computes them.\<close>

definition model_bounded :: "policy_snapshot \<Rightarrow> kernel_model \<Rightarrow> bool" where
  "model_bounded p m \<longleftrightarrow>
     quality_bps m \<le> ps_max_quality_bps p
     \<and> p95_latency_ms m \<le> ps_max_p95_latency_ms p
     \<and> input_cost_microunits_per_million_tokens m \<le> ps_max_input_cost p
     \<and> output_cost_microunits_per_million_tokens m \<le> ps_max_output_cost p"

definition policy_wf :: "policy_snapshot \<Rightarrow> bool" where
  "policy_wf p \<longleftrightarrow> (\<forall>m \<in> set (ps_models p). model_bounded p m)"

lemmas kernel_consts =
  BASIS_POINTS_def SCALED_BASIS_POINTS_def COST_SCALE_def COST_ROUNDING_def

lemma token_fit:
  assumes "unat t * unat c + 999999 < 2 ^ 64"
  shows "unat ((ucast (t :: u32) * (c :: u64) + COST_ROUNDING) div COST_SCALE) = token_cost t c"
proof -
  have "unat (ucast t * c) = unat t * unat c"
    using assms by (subst unat_mul_fit) simp_all
  then have "unat (ucast t * c + COST_ROUNDING) = unat t * unat c + 999999"
    using assms by (subst unat_add_fit) (simp_all add: kernel_consts)
  then show ?thesis
    by (simp add: unat_div token_cost_def kernel_consts)
qed

lemma token_cost_bound: "token_cost t c \<le> unat t * unat c + 999999"
  by (simp add: token_cost_def)

lemma token_cost_mono: "unat c \<le> unat d \<Longrightarrow> token_cost t c \<le> token_cost t d"
  unfolding token_cost_def by (intro div_le_mono add_right_mono mult_le_mono2)

lemma all_costs_fit_u64_iff:
  "all_costs_fit_u64 p ti to \<longleftrightarrow>
     unat ti * unat (ps_max_input_cost p) + 999999 < 2 ^ 64
     \<and> unat to * unat (ps_max_output_cost p) + 999999 < 2 ^ 64
     \<and> (unat ti * unat (ps_max_input_cost p) + 999999)
        + (unat to * unat (ps_max_output_cost p) + 999999) < 2 ^ 64"
  by (auto simp: all_costs_fit_u64_def checked_mul_def checked_add_def kernel_consts
      unat_mul_fit unat_add_fit split: option.splits if_splits)

lemma model_cost_fast_exact:
  assumes fit: "all_costs_fit_u64 p (input_tokens i) (output_tokens i)" and m: "model_bounded p m"
  shows "unat (model_cost_fast m (input_tokens i) (output_tokens i)) = exact_cost m i"
proof -
  let ?ti = "unat (input_tokens i)" and ?to = "unat (output_tokens i)"
  let ?ci = "unat (input_cost_microunits_per_million_tokens m)"
  let ?co = "unat (output_cost_microunits_per_million_tokens m)"
  have "?ti * ?ci \<le> ?ti * unat (ps_max_input_cost p)"
    using m by (intro mult_le_mono2) (simp add: model_bounded_def word_le_nat_alt)
  moreover have "?to * ?co \<le> ?to * unat (ps_max_output_cost p)"
    using m by (intro mult_le_mono2) (simp add: model_bounded_def word_le_nat_alt)
  ultimately have b: "?ti * ?ci + 999999 < 2 ^ 64" "?to * ?co + 999999 < 2 ^ 64"
    "(?ti * ?ci + 999999) + (?to * ?co + 999999) < 2 ^ 64"
    using fit unfolding all_costs_fit_u64_iff by linarith+
  let ?A = "token_cost (input_tokens i) (input_cost_microunits_per_million_tokens m)"
  let ?B = "token_cost (output_tokens i) (output_cost_microunits_per_million_tokens m)"
  have s: "?A + ?B < 2 ^ 64"
    using b(3) token_cost_bound [of "input_tokens i" "input_cost_microunits_per_million_tokens m"]
      token_cost_bound [of "output_tokens i" "output_cost_microunits_per_million_tokens m"]
    by linarith
  have "unat (model_cost_fast m (input_tokens i) (output_tokens i)) = ?A + ?B"
    unfolding model_cost_fast_def
    by (subst unat_add_fit) (use s b in \<open>simp_all add: token_fit\<close>)
  then show ?thesis using s by (simp add: exact_cost_def)
qed

lemma u128_token_fit:
  "unat (saturating_add (saturating_mul (ucast (t :: u32)) (ucast (c :: u64)))
      (ucast COST_ROUNDING) div (ucast COST_SCALE :: u128)) = token_cost t c"
proof -
  have "unat t * unat c \<le> (2 ^ 32 - 1) * (2 ^ 64 - 1)"
    using unat_lt2p [of t] unat_lt2p [of c] by (intro mult_le_mono) simp_all
  then show ?thesis
    by (simp add: unat_div unat_saturating_add unat_saturating_mul kernel_consts token_cost_def
        min_def)
qed

lemma token_cost_small: "token_cost t c < 2 ^ 96"
proof -
  have "unat t * unat c \<le> (2 ^ 32 - 1) * (2 ^ 64 - 1)"
    using unat_lt2p [of t] unat_lt2p [of c] by (intro mult_le_mono) simp_all
  with token_cost_bound [of t c] show ?thesis by simp
qed

lemma model_cost_reference_exact:
  "unat (model_cost_reference m (input_tokens i) (output_tokens i)) = exact_cost m i"
proof -
  let ?A = "token_cost (input_tokens i) (input_cost_microunits_per_million_tokens m)"
  let ?B = "token_cost (output_tokens i) (output_cost_microunits_per_million_tokens m)"
  have "?A + ?B < 2 ^ 128"
    using token_cost_small [of "input_tokens i" "input_cost_microunits_per_million_tokens m"]
      token_cost_small [of "output_tokens i" "output_cost_microunits_per_million_tokens m"]
    by simp
  then show ?thesis
    by (simp add: model_cost_reference_def Let_def unat_u64_of_u128 unat_saturating_add
        u128_token_fit exact_cost_def min_def)
qed

lemma pricing_cost_exact:
  assumes "model_bounded p m"
  shows "unat (pricing_cost (new_pricing p i) m i) = exact_cost m i"
  using model_cost_fast_exact [OF _ assms] model_cost_reference_exact
  by (simp add: pricing_cost_def new_pricing_def Let_def)

lemma request_value_exact: "uint (request_value i) = max 0 (sint (business_value_microunits i))"
  by (simp add: request_value_def sint_eq_uint_nonneg)

lemma scaled_reference_eq: "scaled_term_reference v a b = scaled_bps (uint v) (uint a) (uint b)"
  by (simp add: scaled_term_reference_def scaled_bps_def kernel_consts)

lemma scaled_exact_eq: "scaled_term_exact v a b = scaled_bps (uint v) (uint a) (uint b)"
proof (cases "Option.bind (checked_mul v a) (\<lambda>x. checked_mul x b)")
  case None
  then show ?thesis by (simp add: scaled_term_exact_def scaled_reference_eq)
next
  case (Some n)
  then have "unat v * unat a < 2 ^ 64" "unat (v * a) * unat b < 2 ^ 64" "n = v * a * b"
    by (auto simp: checked_mul_def split: if_splits bind_splits)
  then have "unat n = unat v * unat a * unat b"
    by (simp add: unat_mul_fit)
  then have "uint n = uint v * uint a * uint b"
    by (simp only: uint_nat of_nat_mult)
  with Some show ?thesis
    by (simp add: scaled_term_exact_def scaled_bps_def kernel_consts uint_div)
qed

lemma quality_term_exact:
  assumes "model_bounded p m"
  shows "t_quality_adjusted (pricing_terms (new_pricing p i) m c) =
    scaled_bps (max 0 (sint (business_value_microunits i))) (uint (confidence_bps i))
      (uint (quality_bps m))"
proof (cases "pr_quality_prefix (new_pricing p i)")
  case None
  then show ?thesis
    by (simp add: pricing_terms_def Let_def scaled_reference_eq)
      (simp add: new_pricing_def Let_def request_value_exact uint_up_ucast is_up)
next
  case (Some prefix)
  let ?v = "request_value i" and ?c = "ucast (confidence_bps i) :: u64"
  from Some have vc: "unat ?v * unat ?c < 2 ^ 64" and pre: "prefix = ?v * ?c"
    and mx: "unat (?v * ?c) * unat (ps_max_quality_bps p) < 2 ^ 64"
    by (auto simp: new_pricing_def Let_def checked_mul_def split: if_splits)
  have "unat (quality_bps m) \<le> unat (ps_max_quality_bps p)"
    using assms by (simp add: model_bounded_def word_le_nat_alt)
  then have "unat (?v * ?c) * unat (quality_bps m) < 2 ^ 64"
    using mx by (meson le_less_trans mult_le_mono2)
  then have "unat (prefix * ucast (quality_bps m)) = unat ?v * unat ?c * unat (quality_bps m)"
    using vc pre by (simp add: unat_mul_fit)
  then have "uint (prefix * ucast (quality_bps m)) = uint ?v * uint ?c * uint (quality_bps m)"
    by (simp only: uint_nat of_nat_mult)
  then show ?thesis
    using Some request_value_exact [of i]
    by (simp add: pricing_terms_def Let_def uint_div scaled_bps_def kernel_consts uint_up_ucast is_up)
qed

lemma latency_term_exact:
  assumes "model_bounded p m"
  shows "t_latency_penalty (pricing_terms (new_pricing p i) m c) =
    uint (p95_latency_ms m) * uint (ps_latency_penalty_microunits_per_ms p)"
proof (cases "pr_all_latencies_fit (new_pricing p i)")
  case True
  have "unat (p95_latency_ms m) \<le> unat (ps_max_p95_latency_ms p)"
    using assms by (simp add: model_bounded_def word_le_nat_alt)
  moreover have "unat (ps_max_p95_latency_ms p) * unat (ps_latency_penalty_microunits_per_ms p) < 2 ^ 64"
    using True by (simp add: new_pricing_def Let_def not_le)
  ultimately have "unat (p95_latency_ms m) * unat (ps_latency_penalty_microunits_per_ms p) < 2 ^ 64"
    by (meson le_less_trans mult_le_mono1)
  then have "unat (ucast (p95_latency_ms m) * ps_latency_penalty_microunits_per_ms p)
      = unat (p95_latency_ms m) * unat (ps_latency_penalty_microunits_per_ms p)"
    by (simp add: unat_mul_fit)
  then have "uint (ucast (p95_latency_ms m) * ps_latency_penalty_microunits_per_ms p)
      = uint (p95_latency_ms m) * uint (ps_latency_penalty_microunits_per_ms p)"
    by (simp only: uint_nat of_nat_mult)
  with True show ?thesis
    by (simp add: pricing_terms_def Let_def) (simp add: new_pricing_def Let_def)
next
  case False
  then show ?thesis
    by (simp add: pricing_terms_def Let_def) (simp add: new_pricing_def Let_def)
qed

lemma risk_term_exact:
  "t_risk_penalty (pricing_terms (new_pricing p i) m c) =
    scaled_bps (max 0 (sint (business_value_microunits i))) (uint (risk_bps i))
      (uint (ps_risk_penalty_multiplier_bps p))"
  by (simp add: pricing_terms_def new_pricing_def Let_def scaled_exact_eq request_value_exact
      uint_up_ucast is_up)

lemma sint_clamp: "sint (clamp_i128_to_i64 v) = max i64_min (min i64_max v)"
  unfolding clamp_i128_to_i64_def
  by (rule in_i64_self) (simp add: in_i64_def i64_min_def i64_max_def)

lemma terms_utility:
  "sint (t_utility (pricing_terms pr m c)) =
     max i64_min (min i64_max
       (t_quality_adjusted (pricing_terms pr m c) - t_risk_penalty (pricing_terms pr m c)
        - uint c - t_latency_penalty (pricing_terms pr m c)))"
  by (simp add: pricing_terms_def Let_def sint_clamp)

lemma utility_exact:
  assumes "model_bounded p m"
  shows "sint (t_utility (pricing_terms (new_pricing p i) m (pricing_cost (new_pricing p i) m i)))
    = exact_utility p i m"
proof -
  have "uint (pricing_cost (new_pricing p i) m i) = int (exact_cost m i)"
    by (simp only: uint_nat pricing_cost_exact [OF assms])
  then show ?thesis
    by (simp add: terms_utility quality_term_exact [OF assms] latency_term_exact [OF assms]
        risk_term_exact exact_utility_def raw_utility_def Let_def)
qed

section \<open>No i128 overflow\<close>

lemma bps_product_bound:
  assumes "0 \<le> v" "v < 2 ^ 63"
  shows "0 \<le> v * uint (a :: u16) * uint (b :: u16)" and "v * uint a * uint b < 2 ^ 95"
proof -
  show "0 \<le> v * uint a * uint b" using assms by simp
  have a: "uint a \<le> 65535" using uint_lt2p [of a] by simp
  have b: "uint b \<le> 65535" using uint_lt2p [of b] by simp
  have "v * uint a \<le> (2 ^ 63 - 1) * 65535"
    using assms a by (intro mult_mono) auto
  then have "v * uint a * uint b \<le> ((2 ^ 63 - 1) * 65535) * 65535"
    using assms b by (intro mult_mono [OF _ b]) auto
  then show "v * uint a * uint b < 2 ^ 95" by simp
qed

lemma latency_product_bound:
  "0 \<le> uint (l :: u32) * uint (r :: u64)" "uint l * uint r < 2 ^ 96"
proof -
  show "0 \<le> uint l * uint r" by simp
  have "uint l * uint r \<le> (2 ^ 32 - 1) * (2 ^ 64 - 1)"
    using uint_lt2p [of l] uint_lt2p [of r] by (intro mult_mono) auto
  then show "uint l * uint r < 2 ^ 96" by simp
qed

lemma scaled_le_self: "0 \<le> x \<Longrightarrow> x div 100000000 \<le> x" for x :: int
  using zdiv_mono2 [of x 1 100000000] by simp

lemma scaled_bps_bound:
  assumes "0 \<le> v" "v < 2 ^ 63"
  shows "0 \<le> scaled_bps v (uint (a :: u16)) (uint (b :: u16))" and "scaled_bps v (uint a) (uint b) < 2 ^ 95"
proof -
  note b = bps_product_bound [OF assms, of a b]
  show "0 \<le> scaled_bps v (uint a) (uint b)"
    using b(1) unfolding scaled_bps_def by (rule pos_imp_zdiv_nonneg_iff [THEN iffD2, rotated]) simp
  have "scaled_bps v (uint a) (uint b) \<le> v * uint a * uint b"
    using b(1) scaled_le_self unfolding scaled_bps_def by blast
  with b(2) show "scaled_bps v (uint a) (uint b) < 2 ^ 95" by simp
qed

lemma request_value_bound:
  "0 \<le> max 0 (sint (business_value_microunits i))" "max 0 (sint (business_value_microunits i)) < 2 ^ 63"
  using sint_lt [of "business_value_microunits i"] by simp_all

text \<open>
  The operations the code performs on \<open>i128\<close>, in its order: both products of
  \<open>scaled_term_reference\<close> and the latency product, then the three subtractions.
\<close>

definition i128_steps :: "policy_snapshot \<Rightarrow> kernel_input \<Rightarrow> kernel_model \<Rightarrow> int list" where
  "i128_steps p i m =
     (let v = uint (request_value i);
          c = uint (pricing_cost (new_pricing p i) m i);
          t = pricing_terms (new_pricing p i) m (pricing_cost (new_pricing p i) m i)
      in [v * uint (confidence_bps i), v * uint (confidence_bps i) * uint (quality_bps m),
          v * uint (risk_bps i),
          v * uint (risk_bps i) * uint (ps_risk_penalty_multiplier_bps p),
          uint (p95_latency_ms m) * uint (ps_latency_penalty_microunits_per_ms p),
          t_quality_adjusted t - t_risk_penalty t,
          t_quality_adjusted t - t_risk_penalty t - c,
          t_quality_adjusted t - t_risk_penalty t - c - t_latency_penalty t])"

lemma in_i128_product: "0 \<le> x \<Longrightarrow> x < 2 ^ 96 \<Longrightarrow> in_i128 x"
  by (simp add: in_i128_def)

lemma in_i128_differences:
  assumes "0 \<le> q" "q < 2 ^ 95" "0 \<le> r" "r < 2 ^ 95" "0 \<le> c" "c < 2 ^ 64" "0 \<le> l" "l < 2 ^ 96"
  shows "in_i128 (q - r)" "in_i128 (q - r - c)" "in_i128 (q - r - c - l)"
  using assms by (simp_all add: in_i128_def)

lemma single_product_bound:
  assumes "0 \<le> v" "v < 2 ^ 63"
  shows "0 \<le> v * uint (a :: u16)" "v * uint a < 2 ^ 79"
proof -
  show "0 \<le> v * uint a" using assms by simp
  have "v * uint a \<le> (2 ^ 63 - 1) * 65535"
    using assms uint_lt2p [of a] by (intro mult_mono) auto
  then show "v * uint a < 2 ^ 79" by simp
qed

text \<open>
  C35. No \<open>i128\<close> operation of the utility calculation overflows: for every model of a policy
  whose cached maxima bound its catalog, and every request, each product and each difference
  the code computes in \<open>i128\<close> lies in the range of the type, so it neither panics in a debug
  build nor wraps in a release build.
\<close>

theorem utility_arithmetic_no_overflow:
  assumes "policy_wf p" and "m \<in> set (ps_models p)"
  shows "list_all in_i128 (i128_steps p i m)"
proof -
  have m: "model_bounded p m" using assms by (simp add: policy_wf_def)
  note v = request_value_bound [of i]
  note q = scaled_bps_bound [OF v, of "confidence_bps i" "quality_bps m"]
  note r = scaled_bps_bound [OF v, of "risk_bps i" "ps_risk_penalty_multiplier_bps p"]
  note l = latency_product_bound [of "p95_latency_ms m" "ps_latency_penalty_microunits_per_ms p"]
  have c: "0 \<le> uint (pricing_cost (new_pricing p i) m i)"
    "uint (pricing_cost (new_pricing p i) m i) < 2 ^ 64"
    using uint_lt2p [of "pricing_cost (new_pricing p i) m i"] by simp_all
  note d = in_i128_differences [OF q r c l]
  note prods = single_product_bound [OF v] bps_product_bound [OF v] l
  show ?thesis
    unfolding i128_steps_def Let_def list.pred_inject quality_term_exact [OF m] risk_term_exact
      latency_term_exact [OF m] request_value_exact
    by (intro conjI TrueI d in_i128_product prods order_less_trans [OF prods(2)]
        order_less_trans [OF prods(4)]) simp_all
qed

lemma example_policy_wf: "policy_wf example_policy"
  by (simp add: policy_wf_def model_bounded_def example_policy_def example_model_def)

theorem utility_arithmetic_no_overflow_witness:
  "policy_wf example_policy \<and> example_model \<in> set (ps_models example_policy)
   \<and> list_all in_i128 (i128_steps example_policy example_input example_model)"
proof -
  have "example_model \<in> set (ps_models example_policy)" by (simp add: example_policy_def)
  then show ?thesis
    using example_policy_wf utility_arithmetic_no_overflow [OF example_policy_wf] by blast
qed

text \<open>
  The optimised pricing is exact: for every model of the catalog the cost used for the
  budget gate and the utility used for ranking equal the mathematical cost (rounded up per
  token class, saturating at \<open>u64::MAX\<close>) and the mathematical utility (clamped to \<open>i64\<close>),
  whichever of the 64-bit fast paths and wide reference paths the cached maxima select.
\<close>

lemma pricing_exact:
  assumes "policy_wf p" and "m \<in> set (ps_models p)"
  shows "unat (pricing_cost (new_pricing p i) m i) = exact_cost m i
    \<and> sint (t_utility (pricing_terms (new_pricing p i) m (pricing_cost (new_pricing p i) m i)))
      = exact_utility p i m"
  using assms by (simp add: policy_wf_def pricing_cost_exact utility_exact)

text \<open>What a candidate that reaches costing satisfies, and which gate a failing one reports.\<close>

definition passes_gates :: "kernel_model \<Rightarrow> kernel_input \<Rightarrow> bool" where
  "passes_gates m i \<longleftrightarrow>
     enabled m \<noteq> 0
     \<and> minimum_quality_bps i \<le> quality_bps m
     \<and> (max_p95_latency_ms i = 0 \<or> p95_latency_ms m \<le> max_p95_latency_ms i)
     \<and> (\<forall>n. bit (required_capabilities i) n \<longrightarrow> bit (capabilities m) n)
     \<and> unat (provider_id m) < 64 \<and> bit (allowed_provider_mask i) (unat (provider_id m))
     \<and> (required_region_mask i = 0 \<or> (\<exists>n. bit (required_region_mask i) n \<and> bit (region_mask m) n))
     \<and> risk_bps i \<le> risk_ceiling_bps m"

lemma and_eq_right_iff: "a AND b = b \<longleftrightarrow> (\<forall>n. bit b n \<longrightarrow> bit a n)" for a b :: "'a::len word"
  by (auto simp: bit_eq_iff bit_simps dest: bit_imp_le_length)

lemma and_zero_iff: "a AND b = 0 \<longleftrightarrow> (\<forall>n. \<not> (bit a n \<and> bit b n))" for a b :: "'a::len word"
  by (auto simp: bit_eq_iff bit_simps dest: bit_imp_le_length)

lemma and_exp_zero_iff: "a AND 2 ^ k = 0 \<longleftrightarrow> \<not> bit a k" for a :: "'a::len word"
  by (metis and_exp_eq_0_iff_not_bit)

lemma provider_gate_iff:
  assumes "unat (provider_id m) < 64"
  shows "allowed_provider_mask i \<noteq> ALL_PROVIDERS
      \<and> allowed_provider_mask i AND push_bit (unat (provider_id m)) 1 = 0
    \<longleftrightarrow> \<not> bit (allowed_provider_mask i) (unat (provider_id m))"
  using assms by (auto simp: and_exp_zero_iff ALL_PROVIDERS_def)

lemma first_failed_gate_None: "first_failed_gate m i = None \<longleftrightarrow> passes_gates m i"
proof -
  have 1: "provider_id m > MAX_PROVIDER_ID \<longleftrightarrow> \<not> unat (provider_id m) < 64"
    by (auto simp: MAX_PROVIDER_ID_def word_less_nat_alt)
  have 2: "0 < max_p95_latency_ms i \<longleftrightarrow> max_p95_latency_ms i \<noteq> 0"
    by (simp add: word_neq_0_conv)
  show ?thesis
    unfolding first_failed_gate_def passes_gates_def
    using provider_gate_iff [of m i]
    by (auto simp: 1 2 and_eq_right_iff and_zero_iff not_less not_le split: if_splits)
qed

end
