(* ===== verification/Policy.thy ===== *)
theory Policy
  imports Kernel
begin

text \<open>
  Building and validating policies (\<open>src/src/kernel.rs\<close>: \<open>new_unchecked\<close>, \<open>validate\<close>,
  \<open>try_new\<close>, \<open>try_new_trusted\<close>). The lemmas show that every constructor establishes the
  relation between the catalog and the cached maxima the pricing relies on, that validation
  accepts exactly the documented policies, and that the trusted constructor is canonical: it
  does not depend on the order in which the catalog was listed.
\<close>

section \<open>Construction and validation\<close>

datatype policy_error =
    EmptyCatalog
  | DuplicateModelId u32
  | InvalidProviderId u32 u16
  | NoEnabledModels
  | OutOfRangeBps string u16 u16

datatype trust_policy_error =
    PolicyErr policy_error
  | CatalogTooLarge nat nat
  | ReservedModelId
  | InvalidEnabledFlag u32 u8

text \<open>\<open>iter().max().unwrap_or_default()\<close>.\<close>

fun max_or_default :: "'a::{linorder,zero} list \<Rightarrow> 'a" where
  "max_or_default [] = 0"
| "max_or_default (x # xs) = fold max xs x"

definition new_unchecked ::
  "u64 \<Rightarrow> u64 \<Rightarrow> u16 \<Rightarrow> u16 \<Rightarrow> u16 \<Rightarrow> u64 \<Rightarrow> kernel_model list \<Rightarrow> policy_snapshot" where
  "new_unchecked pe ce risk conf rpm lat models =
     \<lparr> ps_policy_epoch = pe, ps_catalog_epoch = ce, ps_hard_risk_limit_bps = risk,
       ps_minimum_confidence_bps = conf, ps_risk_penalty_multiplier_bps = rpm,
       ps_latency_penalty_microunits_per_ms = lat,
       ps_max_quality_bps = max_or_default (map quality_bps models),
       ps_max_p95_latency_ms = max_or_default (map p95_latency_ms models),
       ps_max_input_cost = max_or_default (map input_cost_microunits_per_million_tokens models),
       ps_max_output_cost = max_or_default (map output_cost_microunits_per_million_tokens models),
       ps_models = models \<rparr>"

text \<open>The loop of \<open>validate\<close>, with its two local variables \<open>seen\<close> and \<open>any_enabled\<close>.\<close>

fun validate_models :: "u32 set \<Rightarrow> bool \<Rightarrow> kernel_model list \<Rightarrow> policy_error + bool" where
  "validate_models seen any_enabled [] = Inr any_enabled"
| "validate_models seen any_enabled (m # ms) =
     (if model_id m \<in> seen then Inl (DuplicateModelId (model_id m))
      else if provider_id m > MAX_PROVIDER_ID
        then Inl (InvalidProviderId (model_id m) (provider_id m))
      else if quality_bps m > MAX_BPS
        then Inl (OutOfRangeBps ''model.quality_bps'' (quality_bps m) MAX_BPS)
      else if risk_ceiling_bps m > MAX_BPS
        then Inl (OutOfRangeBps ''model.risk_ceiling_bps'' (risk_ceiling_bps m) MAX_BPS)
      else validate_models (insert (model_id m) seen) (any_enabled \<or> enabled m \<noteq> 0) ms)"

definition validate_policy :: "policy_snapshot \<Rightarrow> policy_error + unit" where
  "validate_policy p =
     (if ps_hard_risk_limit_bps p > MAX_BPS
        then Inl (OutOfRangeBps ''hard_risk_limit_bps'' (ps_hard_risk_limit_bps p) MAX_BPS)
      else if ps_minimum_confidence_bps p > MAX_BPS
        then Inl (OutOfRangeBps ''minimum_confidence_bps'' (ps_minimum_confidence_bps p) MAX_BPS)
      else if ps_risk_penalty_multiplier_bps p > MAX_RISK_PENALTY_MULTIPLIER_BPS
        then Inl (OutOfRangeBps ''risk_penalty_multiplier_bps''
                    (ps_risk_penalty_multiplier_bps p) MAX_RISK_PENALTY_MULTIPLIER_BPS)
      else if ps_models p = [] then Inl EmptyCatalog
      else and_then (validate_models {} False (ps_models p))
             (\<lambda>any_enabled. if any_enabled then Inr () else Inl NoEnabledModels))"

definition try_new ::
  "u64 \<Rightarrow> u64 \<Rightarrow> u16 \<Rightarrow> u16 \<Rightarrow> u16 \<Rightarrow> u64 \<Rightarrow> kernel_model list \<Rightarrow> policy_error + policy_snapshot" where
  "try_new pe ce risk conf rpm lat models =
     (let snapshot = new_unchecked pe ce risk conf rpm lat models
      in and_then (validate_policy snapshot) (\<lambda>_. Inr snapshot))"

definition try_new_trusted ::
  "u64 \<Rightarrow> u64 \<Rightarrow> u16 \<Rightarrow> u16 \<Rightarrow> u16 \<Rightarrow> u64 \<Rightarrow> kernel_model list
    \<Rightarrow> trust_policy_error + policy_snapshot" where
  "try_new_trusted pe ce risk conf rpm lat models =
     (if length models > MAX_CATALOG_MODELS
        then Inl (CatalogTooLarge (length models) MAX_CATALOG_MODELS)
      else if list_ex (\<lambda>m. model_id m = 0) models then Inl ReservedModelId
      else case List.find (\<lambda>m. enabled m > 1) models of
          Some m \<Rightarrow> Inl (InvalidEnabledFlag (model_id m) (enabled m))
        | None \<Rightarrow>
            let snapshot = new_unchecked pe ce risk conf rpm lat (sort_key model_id models)
            in and_then (map_err PolicyErr (validate_policy snapshot)) (\<lambda>_. Inr snapshot))"

section \<open>The cached maxima\<close>

lemma fold_max_ge: "x \<le> fold max xs x" "y \<in> set xs \<Longrightarrow> y \<le> fold max xs x"
  for x :: "'a::linorder"
proof (induction xs arbitrary: x)
  case (Cons z zs)
  {
    case 1
    show ?case using Cons.IH(1) [of "max z x"] by simp
  next
    case 2
    then show ?case using Cons.IH [of "max z x"] by auto
  }
qed simp_all

lemma max_or_default_ge: "x \<in> set xs \<Longrightarrow> x \<le> max_or_default xs"
  by (cases xs) (auto simp: fold_max_ge)

lemma new_unchecked_wf: "policy_wf (new_unchecked pe ce risk conf rpm lat models)"
  by (simp add: policy_wf_def model_bounded_def new_unchecked_def max_or_default_ge)

lemma new_unchecked_models [simp]: "ps_models (new_unchecked pe ce risk conf rpm lat ms) = ms"
  by (simp add: new_unchecked_def)

section \<open>What validation accepts\<close>

definition model_valid :: "kernel_model \<Rightarrow> bool" where
  "model_valid m \<longleftrightarrow>
     unat (provider_id m) \<le> 63 \<and> unat (quality_bps m) \<le> 10000 \<and> unat (risk_ceiling_bps m) \<le> 10000"

definition policy_valid :: "policy_snapshot \<Rightarrow> bool" where
  "policy_valid p \<longleftrightarrow>
     unat (ps_hard_risk_limit_bps p) \<le> 10000
     \<and> unat (ps_minimum_confidence_bps p) \<le> 10000
     \<and> unat (ps_risk_penalty_multiplier_bps p) \<le> 50000
     \<and> distinct (map model_id (ps_models p))
     \<and> (\<forall>m \<in> set (ps_models p). model_valid m)
     \<and> (\<exists>m \<in> set (ps_models p). enabled m \<noteq> 0)"

lemma model_valid_iff:
  "model_valid m \<longleftrightarrow> \<not> provider_id m > MAX_PROVIDER_ID \<and> \<not> quality_bps m > MAX_BPS
     \<and> \<not> risk_ceiling_bps m > MAX_BPS"
  by (simp add: model_valid_def MAX_PROVIDER_ID_def MAX_BPS_def word_less_nat_alt not_less)

lemma validate_models_Inr:
  "validate_models seen b ms = Inr r \<longleftrightarrow>
     (distinct (map model_id ms) \<and> model_id ` set ms \<inter> seen = {}
      \<and> (\<forall>m \<in> set ms. model_valid m) \<and> r = (b \<or> (\<exists>m \<in> set ms. enabled m \<noteq> 0)))"
proof (induction ms arbitrary: seen b)
  case Nil
  then show ?case by auto
next
  case (Cons m ms)
  show ?case
  proof (cases "model_id m \<notin> seen \<and> model_valid m")
    case True
    then have "validate_models seen b (m # ms) =
        validate_models (insert (model_id m) seen) (b \<or> enabled m \<noteq> 0) ms"
      by (simp add: model_valid_iff)
    with True show ?thesis by (auto simp: Cons.IH)
  next
    case False
    then have "\<exists>e. validate_models seen b (m # ms) = Inl e"
      by (auto simp: model_valid_iff)
    with False show ?thesis by auto
  qed
qed

lemma validate_policy_Inr: "validate_policy p = Inr () \<longleftrightarrow> policy_valid p"
proof (cases "ps_models p = []")
  case True
  then show ?thesis by (simp add: validate_policy_def policy_valid_def)
next
  case False
  then show ?thesis
    by (auto simp: validate_policy_def policy_valid_def validate_models_Inr MAX_BPS_def
        MAX_RISK_PENALTY_MULTIPLIER_BPS_def word_less_nat_alt not_less)
qed

lemma policy_valid_new_unchecked:
  "policy_valid (new_unchecked pe ce risk conf rpm lat ms) \<longleftrightarrow>
     unat risk \<le> 10000 \<and> unat conf \<le> 10000 \<and> unat rpm \<le> 50000
     \<and> distinct (map model_id ms) \<and> (\<forall>m \<in> set ms. model_valid m) \<and> (\<exists>m \<in> set ms. enabled m \<noteq> 0)"
  by (simp add: policy_valid_def new_unchecked_def)

lemma try_new_Inr:
  "try_new pe ce risk conf rpm lat ms = Inr p \<longleftrightarrow>
     p = new_unchecked pe ce risk conf rpm lat ms \<and> policy_valid p"
  by (auto simp: try_new_def Let_def validate_policy_Inr)

lemma find_enabled_None: "List.find (\<lambda>m. enabled m > 1) ms = None \<longleftrightarrow> (\<forall>m \<in> set ms. enabled m \<le> 1)"
  by (auto simp: find_None_iff not_less)

lemma try_new_trusted_Inr:
  "try_new_trusted pe ce risk conf rpm lat ms = Inr p \<longleftrightarrow>
     length ms \<le> 65535 \<and> (\<forall>m \<in> set ms. model_id m \<noteq> 0 \<and> enabled m \<le> 1)
     \<and> p = new_unchecked pe ce risk conf rpm lat (sort_key model_id ms) \<and> policy_valid p"
proof (cases "List.find (\<lambda>m. enabled m > 1) ms")
  case None
  then have "\<forall>m \<in> set ms. enabled m \<le> 1" by (simp add: find_enabled_None)
  with None show ?thesis
    by (auto simp: try_new_trusted_def Let_def validate_policy_Inr list_ex_iff
        MAX_CATALOG_MODELS_def)
next
  case (Some m)
  then have "\<not> (\<forall>m \<in> set ms. enabled m \<le> 1)"
    using find_enabled_None [of ms] by simp
  with Some show ?thesis by (auto simp: try_new_trusted_def)
qed

text \<open>
  The trusted constructor accepts exactly the documented policies: a catalog of at most
  65,535 models with distinct non-zero identifiers, canonical enabled flags, provider
  identifiers up to 63, quality and risk ceilings up to 10,000 basis points, at least one model
  enabled, and policy limits in range. Every other argument is refused with an error.
\<close>

lemma trusted_accepts_iff:
  "(\<exists>p. try_new_trusted pe ce risk conf rpm lat ms = Inr p) \<longleftrightarrow>
     length ms \<le> 65535
     \<and> distinct (map model_id ms)
     \<and> (\<forall>m \<in> set ms. model_id m \<noteq> 0 \<and> enabled m \<le> 1 \<and> model_valid m)
     \<and> (\<exists>m \<in> set ms. enabled m = 1)
     \<and> unat risk \<le> 10000 \<and> unat conf \<le> 10000 \<and> unat rpm \<le> 50000"
proof -
  have "distinct (map model_id (sort_key model_id ms)) \<longleftrightarrow> distinct (map model_id ms)"
    by (simp add: distinct_map)
  moreover have "enabled m = 1 \<longleftrightarrow> enabled m \<noteq> 0" if "enabled m \<le> 1" for m
    using that by (auto simp: le_less word_less_1)
  ultimately show ?thesis
    by (auto simp: try_new_trusted_Inr policy_valid_new_unchecked)
qed

text \<open>
  The trusted constructor is canonical: listing the same catalog in another order gives the
  same snapshot, whose models are sorted by strictly increasing identifier and are exactly the
  models given.
\<close>

lemma try_new_trusted_canonical:
  assumes "mset ms = mset ms'" and "try_new_trusted pe ce risk conf rpm lat ms = Inr p"
  shows "try_new_trusted pe ce risk conf rpm lat ms' = Inr p
    \<and> mset (ps_models p) = mset ms \<and> sorted_wrt (<) (map model_id (ps_models p)) \<and> policy_wf p"
proof -
  from assms(2) have p: "p = new_unchecked pe ce risk conf rpm lat (sort_key model_id ms)"
    and d: "distinct (map model_id (sort_key model_id ms))"
    by (auto simp: try_new_trusted_Inr policy_valid_def)
  then have inj: "inj_on model_id (set ms)" by (simp add: distinct_map)
  have eq: "sort_key model_id ms' = sort_key model_id ms"
    using sort_key_eq_sort_key [OF assms(1) inj] by simp
  have "length ms' = length ms" and "set ms' = set ms"
    using assms(1) by (metis size_mset, metis set_mset_mset)
  then have "try_new_trusted pe ce risk conf rpm lat ms' = Inr p"
    using assms(2) by (auto simp: try_new_trusted_Inr eq)
  moreover have "sorted_wrt (<) (map model_id (ps_models p))"
    using d by (simp add: p strict_sorted_iff)
  ultimately show ?thesis by (simp add: p new_unchecked_wf)
qed

text \<open>A two-model catalog, listed in descending and in ascending order.\<close>

definition example_model_2 :: kernel_model where
  "example_model_2 = example_model\<lparr> model_id := 2, provider_id := 1, quality_bps := 7000,
     input_cost_microunits_per_million_tokens := 25,
     output_cost_microunits_per_million_tokens := 125 \<rparr>"

lemmas example_defs = example_model_def example_model_2_def example_input_def example_policy_def

lemma example_trusted:
  "try_new_trusted 1 1 9600 5500 3500 2 [example_model_2, example_model]
     = Inr (new_unchecked 1 1 9600 5500 3500 2 [example_model, example_model_2])"
  by (auto simp: try_new_trusted_def Let_def validate_policy_def new_unchecked_def example_defs
      MAX_CATALOG_MODELS_def MAX_BPS_def MAX_PROVIDER_ID_def MAX_RISK_PENALTY_MULTIPLIER_BPS_def
      word_le_nat_alt)

end
