(* ===== verification/Prescribe.thy ===== *)
theory Prescribe
  imports Policy "HOL-Library.Product_Lexorder"
begin

text \<open>
  The decision half of \<open>src/src/kernel.rs\<close>: ranking, the evaluation loop of
  \<open>prescribe_inner\<close>, rejection reasons, \<open>explain\<close>, \<open>utility_for_model\<close> and the batch and
  checked entry points.

  The locale \<open>key_ranking\<close> is the contract the loop needs of the tie-break: the comparison is the
  strict order of a key. It proves once that the one-pass scan of the loop keeps the first two
  elements of the stable sort by that key; the interpretation is \<open>candidate_better\<close> with the
  documented key: utility, then lower cost, then higher quality, then lower identifier.
\<close>

section \<open>Decisions\<close>

datatype kernel_action = ExecuteRequested | Substitute | Reject

datatype kernel_reason =
    RequestedModelMaximizesUtility
  | AlternativeMaximizesUtility
  | RiskHardLimit
  | ConfidenceHardLimit
  | NoEnabledModel
  | QualityConstraint
  | LatencyConstraint
  | CapabilityConstraint
  | ProviderConstraint
  | RegionConstraint
  | BudgetConstraint
  | NonPositiveUtilityReason
  | RiskCeilingConstraint

fun action_code :: "kernel_action \<Rightarrow> u8" where
  "action_code ExecuteRequested = 1"
| "action_code Substitute = 2"
| "action_code Reject = 3"

fun action_display :: "kernel_action \<Rightarrow> string" where
  "action_display ExecuteRequested = ''execute_requested''"
| "action_display Substitute = ''substitute''"
| "action_display Reject = ''reject''"

fun reason_code :: "kernel_reason \<Rightarrow> u16" where
  "reason_code RequestedModelMaximizesUtility = 1"
| "reason_code AlternativeMaximizesUtility = 2"
| "reason_code RiskHardLimit = 100"
| "reason_code ConfidenceHardLimit = 101"
| "reason_code NoEnabledModel = 102"
| "reason_code QualityConstraint = 103"
| "reason_code LatencyConstraint = 104"
| "reason_code CapabilityConstraint = 105"
| "reason_code ProviderConstraint = 106"
| "reason_code RegionConstraint = 107"
| "reason_code BudgetConstraint = 108"
| "reason_code NonPositiveUtilityReason = 109"
| "reason_code RiskCeilingConstraint = 110"

fun reason_display :: "kernel_reason \<Rightarrow> string" where
  "reason_display RequestedModelMaximizesUtility = ''requested_model_maximizes_utility''"
| "reason_display AlternativeMaximizesUtility = ''alternative_maximizes_utility''"
| "reason_display RiskHardLimit = ''risk_hard_limit''"
| "reason_display ConfidenceHardLimit = ''confidence_hard_limit''"
| "reason_display NoEnabledModel = ''no_enabled_model''"
| "reason_display QualityConstraint = ''quality_constraint''"
| "reason_display LatencyConstraint = ''latency_constraint''"
| "reason_display CapabilityConstraint = ''capability_constraint''"
| "reason_display ProviderConstraint = ''provider_constraint''"
| "reason_display RegionConstraint = ''region_constraint''"
| "reason_display BudgetConstraint = ''budget_constraint''"
| "reason_display NonPositiveUtilityReason = ''non_positive_utility''"
| "reason_display RiskCeilingConstraint = ''risk_ceiling_constraint''"

record kernel_decision =
  d_request_sequence :: u64
  d_action :: kernel_action
  d_reason :: kernel_reason
  d_selected_model_id :: u32
  d_selected_model_index :: u16
  d_estimated_cost_microunits :: u64
  d_expected_utility_microunits :: i64
  d_counterfactual_model_id :: u32
  d_counterfactual_utility_microunits :: i64
  d_evaluated_models :: u16
  d_eligible_models :: u16
  d_policy_epoch :: u64
  d_catalog_epoch :: u64

definition is_executable :: "kernel_decision \<Rightarrow> bool" where
  "is_executable d \<longleftrightarrow> d_action d = ExecuteRequested \<or> d_action d = Substitute"

definition is_requested_execution :: "kernel_decision \<Rightarrow> bool" where
  "is_requested_execution d \<longleftrightarrow> d_action d = ExecuteRequested"

definition is_substitution :: "kernel_decision \<Rightarrow> bool" where
  "is_substitution d \<longleftrightarrow> d_action d = Substitute"

definition is_rejected :: "kernel_decision \<Rightarrow> bool" where
  "is_rejected d \<longleftrightarrow> d_action d = Reject"

record candidate =
  c_model_id :: u32
  c_model_index :: u16
  c_quality_bps :: u16
  c_cost :: u64
  c_utility :: i64

record rejection_histogram =
  h_disabled :: u16
  h_quality :: u16
  h_risk_ceiling :: u16
  h_latency :: u16
  h_capability :: u16
  h_provider :: u16
  h_region :: u16
  h_budget :: u16
  h_utility :: u16

definition no_rejections :: rejection_histogram where
  "no_rejections = \<lparr> h_disabled = 0, h_quality = 0, h_risk_ceiling = 0, h_latency = 0,
     h_capability = 0, h_provider = 0, h_region = 0, h_budget = 0, h_utility = 0 \<rparr>"

definition bump :: "rejection_histogram \<Rightarrow> gate_kind \<Rightarrow> rejection_histogram" where
  "bump h kind =
     (case kind of
        Disabled \<Rightarrow> h\<lparr> h_disabled := saturating_add (h_disabled h) 1 \<rparr>
      | Quality \<Rightarrow> h\<lparr> h_quality := saturating_add (h_quality h) 1 \<rparr>
      | Latency \<Rightarrow> h\<lparr> h_latency := saturating_add (h_latency h) 1 \<rparr>
      | Capability \<Rightarrow> h\<lparr> h_capability := saturating_add (h_capability h) 1 \<rparr>
      | ProviderUnrepresentable \<Rightarrow> h\<lparr> h_provider := saturating_add (h_provider h) 1 \<rparr>
      | ProviderNotAllowed \<Rightarrow> h\<lparr> h_provider := saturating_add (h_provider h) 1 \<rparr>
      | Region \<Rightarrow> h\<lparr> h_region := saturating_add (h_region h) 1 \<rparr>
      | RiskCeiling \<Rightarrow> h\<lparr> h_risk_ceiling := saturating_add (h_risk_ceiling h) 1 \<rparr>)"

record decision_trace =
  tr_rejections :: rejection_histogram
  tr_evaluated_models :: u16
  tr_eligible_models :: u16

definition candidate_better :: "candidate \<Rightarrow> candidate \<Rightarrow> bool" where
  "candidate_better l r \<longleftrightarrow>
     sint (c_utility l) > sint (c_utility r)
     \<or> (c_utility l = c_utility r \<and> c_cost l < c_cost r)
     \<or> (c_utility l = c_utility r \<and> c_cost l = c_cost r \<and> c_quality_bps l > c_quality_bps r)
     \<or> (c_utility l = c_utility r \<and> c_cost l = c_cost r \<and> c_quality_bps l = c_quality_bps r
        \<and> c_model_id l < c_model_id r)"

text \<open>
  \<open>Iterator::max_by_key\<close>: the last element among those with the greatest key.
\<close>

fun max_by_key :: "('a \<Rightarrow> 'k::linorder) \<Rightarrow> 'a list \<Rightarrow> 'a option" where
  "max_by_key f [] = None"
| "max_by_key f (x # xs) = Some (fold (\<lambda>y best. if f best \<le> f y then y else best) xs x)"

definition rejection_table :: "rejection_histogram \<Rightarrow> (u16 \<times> kernel_reason) list" where
  "rejection_table h =
     [(h_capability h, CapabilityConstraint),
      (h_region h, RegionConstraint),
      (h_provider h, ProviderConstraint),
      (h_quality h, QualityConstraint),
      (h_risk_ceiling h, RiskCeilingConstraint),
      (h_latency h, LatencyConstraint),
      (h_budget h, BudgetConstraint),
      (h_utility h, NonPositiveUtilityReason),
      (h_disabled h, NoEnabledModel)]"

definition dominant_rejection_reason :: "rejection_histogram \<Rightarrow> kernel_reason" where
  "dominant_rejection_reason h =
     (case max_by_key fst (rejection_table h) of
        None \<Rightarrow> NoEnabledModel
      | Some (n, reason) \<Rightarrow> if n > 0 then reason else NoEnabledModel)"

definition reject ::
  "policy_snapshot \<Rightarrow> kernel_input \<Rightarrow> kernel_reason \<Rightarrow> u16 \<Rightarrow> u16
    \<Rightarrow> kernel_decision \<times> rejection_histogram" where
  "reject p i reason evaluated eligible =
     (\<lparr> d_request_sequence = request_sequence i, d_action = Reject, d_reason = reason,
        d_selected_model_id = 0, d_selected_model_index = - 1,
        d_estimated_cost_microunits = 0, d_expected_utility_microunits = 0,
        d_counterfactual_model_id = 0, d_counterfactual_utility_microunits = 0,
        d_evaluated_models = evaluated, d_eligible_models = eligible,
        d_policy_epoch = ps_policy_epoch p, d_catalog_epoch = ps_catalog_epoch p \<rparr>,
      no_rejections)"

section \<open>The evaluation loop\<close>

text \<open>The local variables of the loop.\<close>

record scan =
  s_best :: "candidate option"
  s_second :: "candidate option"
  s_eligible_models :: u16
  s_rejected :: rejection_histogram

definition scan_start :: scan where
  "scan_start = \<lparr> s_best = None, s_second = None, s_eligible_models = 0, s_rejected = no_rejections \<rparr>"

text \<open>The \<open>match best\<close> of the loop body, on the pair of the best candidate and the runner-up.\<close>

fun rank_step :: "('a \<Rightarrow> 'a \<Rightarrow> bool) \<Rightarrow> 'a \<Rightarrow> 'a option \<times> 'a option \<Rightarrow> 'a option \<times> 'a option" where
  "rank_step better c (None, second) = (Some c, second)"
| "rank_step better c (Some current, second) =
     (if better c current then (Some c, Some current)
      else (Some current,
            case second of None \<Rightarrow> Some c | Some s \<Rightarrow> if better c s then Some c else Some s))"

definition scan_model ::
  "kernel_input \<Rightarrow> pricing \<Rightarrow> nat \<Rightarrow> kernel_model \<Rightarrow> scan \<Rightarrow> scan" where
  "scan_model i pr index m s =
     (case first_failed_gate m i of
        Some kind \<Rightarrow> s\<lparr> s_rejected := bump (s_rejected s) kind \<rparr>
      | None \<Rightarrow>
          let cost = pricing_cost pr m i in
          if cost > budget_limit_microunits i
          then s\<lparr> s_rejected := (s_rejected s)\<lparr> h_budget := h_budget (s_rejected s) + 1 \<rparr> \<rparr>
          else
            let utility = t_utility (pricing_terms pr m cost) in
            if sint utility \<le> 0
            then s\<lparr> s_rejected := (s_rejected s)\<lparr> h_utility := h_utility (s_rejected s) + 1 \<rparr> \<rparr>
            else
              let c = \<lparr> c_model_id = model_id m, c_model_index = u16_of_usize index,
                        c_quality_bps = quality_bps m, c_cost = cost, c_utility = utility \<rparr>;
                  (best, second) = rank_step candidate_better c (s_best s, s_second s)
              in s\<lparr> s_best := best, s_second := second,
                    s_eligible_models := saturating_add (s_eligible_models s) 1 \<rparr>)"

fun scan_models ::
  "kernel_input \<Rightarrow> pricing \<Rightarrow> nat \<Rightarrow> kernel_model list \<Rightarrow> scan \<Rightarrow> scan" where
  "scan_models i pr index [] s = s"
| "scan_models i pr index (m # ms) s = scan_models i pr (Suc index) ms (scan_model i pr index m s)"

definition prescribe_inner ::
  "policy_snapshot \<Rightarrow> kernel_input \<Rightarrow> kernel_decision \<times> rejection_histogram" where
  "prescribe_inner p i =
     (if risk_bps i \<ge> ps_hard_risk_limit_bps p then reject p i RiskHardLimit 0 0
      else if confidence_bps i < ps_minimum_confidence_bps p then reject p i ConfidenceHardLimit 0 0
      else
        let s = scan_models i (new_pricing p i) 0 (ps_models p) scan_start;
            evaluated = u16_of_usize (length (ps_models p))
        in case s_best s of
             None \<Rightarrow>
               (fst (reject p i (dominant_rejection_reason (s_rejected s)) evaluated
                       (s_eligible_models s)), s_rejected s)
           | Some best \<Rightarrow>
               let action = (if c_model_id best = requested_model_id i
                             then ExecuteRequested else Substitute)
               in (\<lparr> d_request_sequence = request_sequence i, d_action = action,
                     d_reason = (if action = ExecuteRequested
                                 then RequestedModelMaximizesUtility
                                 else AlternativeMaximizesUtility),
                     d_selected_model_id = c_model_id best,
                     d_selected_model_index = c_model_index best,
                     d_estimated_cost_microunits = c_cost best,
                     d_expected_utility_microunits = c_utility best,
                     d_counterfactual_model_id =
                       (case s_second s of None \<Rightarrow> 0 | Some c \<Rightarrow> c_model_id c),
                     d_counterfactual_utility_microunits =
                       (case s_second s of None \<Rightarrow> 0 | Some c \<Rightarrow> c_utility c),
                     d_evaluated_models = evaluated,
                     d_eligible_models = s_eligible_models s,
                     d_policy_epoch = ps_policy_epoch p,
                     d_catalog_epoch = ps_catalog_epoch p \<rparr>, s_rejected s))"

definition prescribe :: "policy_snapshot \<Rightarrow> kernel_input \<Rightarrow> kernel_decision" where
  "prescribe p i = fst (prescribe_inner p i)"

definition prescribe_with_trace ::
  "policy_snapshot \<Rightarrow> kernel_input \<Rightarrow> kernel_decision \<times> decision_trace" where
  "prescribe_with_trace p i =
     (let (decision, rejections) = prescribe_inner p i
      in (decision, \<lparr> tr_rejections = rejections,
                      tr_evaluated_models = d_evaluated_models decision,
                      tr_eligible_models = d_eligible_models decision \<rparr>))"

definition prescribe_checked ::
  "policy_snapshot \<Rightarrow> kernel_input \<Rightarrow> input_error + kernel_decision" where
  "prescribe_checked p i = and_then (validate_input i) (\<lambda>_. Inr (prescribe p i))"

definition prescribe_with_trace_checked ::
  "policy_snapshot \<Rightarrow> kernel_input \<Rightarrow> input_error + kernel_decision \<times> decision_trace" where
  "prescribe_with_trace_checked p i =
     and_then (validate_input i) (\<lambda>_. Inr (prescribe_with_trace p i))"

definition prescribe_batch :: "policy_snapshot \<Rightarrow> kernel_input list \<Rightarrow> kernel_decision list" where
  "prescribe_batch p inputs = map (prescribe p) inputs"

fun validate_inputs :: "kernel_input list \<Rightarrow> input_error + unit" where
  "validate_inputs [] = Inr ()"
| "validate_inputs (i # is) = and_then (validate_input i) (\<lambda>_. validate_inputs is)"

definition prescribe_batch_checked ::
  "policy_snapshot \<Rightarrow> kernel_input list \<Rightarrow> input_error + kernel_decision list" where
  "prescribe_batch_checked p inputs =
     and_then (validate_inputs inputs) (\<lambda>_. Inr (prescribe_batch p inputs))"

section \<open>Explanations\<close>

datatype candidate_verdict =
    Rejected gate_kind u64 u64
  | OverBudget u64 u64
  | NonPositiveUtility utility_terms
  | Eligible utility_terms

record candidate_explanation =
  e_model_id :: u32
  e_model_index :: u16
  e_verdict :: candidate_verdict

record explanation =
  x_decision :: kernel_decision
  x_candidates :: "candidate_explanation list"

text \<open>The \<open>verdict\<close> of the loop body of \<open>explain\<close>.\<close>

definition explain_verdict :: "pricing \<Rightarrow> kernel_input \<Rightarrow> kernel_model \<Rightarrow> candidate_verdict" where
  "explain_verdict pr i m =
     (case first_failed_gate m i of
        Some gate \<Rightarrow> (let (measured, limit) = gate_detail m i gate in Rejected gate measured limit)
      | None \<Rightarrow>
          let cost = pricing_cost pr m i in
          if cost > budget_limit_microunits i then OverBudget cost (budget_limit_microunits i)
          else
            let terms = pricing_terms pr m cost in
            if sint (t_utility terms) \<le> 0 then NonPositiveUtility terms else Eligible terms)"

fun explain_candidates ::
  "pricing \<Rightarrow> kernel_input \<Rightarrow> nat \<Rightarrow> kernel_model list \<Rightarrow> candidate_explanation list" where
  "explain_candidates pr i index [] = []"
| "explain_candidates pr i index (m # ms) =
     \<lparr> e_model_id = model_id m, e_model_index = u16_of_usize index,
       e_verdict = explain_verdict pr i m \<rparr> # explain_candidates pr i (Suc index) ms"

definition explain :: "policy_snapshot \<Rightarrow> kernel_input \<Rightarrow> explanation" where
  "explain p i =
     (let decision = fst (prescribe_inner p i)
      in if d_reason decision = RiskHardLimit \<or> d_reason decision = ConfidenceHardLimit
         then \<lparr> x_decision = decision, x_candidates = [] \<rparr>
         else \<lparr> x_decision = decision,
                x_candidates = explain_candidates (new_pricing p i) i 0 (ps_models p) \<rparr>)"

definition explanation_eligible :: "explanation \<Rightarrow> candidate_explanation list" where
  "explanation_eligible x =
     filter (\<lambda>c. case e_verdict c of Eligible _ \<Rightarrow> True | _ \<Rightarrow> False) (x_candidates x)"

text \<open>\<open>utility_for_model\<close> repeats the pricing arithmetic in its own body.\<close>

definition utility_for_model :: "policy_snapshot \<Rightarrow> kernel_input \<Rightarrow> u32 \<Rightarrow> i64 option" where
  "utility_for_model p i mid =
     (if risk_bps i \<ge> ps_hard_risk_limit_bps p then None
      else if confidence_bps i < ps_minimum_confidence_bps p then None
      else case List.find (\<lambda>m. model_id m = mid) (ps_models p) of
          None \<Rightarrow> None
        | Some m \<Rightarrow>
            if first_failed_gate m i \<noteq> None then None
            else
              let cost = (if all_costs_fit_u64 p (input_tokens i) (output_tokens i)
                          then model_cost_fast m (input_tokens i) (output_tokens i)
                          else model_cost_reference m (input_tokens i) (output_tokens i))
              in if cost > budget_limit_microunits i then None
                 else
                   let value = request_value i;
                       conf = ucast (confidence_bps i) :: u64;
                       quality_prefix =
                         (case checked_mul value conf of
                            None \<Rightarrow> None
                          | Some prefix \<Rightarrow>
                              if checked_mul prefix (ucast (ps_max_quality_bps p)) \<noteq> None
                              then Some prefix else None);
                       risk_penalty = scaled_term_exact value (ucast (risk_bps i))
                                        (ucast (ps_risk_penalty_multiplier_bps p));
                       all_latencies_fit =
                         (checked_mul (ucast (ps_max_p95_latency_ms p) :: u64)
                            (ps_latency_penalty_microunits_per_ms p) \<noteq> None);
                       quality_adjusted =
                         (case quality_prefix of
                            None \<Rightarrow> scaled_term_reference value conf (ucast (quality_bps m))
                          | Some prefix \<Rightarrow>
                              uint (prefix * ucast (quality_bps m) div SCALED_BASIS_POINTS));
                       latency_penalty =
                         (if all_latencies_fit
                          then uint (ucast (p95_latency_ms m) * ps_latency_penalty_microunits_per_ms p)
                          else uint (p95_latency_ms m)
                               * uint (ps_latency_penalty_microunits_per_ms p));
                       utility = clamp_i128_to_i64
                         (quality_adjusted - risk_penalty - uint cost - latency_penalty)
                   in if sint utility \<le> 0 then None else Some utility)"


section \<open>One-pass ranking is sorting\<close>

fun first_two :: "'a list \<Rightarrow> 'a option \<times> 'a option" where
  "first_two [] = (None, None)"
| "first_two [x] = (Some x, None)"
| "first_two (x # y # xs) = (Some x, Some y)"

lemma sort_key_snoc:
  "sort_key f (xs @ [c]) =
     filter (\<lambda>y. f y \<le> f c) (sort_key f xs) @ c # filter (\<lambda>y. f c < f y) (sort_key f xs)"
  (is "_ = ?ys")
proof (rule properties_for_sort_key)
  show "mset ?ys = mset (xs @ [c])"
    by (simp add: not_le [symmetric] multiset_partition [symmetric])
  show "filter (\<lambda>x. f k = f x) ?ys = filter (\<lambda>x. f k = f x) (xs @ [c])" if "k \<in> set ?ys" for k
  proof -
    have stable: "filter (\<lambda>x. f k = f x) (sort_key f xs) = filter (\<lambda>x. f k = f x) xs"
      using sort_key_stable [of f "f k" xs] by (simp add: eq_commute)
    consider "f k < f c" | "f k = f c" | "f c < f k" by (meson linorder_less_linear)
    then show ?thesis
    proof cases
      case 1
      then have "filter (\<lambda>x. f k = f x) (filter (\<lambda>y. f y \<le> f c) (sort_key f xs))
          = filter (\<lambda>x. f k = f x) (sort_key f xs)"
        by (auto simp: intro!: filter_cong)
      with 1 stable show ?thesis by (auto simp: filter_empty_conv)
    next
      case 2
      then have "filter (\<lambda>x. f k = f x) (filter (\<lambda>y. f y \<le> f c) (sort_key f xs))
          = filter (\<lambda>x. f k = f x) (sort_key f xs)"
        by (auto simp: intro!: filter_cong)
      with 2 stable show ?thesis by (auto simp: filter_empty_conv)
    next
      case 3
      then have "filter (\<lambda>x. f k = f x) (filter (\<lambda>y. f c < f y) (sort_key f xs))
          = filter (\<lambda>x. f k = f x) (sort_key f xs)"
        by (auto simp: intro!: filter_cong)
      with 3 stable show ?thesis by (auto simp: filter_empty_conv)
    qed
  qed
  show "sorted (map f ?ys)"
    by (auto simp: sorted_append sorted_filter intro: less_imp_le order_trans)
qed

lemma sorted_split_filter:
  assumes "sorted (map f xs)"
  shows "filter (\<lambda>y. f y \<le> k) xs = takeWhile (\<lambda>y. f y \<le> k) xs"
    and "filter (\<lambda>y. k < f y) xs = dropWhile (\<lambda>y. f y \<le> k) xs"
proof -
  have "takeWhile (\<lambda>y. f y \<le> k) xs = [] \<and> dropWhile (\<lambda>y. f y \<le> k) xs = xs"
    if "k < f x" "\<forall>y \<in> set xs. f x \<le> f y" for x xs
    using that by (cases xs) (auto simp: not_le intro: less_le_trans)
  with assms show "filter (\<lambda>y. f y \<le> k) xs = takeWhile (\<lambda>y. f y \<le> k) xs"
    and "filter (\<lambda>y. k < f y) xs = dropWhile (\<lambda>y. f y \<le> k) xs"
    by (induction xs) (auto simp: not_le)
qed

locale key_ranking =
  fixes better :: "'a \<Rightarrow> 'a \<Rightarrow> bool" and key :: "'a \<Rightarrow> 'k::linorder"
  assumes better_iff: "better x y \<longleftrightarrow> key x < key y"
begin

lemma rank_step_insert:
  assumes "sorted (map key ys)"
  shows "rank_step better c (first_two ys) =
    first_two (takeWhile (\<lambda>y. key y \<le> key c) ys @ c # dropWhile (\<lambda>y. key y \<le> key c) ys)"
  using assms by (cases ys rule: first_two.cases) (auto simp: better_iff not_less not_le split: list.splits)

lemma scan_is_sort: "fold (rank_step better) xs (None, None) = first_two (sort_key key xs)"
proof (induction xs rule: rev_induct)
  case (snoc c xs)
  have s: "sorted (map key (sort_key key xs))" by simp
  show ?case
    using rank_step_insert [OF s, of c]
    by (simp add: snoc sort_key_snoc sorted_split_filter [OF s] del: sort_key_simps)
qed simp

end

text \<open>The documented preference: utility, lower cost, higher quality, lower identifier.\<close>

definition candidate_key :: "candidate \<Rightarrow> int \<times> int \<times> int \<times> int" where
  "candidate_key c =
     (- sint (c_utility c), uint (c_cost c), - uint (c_quality_bps c), uint (c_model_id c))"

interpretation kernel_rank: key_ranking candidate_better candidate_key
  by unfold_locales
    (auto simp: candidate_better_def candidate_key_def less_prod_def' word_less_def
      sint_eq_iff uint_eq_iff)

end
