(* ===== verification/Prescribe_Correct.thy ===== *)
theory Prescribe_Correct
  imports Prescribe
begin

text \<open>
  Correctness of the decision loop. The reference ranking sorts the eligible models by exact
  utility, cost, quality and identifier; the theorems show that the single pass of
  \<open>prescribe_inner\<close> over optimised word arithmetic returns its first two elements, that a request
  is rejected exactly when nothing is eligible, that the order of the catalog does not matter,
  that the reported rejection reason is the most frequent one, and that \<open>explain\<close> and
  \<open>utility_for_model\<close> agree with the decision.
\<close>

section \<open>The reference ranking\<close>

definition eligible :: "policy_snapshot \<Rightarrow> kernel_input \<Rightarrow> kernel_model \<Rightarrow> bool" where
  "eligible p i m \<longleftrightarrow>
     passes_gates m i \<and> exact_cost m i \<le> unat (budget_limit_microunits i) \<and> 0 < exact_utility p i m"

definition rank_key :: "policy_snapshot \<Rightarrow> kernel_input \<Rightarrow> kernel_model \<Rightarrow> int \<times> int \<times> int \<times> int" where
  "rank_key p i m =
     (- exact_utility p i m, int (exact_cost m i), - uint (quality_bps m), uint (model_id m))"

definition ranking :: "policy_snapshot \<Rightarrow> kernel_input \<Rightarrow> (nat \<times> kernel_model) list" where
  "ranking p i =
     sort_key (\<lambda>(n, m). rank_key p i m) (filter (\<lambda>(n, m). eligible p i m) (enumerate 0 (ps_models p)))"

definition within_limits :: "policy_snapshot \<Rightarrow> kernel_input \<Rightarrow> bool" where
  "within_limits p i \<longleftrightarrow>
     risk_bps i < ps_hard_risk_limit_bps p \<and> ps_minimum_confidence_bps p \<le> confidence_bps i"

definition reason_order :: "kernel_reason list" where
  "reason_order =
     [CapabilityConstraint, RegionConstraint, ProviderConstraint, QualityConstraint,
      RiskCeilingConstraint, LatencyConstraint, BudgetConstraint, NonPositiveUtilityReason,
      NoEnabledModel]"

fun gate_reason :: "gate_kind \<Rightarrow> kernel_reason" where
  "gate_reason Disabled = NoEnabledModel"
| "gate_reason Quality = QualityConstraint"
| "gate_reason Latency = LatencyConstraint"
| "gate_reason Capability = CapabilityConstraint"
| "gate_reason ProviderUnrepresentable = ProviderConstraint"
| "gate_reason ProviderNotAllowed = ProviderConstraint"
| "gate_reason Region = RegionConstraint"
| "gate_reason RiskCeiling = RiskCeilingConstraint"

definition refusal :: "policy_snapshot \<Rightarrow> kernel_input \<Rightarrow> kernel_model \<Rightarrow> kernel_reason option" where
  "refusal p i m =
     (case first_failed_gate m i of
        Some g \<Rightarrow> Some (gate_reason g)
      | None \<Rightarrow>
          if exact_cost m i > unat (budget_limit_microunits i) then Some BudgetConstraint
          else if exact_utility p i m \<le> 0 then Some NonPositiveUtilityReason
          else None)"

definition refusal_count :: "policy_snapshot \<Rightarrow> kernel_input \<Rightarrow> kernel_reason \<Rightarrow> nat" where
  "refusal_count p i r = length (filter (\<lambda>m. refusal p i m = Some r) (ps_models p))"

section \<open>The loop, by verdicts\<close>

fun verdict_reason :: "candidate_verdict \<Rightarrow> kernel_reason option" where
  "verdict_reason (Rejected g _ _) = Some (gate_reason g)"
| "verdict_reason (OverBudget _ _) = Some BudgetConstraint"
| "verdict_reason (NonPositiveUtility _) = Some NonPositiveUtilityReason"
| "verdict_reason (Eligible _) = None"

definition mk_candidate :: "kernel_input \<Rightarrow> pricing \<Rightarrow> nat \<times> kernel_model \<Rightarrow> candidate" where
  "mk_candidate i pr = (\<lambda>(n, m).
     \<lparr> c_model_id = model_id m, c_model_index = u16_of_usize n, c_quality_bps = quality_bps m,
       c_cost = pricing_cost pr m i, c_utility = t_utility (pricing_terms pr m (pricing_cost pr m i)) \<rparr>)"

fun note_rejection :: "candidate_verdict \<Rightarrow> rejection_histogram \<Rightarrow> rejection_histogram" where
  "note_rejection (Rejected g _ _) h = bump h g"
| "note_rejection (OverBudget _ _) h = h\<lparr> h_budget := h_budget h + 1 \<rparr>"
| "note_rejection (NonPositiveUtility _) h = h\<lparr> h_utility := h_utility h + 1 \<rparr>"
| "note_rejection (Eligible _) h = h"

lemma scan_model_verdict:
  "s_rejected (scan_model i pr n m s) = note_rejection (explain_verdict pr i m) (s_rejected s)"
  "(s_best (scan_model i pr n m s), s_second (scan_model i pr n m s)) =
     (if verdict_reason (explain_verdict pr i m) = None
      then rank_step candidate_better (mk_candidate i pr (n, m)) (s_best s, s_second s)
      else (s_best s, s_second s))"
  "s_eligible_models (scan_model i pr n m s) =
     (if verdict_reason (explain_verdict pr i m) = None
      then saturating_add (s_eligible_models s) 1 else s_eligible_models s)"
  by (auto simp: scan_model_def explain_verdict_def mk_candidate_def Let_def
      split: option.splits prod.splits)

definition ranked_candidates ::
  "kernel_input \<Rightarrow> pricing \<Rightarrow> (nat \<times> kernel_model) list \<Rightarrow> candidate list" where
  "ranked_candidates i pr xs =
     map (mk_candidate i pr)
       (filter (\<lambda>(n, m). verdict_reason (explain_verdict pr i m) = None) xs)"

lemma scan_models_ranked:
  "(s_best (scan_models i pr n ms s), s_second (scan_models i pr n ms s)) =
     fold (rank_step candidate_better) (ranked_candidates i pr (enumerate n ms)) (s_best s, s_second s)"
  by (induction ms arbitrary: n s) (simp_all add: ranked_candidates_def scan_model_verdict)

lemma scan_models_rejected:
  "s_rejected (scan_models i pr n ms s) =
     fold (\<lambda>m. note_rejection (explain_verdict pr i m)) ms (s_rejected s)"
  by (induction ms arbitrary: n s) (simp_all add: scan_model_verdict)

lemma scan_models_eligible:
  "unat (s_eligible_models (scan_models i pr n ms s)) =
     min 65535 (unat (s_eligible_models s)
       + length (filter (\<lambda>m. verdict_reason (explain_verdict pr i m) = None) ms))"
proof (induction ms arbitrary: n s)
  case Nil
  then show ?case using unat_lt2p [of "s_eligible_models s"] by simp
next
  case (Cons m ms)
  then show ?case by (auto simp: scan_model_verdict unat_saturating_add min_def)
qed

section \<open>Verdicts are exact\<close>

lemma verdict_refusal:
  assumes "model_bounded p m"
  shows "verdict_reason (explain_verdict (new_pricing p i) i m) = refusal p i m"
  using pricing_cost_exact [OF assms, of i] utility_exact [OF assms, of i]
  by (auto simp: explain_verdict_def refusal_def Let_def word_less_nat_alt split: option.splits prod.splits)

lemma refusal_None: "refusal p i m = None \<longleftrightarrow> eligible p i m"
  by (auto simp: refusal_def eligible_def not_less not_le first_failed_gate_None [symmetric]
      split: option.splits)

lemma mk_candidate_key:
  assumes "model_bounded p m"
  shows "candidate_key (mk_candidate i (new_pricing p i) (n, m)) = rank_key p i m"
proof -
  have "uint (pricing_cost (new_pricing p i) m i) = int (exact_cost m i)"
    by (simp only: uint_nat pricing_cost_exact [OF assms])
  then show ?thesis
    by (simp add: candidate_key_def mk_candidate_def rank_key_def utility_exact [OF assms])
qed

lemma sort_key_map: "sort_key f (map g xs) = map g (sort_key (\<lambda>x. f (g x)) xs)"
proof (induction xs)
  case (Cons x xs)
  have "insort_key f (g x) (map g ys) = map g (insort_key (\<lambda>x. f (g x)) x ys)" for ys
    by (induction ys) simp_all
  with Cons show ?case by simp
qed simp

lemma sort_key_cong: "(\<And>x. x \<in> set xs \<Longrightarrow> f x = g x) \<Longrightarrow> sort_key f xs = sort_key g xs"
proof (induction xs)
  case (Cons x xs)
  have "insort_key f x ys = insort_key g x ys" if "\<And>y. y \<in> set (x # ys) \<Longrightarrow> f y = g y" for ys
    using that by (induction ys) auto
  from this [of "sort_key g xs"] Cons show ?case by simp
qed simp

lemma first_two_map: "first_two (map f xs) = map_prod (map_option f) (map_option f) (first_two xs)"
  by (cases xs rule: first_two.cases) simp_all

lemma scan_is_ranking:
  assumes "policy_wf p"
  shows "(s_best (scan_models i (new_pricing p i) 0 (ps_models p) scan_start),
          s_second (scan_models i (new_pricing p i) 0 (ps_models p) scan_start))
    = first_two (map (mk_candidate i (new_pricing p i)) (ranking p i))"
proof -
  let ?xs = "enumerate 0 (ps_models p)" and ?mk = "mk_candidate i (new_pricing p i)"
  have b: "model_bounded p m" if "(n, m) \<in> set ?xs" for n m
    using that assms by (auto simp: policy_wf_def in_set_enumerate_eq)
  have "ranked_candidates i (new_pricing p i) ?xs = map ?mk (filter (\<lambda>(n, m). eligible p i m) ?xs)"
    unfolding ranked_candidates_def
    by (intro arg_cong [where f = "map ?mk"] filter_cong) (auto simp: verdict_refusal b refusal_None)
  moreover have "sort_key (\<lambda>x. candidate_key (?mk x)) (filter (\<lambda>(n, m). eligible p i m) ?xs) = ranking p i"
    unfolding ranking_def by (rule sort_key_cong) (auto simp: mk_candidate_key b)
  ultimately show ?thesis
    by (simp add: scan_models_ranked scan_start_def kernel_rank.scan_is_sort sort_key_map)
qed

section \<open>Decisions are the reference ranking\<close>

definition reference_decision ::
  "policy_snapshot \<Rightarrow> kernel_input \<Rightarrow> kernel_reason \<Rightarrow> kernel_decision" where
  "reference_decision p i reason =
     (case ranking p i of
        [] \<Rightarrow> fst (reject p i reason (u16_of_usize (length (ps_models p))) 0)
      | (n, m) # rest \<Rightarrow>
          \<lparr> d_request_sequence = request_sequence i,
            d_action = (if model_id m = requested_model_id i then ExecuteRequested else Substitute),
            d_reason = (if model_id m = requested_model_id i
                        then RequestedModelMaximizesUtility else AlternativeMaximizesUtility),
            d_selected_model_id = model_id m,
            d_selected_model_index = u16_of_usize n,
            d_estimated_cost_microunits = of_nat (exact_cost m i),
            d_expected_utility_microunits = word_of_int (exact_utility p i m),
            d_counterfactual_model_id = (case rest of [] \<Rightarrow> 0 | (_, m') # _ \<Rightarrow> model_id m'),
            d_counterfactual_utility_microunits =
              (case rest of [] \<Rightarrow> 0 | (_, m') # _ \<Rightarrow> word_of_int (exact_utility p i m')),
            d_evaluated_models = u16_of_usize (length (ps_models p)),
            d_eligible_models = u16_of_usize (length (ranking p i)),
            d_policy_epoch = ps_policy_epoch p,
            d_catalog_epoch = ps_catalog_epoch p \<rparr>)"

lemma within_limits_iff:
  "\<not> within_limits p i \<longleftrightarrow>
     risk_bps i \<ge> ps_hard_risk_limit_bps p \<or> confidence_bps i < ps_minimum_confidence_bps p"
  by (auto simp: within_limits_def not_less not_le)

lemma pricing_words_exact:
  assumes "model_bounded p m"
  shows "pricing_cost (new_pricing p i) m i = of_nat (exact_cost m i)"
    and "t_utility (pricing_terms (new_pricing p i) m (pricing_cost (new_pricing p i) m i))
      = word_of_int (exact_utility p i m)"
  by (simp_all flip: pricing_cost_exact [OF assms] utility_exact [OF assms])

lemma ranking_bounded:
  assumes "policy_wf p" "(n, m) \<in> set (ranking p i)"
  shows "model_bounded p m" "m \<in> set (ps_models p)" "eligible p i m"
    "n < length (ps_models p)" "ps_models p ! n = m"
  using assms by (auto simp: ranking_def policy_wf_def in_set_enumerate_eq)

lemma map_snd_filter_enumerate:
  "map snd (filter (\<lambda>(n, x). P x) (enumerate k xs)) = filter P xs"
  using filter_map [of P snd "enumerate k xs"] by (simp add: comp_def case_prod_unfold)

lemma map_snd_ranking:
  "map snd (ranking p i) = sort_key (rank_key p i) (filter (eligible p i) (ps_models p))"
  using sort_key_map [of "rank_key p i" snd "filter (\<lambda>(n, m). eligible p i m) (enumerate 0 (ps_models p))"]
  by (simp add: ranking_def case_prod_unfold map_snd_filter_enumerate [unfolded case_prod_unfold])

lemma length_ranking: "length (ranking p i) = length (filter (eligible p i) (ps_models p))"
  using arg_cong [OF map_snd_ranking, of length p i] by simp

lemma scan_eligible_count:
  assumes "policy_wf p"
  shows "s_eligible_models (scan_models i (new_pricing p i) 0 (ps_models p) scan_start)
    = u16_of_usize (length (ranking p i))"
proof -
  have "filter (\<lambda>m. verdict_reason (explain_verdict (new_pricing p i) i m) = None) (ps_models p)
      = filter (eligible p i) (ps_models p)"
    using assms by (auto simp: policy_wf_def verdict_refusal refusal_None intro!: filter_cong)
  then have "unat (s_eligible_models (scan_models i (new_pricing p i) 0 (ps_models p) scan_start))
      = unat (u16_of_usize (length (ranking p i)))"
    by (simp add: scan_models_eligible scan_start_def length_ranking unat_u16_of_usize)
  then show ?thesis by (rule unsigned_word_eqI)
qed

lemma prescribe_reference:
  assumes wf: "policy_wf p" and lim: "within_limits p i"
  shows "prescribe p i = reference_decision p i
    (dominant_rejection_reason (s_rejected (scan_models i (new_pricing p i) 0 (ps_models p) scan_start)))"
proof -
  let ?s = "scan_models i (new_pricing p i) 0 (ps_models p) scan_start"
  note scan = scan_is_ranking [OF wf, of i]
  note exact = pricing_words_exact [OF ranking_bounded(1) [OF wf]]
  have lims: "\<not> risk_bps i \<ge> ps_hard_risk_limit_bps p" "\<not> confidence_bps i < ps_minimum_confidence_bps p"
    using lim by (auto simp: within_limits_def)
  show ?thesis
  proof (cases "ranking p i" rule: first_two.cases)
    case 1
    with scan have "s_best ?s = None" by simp
    moreover have "s_eligible_models ?s = 0"
      using scan_eligible_count [OF wf, of i] 1 by (simp add: u16_of_usize_def)
    ultimately show ?thesis
      using 1 lims by (simp add: prescribe_def prescribe_inner_def reference_decision_def Let_def)
  next
    case (2 x)
    obtain n m where x: "x = (n, m)" by force
    with 2 scan have "s_best ?s = Some (mk_candidate i (new_pricing p i) (n, m))" "s_second ?s = None"
      by simp_all
    moreover note exact [of n m i]
    ultimately show ?thesis
      using 2 x lims scan_eligible_count [OF wf, of i]
      by (simp add: prescribe_def prescribe_inner_def reference_decision_def Let_def mk_candidate_def)
  next
    case (3 x y zs)
    obtain n m n' m' where xy: "x = (n, m)" "y = (n', m')" by force
    with 3 scan have "s_best ?s = Some (mk_candidate i (new_pricing p i) (n, m))"
      "s_second ?s = Some (mk_candidate i (new_pricing p i) (n', m'))"
      by simp_all
    moreover note exact [of n m i] exact [of n' m' i]
    ultimately show ?thesis
      using 3 xy lims scan_eligible_count [OF wf, of i]
      by (simp add: prescribe_def prescribe_inner_def reference_decision_def Let_def mk_candidate_def)
  qed
qed

section \<open>Rejection reasons\<close>

fun reason_field :: "kernel_reason \<Rightarrow> rejection_histogram \<Rightarrow> u16" where
  "reason_field CapabilityConstraint h = h_capability h"
| "reason_field RegionConstraint h = h_region h"
| "reason_field ProviderConstraint h = h_provider h"
| "reason_field QualityConstraint h = h_quality h"
| "reason_field RiskCeilingConstraint h = h_risk_ceiling h"
| "reason_field LatencyConstraint h = h_latency h"
| "reason_field BudgetConstraint h = h_budget h"
| "reason_field NonPositiveUtilityReason h = h_utility h"
| "reason_field NoEnabledModel h = h_disabled h"
| "reason_field _ h = 0"

lemma rejection_table_fields: "rejection_table h = map (\<lambda>r. (reason_field r h, r)) reason_order"
  by (simp add: rejection_table_def reason_order_def)

lemma unat_add_1: "unat a < 2 ^ LENGTH('a) - 1 \<Longrightarrow> unat (a + 1) = Suc (unat a)" for a :: "'a::len word"
  by (cases "LENGTH('a) = 1") (simp_all add: unat_add_fit)

lemma note_rejection_field:
  assumes "unat (reason_field r h) < 65535" and "r \<in> set reason_order"
  shows "unat (reason_field r (note_rejection v h)) =
    unat (reason_field r h) + (if verdict_reason v = Some r then 1 else 0)"
proof (cases v)
  case (Rejected g a b)
  with assms show ?thesis
    by (cases g) (auto simp: reason_order_def bump_def unat_saturating_add)
next
  case (OverBudget a b)
  with assms show ?thesis by (auto simp: reason_order_def unat_add_1)
next
  case (NonPositiveUtility t)
  with assms show ?thesis by (auto simp: reason_order_def unat_add_1)
qed auto

lemma fold_rejection_field:
  assumes "r \<in> set reason_order" and "unat (reason_field r h) + length vs \<le> 65535"
  shows "unat (reason_field r (fold note_rejection vs h)) =
    unat (reason_field r h) + length (filter (\<lambda>v. verdict_reason v = Some r) vs)"
  using assms(2)
proof (induction vs arbitrary: h)
  case (Cons v vs)
  then have "unat (reason_field r (note_rejection v h)) =
      unat (reason_field r h) + (if verdict_reason v = Some r then 1 else 0)"
    by (intro note_rejection_field [OF _ assms(1)]) simp
  with Cons show ?case by simp
qed simp

lemma fold_max_by_key:
  fixes f :: "'a \<Rightarrow> 'k::linorder"
  shows "\<exists>ys zs. x # xs = ys @ fold (\<lambda>y best. if f best \<le> f y then y else best) xs x # zs
    \<and> (\<forall>y \<in> set ys. f y \<le> f (fold (\<lambda>y best. if f best \<le> f y then y else best) xs x))
    \<and> (\<forall>z \<in> set zs. f z < f (fold (\<lambda>y best. if f best \<le> f y then y else best) xs x))"
proof (induction xs rule: rev_induct)
  case Nil
  show ?case by (intro exI [of _ "[]"]) simp
next
  case (snoc a xs)
  then obtain ys zs where *: "x # xs = ys @ fold (\<lambda>y best. if f best \<le> f y then y else best) xs x # zs"
    "\<forall>y \<in> set ys. f y \<le> f (fold (\<lambda>y best. if f best \<le> f y then y else best) xs x)"
    "\<forall>z \<in> set zs. f z < f (fold (\<lambda>y best. if f best \<le> f y then y else best) xs x)"
    by blast
  let ?b = "fold (\<lambda>y best. if f best \<le> f y then y else best) xs x"
  show ?case
  proof (cases "f ?b \<le> f a")
    case True
    have "\<forall>y \<in> set (x # xs). f y \<le> f a"
      using True * by (auto simp: *(1) intro: order_trans less_imp_le)
    then show ?thesis using True by (intro exI [of _ "x # xs"] exI [of _ "[]"]) simp
  next
    case False
    then have "\<forall>z \<in> set (zs @ [a]). f z < f ?b" using *(3) by auto
    then show ?thesis
      using False *(1,2) by (intro exI [of _ ys] exI [of _ "zs @ [a]"]) simp
  qed
qed

lemma max_by_key_None: "max_by_key f xs = None \<longleftrightarrow> xs = []"
  by (cases xs) simp_all

lemma max_by_key_Some:
  assumes "max_by_key f xs = Some x"
  obtains ys zs where "xs = ys @ x # zs" "\<forall>y \<in> set ys. f y \<le> f x" "\<forall>z \<in> set zs. f z < f x"
  using assms fold_max_by_key [of _ _ f] by (cases xs) fastforce+

lemma dominant_reason_maximal:
  assumes "\<exists>r \<in> set reason_order. reason_field r h \<noteq> 0"
  obtains before after where
    "reason_order = before @ dominant_rejection_reason h # after"
    "reason_field (dominant_rejection_reason h) h > 0"
    "\<forall>r \<in> set before. reason_field r h \<le> reason_field (dominant_rejection_reason h) h"
    "\<forall>r \<in> set after. reason_field r h < reason_field (dominant_rejection_reason h) h"
proof -
  obtain n d where nd: "max_by_key fst (rejection_table h) = Some (n, d)"
    using max_by_key_None [of fst "rejection_table h"] by (force simp: rejection_table_def simp del: max_by_key.simps)
  then obtain ys zs where t: "rejection_table h = ys @ (n, d) # zs"
    and ys: "\<forall>y \<in> set ys. fst y \<le> n" and zs: "\<forall>z \<in> set zs. fst z < n"
    by (elim max_by_key_Some) simp
  have fields: "\<forall>x \<in> set (rejection_table h). fst x = reason_field (snd x) h"
    by (auto simp: rejection_table_fields)
  have order: "reason_order = map snd ys @ d # map snd zs"
    using t by (simp add: rejection_table_fields flip: map_map)
      (metis (no_types, lifting) list.simps(9) map_append map_idI map_map comp_apply snd_conv)
  have n: "n = reason_field d h" using fields t by force
  have "n > 0"
  proof (rule ccontr)
    assume "\<not> n > 0"
    then have "n = 0" using word_neq_0_conv [of n] by blast
    moreover have "fst x \<le> n" if "x \<in> set (rejection_table h)" for x
      using that t ys zs by (auto intro: less_imp_le)
    ultimately have "\<forall>x \<in> set (rejection_table h). fst x = 0" by simp
    with assms show False by (auto simp: rejection_table_fields)
  qed
  then have d: "dominant_rejection_reason h = d"
    by (simp add: dominant_rejection_reason_def nd)
  show thesis
    by (rule that [of "map snd ys" "map snd zs"])
      (use d n \<open>n > 0\<close> order ys zs fields t in auto)
qed


lemma prescribe_out_of_limits:
  "\<not> within_limits p i \<Longrightarrow>
     prescribe p i = fst (reject p i (if risk_bps i \<ge> ps_hard_risk_limit_bps p then RiskHardLimit
                                      else ConfidenceHardLimit) 0 0)"
  by (auto simp: within_limits_iff prescribe_def prescribe_inner_def)

lemma d_reason_reference:
  "ranking p i = [] \<Longrightarrow> d_reason (reference_decision p i r) = r"
  by (simp add: reference_decision_def reject_def)

lemma reference_decision_reason:
  "ranking p i \<noteq> [] \<Longrightarrow> reference_decision p i r = reference_decision p i r'"
  by (auto simp: reference_decision_def split: list.splits)

section \<open>Properties of the decision\<close>

text \<open>
  C1. The decision kernel refines its reference: on every request within the hard limits, the
  single pass over word arithmetic with cached maxima returns the decision obtained by sorting
  the eligible models by exact utility (descending), exact cost, quality (descending) and
  identifier, and taking the first as the selection and the second as the counterfactual.
  Costs, utilities, the index and the counts of the decision are those of the reference.
\<close>

theorem prescribe_refines_ranking:
  assumes "policy_wf p" and "within_limits p i"
  shows "prescribe p i = reference_decision p i (d_reason (prescribe p i))"
  using prescribe_reference [OF assms] d_reason_reference reference_decision_reason
  by (cases "ranking p i = []") (metis, metis)

lemma example_within: "within_limits example_policy example_input"
  by (simp add: within_limits_def example_defs word_le_nat_alt word_less_nat_alt)

theorem prescribe_refines_ranking_witness:
  "policy_wf example_policy \<and> within_limits example_policy example_input
   \<and> prescribe example_policy example_input
     = reference_decision example_policy example_input (d_reason (prescribe example_policy example_input))"
  using prescribe_refines_ranking [OF example_policy_wf example_within] example_policy_wf example_within
  by blast

lemma ranking_empty: "ranking p i = [] \<longleftrightarrow> (\<forall>m \<in> set (ps_models p). \<not> eligible p i m)"
proof -
  have "length (ranking p i) = 0 \<longleftrightarrow> (\<forall>m \<in> set (ps_models p). \<not> eligible p i m)"
    by (simp add: length_ranking filter_empty_conv)
  then show ?thesis by simp
qed

lemma ranking_head:
  assumes "ranking p i = (n, m) # rest" "m' \<in> set (ps_models p)" "eligible p i m'"
  shows "rank_key p i m \<le> rank_key p i m'"
proof -
  obtain n' where "n' < length (ps_models p)" "ps_models p ! n' = m'"
    using assms(2) by (auto simp: in_set_conv_nth)
  then have mem: "(n', m') \<in> set (ranking p i)"
    using assms(3) by (auto simp: ranking_def in_set_enumerate_eq)
  have "sorted (map (\<lambda>(n, m). rank_key p i m) (ranking p i))"
    by (simp add: ranking_def)
  with assms(1) mem show ?thesis by auto
qed

definition justified_selection ::
  "policy_snapshot \<Rightarrow> kernel_input \<Rightarrow> kernel_decision \<Rightarrow> kernel_model \<Rightarrow> bool" where
  "justified_selection p i d m \<longleftrightarrow>
     model_id m = d_selected_model_id d
     \<and> passes_gates m i
     \<and> unat (d_estimated_cost_microunits d) = exact_cost m i
     \<and> exact_cost m i \<le> unat (budget_limit_microunits i)
     \<and> sint (d_expected_utility_microunits d) = exact_utility p i m
     \<and> 0 < exact_utility p i m
     \<and> (\<forall>m' \<in> set (ps_models p). eligible p i m' \<longrightarrow> rank_key p i m \<le> rank_key p i m')"

lemma exact_words:
  assumes "model_bounded p m"
  shows "unat (of_nat (exact_cost m i) :: u64) = exact_cost m i"
    and "sint (word_of_int (exact_utility p i m) :: i64) = exact_utility p i m"
  using pricing_cost_exact [OF assms, of i] utility_exact [OF assms, of i]
    pricing_words_exact [OF assms, of i] by simp_all

lemma reference_justified:
  assumes wf: "policy_wf p" and r: "ranking p i = (n, m) # rest"
  shows "m \<in> set (ps_models p) \<and> justified_selection p i (reference_decision p i reason) m"
proof -
  have m: "model_bounded p m" "m \<in> set (ps_models p)" "eligible p i m"
    using ranking_bounded(1-3) [OF wf, of n m i] r by auto
  have "d_selected_model_id (reference_decision p i reason) = model_id m"
    "d_estimated_cost_microunits (reference_decision p i reason) = of_nat (exact_cost m i)"
    "d_expected_utility_microunits (reference_decision p i reason) = word_of_int (exact_utility p i m)"
    by (simp_all add: reference_decision_def r)
  with m ranking_head [OF r] show ?thesis
    by (simp add: justified_selection_def exact_words eligible_def)
qed

lemma reference_action:
  "is_rejected (reference_decision p i reason) \<longleftrightarrow> ranking p i = []"
  "is_executable (reference_decision p i reason) \<longleftrightarrow> ranking p i \<noteq> []"
  by (auto simp: reference_decision_def is_rejected_def is_executable_def reject_def
      split: list.splits if_splits)

lemma reject_action: "is_rejected (fst (reject p i r a b))" "\<not> is_executable (fst (reject p i r a b))"
  by (simp_all add: is_rejected_def is_executable_def reject_def)

lemma decision_justified:
  assumes "policy_wf p" "is_executable (prescribe p i)"
  shows "\<exists>m \<in> set (ps_models p). justified_selection p i (prescribe p i) m"
proof (cases "within_limits p i")
  case True
  note eq = prescribe_reference [OF assms(1) True]
  show ?thesis
  proof (cases "ranking p i")
    case Nil
    then show ?thesis using assms(2) by (simp add: eq reference_action)
  next
    case (Cons x rest)
    obtain n m where "x = (n, m)" by force
    with Cons show ?thesis using reference_justified [OF assms(1), of i n m rest] by (auto simp: eq)
  qed
qed (use assms(2) in \<open>simp add: prescribe_out_of_limits reject_action\<close>)

text \<open>
  C9. The kernel is fail-closed and optimal: a decision is a rejection exactly when the request
  breaks a hard limit or no model of the catalog is eligible, and an executable decision names a
  model of the catalog that passes every gate, costs no more than the budget limit and has
  positive utility, with no eligible model ranked before it.
\<close>

theorem prescribe_fail_closed:
  assumes "policy_wf p"
  shows "(is_rejected (prescribe p i) \<longleftrightarrow>
        \<not> within_limits p i \<or> (\<forall>m \<in> set (ps_models p). \<not> eligible p i m))
    \<and> (is_executable (prescribe p i) \<longrightarrow>
        (\<exists>m \<in> set (ps_models p). justified_selection p i (prescribe p i) m))"
proof (cases "within_limits p i")
  case True
  then have "is_rejected (prescribe p i) \<longleftrightarrow> ranking p i = []"
    by (simp add: prescribe_reference [OF assms] reference_action)
  then show ?thesis using True decision_justified [OF assms, of i] by (simp add: ranking_empty)
qed (simp add: prescribe_out_of_limits reject_action)

theorem prescribe_fail_closed_witness:
  "policy_wf example_policy
   \<and> (is_rejected (prescribe example_policy example_input) \<longleftrightarrow>
        \<not> within_limits example_policy example_input
        \<or> (\<forall>m \<in> set (ps_models example_policy). \<not> eligible example_policy example_input m))"
  using prescribe_fail_closed [OF example_policy_wf] example_policy_wf by blast


section \<open>The order of the catalog\<close>

fun note_refusal :: "kernel_reason option \<Rightarrow> rejection_histogram \<Rightarrow> rejection_histogram" where
  "note_refusal (Some CapabilityConstraint) h = h\<lparr> h_capability := saturating_add (h_capability h) 1 \<rparr>"
| "note_refusal (Some RegionConstraint) h = h\<lparr> h_region := saturating_add (h_region h) 1 \<rparr>"
| "note_refusal (Some ProviderConstraint) h = h\<lparr> h_provider := saturating_add (h_provider h) 1 \<rparr>"
| "note_refusal (Some QualityConstraint) h = h\<lparr> h_quality := saturating_add (h_quality h) 1 \<rparr>"
| "note_refusal (Some RiskCeilingConstraint) h = h\<lparr> h_risk_ceiling := saturating_add (h_risk_ceiling h) 1 \<rparr>"
| "note_refusal (Some LatencyConstraint) h = h\<lparr> h_latency := saturating_add (h_latency h) 1 \<rparr>"
| "note_refusal (Some BudgetConstraint) h = h\<lparr> h_budget := h_budget h + 1 \<rparr>"
| "note_refusal (Some NonPositiveUtilityReason) h = h\<lparr> h_utility := h_utility h + 1 \<rparr>"
| "note_refusal (Some NoEnabledModel) h = h\<lparr> h_disabled := saturating_add (h_disabled h) 1 \<rparr>"
| "note_refusal _ h = h"

lemma note_rejection_refusal: "note_rejection v = note_refusal (verdict_reason v)"
proof (rule ext)
  show "note_rejection v h = note_refusal (verdict_reason v) h" for h
  proof (cases v)
    case (Rejected g a b)
    then show ?thesis by (cases g) (simp_all add: bump_def)
  qed simp_all
qed

lemma note_refusal_commute: "note_refusal a \<circ> note_refusal b = note_refusal b \<circ> note_refusal a"
proof (rule ext)
  show "(note_refusal a \<circ> note_refusal b) h = (note_refusal b \<circ> note_refusal a) h" for h
    by (cases "(a, h)" rule: note_refusal.cases; cases "(b, h)" rule: note_refusal.cases; simp)
qed

lemma scan_histogram:
  assumes "policy_wf p"
  shows "s_rejected (scan_models i (new_pricing p i) 0 (ps_models p) scan_start) =
    fold note_refusal (map (refusal p i) (ps_models p)) no_rejections"
proof -
  have "fold (\<lambda>m. note_rejection (explain_verdict (new_pricing p i) i m)) (ps_models p) no_rejections
      = fold (\<lambda>m. note_refusal (refusal p i m)) (ps_models p) no_rejections"
    using assms by (intro fold_cong) (auto simp: note_rejection_refusal policy_wf_def verdict_refusal)
  then show ?thesis by (simp add: scan_models_rejected scan_start_def fold_map comp_def)
qed

definition same_limits :: "policy_snapshot \<Rightarrow> policy_snapshot \<Rightarrow> bool" where
  "same_limits p q \<longleftrightarrow>
     ps_policy_epoch p = ps_policy_epoch q \<and> ps_catalog_epoch p = ps_catalog_epoch q
     \<and> ps_hard_risk_limit_bps p = ps_hard_risk_limit_bps q
     \<and> ps_minimum_confidence_bps p = ps_minimum_confidence_bps q
     \<and> ps_risk_penalty_multiplier_bps p = ps_risk_penalty_multiplier_bps q
     \<and> ps_latency_penalty_microunits_per_ms p = ps_latency_penalty_microunits_per_ms q"

lemma same_limits_exact:
  assumes "same_limits p q"
  shows "exact_utility p i m = exact_utility q i m" "eligible p i m = eligible q i m"
    "rank_key p i m = rank_key q i m" "refusal p i m = refusal q i m"
    "within_limits p i = within_limits q i"
proof -
  show "exact_utility p i m = exact_utility q i m"
    using assms by (simp add: same_limits_def exact_utility_def raw_utility_def Let_def)
  then show "eligible p i m = eligible q i m" "rank_key p i m = rank_key q i m"
    "refusal p i m = refusal q i m"
    by (simp_all add: eligible_def rank_key_def refusal_def)
  show "within_limits p i = within_limits q i"
    using assms by (simp add: same_limits_def within_limits_def)
qed

lemma ranking_permute:
  assumes "same_limits p q" "mset (ps_models p) = mset (ps_models q)"
    and "distinct (map model_id (ps_models p))"
  shows "map snd (ranking p i) = map snd (ranking q i)"
proof -
  have "inj_on (rank_key p i) (set (filter (eligible p i) (ps_models p)))"
    using assms(3) by (auto simp: inj_on_def rank_key_def distinct_map uint_eq_iff)
  moreover have "mset (filter (eligible p i) (ps_models p)) = mset (filter (eligible p i) (ps_models q))"
    using assms(2) by simp
  ultimately have "sort_key (rank_key p i) (filter (eligible p i) (ps_models p))
      = sort_key (rank_key p i) (filter (eligible p i) (ps_models q))"
    by (intro sort_key_eq_sort_key)
  moreover have "rank_key p i = rank_key q i" "eligible p i = eligible q i"
    using same_limits_exact [OF assms(1)] by auto
  ultimately show ?thesis unfolding map_snd_ranking by simp
qed


lemma reference_permute:
  assumes "map snd (ranking p i) = map snd (ranking q i)" and "same_limits p q"
    and "length (ps_models p) = length (ps_models q)"
  shows "(reference_decision p i r)\<lparr> d_selected_model_index := 0 \<rparr> =
    (reference_decision q i r)\<lparr> d_selected_model_index := 0 \<rparr>"
proof -
  have len: "length (ranking p i) = length (ranking q i)"
    using arg_cong [OF assms(1), of length] by simp
  note ex = same_limits_exact [OF assms(2)]
  show ?thesis
  proof (cases "ranking p i" rule: first_two.cases)
    case 1
    with len have "ranking q i = []" by simp
    with 1 assms(2,3) show ?thesis by (simp add: reference_decision_def reject_def same_limits_def)
  next
    case (2 x)
    with len obtain y where "ranking q i = [y]" by (cases "ranking q i") auto
    with 2 assms show ?thesis
      by (cases x; cases y) (simp add: reference_decision_def ex same_limits_def)
  next
    case (3 x y zs)
    with len obtain x' y' zs' where q: "ranking q i = x' # y' # zs'"
      by (cases "ranking q i" rule: first_two.cases) auto
    obtain a b a' b' m m' where "x = (a, m)" "x' = (a', m)" "y = (b, m')" "y' = (b', m')"
      using assms(1) 3 q by (cases x; cases x'; cases y; cases y') auto
    with 3 q assms(2,3) len show ?thesis by (simp add: reference_decision_def ex same_limits_def)
  qed
qed

lemma prescribe_permute:
  assumes "policy_wf p" and "policy_wf q" and "same_limits p q"
    and "mset (ps_models p) = mset (ps_models q)" and "distinct (map model_id (ps_models p))"
  shows "(prescribe p i)\<lparr> d_selected_model_index := 0 \<rparr> =
    (prescribe q i)\<lparr> d_selected_model_index := 0 \<rparr>"
proof (cases "within_limits p i")
  case True
  then have lim: "within_limits q i" using same_limits_exact(5) [OF assms(3)] by simp
  have "refusal p i = refusal q i" using same_limits_exact(4) [OF assms(3)] by auto
  then have "fold note_refusal (map (refusal p i) (ps_models p)) no_rejections
      = fold note_refusal (map (refusal q i) (ps_models q)) no_rejections"
    using assms(4) by (intro fun_cong [OF fold_multiset_equiv] note_refusal_commute) simp
  moreover have "length (ps_models p) = length (ps_models q)" using assms(4) by (metis size_mset)
  ultimately show ?thesis
    using reference_permute [OF ranking_permute [OF assms(3-5)] assms(3)]
    by (simp add: prescribe_reference [OF assms(1) True] prescribe_reference [OF assms(2) lim]
        scan_histogram assms(1,2))
next
  case False
  then have "\<not> within_limits q i" using same_limits_exact(5) [OF assms(3)] by simp
  with False assms(3) show ?thesis
    by (simp add: prescribe_out_of_limits reject_def same_limits_def)
qed

text \<open>
  The order of the catalog does not influence the decision: two well-formed policies with the
  same limits and the same models, listed in different orders, give the same decision on every
  request, rejection reason included. Only the index of the selected model depends on the order.
\<close>

lemma prescribe_order_independent:
  assumes "policy_wf p" and "policy_wf q" and "same_limits p q"
    and "mset (ps_models p) = mset (ps_models q)" and "distinct (map model_id (ps_models p))"
  shows "(prescribe p i)\<lparr> d_selected_model_index := 0 \<rparr> =
    (prescribe q i)\<lparr> d_selected_model_index := 0 \<rparr>"
  by (rule prescribe_permute [OF assms])

lemma example_orders:
  fixes ms defines "ms \<equiv> [example_model, example_model_2]"
  shows "same_limits (new_unchecked 1 1 9600 5500 3500 2 ms) (new_unchecked 1 1 9600 5500 3500 2 (rev ms))"
    "mset (ps_models (new_unchecked 1 1 9600 5500 3500 2 ms))
      = mset (ps_models (new_unchecked 1 1 9600 5500 3500 2 (rev ms)))"
    "distinct (map model_id (ps_models (new_unchecked 1 1 9600 5500 3500 2 ms)))"
  by (simp_all add: ms_def same_limits_def new_unchecked_def example_defs)

section \<open>The reported reason\<close>

lemma refusal_in_order: "refusal p i m = Some r \<Longrightarrow> r \<in> set reason_order"
proof -
  have "gate_reason g \<in> set reason_order" for g by (cases g) (simp_all add: reason_order_def)
  then show "refusal p i m = Some r \<Longrightarrow> r \<in> set reason_order"
    by (auto simp: refusal_def reason_order_def split: option.splits if_splits)
qed

lemma histogram_counts:
  assumes "policy_wf p" and "length (ps_models p) \<le> 65535" and "r \<in> set reason_order"
  shows "unat (reason_field r (s_rejected (scan_models i (new_pricing p i) 0 (ps_models p) scan_start)))
    = refusal_count p i r"
proof -
  let ?vs = "map (explain_verdict (new_pricing p i) i) (ps_models p)"
  have "reason_field r no_rejections = 0"
    by (cases r) (simp_all add: no_rejections_def)
  then have "unat (reason_field r (fold note_rejection ?vs no_rejections)) =
      length (filter (\<lambda>v. verdict_reason v = Some r) ?vs)"
    using assms(2) by (subst fold_rejection_field [OF assms(3)]) simp_all
  also have "\<dots> = length (filter (\<lambda>m. verdict_reason (explain_verdict (new_pricing p i) i m) = Some r)
      (ps_models p))"
    by (simp add: filter_map comp_def)
  also have "\<dots> = refusal_count p i r"
    unfolding refusal_count_def
    using assms(1) by (intro arg_cong [where f = length] filter_cong) (auto simp: policy_wf_def verdict_refusal)
  finally show ?thesis by (simp add: scan_models_rejected scan_start_def fold_map comp_def)
qed

text \<open>
  The reason of a rejection is the most frequent one: when a catalog of at most 65,535 models
  has no eligible model, the reported reason refused at least one model, no other reason refused
  more models, and among equally frequent reasons it is the last of the fixed order.
\<close>

lemma rejection_reason_dominant:
  assumes "policy_wf p" and "within_limits p i" and "ps_models p \<noteq> []"
    and "length (ps_models p) \<le> 65535" and "\<forall>m \<in> set (ps_models p). \<not> eligible p i m"
  shows "\<exists>before after.
    reason_order = before @ d_reason (prescribe p i) # after
    \<and> refusal_count p i (d_reason (prescribe p i)) > 0
    \<and> (\<forall>r \<in> set before. refusal_count p i r \<le> refusal_count p i (d_reason (prescribe p i)))
    \<and> (\<forall>r \<in> set after. refusal_count p i r < refusal_count p i (d_reason (prescribe p i)))"
proof -
  let ?h = "s_rejected (scan_models i (new_pricing p i) 0 (ps_models p) scan_start)"
  have counts: "refusal_count p i r = unat (reason_field r ?h)" if "r \<in> set reason_order" for r
    using histogram_counts [OF assms(1,4) that] by simp
  have reason: "d_reason (prescribe p i) = dominant_rejection_reason ?h"
    using assms(5) by (simp add: prescribe_reference [OF assms(1,2)] d_reason_reference ranking_empty)
  obtain m where m: "m \<in> set (ps_models p)" using assms(3) by (cases "ps_models p") auto
  then obtain r where r: "refusal p i m = Some r" using assms(5) refusal_None by blast
  then have "refusal_count p i r > 0" using m by (auto simp: refusal_count_def filter_empty_conv)
  then have "\<exists>r \<in> set reason_order. reason_field r ?h \<noteq> 0"
    using counts [OF refusal_in_order [OF r]] refusal_in_order [OF r] by force
  then obtain before after where *:
    "reason_order = before @ dominant_rejection_reason ?h # after"
    "reason_field (dominant_rejection_reason ?h) ?h > 0"
    "\<forall>r \<in> set before. reason_field r ?h \<le> reason_field (dominant_rejection_reason ?h) ?h"
    "\<forall>r \<in> set after. reason_field r ?h < reason_field (dominant_rejection_reason ?h) ?h"
    by (rule dominant_reason_maximal)
  have "set before \<subseteq> set reason_order" "set after \<subseteq> set reason_order"
    "dominant_rejection_reason ?h \<in> set reason_order"
    by (subst *(1), auto)+
  with * counts show ?thesis
    unfolding reason
    by (intro exI [of _ before] exI [of _ after]) (auto simp: word_less_nat_alt word_le_nat_alt subset_iff)
qed


lemma example_unaffordable:
  "\<forall>m \<in> set (ps_models example_policy). \<not> eligible example_policy (example_input\<lparr> budget_limit_microunits := 0 \<rparr>) m"
  by (simp add: eligible_def exact_cost_def token_cost_def example_defs)

section \<open>Explanations agree with decisions\<close>

lemma explain_candidates_map:
  "explain_candidates pr i n ms =
     map (\<lambda>(n, m). \<lparr> e_model_id = model_id m, e_model_index = u16_of_usize n,
                      e_verdict = explain_verdict pr i m \<rparr>) (enumerate n ms)"
  by (induction ms arbitrary: n) simp_all

lemma dominant_in_order: "dominant_rejection_reason h \<in> set reason_order"
proof (cases "max_by_key fst (rejection_table h)")
  case None
  then show ?thesis by (simp add: dominant_rejection_reason_def reason_order_def)
next
  case (Some x)
  then have "x \<in> set (rejection_table h)" by (elim max_by_key_Some) simp
  then have "snd x \<in> set reason_order" by (auto simp: rejection_table_fields)
  moreover have "NoEnabledModel \<in> set reason_order" by (simp add: reason_order_def)
  ultimately show ?thesis using Some by (auto simp: dominant_rejection_reason_def split: prod.splits)
qed

lemma reason_of_reference:
  assumes "policy_wf p" and "within_limits p i"
  shows "d_reason (prescribe p i) \<notin> {RiskHardLimit, ConfidenceHardLimit}"
proof (cases "ranking p i")
  case Nil
  have "RiskHardLimit \<notin> set reason_order" "ConfidenceHardLimit \<notin> set reason_order"
    by (simp_all add: reason_order_def)
  with Nil dominant_in_order show ?thesis
    by (metis prescribe_reference [OF assms] d_reason_reference empty_iff insert_iff)
next
  case (Cons x rest)
  then show ?thesis by (cases x) (simp add: prescribe_reference [OF assms] reference_decision_def)
qed

definition explained :: "policy_snapshot \<Rightarrow> kernel_input \<Rightarrow> nat \<times> kernel_model \<Rightarrow> candidate_explanation" where
  "explained p i = (\<lambda>(n, m). \<lparr> e_model_id = model_id m, e_model_index = u16_of_usize n,
     e_verdict = explain_verdict (new_pricing p i) i m \<rparr>)"

lemma explain_within:
  assumes "policy_wf p" and "within_limits p i"
  shows "explain p i = \<lparr> x_decision = prescribe p i,
    x_candidates = map (explained p i) (enumerate 0 (ps_models p)) \<rparr>"
  using reason_of_reference [OF assms]
  by (simp add: explain_def Let_def explain_candidates_map explained_def flip: prescribe_def)

lemma verdict_eligible:
  assumes "model_bounded p m"
  shows "(case explain_verdict (new_pricing p i) i m of Eligible _ \<Rightarrow> True | _ \<Rightarrow> False) = eligible p i m"
  using verdict_refusal [OF assms, of i] refusal_None [of p i m]
  by (cases "explain_verdict (new_pricing p i) i m") auto

lemma eligible_terms:
  assumes "model_bounded p m" "eligible p i m"
  shows "\<exists>t. explain_verdict (new_pricing p i) i m = Eligible t
    \<and> t_cost_microunits t = of_nat (exact_cost m i) \<and> t_utility t = word_of_int (exact_utility p i m)"
proof -
  let ?t = "pricing_terms (new_pricing p i) m (pricing_cost (new_pricing p i) m i)"
  have "verdict_reason (explain_verdict (new_pricing p i) i m) = None"
    using verdict_refusal [OF assms(1), of i] refusal_None [of p i m] assms(2) by simp
  then have "explain_verdict (new_pricing p i) i m = Eligible ?t"
    by (auto simp: explain_verdict_def Let_def split: option.splits prod.splits if_splits)
  moreover have "t_cost_microunits ?t = pricing_cost (new_pricing p i) m i"
    by (simp add: pricing_terms_def Let_def)
  ultimately show ?thesis using pricing_words_exact [OF assms(1), of i] by simp
qed

lemma explanation_eligible_ranking:
  assumes "policy_wf p" and "within_limits p i"
  shows "mset (explanation_eligible (explain p i)) = mset (map (explained p i) (ranking p i))"
proof -
  let ?xs = "enumerate 0 (ps_models p)"
  have "model_bounded p m" if "(n, m) \<in> set ?xs" for n m
    using that assms(1) by (auto simp: policy_wf_def in_set_enumerate_eq)
  then have "filter (\<lambda>x. case e_verdict (explained p i x) of Eligible _ \<Rightarrow> True | _ \<Rightarrow> False) ?xs
      = filter (\<lambda>(n, m). eligible p i m) ?xs"
    by (intro filter_cong) (auto simp: explained_def verdict_eligible)
  then have "explanation_eligible (explain p i) = map (explained p i) (filter (\<lambda>(n, m). eligible p i m) ?xs)"
    by (simp add: explain_within [OF assms] explanation_eligible_def filter_map comp_def)
  then show ?thesis by (simp add: ranking_def)
qed


text \<open>
  Explanations agree with decisions: on every request within the hard limits \<open>explain\<close>
  returns the decision of \<open>prescribe\<close> with one verdict per catalog model; the candidates it
  reports eligible are as many as the decision counts (saturating at 65,535); the selected model
  is one of them, with the cost and the utility of the decision; and no eligible candidate has a
  higher utility.
\<close>

lemma explain_agrees:
  assumes "policy_wf p" and "within_limits p i"
  shows "x_decision (explain p i) = prescribe p i
    \<and> map e_model_id (x_candidates (explain p i)) = map model_id (ps_models p)
    \<and> d_eligible_models (prescribe p i) = u16_of_usize (length (explanation_eligible (explain p i)))
    \<and> (is_executable (prescribe p i) \<longrightarrow>
        (\<exists>c \<in> set (explanation_eligible (explain p i)). \<exists>t.
          e_verdict c = Eligible t
          \<and> e_model_id c = d_selected_model_id (prescribe p i)
          \<and> e_model_index c = d_selected_model_index (prescribe p i)
          \<and> t_cost_microunits t = d_estimated_cost_microunits (prescribe p i)
          \<and> t_utility t = d_expected_utility_microunits (prescribe p i))
        \<and> (\<forall>c \<in> set (explanation_eligible (explain p i)). \<forall>t. e_verdict c = Eligible t \<longrightarrow>
            sint (t_utility t) \<le> sint (d_expected_utility_microunits (prescribe p i))))"
proof (intro conjI impI)
  note elig = explanation_eligible_ranking [OF assms]
  note sets = mset_eq_setD [OF elig] and ref = prescribe_reference [OF assms]
  show "x_decision (explain p i) = prescribe p i" by (simp add: explain_within [OF assms])
  have "map (\<lambda>x. model_id (snd x)) (enumerate 0 (ps_models p))
      = map model_id (map snd (enumerate 0 (ps_models p)))"
    by (simp only: map_map comp_def)
  also have "\<dots> = map model_id (ps_models p)" by (simp only: map_snd_enumerate)
  finally show "map e_model_id (x_candidates (explain p i)) = map model_id (ps_models p)"
    by (simp add: explain_within [OF assms] explained_def comp_def case_prod_unfold)
  show "d_eligible_models (prescribe p i) = u16_of_usize (length (explanation_eligible (explain p i)))"
    using mset_eq_length [OF elig] unfolding ref
    by (cases "ranking p i") (simp_all add: reference_decision_def reject_def u16_of_usize_def split: prod.splits)
  assume "is_executable (prescribe p i)"
  then obtain n m rest where r: "ranking p i = (n, m) # rest"
    by (cases "ranking p i") (auto simp: ref reference_action)
  note bounded = ranking_bounded(1,3) [OF assms(1)]
  obtain t where t: "explain_verdict (new_pricing p i) i m = Eligible t"
    "t_cost_microunits t = of_nat (exact_cost m i)" "t_utility t = word_of_int (exact_utility p i m)"
    using eligible_terms [OF bounded [of n m i]] r by auto
  show "\<exists>c \<in> set (explanation_eligible (explain p i)). \<exists>t.
          e_verdict c = Eligible t
          \<and> e_model_id c = d_selected_model_id (prescribe p i)
          \<and> e_model_index c = d_selected_model_index (prescribe p i)
          \<and> t_cost_microunits t = d_estimated_cost_microunits (prescribe p i)
          \<and> t_utility t = d_expected_utility_microunits (prescribe p i)"
    using t r by (intro bexI [of _ "explained p i (n, m)"] exI [of _ t])
      (simp_all add: sets explained_def ref reference_decision_def)
  have "sint (t_utility t') \<le> exact_utility p i m"
    if "(n', m') \<in> set (ranking p i)" "explain_verdict (new_pricing p i) i m' = Eligible t'" for n' m' t'
  proof -
    note b = bounded [OF that(1)]
    have "t_utility t' = word_of_int (exact_utility p i m')"
      using eligible_terms [OF b] that(2) by auto
    moreover have "rank_key p i m \<le> rank_key p i m'"
      using ranking_head [OF r _ b(2)] ranking_bounded(2) [OF assms(1) that(1)] by blast
    ultimately show ?thesis
      using exact_words(2) [OF b(1), of i] by (auto simp: rank_key_def less_eq_prod_def)
  qed
  moreover have "sint (d_expected_utility_microunits (prescribe p i)) = exact_utility p i m"
    using exact_words(2) [OF bounded(1) [of n m i], of i] r by (simp add: ref reference_decision_def)
  ultimately show "\<forall>c \<in> set (explanation_eligible (explain p i)). \<forall>t. e_verdict c = Eligible t \<longrightarrow>
            sint (t_utility t) \<le> sint (d_expected_utility_microunits (prescribe p i))"
    by (auto simp: sets explained_def)
qed

lemma executable_in_catalog:
  assumes "policy_wf p" "is_executable (prescribe p i)"
  shows "\<exists>m \<in> set (ps_models p). model_id m = d_selected_model_id (prescribe p i)"
proof -
  have lim: "within_limits p i"
    using assms(2) prescribe_out_of_limits [of p i] reject_action(2) by metis
  note eq = prescribe_reference [OF assms(1) lim]
  then have "ranking p i \<noteq> []" using assms(2) by (simp add: reference_action)
  then obtain n h rest where h: "ranking p i = (n, h) # rest" by (cases "ranking p i") auto
  then have "h \<in> set (ps_models p)" using ranking_bounded(2) [OF assms(1), of n h i] by simp
  with h show ?thesis by (auto simp: eq reference_decision_def)
qed

section \<open>The utility of one model\<close>

lemma utility_for_model_verdict:
  assumes "within_limits p i" and "List.find (\<lambda>m. model_id m = mid) (ps_models p) = Some m"
  shows "utility_for_model p i mid =
    (case explain_verdict (new_pricing p i) i m of Eligible t \<Rightarrow> Some (t_utility t) | _ \<Rightarrow> None)"
proof -
  have lims: "\<not> risk_bps i \<ge> ps_hard_risk_limit_bps p" "\<not> confidence_bps i < ps_minimum_confidence_bps p"
    using assms(1) by (auto simp: within_limits_def)
  show ?thesis
  proof (cases "first_failed_gate m i")
    case None
    with lims show ?thesis
      by (simp add: utility_for_model_def assms(2) explain_verdict_def pricing_cost_def
          pricing_terms_def new_pricing_def Let_def split: option.splits)
  next
    case (Some g)
    with lims show ?thesis
      by (cases "gate_detail m i g") (simp add: utility_for_model_def assms(2) explain_verdict_def)
  qed
qed

lemma find_distinct:
  assumes "distinct (map f xs)" "x \<in> set xs"
  shows "List.find (\<lambda>y. f y = f x) xs = Some x"
  using assms by (induction xs) force+

text \<open>
  \<open>utility_for_model\<close>, which repeats the gates and the arithmetic in its own body, agrees with
  the explanation: for every candidate of a catalog with distinct identifiers it returns the
  utility of the candidate when the verdict is eligible and nothing otherwise, and it returns
  nothing for an identifier that is not in the catalog.
\<close>

lemma utility_for_model_agrees:
  assumes "policy_wf p" and "within_limits p i" and "distinct (map model_id (ps_models p))"
  shows "(\<forall>c \<in> set (x_candidates (explain p i)).
      utility_for_model p i (e_model_id c) =
        (case e_verdict c of Eligible t \<Rightarrow> Some (t_utility t) | _ \<Rightarrow> None))
    \<and> (\<forall>mid. mid \<notin> model_id ` set (ps_models p) \<longrightarrow> utility_for_model p i mid = None)"
proof (intro conjI ballI allI impI)
  fix c assume "c \<in> set (x_candidates (explain p i))"
  then obtain n m where c: "c = explained p i (n, m)" and m: "m \<in> set (ps_models p)"
    by (auto simp: explain_within [OF assms(1,2)] in_set_enumerate_eq)
  show "utility_for_model p i (e_model_id c) =
      (case e_verdict c of Eligible t \<Rightarrow> Some (t_utility t) | _ \<Rightarrow> None)"
    unfolding c explained_def
    by (simp add: utility_for_model_verdict [OF assms(2) find_distinct [OF assms(3) m]])
next
  fix mid assume "mid \<notin> model_id ` set (ps_models p)"
  then have "List.find (\<lambda>m. model_id m = mid) (ps_models p) = None"
    by (auto simp: find_None_iff)
  then show "utility_for_model p i mid = None" by (simp add: utility_for_model_def)
qed

section \<open>Counters of oversized legacy catalogs\<close>

lemma fold_budget_refusals:
  "fold note_refusal (replicate n (Some BudgetConstraint)) h = h\<lparr> h_budget := h_budget h + of_nat n \<rparr>"
proof (induction n arbitrary: h)
  case (Suc n)
  then show ?case by (simp add: add.assoc)
qed simp

text \<open>
  C39. The budget counter of the decision loop is incremented without saturation, unlike the gate
  counters: for a policy whose catalog has exactly 65,536 models, all of them over the budget, the
  16-bit counter wraps to zero and the rejection is attributed to \<open>NoEnabledModel\<close> instead of the
  budget. Trusted policies are bounded below this size; \<open>try_new\<close> and \<open>new_unchecked\<close> are not.
\<close>

theorem legacy_budget_counter_wraps:
  assumes "policy_wf p" and "within_limits p i" and "length (ps_models p) = 65536"
    and "\<forall>m \<in> set (ps_models p). passes_gates m i \<and> exact_cost m i > unat (budget_limit_microunits i)"
  shows "d_reason (prescribe p i) = NoEnabledModel \<and> refusal_count p i BudgetConstraint = 65536
    \<and> refusal_count p i NoEnabledModel = 0"
proof -
  have ref: "refusal p i m = Some BudgetConstraint" if "m \<in> set (ps_models p)" for m
    using assms(4) that first_failed_gate_None [of m i] by (auto simp: refusal_def)
  then have "map (refusal p i) (ps_models p) = replicate 65536 (Some BudgetConstraint)"
    using assms(3) by (intro replicate_eqI) auto
  moreover have "(of_nat 65536 :: u16) = 0" by simp
  ultimately have "s_rejected (scan_models i (new_pricing p i) 0 (ps_models p) scan_start) = no_rejections"
    by (simp only: scan_histogram [OF assms(1)] fold_budget_refusals) (simp add: no_rejections_def)
  moreover have "dominant_rejection_reason no_rejections = NoEnabledModel"
    by (simp add: dominant_rejection_reason_def rejection_table_def no_rejections_def)
  moreover have "ranking p i = []"
    using ref refusal_None unfolding ranking_empty by force
  ultimately have "d_reason (prescribe p i) = NoEnabledModel"
    by (simp add: prescribe_reference [OF assms(1,2)] d_reason_reference)
  moreover have "filter (\<lambda>m. refusal p i m = Some BudgetConstraint) (ps_models p) = ps_models p"
    "filter (\<lambda>m. refusal p i m = Some NoEnabledModel) (ps_models p) = []"
    using ref by (auto simp: filter_id_conv filter_empty_conv)
  ultimately show ?thesis using assms(3) by (simp add: refusal_count_def)
qed

definition oversized_catalog :: "kernel_model list" where
  "oversized_catalog = map (\<lambda>k. example_model\<lparr> model_id := of_nat k \<rparr>) [0..<65536]"

theorem legacy_budget_counter_wraps_witness:
  "(\<exists>p. try_new 1 1 9600 5500 3500 2 oversized_catalog = Inr p)
   \<and> d_reason (prescribe (new_unchecked 1 1 9600 5500 3500 2 oversized_catalog)
        (example_input\<lparr> budget_limit_microunits := 0 \<rparr>)) = NoEnabledModel"
proof
  let ?p = "new_unchecked 1 1 9600 5500 3500 2 oversized_catalog"
  let ?i = "example_input\<lparr> budget_limit_microunits := 0 \<rparr>"
  have "inj_on (of_nat :: nat \<Rightarrow> u32) {0..<65536}"
    by (auto simp: inj_on_def word_of_nat_eq_iff take_bit_nat_eq_self)
  then have "distinct (map model_id oversized_catalog)"
    by (simp add: oversized_catalog_def comp_def distinct_map)
  moreover have ms: "\<exists>k. m = example_model\<lparr> model_id := of_nat k \<rparr>" if "m \<in> set oversized_catalog" for m
    using that by (auto simp: oversized_catalog_def)
  then have "\<forall>m \<in> set oversized_catalog. model_valid m \<and> enabled m \<noteq> 0"
    by (auto simp: model_valid_def example_defs dest!: ms)
  moreover have "oversized_catalog \<noteq> []" by (simp add: oversized_catalog_def)
  then have "\<exists>m. m \<in> set oversized_catalog" by (meson hd_in_set)
  ultimately have "policy_valid ?p" by (auto simp: policy_valid_new_unchecked)
  then show "\<exists>p. try_new 1 1 9600 5500 3500 2 oversized_catalog = Inr p"
    by (auto simp: try_new_Inr)
  have "within_limits ?p ?i"
    by (simp add: within_limits_def new_unchecked_def example_defs word_le_nat_alt word_less_nat_alt)
  moreover have "length (ps_models ?p) = 65536" by (simp add: oversized_catalog_def)
  moreover have "\<forall>m \<in> set (ps_models ?p). passes_gates m ?i \<and> exact_cost m ?i > unat (budget_limit_microunits ?i)"
    by (auto simp: first_failed_gate_None [symmetric] first_failed_gate_def exact_cost_def token_cost_def
        example_defs MAX_PROVIDER_ID_def ALL_PROVIDERS_def word_less_nat_alt dest!: ms)
  ultimately show "d_reason (prescribe ?p ?i) = NoEnabledModel"
    using legacy_budget_counter_wraps [OF new_unchecked_wf] by blast
qed

end
