(* ===== verification/Budget.thy ===== *)
theory Budget
  imports Calybris_Prelude "HOL-Library.Finite_Map" "HOL-Library.List_Lexorder" "HOL-Library.Char_ord"
begin

text \<open>
  The budget engine (\<open>src/src/budget.rs\<close>), one completed operation at a time: reservations,
  settlements, top-ups, exposure caps, snapshots, restores and migrations. Hash maps are finite
  maps; an atomic is the value it holds; tenant names are byte strings. The operations keep the
  order of the code's checks and effects. \<open>Budget_Inv\<close> has the conservation invariant,
  \<open>Budget_Concurrent\<close> the interleavings of the compare-and-swap loops.
\<close>

section \<open>Results\<close>

datatype budget_reservation =
    Reserved i64
  | Insufficient i64 i64
  | ReserveMissingTenant
  | ReserveMissingReservation
  | ExposureLimitExceeded i64 i64
  | ReserveOverflow i64

datatype top_up_result =
    ToppedUp i64 i64 i64
  | TopUpMissingTenant
  | TopUpInvalidAmount
  | TopUpOverflow

datatype budget_configuration_error = NegativeAmount string i64

datatype budget_settlement =
    Committed i64 i64
  | Released i64 i64
  | Overrun i64
  | InvalidAmount
  | MissingReservation
  | MissingTenant
  | SettleOverflow i64

datatype reserved_total_error = TotalOverflow | ExposureExceeded i64

datatype conservation_status =
    Balanced
  | Violation string i64
  | AggregateOverflow

datatype restore_error =
    ActiveReservations nat
  | GhostReservation string i64
  | NegativeLedgerField string string i64
  | ConservationViolation conservation_status
  | DuplicateTenant string

datatype legacy_snapshot_migration_error =
    AlreadyRecoveryAware
  | MigrationInvalidFence u64 u64
  | MigrationInvalidSnapshot restore_error

datatype recovery_snapshot_error =
    LegacySnapshotRequiresMigration
  | RecoveryInvalidFence u64
  | RecoveryInvalidSnapshot restore_error

datatype snapshot_allocator_error = AllocatorExhausted

section \<open>State\<close>

record reservation_record =
  rr_tenant_id :: string
  rr_reserved_microcents :: i64

record budget_engine =
  tenant_budgets :: "(string, i64) fmap"
  initial_microcents :: "(string, i64) fmap"
  committed_microcents :: "(string, i64) fmap"
  reservations :: "(u64, reservation_record) fmap"
  max_reserved_microcents :: "(string, i64) fmap"
  tenant_reserved_totals :: "(string, i64) fmap"
  next_id :: u64
  snapshot_version :: u64
  last_certified_committed_total :: i64

record tenant_ledger =
  l_tenant_id :: string
  l_initial_microcents :: i64
  l_remaining_microcents :: i64
  l_reserved_microcents :: i64
  l_committed_microcents :: i64

record budget_snapshot =
  sn_version :: u64
  sn_tenants :: "tenant_ledger list"
  sn_active_reservations :: nat
  sn_wal_high_watermark :: "u64 option"

definition new_engine :: budget_engine where
  "new_engine = \<lparr> tenant_budgets = fmempty, initial_microcents = fmempty,
     committed_microcents = fmempty, reservations = fmempty, max_reserved_microcents = fmempty,
     tenant_reserved_totals = fmempty, next_id = 1, snapshot_version = 0,
     last_certified_committed_total = 0 \<rparr>"

section \<open>Balance updates\<close>

text \<open>
  The compare-and-swap loops with no interference: the first exchange succeeds, so each is a
  check of the loaded value followed by its replacement.
\<close>

definition debit_if_available :: "i64 \<Rightarrow> i64 \<Rightarrow> i64 + i64" where
  "debit_if_available current amount =
     (if sint current < sint amount then Inl current else Inr (current - amount))"

definition credit_if_no_overflow :: "i64 \<Rightarrow> i64 \<Rightarrow> unit + i64" where
  "credit_if_no_overflow current amount = ok_or () (checked_add_i64 current amount)"

definition try_increment_reserved_total :: "i64 \<Rightarrow> i64 \<Rightarrow> i64 \<Rightarrow> reserved_total_error + i64" where
  "try_increment_reserved_total current amount mx =
     (case checked_add_i64 current amount of
        None \<Rightarrow> Inl TotalOverflow
      | Some new_total \<Rightarrow>
          if sint mx > 0 \<and> sint new_total > sint mx then Inl (ExposureExceeded current)
          else Inr new_total)"

definition RECOVERY_SNAPSHOT_TAG :: u64 where
  "RECOVERY_SNAPSHOT_TAG = push_bit 63 1"

definition RECOVERY_ALLOCATOR_MASK :: u64 where
  "RECOVERY_ALLOCATOR_MASK = RECOVERY_SNAPSHOT_TAG - 1"

text \<open>\<open>next_id.fetch_update\<close>, as \<open>try_reserve\<close> and \<open>try_snapshot\<close> call it.\<close>

definition allocate_id :: "budget_engine \<Rightarrow> (u64 \<times> budget_engine) option" where
  "allocate_id e =
     (if next_id e < RECOVERY_ALLOCATOR_MASK
      then Some (next_id e, e\<lparr> next_id := next_id e + 1 \<rparr>) else None)"

section \<open>Operations\<close>

definition try_set_max_reserved_microcents ::
  "string \<Rightarrow> i64 \<Rightarrow> budget_engine \<Rightarrow> (budget_configuration_error + unit) \<times> budget_engine" where
  "try_set_max_reserved_microcents t mx e =
     (if sint mx < 0 then (Inl (NegativeAmount ''max_reserved_microcents'' mx), e)
      else if mx = 0
        then (Inr (), e\<lparr> max_reserved_microcents := fmdrop t (max_reserved_microcents e) \<rparr>)
      else (Inr (), e\<lparr> max_reserved_microcents := fmupd t mx (max_reserved_microcents e) \<rparr>))"

definition set_max_reserved_microcents :: "string \<Rightarrow> i64 \<Rightarrow> budget_engine \<Rightarrow> budget_engine" where
  "set_max_reserved_microcents t mx e = snd (try_set_max_reserved_microcents t mx e)"

definition try_ensure_tenant ::
  "string \<Rightarrow> i64 \<Rightarrow> budget_engine \<Rightarrow> (budget_configuration_error + unit) \<times> budget_engine" where
  "try_ensure_tenant t budget e =
     (if sint budget < 0 then (Inl (NegativeAmount ''budget_microcents'' budget), e)
      else if fmlookup (tenant_budgets e) t = None
        then (Inr (), e\<lparr> tenant_budgets := fmupd t budget (tenant_budgets e),
                        initial_microcents := fmupd t budget (initial_microcents e),
                        committed_microcents := fmupd t 0 (committed_microcents e),
                        tenant_reserved_totals := fmupd t 0 (tenant_reserved_totals e) \<rparr>)
      else (Inr (), e))"

definition ensure_tenant :: "string \<Rightarrow> i64 \<Rightarrow> budget_engine \<Rightarrow> budget_engine" where
  "ensure_tenant t budget e = snd (try_ensure_tenant t budget e)"

definition top_up_tenant :: "string \<Rightarrow> i64 \<Rightarrow> budget_engine \<Rightarrow> top_up_result \<times> budget_engine" where
  "top_up_tenant t amount e =
     (if sint amount \<le> 0 then (TopUpInvalidAmount, e)
      else case fmlookup (tenant_budgets e) t of
          None \<Rightarrow> (TopUpMissingTenant, e)
        | Some balance \<Rightarrow>
            (case fmlookup (initial_microcents e) t of
               None \<Rightarrow> (TopUpMissingTenant, e)
             | Some current_initial \<Rightarrow>
                 (case checked_add_i64 current_initial amount of
                    None \<Rightarrow> (TopUpOverflow, e)
                  | Some new_initial \<Rightarrow>
                      (case credit_if_no_overflow balance amount of
                         Inl _ \<Rightarrow> (TopUpOverflow, e)
                       | Inr remaining \<Rightarrow>
                           (ToppedUp amount new_initial remaining,
                            e\<lparr> tenant_budgets := fmupd t remaining (tenant_budgets e),
                               initial_microcents := fmupd t new_initial (initial_microcents e) \<rparr>)))))"

definition try_reserve ::
  "string \<Rightarrow> i64 \<Rightarrow> budget_engine \<Rightarrow> (budget_reservation \<times> u64 option) \<times> budget_engine" where
  "try_reserve t cost e =
     (if sint cost \<le> 0 then ((Insufficient 0 cost, None), e)
      else case (fmlookup (tenant_budgets e) t, fmlookup (tenant_reserved_totals e) t) of
          (Some balance, Some tot) \<Rightarrow>
            let mx = (case fmlookup (max_reserved_microcents e) t of None \<Rightarrow> 0 | Some m \<Rightarrow> m) in
            (case try_increment_reserved_total tot cost mx of
               Inl TotalOverflow \<Rightarrow> ((ReserveOverflow tot, None), e)
             | Inl (ExposureExceeded current) \<Rightarrow> ((ExposureLimitExceeded current mx, None), e)
             | Inr new_total \<Rightarrow>
                 let e1 = e\<lparr> tenant_reserved_totals := fmupd t new_total (tenant_reserved_totals e) \<rparr> in
                 (case allocate_id e1 of
                    None \<Rightarrow>
                      ((ReserveOverflow (new_total - cost), None),
                       e1\<lparr> tenant_reserved_totals :=
                             fmupd t (new_total - cost) (tenant_reserved_totals e1) \<rparr>)
                  | Some (rid, e2) \<Rightarrow>
                      (case debit_if_available balance cost of
                         Inl current \<Rightarrow>
                           ((Insufficient current cost, None),
                            e2\<lparr> tenant_reserved_totals :=
                                  fmupd t (new_total - cost) (tenant_reserved_totals e2) \<rparr>)
                       | Inr remaining \<Rightarrow>
                           ((Reserved remaining, Some rid),
                            e2\<lparr> tenant_budgets := fmupd t remaining (tenant_budgets e2),
                                reservations := fmupd rid
                                  \<lparr> rr_tenant_id = t, rr_reserved_microcents = cost \<rparr>
                                  (reservations e2) \<rparr>))))
        | _ \<Rightarrow> ((ReserveMissingTenant, None), e))"

text \<open>The decrement of the reserved total in \<open>commit\<close> and \<open>release\<close>.\<close>

definition drop_hold :: "string \<Rightarrow> i64 \<Rightarrow> budget_engine \<Rightarrow> budget_engine" where
  "drop_hold t amount e =
     (case fmlookup (tenant_reserved_totals e) t of
        None \<Rightarrow> e
      | Some tot \<Rightarrow>
          e\<lparr> tenant_reserved_totals := fmupd t (tot - amount) (tenant_reserved_totals e) \<rparr>)"

definition commit :: "u64 \<Rightarrow> i64 \<Rightarrow> budget_engine \<Rightarrow> budget_settlement \<times> budget_engine" where
  "commit rid actual e =
     (if sint actual < 0 then (InvalidAmount, e)
      else case fmlookup (reservations e) rid of
          None \<Rightarrow> (MissingReservation, e)
        | Some r \<Rightarrow>
            let e1 = e\<lparr> reservations := fmdrop rid (reservations e) \<rparr>;
                put_back = (\<lambda>e. e\<lparr> reservations := fmupd rid r (reservations e) \<rparr>);
                t = rr_tenant_id r
            in (case fmlookup (tenant_budgets e1) t of
                  None \<Rightarrow> (MissingTenant, put_back e1)
                | Some balance \<Rightarrow>
                    let current_committed =
                          (case fmlookup (committed_microcents e1) t of None \<Rightarrow> 0 | Some c \<Rightarrow> c)
                    in (case checked_add_i64 current_committed actual of
                          None \<Rightarrow> (SettleOverflow balance, put_back e1)
                        | Some new_committed \<Rightarrow>
                            let delta = actual - rr_reserved_microcents r in
                            (case (if sint delta > 0 then debit_if_available balance delta
                                   else Inr balance) of
                               Inl remaining \<Rightarrow> (Overrun remaining, put_back e1)
                             | Inr debited \<Rightarrow>
                                 let remaining = (if sint delta < 0 then debited + (- delta) else debited);
                                     e2 = e1\<lparr> committed_microcents :=
                                                fmupd t new_committed (committed_microcents e1),
                                              tenant_budgets :=
                                                fmupd t remaining (tenant_budgets e1) \<rparr>
                                 in (Committed remaining actual,
                                     drop_hold t (rr_reserved_microcents r) e2)))))"

definition release :: "u64 \<Rightarrow> budget_engine \<Rightarrow> budget_settlement \<times> budget_engine" where
  "release rid e =
     (case fmlookup (reservations e) rid of
        None \<Rightarrow> (MissingReservation, e)
      | Some r \<Rightarrow>
          let e1 = e\<lparr> reservations := fmdrop rid (reservations e) \<rparr>;
              t = rr_tenant_id r
          in (case fmlookup (tenant_budgets e1) t of
                None \<Rightarrow> (MissingTenant, e1\<lparr> reservations := fmupd rid r (reservations e1) \<rparr>)
              | Some balance \<Rightarrow>
                  let returned = rr_reserved_microcents r;
                      e2 = drop_hold t returned e1
                  in (Released (balance + returned) returned,
                      e2\<lparr> tenant_budgets := fmupd t (balance + returned) (tenant_budgets e2) \<rparr>)))"

section \<open>Owned reservations\<close>

record reservation =
  ow_id :: u64
  ow_amount_microcents :: i64

definition reserve_owned ::
  "string \<Rightarrow> i64 \<Rightarrow> budget_engine \<Rightarrow> (budget_reservation + reservation) \<times> budget_engine" where
  "reserve_owned t cost e =
     (case try_reserve t cost e of
        ((Reserved remaining, Some rid), e') \<Rightarrow> (Inr \<lparr> ow_id = rid, ow_amount_microcents = cost \<rparr>, e')
      | ((refused, _), e') \<Rightarrow> (Inl refused, e'))"

definition owned_commit ::
  "reservation \<Rightarrow> i64 \<Rightarrow> budget_engine
    \<Rightarrow> (budget_settlement \<times> reservation + budget_settlement) \<times> budget_engine" where
  "owned_commit r actual e =
     (case commit (ow_id r) actual e of
        (Overrun remaining, e') \<Rightarrow> (Inl (Overrun remaining, r), e')
      | (settled, e') \<Rightarrow> (Inr settled, e'))"

definition owned_release :: "reservation \<Rightarrow> budget_engine \<Rightarrow> budget_settlement \<times> budget_engine" where
  "owned_release r e = release (ow_id r) e"

section \<open>Queries\<close>

definition initial_of :: "budget_engine \<Rightarrow> string \<Rightarrow> i64 option" where
  "initial_of e t = fmlookup (initial_microcents e) t"

definition committed_of :: "budget_engine \<Rightarrow> string \<Rightarrow> i64 option" where
  "committed_of e t = fmlookup (committed_microcents e) t"

definition reserved_of :: "budget_engine \<Rightarrow> string \<Rightarrow> i64" where
  "reserved_of e t = (case fmlookup (tenant_reserved_totals e) t of None \<Rightarrow> 0 | Some v \<Rightarrow> v)"

definition remaining_of :: "budget_engine \<Rightarrow> string \<Rightarrow> i64 option" where
  "remaining_of e t = fmlookup (tenant_budgets e) t"

definition tenant_count :: "budget_engine \<Rightarrow> nat" where
  "tenant_count e = fcard (fmdom (tenant_budgets e))"

definition active_reservations :: "budget_engine \<Rightarrow> nat" where
  "active_reservations e = fcard (fmdom (reservations e))"

fun checked_sum_i128 :: "i128 \<Rightarrow> i64 list \<Rightarrow> i128 option" where
  "checked_sum_i128 tot [] = Some tot"
| "checked_sum_i128 tot (a # as) =
     (if in_i128 (tot + sint a) then checked_sum_i128 (tot + sint a) as else None)"

definition try_total_committed_microcents :: "budget_engine \<Rightarrow> conservation_status + i64" where
  "try_total_committed_microcents e =
     (case checked_sum_i128 0 (map snd (sorted_list_of_fmap (committed_microcents e))) of
        None \<Rightarrow> Inl AggregateOverflow
      | Some tot \<Rightarrow> ok_or AggregateOverflow (i64_try_from tot))"

definition total_committed_microcents :: "budget_engine \<Rightarrow> i64" where
  "total_committed_microcents e =
     (case try_total_committed_microcents e of Inl _ \<Rightarrow> word_of_int i64_max | Inr v \<Rightarrow> v)"

definition committed_since_last_certificate :: "budget_engine \<Rightarrow> i64" where
  "committed_since_last_certificate e =
     saturating_sub_i64 (total_committed_microcents e) (last_certified_committed_total e)"

definition rotate_certificate_baseline :: "i64 \<Rightarrow> budget_engine \<Rightarrow> i64 \<times> budget_engine" where
  "rotate_certificate_baseline tot e =
     (if sint tot \<le> sint (last_certified_committed_total e) then (0, e)
      else (tot - last_certified_committed_total e, e\<lparr> last_certified_committed_total := tot \<rparr>))"

section \<open>Snapshots\<close>

fun conservation_status_for_snapshot :: "tenant_ledger list \<Rightarrow> conservation_status" where
  "conservation_status_for_snapshot [] = Balanced"
| "conservation_status_for_snapshot (l # ls) =
     (case Option.bind (checked_add_i64 (l_remaining_microcents l) (l_reserved_microcents l))
             (\<lambda>v. checked_add_i64 v (l_committed_microcents l)) of
        None \<Rightarrow> AggregateOverflow
      | Some tot \<Rightarrow>
          if tot \<noteq> l_initial_microcents l then
            (case checked_sub_i64 tot (l_initial_microcents l) of
               None \<Rightarrow> AggregateOverflow
             | Some delta \<Rightarrow> Violation (l_tenant_id l) delta)
          else if sint (l_remaining_microcents l) < 0
            then Violation (l_tenant_id l) (l_remaining_microcents l)
          else conservation_status_for_snapshot ls)"

definition tenant_row :: "budget_engine \<Rightarrow> string \<times> i64 \<Rightarrow> tenant_ledger" where
  "tenant_row e = (\<lambda>(t, balance).
     \<lparr> l_tenant_id = t,
       l_initial_microcents = (case fmlookup (initial_microcents e) t of None \<Rightarrow> 0 | Some v \<Rightarrow> v),
       l_remaining_microcents = balance,
       l_reserved_microcents = (case fmlookup (tenant_reserved_totals e) t of None \<Rightarrow> 0 | Some v \<Rightarrow> v),
       l_committed_microcents = (case fmlookup (committed_microcents e) t of None \<Rightarrow> 0 | Some v \<Rightarrow> v) \<rparr>)"

definition try_snapshot ::
  "budget_engine \<Rightarrow> (snapshot_allocator_error + budget_snapshot) \<times> budget_engine" where
  "try_snapshot e =
     (let tenants = map (tenant_row e) (sorted_list_of_fmap (tenant_budgets e)) in
      case allocate_id e of
        None \<Rightarrow> (Inl AllocatorExhausted, e)
      | Some (previous_id, e1) \<Rightarrow>
          let version = RECOVERY_SNAPSHOT_TAG OR (previous_id + 1) in
          (Inr \<lparr> sn_version = version, sn_tenants = tenants,
                  sn_active_reservations = active_reservations e, sn_wal_high_watermark = None \<rparr>,
           e1\<lparr> snapshot_version := version \<rparr>))"

text \<open>\<open>verify_conservation\<close>; a failed snapshot, which panics in the code, is \<open>None\<close>.\<close>

definition verify_conservation :: "budget_engine \<Rightarrow> conservation_status option \<times> budget_engine" where
  "verify_conservation e =
     (case try_snapshot e of
        (Inl _, e') \<Rightarrow> (None, e')
      | (Inr s, e') \<Rightarrow> (Some (conservation_status_for_snapshot (sn_tenants s)), e'))"

text \<open>\<open>i64::try_from(version).unwrap_or(i64::MAX)\<close>.\<close>

definition allocator_from_snapshot_version :: "u64 \<Rightarrow> restore_error + u64" where
  "allocator_from_snapshot_version version =
     (let next_id = version AND RECOVERY_ALLOCATOR_MASK in
      if version AND RECOVERY_SNAPSHOT_TAG = 0 \<or> next_id = 0
      then Inl (NegativeLedgerField ''<snapshot-metadata>'' ''recovery-aware version tag''
                  (if sint version \<ge> 0 then version else word_of_int i64_max))
      else Inr next_id)"

fun validate_ledger_rows :: "string set \<Rightarrow> tenant_ledger list \<Rightarrow> restore_error + unit" where
  "validate_ledger_rows seen [] = Inr ()"
| "validate_ledger_rows seen (l # ls) =
     (if l_tenant_id l \<in> seen then Inl (DuplicateTenant (l_tenant_id l))
      else if l_reserved_microcents l \<noteq> 0
        then Inl (GhostReservation (l_tenant_id l) (l_reserved_microcents l))
      else if sint (l_remaining_microcents l) < 0
        then Inl (NegativeLedgerField (l_tenant_id l) ''remaining_microcents'' (l_remaining_microcents l))
      else if sint (l_initial_microcents l) < 0
        then Inl (NegativeLedgerField (l_tenant_id l) ''initial_microcents'' (l_initial_microcents l))
      else if sint (l_committed_microcents l) < 0
        then Inl (NegativeLedgerField (l_tenant_id l) ''committed_microcents'' (l_committed_microcents l))
      else validate_ledger_rows (insert (l_tenant_id l) seen) ls)"

definition validate_snapshot_ledger :: "budget_snapshot \<Rightarrow> restore_error + unit" where
  "validate_snapshot_ledger s =
     (if sn_active_reservations s > 0 then Inl (ActiveReservations (sn_active_reservations s))
      else and_then (validate_ledger_rows {} (sn_tenants s))
        (\<lambda>_. case conservation_status_for_snapshot (sn_tenants s) of
               Balanced \<Rightarrow> Inr ()
             | status \<Rightarrow> Inl (ConservationViolation status)))"

definition validate_snapshot_for_restore :: "budget_snapshot \<Rightarrow> restore_error + unit" where
  "validate_snapshot_for_restore s =
     and_then (allocator_from_snapshot_version (sn_version s)) (\<lambda>_. validate_snapshot_ledger s)"

definition migrate_legacy_snapshot ::
  "budget_snapshot \<Rightarrow> u64 \<Rightarrow> legacy_snapshot_migration_error + budget_snapshot" where
  "migrate_legacy_snapshot s trusted =
     (if sn_version s AND RECOVERY_SNAPSHOT_TAG \<noteq> 0 then Inl AlreadyRecoveryAware
      else if trusted = 0 \<or> trusted > RECOVERY_ALLOCATOR_MASK
        then Inl (MigrationInvalidFence trusted RECOVERY_ALLOCATOR_MASK)
      else and_then (map_err MigrationInvalidSnapshot (validate_snapshot_ledger s))
        (\<lambda>_. Inr (s\<lparr> sn_version := RECOVERY_SNAPSHOT_TAG OR trusted \<rparr>)))"

fun sum_committed :: "i64 \<Rightarrow> tenant_ledger list \<Rightarrow> i64 option" where
  "sum_committed tot [] = Some tot"
| "sum_committed tot (l # ls) =
     Option.bind (checked_add_i64 tot (l_committed_microcents l)) (\<lambda>v. sum_committed v ls)"

definition restore_row :: "tenant_ledger \<Rightarrow> budget_engine \<Rightarrow> budget_engine" where
  "restore_row l e =
     e\<lparr> tenant_budgets := fmupd (l_tenant_id l) (l_remaining_microcents l) (tenant_budgets e),
        initial_microcents := fmupd (l_tenant_id l) (l_initial_microcents l) (initial_microcents e),
        committed_microcents := fmupd (l_tenant_id l) (l_committed_microcents l) (committed_microcents e),
        tenant_reserved_totals :=
          fmupd (l_tenant_id l) (l_reserved_microcents l) (tenant_reserved_totals e) \<rparr>"

definition restore_from_snapshot ::
  "budget_snapshot \<Rightarrow> budget_engine \<Rightarrow> (restore_error + unit) \<times> budget_engine" where
  "restore_from_snapshot s e =
     (case validate_snapshot_for_restore s of
        Inl err \<Rightarrow> (Inl err, e)
      | Inr _ \<Rightarrow>
          (case allocator_from_snapshot_version (sn_version s) of
             Inl err \<Rightarrow> (Inl err, e)
           | Inr next_reservation_id \<Rightarrow>
               let restored_committed_total =
                     (case sum_committed 0 (sn_tenants s) of None \<Rightarrow> word_of_int i64_max | Some v \<Rightarrow> v);
                   cleared = e\<lparr> reservations := fmempty, tenant_budgets := fmempty,
                                initial_microcents := fmempty, committed_microcents := fmempty,
                                tenant_reserved_totals := fmempty, max_reserved_microcents := fmempty \<rparr>;
                   filled = fold restore_row (sn_tenants s) cleared
               in (Inr (), filled\<lparr> next_id := next_reservation_id, snapshot_version := sn_version s,
                                   last_certified_committed_total := restored_committed_total \<rparr>)))"

definition restore_from_recovery_snapshot ::
  "budget_snapshot \<Rightarrow> budget_engine \<Rightarrow> (recovery_snapshot_error + unit) \<times> budget_engine" where
  "restore_from_recovery_snapshot s e =
     (if sn_version s AND RECOVERY_SNAPSHOT_TAG = 0 then (Inl LegacySnapshotRequiresMigration, e)
      else if sn_version s AND RECOVERY_ALLOCATOR_MASK = 0
        then (Inl (RecoveryInvalidFence (sn_version s AND RECOVERY_ALLOCATOR_MASK)), e)
      else case validate_snapshot_ledger s of
          Inl err \<Rightarrow> (Inl (RecoveryInvalidSnapshot err), e)
        | Inr _ \<Rightarrow>
            let (r, e') = restore_from_snapshot s e in (map_err RecoveryInvalidSnapshot r, e'))"

end
