(* ===== verification/Budget_Inv.thy ===== *)
theory Budget_Inv
  imports Budget
begin

text \<open>
  The conservation invariant of the budget engine. \<open>engine_inv\<close> relates the cached balances and
  reserved totals to the initial grants, the lifetime spend and the open holds, as mathematical
  integers; every operation keeps it from every state, so it holds after any sequence of
  operations.
\<close>

section \<open>Open holds\<close>

definition held :: "(u64, reservation_record) fmap \<Rightarrow> string \<Rightarrow> int" where
  "held m t = (\<Sum>i \<in> fset (fmdom m).
     case fmlookup m i of
       None \<Rightarrow> 0
     | Some r \<Rightarrow> if rr_tenant_id r = t then sint (rr_reserved_microcents r) else 0)"

lemma held_empty [simp]: "held fmempty t = 0"
  by (simp add: held_def)

lemma held_upd:
  assumes "fmlookup m i = None"
  shows "held (fmupd i r m) t =
    held m t + (if rr_tenant_id r = t then sint (rr_reserved_microcents r) else 0)"
proof -
  have i: "i \<notin> fset (fmdom m)" using assms by (simp add: fmdom_notI)
  have "held (fmupd i r m) t = (if rr_tenant_id r = t then sint (rr_reserved_microcents r) else 0)
      + (\<Sum>j \<in> fset (fmdom m). case fmlookup (fmupd i r m) j of None \<Rightarrow> 0
           | Some r \<Rightarrow> if rr_tenant_id r = t then sint (rr_reserved_microcents r) else 0)"
    using i by (simp add: held_def)
  also have "(\<Sum>j \<in> fset (fmdom m). case fmlookup (fmupd i r m) j of None \<Rightarrow> 0
           | Some r \<Rightarrow> if rr_tenant_id r = t then sint (rr_reserved_microcents r) else 0) = held m t"
    unfolding held_def using i by (intro sum.cong) auto
  finally show ?thesis by simp
qed

lemma fmupd_fmdrop_same: "fmlookup m i = Some r \<Longrightarrow> fmupd i r (fmdrop i m) = m"
  by (rule fmap_ext) auto

lemma held_drop:
  assumes "fmlookup m i = Some r"
  shows "held (fmdrop i m) t =
    held m t - (if rr_tenant_id r = t then sint (rr_reserved_microcents r) else 0)"
  using held_upd [of "fmdrop i m" i r t] by (simp add: fmupd_fmdrop_same [OF assms])

definition holds_positive :: "(u64, reservation_record) fmap \<Rightarrow> bool" where
  "holds_positive m \<longleftrightarrow> (\<forall>i r. fmlookup m i = Some r \<longrightarrow> 0 < sint (rr_reserved_microcents r))"

lemma held_nonneg: "holds_positive m \<Longrightarrow> 0 \<le> held m t"
  unfolding held_def holds_positive_def
  by (intro sum_nonneg) (auto split: option.splits intro: less_imp_le)

lemma holds_positive_drop: "holds_positive m \<Longrightarrow> holds_positive (fmdrop i m)"
  by (auto simp: holds_positive_def fmlookup_drop split: if_splits)

lemma held_ge:
  assumes "holds_positive m" "fmlookup m i = Some r"
  shows "sint (rr_reserved_microcents r) \<le> held m (rr_tenant_id r)"
  using held_nonneg [OF holds_positive_drop [OF assms(1)], of i "rr_tenant_id r"]
  by (simp add: held_drop [OF assms(2)])

section \<open>The invariant\<close>

definition tenant_ok :: "budget_engine \<Rightarrow> string \<Rightarrow> i64 \<Rightarrow> i64 \<Rightarrow> i64 \<Rightarrow> i64 \<Rightarrow> bool" where
  "tenant_ok e t remaining reserved spent granted \<longleftrightarrow>
     fmlookup (tenant_budgets e) t = Some remaining
     \<and> fmlookup (tenant_reserved_totals e) t = Some reserved
     \<and> fmlookup (committed_microcents e) t = Some spent
     \<and> fmlookup (initial_microcents e) t = Some granted
     \<and> 0 \<le> sint remaining \<and> 0 \<le> sint spent
     \<and> sint reserved = held (reservations e) t
     \<and> sint remaining + sint reserved + sint spent = sint granted"

definition tenant_absent :: "budget_engine \<Rightarrow> string \<Rightarrow> bool" where
  "tenant_absent e t \<longleftrightarrow>
     fmlookup (tenant_budgets e) t = None
     \<and> fmlookup (tenant_reserved_totals e) t = None
     \<and> fmlookup (committed_microcents e) t = None
     \<and> fmlookup (initial_microcents e) t = None"

definition engine_inv :: "budget_engine \<Rightarrow> bool" where
  "engine_inv e \<longleftrightarrow>
     (\<forall>t. tenant_absent e t \<or> (\<exists>a b c d. tenant_ok e t a b c d))
     \<and> (\<forall>i r. fmlookup (reservations e) i = Some r \<longrightarrow>
           0 < sint (rr_reserved_microcents r) \<and> \<not> tenant_absent e (rr_tenant_id r)
           \<and> unat i < unat (next_id e))
     \<and> 0 < unat (next_id e) \<and> unat (next_id e) < 2 ^ 63
     \<and> (\<forall>t mx. fmlookup (max_reserved_microcents e) t = Some mx \<longrightarrow> 0 < sint mx)"

lemma engine_inv_cases:
  assumes "engine_inv e"
  obtains "tenant_absent e t" | a b c d where "tenant_ok e t a b c d"
  using assms unfolding engine_inv_def by blast

lemma engine_inv_holds: "engine_inv e \<Longrightarrow> holds_positive (reservations e)"
  by (auto simp: engine_inv_def holds_positive_def)

lemma engine_inv_hold:
  assumes "engine_inv e" "fmlookup (reservations e) i = Some r"
  obtains a b c d where "tenant_ok e (rr_tenant_id r) a b c d" "0 < sint (rr_reserved_microcents r)"
    "sint (rr_reserved_microcents r) \<le> sint b"
proof -
  from assms have p: "0 < sint (rr_reserved_microcents r)" "\<not> tenant_absent e (rr_tenant_id r)"
    by (auto simp: engine_inv_def)
  then obtain a b c d where ok: "tenant_ok e (rr_tenant_id r) a b c d"
    using assms(1) by (metis engine_inv_cases)
  moreover have "sint (rr_reserved_microcents r) \<le> sint b"
    using held_ge [OF engine_inv_holds [OF assms(1)] assms(2)] ok by (simp add: tenant_ok_def)
  ultimately show thesis using p that by blast
qed

lemma alloc_mask: "unat RECOVERY_ALLOCATOR_MASK = 2 ^ 63 - 1"
  by (simp add: RECOVERY_ALLOCATOR_MASK_def RECOVERY_SNAPSHOT_TAG_def push_bit_eq_mult)

lemma next_id_less_mask: "next_id e < RECOVERY_ALLOCATOR_MASK \<longleftrightarrow> unat (next_id e) < 2 ^ 63 - 1"
  by (simp add: word_less_nat_alt alloc_mask)

lemma engine_inv_new: "engine_inv new_engine"
  by (simp add: engine_inv_def new_engine_def tenant_absent_def)

text \<open>
  The invariant is local: a step that changes the ledger of one tenant only has to restore the
  equation of that tenant, with the holds of every other tenant unchanged.
\<close>

lemma engine_inv_local:
  assumes inv: "engine_inv e"
    and others: "\<And>s. s \<noteq> t \<Longrightarrow> fmlookup (tenant_budgets e') s = fmlookup (tenant_budgets e) s
        \<and> fmlookup (tenant_reserved_totals e') s = fmlookup (tenant_reserved_totals e) s
        \<and> fmlookup (committed_microcents e') s = fmlookup (committed_microcents e) s
        \<and> fmlookup (initial_microcents e') s = fmlookup (initial_microcents e) s
        \<and> held (reservations e') s = held (reservations e) s"
    and ok: "tenant_ok e' t a b c d"
    and holds: "\<And>i r. fmlookup (reservations e') i = Some r \<Longrightarrow>
        fmlookup (reservations e) i = Some r \<and> unat i < unat (next_id e')
        \<or> (0 < sint (rr_reserved_microcents r) \<and> rr_tenant_id r = t \<and> unat i < unat (next_id e'))"
    and ids: "0 < unat (next_id e')" "unat (next_id e') < 2 ^ 63"
    and caps: "max_reserved_microcents e' = max_reserved_microcents e"
  shows "engine_inv e'"
  unfolding engine_inv_def
proof (intro conjI allI impI)
  have present: "\<not> tenant_absent e' t" using ok by (simp add: tenant_ok_def tenant_absent_def)
  show "tenant_absent e' s \<or> (\<exists>a b c d. tenant_ok e' s a b c d)" for s
  proof (cases "s = t")
    case False
    then show ?thesis
      using others [OF False] by (cases rule: engine_inv_cases [OF inv, of s])
        (auto simp: tenant_ok_def tenant_absent_def)
  qed (use ok in blast)
  fix i r assume r: "fmlookup (reservations e') i = Some r"
  have old: "\<not> tenant_absent e' (rr_tenant_id r)" if "\<not> tenant_absent e (rr_tenant_id r)"
    using that present others [of "rr_tenant_id r"]
    by (cases "rr_tenant_id r = t") (auto simp: tenant_absent_def)
  show "0 < sint (rr_reserved_microcents r)" "\<not> tenant_absent e' (rr_tenant_id r)"
    "unat i < unat (next_id e')"
    using holds [OF r] inv old present by (auto simp: engine_inv_def)
next
  show "0 < unat (next_id e')" "unat (next_id e') < 2 ^ 63" by (rule ids)+
  show "0 < sint mx" if "fmlookup (max_reserved_microcents e') t = Some mx" for t mx
    using that inv caps by (auto simp: engine_inv_def)
qed

section \<open>The operations on a well-formed engine\<close>

lemma fmupd_same: "fmlookup m k = Some v \<Longrightarrow> fmupd k v m = m"
  by (rule fmap_ext) auto

lemma fmupd_upd: "fmupd k v (fmupd k w m) = fmupd k v m"
  by (rule fmap_ext) auto

definition cap_of :: "budget_engine \<Rightarrow> string \<Rightarrow> i64" where
  "cap_of e t = (case fmlookup (max_reserved_microcents e) t of None \<Rightarrow> 0 | Some m \<Rightarrow> m)"

lemma try_reserve_ok:
  assumes "engine_inv e" "tenant_ok e t a b c d" "0 < sint cost"
  shows "try_reserve t cost e =
    (if \<not> in_i64 (sint b + sint cost) then ((ReserveOverflow b, None), e)
     else if 0 < sint (cap_of e t) \<and> sint (cap_of e t) < sint b + sint cost
       then ((ExposureLimitExceeded b (cap_of e t), None), e)
     else if unat (next_id e) = 2 ^ 63 - 1 then ((ReserveOverflow b, None), e)
     else if sint a < sint cost
       then ((Insufficient a cost, None), e\<lparr> next_id := next_id e + 1 \<rparr>)
     else ((Reserved (a - cost), Some (next_id e)),
           e\<lparr> next_id := next_id e + 1,
              tenant_reserved_totals := fmupd t (b + cost) (tenant_reserved_totals e),
              tenant_budgets := fmupd t (a - cost) (tenant_budgets e),
              reservations := fmupd (next_id e) \<lparr> rr_tenant_id = t, rr_reserved_microcents = cost \<rparr>
                (reservations e) \<rparr>))"
proof -
  have t: "fmlookup (tenant_budgets e) t = Some a" "fmlookup (tenant_reserved_totals e) t = Some b"
    using assms(2) by (simp_all add: tenant_ok_def)
  have id: "next_id e < RECOVERY_ALLOCATOR_MASK \<longleftrightarrow> unat (next_id e) \<noteq> 2 ^ 63 - 1"
    using assms(1) by (auto simp: next_id_less_mask engine_inv_def)
  have undo: "e\<lparr> tenant_reserved_totals := fmupd t b (tenant_reserved_totals e) \<rparr> = e"
    by (simp add: fmupd_same [OF t(2)])
  show ?thesis
    using assms(3) undo
    by (auto simp: try_reserve_def t try_increment_reserved_total_def checked_add_i64_def cap_of_def
        allocate_id_def id debit_if_available_def fmupd_upd fmupd_same [OF t(2)] word_fit Let_def)
qed

lemma try_reserve_absent:
  "tenant_absent e t \<Longrightarrow> 0 < sint cost \<Longrightarrow> try_reserve t cost e = ((ReserveMissingTenant, None), e)"
  by (auto simp: try_reserve_def tenant_absent_def)

lemma commit_ok:
  assumes "engine_inv e" "fmlookup (reservations e) i = Some r" "tenant_ok e (rr_tenant_id r) a b c d"
    and "0 \<le> sint actual"
  shows "commit i actual e =
    (let t = rr_tenant_id r; amount = rr_reserved_microcents r in
     if \<not> in_i64 (sint c + sint actual) then (SettleOverflow a, e)
     else if sint a + sint amount < sint actual then (Overrun a, e)
     else (Committed (a + amount - actual) actual,
           e\<lparr> reservations := fmdrop i (reservations e),
              committed_microcents := fmupd t (c + actual) (committed_microcents e),
              tenant_budgets := fmupd t (a + amount - actual) (tenant_budgets e),
              tenant_reserved_totals := fmupd t (b - amount) (tenant_reserved_totals e) \<rparr>))"
proof -
  let ?t = "rr_tenant_id r" and ?amount = "rr_reserved_microcents r"
  let ?delta = "actual - ?amount"
  have t: "fmlookup (tenant_budgets e) ?t = Some a" "fmlookup (tenant_reserved_totals e) ?t = Some b"
    "fmlookup (committed_microcents e) ?t = Some c" "0 \<le> sint a"
    using assms(3) by (simp_all add: tenant_ok_def)
  have amount: "0 < sint ?amount" using assms(1,2) by (auto simp: engine_inv_def)
  have delta: "sint ?delta = sint actual - sint ?amount"
    using amount assms(4) sint_in_i64 [of actual] sint_in_i64 [of ?amount]
    by (intro sint_sub_fit) (simp add: in_i64_def i64_min_def i64_max_def)
  have undone: "e\<lparr> reservations := fmupd i r (fmdrop i (reservations e)) \<rparr> = e"
    by (simp add: fmupd_fmdrop_same [OF assms(2)])
  have eq: "sint ?delta = 0 \<Longrightarrow> actual = ?amount"
    using delta sint_eq_iff [of actual ?amount] by simp
  show ?thesis
  proof (cases "in_i64 (sint c + sint actual)")
    case False
    then show ?thesis using assms(2,4) undone by (simp add: commit_def Let_def t checked_add_i64_def)
  next
    case True
    consider "sint ?delta < 0" | "sint ?delta = 0" | "0 < sint ?delta" "sint a < sint ?delta"
      | "0 < sint ?delta" "sint ?delta \<le> sint a" by linarith
    then show ?thesis
      by cases (use True assms(2,4) undone delta eq t(4) in
          \<open>simp_all add: commit_def Let_def t(1-3) checked_add_i64_def debit_if_available_def drop_hold_def
            add_diff_eq diff_diff_eq2\<close>)
  qed
qed

lemma release_ok:
  assumes "fmlookup (reservations e) i = Some r" "tenant_ok e (rr_tenant_id r) a b c d"
  shows "release i e =
    (let t = rr_tenant_id r; amount = rr_reserved_microcents r in
     (Released (a + amount) amount,
      e\<lparr> reservations := fmdrop i (reservations e),
         tenant_budgets := fmupd t (a + amount) (tenant_budgets e),
         tenant_reserved_totals := fmupd t (b - amount) (tenant_reserved_totals e) \<rparr>))"
  using assms
  by (simp add: release_def Let_def tenant_ok_def drop_hold_def)

lemma top_up_ok:
  assumes "tenant_ok e t a b c d" "engine_inv e" "0 < sint amount"
  shows "top_up_tenant t amount e =
    (if \<not> in_i64 (sint d + sint amount) then (TopUpOverflow, e)
     else (ToppedUp amount (d + amount) (a + amount),
           e\<lparr> tenant_budgets := fmupd t (a + amount) (tenant_budgets e),
              initial_microcents := fmupd t (d + amount) (initial_microcents e) \<rparr>))"
proof -
  have "sint a \<le> sint d" "0 \<le> sint a"
    using assms(1) held_nonneg [OF engine_inv_holds [OF assms(2)], of t] by (auto simp: tenant_ok_def)
  then have "in_i64 (sint a + sint amount)" if "in_i64 (sint d + sint amount)"
    using that assms(3) by (auto simp: in_i64_def i64_min_def)
  then show ?thesis
    using assms(1,3) by (auto simp: top_up_tenant_def tenant_ok_def credit_if_no_overflow_def checked_add_i64_def)
qed

section \<open>Every operation keeps the invariant\<close>

lemma engine_inv_ids:
  assumes "engine_inv e" "unat (next_id e) \<noteq> 2 ^ 63 - 1"
  shows "unat (next_id e + 1) = Suc (unat (next_id e))" "unat (next_id e + 1) < 2 ^ 63"
    "fmlookup (reservations e) (next_id e) = None"
proof -
  have "unat (next_id e) < 2 ^ 63 - 1" using assms by (auto simp: engine_inv_def)
  then show "unat (next_id e + 1) = Suc (unat (next_id e))" "unat (next_id e + 1) < 2 ^ 63"
    by (simp_all add: unat_add_fit)
  show "fmlookup (reservations e) (next_id e) = None"
    using assms(1) by (cases "fmlookup (reservations e) (next_id e)") (auto simp: engine_inv_def)
qed

lemma engine_inv_next:
  assumes "engine_inv e" "unat (next_id e) \<noteq> 2 ^ 63 - 1"
  shows "engine_inv (e\<lparr> next_id := next_id e + 1, snapshot_version := v \<rparr>)"
    "engine_inv (e\<lparr> next_id := next_id e + 1 \<rparr>)"
  using assms(1) engine_inv_ids [OF assms]
  by (auto simp: engine_inv_def tenant_absent_def tenant_ok_def less_Suc_eq)

lemma sint_in_range:
  assumes "0 \<le> v" "v \<le> sint (d :: i64)"
  shows "in_i64 v"
  using assms sint_in_i64 [of d] by (simp add: in_i64_def i64_min_def)

lemma try_reserve_inv:
  assumes inv: "engine_inv e"
  shows "engine_inv (snd (try_reserve t cost e))"
proof (cases "0 < sint cost")
  case False
  then show ?thesis using inv by (simp add: try_reserve_def)
next
  case pos: True
  show ?thesis
  proof (cases rule: engine_inv_cases [OF inv, of t])
    case 1
    then show ?thesis using inv pos by (simp add: try_reserve_absent)
  next
    case (2 a b c d)
    show ?thesis
    proof (cases "in_i64 (sint b + sint cost) \<and> unat (next_id e) \<noteq> 2 ^ 63 - 1 \<and> \<not> sint a < sint cost")
      case False
      then show ?thesis
        using inv engine_inv_next(2) [OF inv] by (auto simp: try_reserve_ok [OF inv 2 pos])
    next
      case True
      let ?r = "\<lparr> rr_tenant_id = t, rr_reserved_microcents = cost \<rparr>"
      let ?e' = "e\<lparr> next_id := next_id e + 1,
              tenant_reserved_totals := fmupd t (b + cost) (tenant_reserved_totals e),
              tenant_budgets := fmupd t (a - cost) (tenant_budgets e),
              reservations := fmupd (next_id e) ?r (reservations e) \<rparr>"
      note ids = engine_inv_ids [OF inv conjunct1 [OF conjunct2 [OF True]]]
      have fits: "sint (b + cost) = sint b + sint cost" "sint (a - cost) = sint a - sint cost"
        using True pos sint_in_range [of "sint a - sint cost" a] by (simp_all add: word_fit)
      have "engine_inv ?e'"
      proof (rule engine_inv_local [OF inv, where t = t])
        show "tenant_ok ?e' t (a - cost) (b + cost) c d"
          using 2 True pos by (simp add: tenant_ok_def fits held_upd ids)
      qed (use ids inv pos in \<open>auto simp: held_upd engine_inv_def less_Suc_eq split: if_splits\<close>)
      then show ?thesis using inv True by (simp add: try_reserve_ok [OF inv 2 pos])
    qed
  qed
qed

lemma settle_inv:
  assumes inv: "engine_inv e" and r: "fmlookup (reservations e) i = Some r"
    and ok: "tenant_ok e (rr_tenant_id r) a b c d" and spend: "0 \<le> sint actual"
    and afford: "sint actual \<le> sint a + sint (rr_reserved_microcents r)"
  shows "engine_inv (e\<lparr> reservations := fmdrop i (reservations e),
      committed_microcents := fmupd (rr_tenant_id r) (c + actual) (committed_microcents e),
      tenant_budgets := fmupd (rr_tenant_id r) (a + rr_reserved_microcents r - actual) (tenant_budgets e),
      tenant_reserved_totals :=
        fmupd (rr_tenant_id r) (b - rr_reserved_microcents r) (tenant_reserved_totals e) \<rparr>)"
    (is "engine_inv ?e'")
proof -
  let ?t = "rr_tenant_id r" and ?amount = "rr_reserved_microcents r"
  have amount: "0 < sint ?amount" "sint ?amount \<le> sint b"
    using inv r ok held_ge [OF engine_inv_holds [OF inv] r] by (auto simp: engine_inv_def tenant_ok_def)
  have l: "0 \<le> sint a" "0 \<le> sint c" "sint b = held (reservations e) ?t"
    "sint a + sint b + sint c = sint d"
    using ok by (simp_all add: tenant_ok_def)
  have "in_i64 (sint a + sint ?amount)" "in_i64 (sint b - sint ?amount)"
    "in_i64 (sint a + sint ?amount - sint actual)" "in_i64 (sint c + sint actual)"
    using amount l spend afford by (intro sint_in_range [where d = d]; linarith)+
  then have fits: "sint (b - ?amount) = sint b - sint ?amount"
    "sint (a + ?amount - actual) = sint a + sint ?amount - sint actual"
    "sint (c + actual) = sint c + sint actual"
    by (simp_all add: word_fit)
  show ?thesis
  proof (rule engine_inv_local [OF inv, where t = ?t])
    show "tenant_ok ?e' ?t (a + ?amount - actual) (b - ?amount) (c + actual) d"
      using ok l amount spend afford by (simp add: tenant_ok_def fits held_drop [OF r])
  qed (use inv in \<open>auto simp: held_drop [OF r] engine_inv_def split: if_splits\<close>)
qed

lemma commit_inv:
  assumes inv: "engine_inv e"
  shows "engine_inv (snd (commit i actual e))"
proof (cases "fmlookup (reservations e) i")
  case None
  then show ?thesis using inv by (simp add: commit_def)
next
  case (Some r)
  obtain a b c d where ok: "tenant_ok e (rr_tenant_id r) a b c d"
    using engine_inv_hold [OF inv Some] by metis
  show ?thesis
  proof (cases "0 \<le> sint actual")
    case True
    then show ?thesis
      using inv settle_inv [OF inv Some ok True] by (simp add: commit_ok [OF inv Some ok True] Let_def)
  qed (use inv in \<open>simp add: commit_def\<close>)
qed

lemma release_inv:
  assumes inv: "engine_inv e"
  shows "engine_inv (snd (release i e))"
proof (cases "fmlookup (reservations e) i")
  case None
  then show ?thesis using inv by (simp add: release_def)
next
  case (Some r)
  obtain a b c d where ok: "tenant_ok e (rr_tenant_id r) a b c d" and p: "0 < sint (rr_reserved_microcents r)"
    using engine_inv_hold [OF inv Some] by metis
  have c: "fmlookup (committed_microcents e) (rr_tenant_id r) = Some c" "0 \<le> sint a"
    using ok by (simp_all add: tenant_ok_def)
  show ?thesis
    using settle_inv [OF inv Some ok, of 0] p c(2)
    by (simp add: release_ok [OF Some ok] Let_def fmupd_same [OF c(1)] cong: if_cong)
qed

lemma top_up_inv:
  assumes inv: "engine_inv e"
  shows "engine_inv (snd (top_up_tenant t amount e))"
proof (cases "0 < sint amount")
  case pos: True
  show ?thesis
  proof (cases rule: engine_inv_cases [OF inv, of t])
    case 1
    then show ?thesis using inv pos by (simp add: top_up_tenant_def tenant_absent_def)
  next
    case (2 a b c d)
    let ?e' = "e\<lparr> tenant_budgets := fmupd t (a + amount) (tenant_budgets e),
              initial_microcents := fmupd t (d + amount) (initial_microcents e) \<rparr>"
    show ?thesis
    proof (cases "in_i64 (sint d + sint amount)")
      case True
      have b: "0 \<le> sint b" using 2 held_nonneg [OF engine_inv_holds [OF inv], of t] by (simp add: tenant_ok_def)
      then have "in_i64 (sint a + sint amount)"
        using True 2 pos by (auto simp: tenant_ok_def in_i64_def i64_min_def)
      then have "tenant_ok ?e' t (a + amount) b c (d + amount)"
        using 2 True pos by (simp add: tenant_ok_def word_fit)
      then have "engine_inv ?e'"
        by (rule engine_inv_local [OF inv, rotated 1]) (use inv in \<open>auto simp: engine_inv_def\<close>)
      then show ?thesis using True by (simp add: top_up_ok [OF 2 inv pos])
    qed (use inv in \<open>simp add: top_up_ok [OF 2 inv pos]\<close>)
  qed
qed (use inv in \<open>simp add: top_up_tenant_def\<close>)


lemma ensure_tenant_inv:
  assumes inv: "engine_inv e"
  shows "engine_inv (snd (try_ensure_tenant t budget e))"
proof (cases "0 \<le> sint budget \<and> fmlookup (tenant_budgets e) t = None")
  case True
  then have abs: "tenant_absent e t"
    using inv by (auto elim!: engine_inv_cases [of e t] simp: tenant_ok_def)
  have "held (reservations e) t = 0"
    unfolding held_def
  proof (intro sum.neutral ballI)
    fix i assume "i \<in> fset (fmdom (reservations e))"
    then obtain r where r: "fmlookup (reservations e) i = Some r" by (auto simp: fmlookup_dom_iff)
    then have "\<not> tenant_absent e (rr_tenant_id r)" using inv by (auto simp: engine_inv_def)
    with abs have "rr_tenant_id r \<noteq> t" by auto
    with r show "(case fmlookup (reservations e) i of None \<Rightarrow> 0
        | Some r \<Rightarrow> if rr_tenant_id r = t then sint (rr_reserved_microcents r) else 0) = 0" by simp
  qed
  then have "tenant_ok (snd (try_ensure_tenant t budget e)) t budget 0 0 budget"
    using True by (simp add: try_ensure_tenant_def tenant_ok_def)
  then show ?thesis
    by (rule engine_inv_local [OF inv, rotated 1])
      (use inv True in \<open>auto simp: try_ensure_tenant_def engine_inv_def\<close>)
next
  case False
  then show ?thesis using inv by (auto simp: try_ensure_tenant_def)
qed

lemma set_max_reserved_inv:
  assumes "engine_inv e"
  shows "engine_inv (snd (try_set_max_reserved_microcents t mx e))"
proof -
  have "sint mx \<noteq> 0" if "mx \<noteq> 0" using that sint_eq_iff [of mx 0] by simp
  with assms show ?thesis
    by (auto simp: try_set_max_reserved_microcents_def engine_inv_def tenant_absent_def tenant_ok_def
        fmlookup_drop split: if_splits)
qed

lemma try_snapshot_inv:
  assumes "engine_inv e"
  shows "engine_inv (snd (try_snapshot e))"
  using assms engine_inv_next(1) [OF assms]
  by (auto simp: try_snapshot_def allocate_id_def next_id_less_mask Let_def)

lemma rotate_inv: "engine_inv e \<Longrightarrow> engine_inv (snd (rotate_certificate_baseline v e))"
  by (auto simp: rotate_certificate_baseline_def engine_inv_def tenant_absent_def tenant_ok_def)

section \<open>Restoring\<close>

definition row_ok :: "tenant_ledger \<Rightarrow> bool" where
  "row_ok l \<longleftrightarrow>
     l_reserved_microcents l = 0
     \<and> 0 \<le> sint (l_remaining_microcents l) \<and> 0 \<le> sint (l_initial_microcents l)
     \<and> 0 \<le> sint (l_committed_microcents l)
     \<and> sint (l_remaining_microcents l) + sint (l_committed_microcents l) = sint (l_initial_microcents l)"

lemma validate_ledger_rows_Inr:
  "validate_ledger_rows seen ls = Inr () \<longleftrightarrow>
     distinct (map l_tenant_id ls) \<and> l_tenant_id ` set ls \<inter> seen = {}
     \<and> (\<forall>l \<in> set ls. l_reserved_microcents l = 0 \<and> 0 \<le> sint (l_remaining_microcents l)
         \<and> 0 \<le> sint (l_initial_microcents l) \<and> 0 \<le> sint (l_committed_microcents l))"
  by (induction ls arbitrary: seen) (auto simp: not_less)

lemma conservation_Balanced:
  "conservation_status_for_snapshot ls = Balanced \<longleftrightarrow>
     (\<forall>l \<in> set ls. 0 \<le> sint (l_remaining_microcents l)
        \<and> in_i64 (sint (l_remaining_microcents l) + sint (l_reserved_microcents l))
        \<and> sint (l_remaining_microcents l) + sint (l_reserved_microcents l)
          + sint (l_committed_microcents l) = sint (l_initial_microcents l))"
proof (induction ls)
  case (Cons l ls)
  let ?s = "l_remaining_microcents l + l_reserved_microcents l + l_committed_microcents l"
  show ?case
  proof (cases "in_i64 (sint (l_remaining_microcents l) + sint (l_reserved_microcents l))
      \<and> in_i64 (sint (l_remaining_microcents l) + sint (l_reserved_microcents l) + sint (l_committed_microcents l))")
    case True
    then have "sint ?s = sint (l_remaining_microcents l) + sint (l_reserved_microcents l)
        + sint (l_committed_microcents l)" by (simp add: word_fit)
    then have "?s = l_initial_microcents l \<longleftrightarrow> sint (l_remaining_microcents l)
        + sint (l_reserved_microcents l) + sint (l_committed_microcents l) = sint (l_initial_microcents l)"
      using sint_eq_iff [of ?s "l_initial_microcents l"] by simp
    with True Cons show ?thesis
      by (auto simp: checked_add_i64_def word_fit split: option.splits)
  next
    case False
    then show ?thesis
      using sint_in_i64 [of "l_initial_microcents l"]
      by (auto simp: checked_add_i64_def word_fit split: option.splits)
  qed
qed simp

lemma validate_snapshot_ledger_Inr:
  "validate_snapshot_ledger s = Inr () \<longleftrightarrow>
     sn_active_reservations s = 0 \<and> distinct (map l_tenant_id (sn_tenants s))
     \<and> (\<forall>l \<in> set (sn_tenants s). row_ok l)"
proof -
  have "(case conservation_status_for_snapshot ls of Balanced \<Rightarrow> Inr () | status \<Rightarrow> Inl (ConservationViolation status))
      = Inr () \<longleftrightarrow> conservation_status_for_snapshot ls = Balanced" for ls
    by (cases "conservation_status_for_snapshot ls") auto
  then show ?thesis
    by (auto simp: validate_snapshot_ledger_def validate_ledger_rows_Inr conservation_Balanced row_ok_def)
qed

lemma fold_fmupd:
  assumes "distinct (map k ls)"
  shows "fmlookup (fold (\<lambda>l. fmupd (k l) (v l)) ls m) t =
    (case find (\<lambda>l. k l = t) ls of None \<Rightarrow> fmlookup m t | Some l \<Rightarrow> Some (v l))"
  using assms
proof (induction ls arbitrary: m)
  case (Cons l ls)
  then have "find (\<lambda>l'. k l' = k l) ls = None" by (auto simp: find_None_iff image_iff)
  with Cons show ?case by (auto split: option.splits)
qed simp

lemma fold_restore_row:
  "tenant_budgets (fold restore_row ls e) =
     fold (\<lambda>l. fmupd (l_tenant_id l) (l_remaining_microcents l)) ls (tenant_budgets e)"
  "initial_microcents (fold restore_row ls e) =
     fold (\<lambda>l. fmupd (l_tenant_id l) (l_initial_microcents l)) ls (initial_microcents e)"
  "committed_microcents (fold restore_row ls e) =
     fold (\<lambda>l. fmupd (l_tenant_id l) (l_committed_microcents l)) ls (committed_microcents e)"
  "tenant_reserved_totals (fold restore_row ls e) =
     fold (\<lambda>l. fmupd (l_tenant_id l) (l_reserved_microcents l)) ls (tenant_reserved_totals e)"
  "reservations (fold restore_row ls e) = reservations e"
  "max_reserved_microcents (fold restore_row ls e) = max_reserved_microcents e"
  by (induction ls arbitrary: e) (simp_all add: restore_row_def)

lemma allocator_Inr:
  "allocator_from_snapshot_version v = Inr n \<longleftrightarrow>
     v AND RECOVERY_SNAPSHOT_TAG \<noteq> 0 \<and> n = v AND RECOVERY_ALLOCATOR_MASK \<and> n \<noteq> 0"
  by (auto simp: allocator_from_snapshot_version_def Let_def)

lemma mask_bits: "RECOVERY_ALLOCATOR_MASK = mask 63"
  by (simp add: RECOVERY_ALLOCATOR_MASK_def RECOVERY_SNAPSHOT_TAG_def mask_eq_exp_minus_1 push_bit_eq_mult)

lemma unat_and_mask: "unat (v AND RECOVERY_ALLOCATOR_MASK) = unat v mod 2 ^ 63"
  by (simp add: mask_bits unsigned_take_bit_eq take_bit_eq_mod unat_mod flip: take_bit_eq_mask)

lemma restore_accepts:
  "fst (restore_from_snapshot s e) = Inr () \<longleftrightarrow>
     sn_version s AND RECOVERY_SNAPSHOT_TAG \<noteq> 0 \<and> sn_version s AND RECOVERY_ALLOCATOR_MASK \<noteq> 0
     \<and> validate_snapshot_ledger s = Inr ()"
proof (cases "sn_version s AND RECOVERY_SNAPSHOT_TAG \<noteq> 0 \<and> sn_version s AND RECOVERY_ALLOCATOR_MASK \<noteq> 0")
  case True
  then have "allocator_from_snapshot_version (sn_version s) = Inr (sn_version s AND RECOVERY_ALLOCATOR_MASK)"
    by (simp add: allocator_Inr)
  with True show ?thesis
    by (cases "validate_snapshot_ledger s")
      (auto simp: restore_from_snapshot_def validate_snapshot_for_restore_def Let_def)
next
  case False
  then obtain err where "allocator_from_snapshot_version (sn_version s) = Inl err"
    by (auto simp: allocator_from_snapshot_version_def Let_def)
  with False show ?thesis
    by (auto simp: restore_from_snapshot_def validate_snapshot_for_restore_def)
qed

lemma restore_state:
  assumes "fst (restore_from_snapshot s e) = Inr ()"
  defines "e' \<equiv> snd (restore_from_snapshot s e)"
  shows "fmlookup (tenant_budgets e') t =
      map_option l_remaining_microcents (find (\<lambda>l. l_tenant_id l = t) (sn_tenants s))"
    "fmlookup (initial_microcents e') t =
      map_option l_initial_microcents (find (\<lambda>l. l_tenant_id l = t) (sn_tenants s))"
    "fmlookup (committed_microcents e') t =
      map_option l_committed_microcents (find (\<lambda>l. l_tenant_id l = t) (sn_tenants s))"
    "fmlookup (tenant_reserved_totals e') t =
      map_option l_reserved_microcents (find (\<lambda>l. l_tenant_id l = t) (sn_tenants s))"
    "reservations e' = fmempty" "max_reserved_microcents e' = fmempty"
    "next_id e' = sn_version s AND RECOVERY_ALLOCATOR_MASK" "snapshot_version e' = sn_version s"
proof -
  have acc: "sn_version s AND RECOVERY_SNAPSHOT_TAG \<noteq> 0" "sn_version s AND RECOVERY_ALLOCATOR_MASK \<noteq> 0"
    "validate_snapshot_ledger s = Inr ()"
    using assms(1) by (simp_all add: restore_accepts)
  then have al: "allocator_from_snapshot_version (sn_version s) = Inr (sn_version s AND RECOVERY_ALLOCATOR_MASK)"
    by (simp add: allocator_Inr)
  have d: "distinct (map l_tenant_id (sn_tenants s))" using acc(3) by (simp add: validate_snapshot_ledger_Inr)
  show "fmlookup (tenant_budgets e') t =
      map_option l_remaining_microcents (find (\<lambda>l. l_tenant_id l = t) (sn_tenants s))"
    "fmlookup (initial_microcents e') t =
      map_option l_initial_microcents (find (\<lambda>l. l_tenant_id l = t) (sn_tenants s))"
    "fmlookup (committed_microcents e') t =
      map_option l_committed_microcents (find (\<lambda>l. l_tenant_id l = t) (sn_tenants s))"
    "fmlookup (tenant_reserved_totals e') t =
      map_option l_reserved_microcents (find (\<lambda>l. l_tenant_id l = t) (sn_tenants s))"
    "reservations e' = fmempty" "max_reserved_microcents e' = fmempty"
    "next_id e' = sn_version s AND RECOVERY_ALLOCATOR_MASK" "snapshot_version e' = sn_version s"
    unfolding e'_def
    by (simp_all add: restore_from_snapshot_def validate_snapshot_for_restore_def al acc(3) Let_def
        fold_restore_row fold_fmupd [OF d] map_option_case split: option.split)
qed

lemma restore_refused: "fst (restore_from_snapshot s e) \<noteq> Inr () \<Longrightarrow> snd (restore_from_snapshot s e) = e"
  by (auto simp: restore_from_snapshot_def Let_def split: sum.splits)

lemma restore_inv:
  assumes inv: "engine_inv e"
  shows "engine_inv (snd (restore_from_snapshot s e))"
proof (cases "fst (restore_from_snapshot s e) = Inr ()")
  case False
  then show ?thesis using inv by (simp add: restore_refused)
next
  case True
  note st = restore_state [OF True]
  have rows: "\<forall>l \<in> set (sn_tenants s). row_ok l" and v: "sn_version s AND RECOVERY_ALLOCATOR_MASK \<noteq> 0"
    using True by (auto simp: restore_accepts validate_snapshot_ledger_Inr)
  have "tenant_absent (snd (restore_from_snapshot s e)) t
      \<or> (\<exists>a b c d. tenant_ok (snd (restore_from_snapshot s e)) t a b c d)" for t
  proof (cases "find (\<lambda>l. l_tenant_id l = t) (sn_tenants s)")
    case None
    then show ?thesis by (simp add: tenant_absent_def st)
  next
    case (Some l)
    then have "row_ok l" using rows by (auto simp: find_Some_iff)
    with Some show ?thesis by (simp add: tenant_ok_def st row_ok_def)
  qed
  moreover have "0 < unat (sn_version s AND RECOVERY_ALLOCATOR_MASK)"
    using v unat_eq_iff [of "sn_version s AND RECOVERY_ALLOCATOR_MASK" 0] by simp
  ultimately show ?thesis
    by (simp add: engine_inv_def st unat_and_mask)
qed

section \<open>Runs of the engine\<close>

datatype budget_op =
    Ensure string i64
  | TopUp string i64
  | SetMax string i64
  | Reserve string i64
  | Commit u64 i64
  | Release u64
  | Snapshot
  | Rotate i64
  | Restore budget_snapshot

datatype budget_result =
    ConfigResult "budget_configuration_error + unit"
  | TopUpResult top_up_result
  | ReserveResult "budget_reservation \<times> u64 option"
  | SettleResult budget_settlement
  | SnapshotResult "snapshot_allocator_error + budget_snapshot"
  | RotateResult i64
  | RestoreResult "restore_error + unit"

fun exec_op :: "budget_op \<Rightarrow> budget_engine \<Rightarrow> budget_result \<times> budget_engine" where
  "exec_op (Ensure t v) e = map_prod ConfigResult (\<lambda>e. e) (try_ensure_tenant t v e)"
| "exec_op (TopUp t v) e = map_prod TopUpResult (\<lambda>e. e) (top_up_tenant t v e)"
| "exec_op (SetMax t v) e = map_prod ConfigResult (\<lambda>e. e) (try_set_max_reserved_microcents t v e)"
| "exec_op (Reserve t v) e = map_prod ReserveResult (\<lambda>e. e) (try_reserve t v e)"
| "exec_op (Commit i v) e = map_prod SettleResult (\<lambda>e. e) (commit i v e)"
| "exec_op (Release i) e = map_prod SettleResult (\<lambda>e. e) (release i e)"
| "exec_op Snapshot e = map_prod SnapshotResult (\<lambda>e. e) (try_snapshot e)"
| "exec_op (Rotate v) e = map_prod RotateResult (\<lambda>e. e) (rotate_certificate_baseline v e)"
| "exec_op (Restore s) e = map_prod RestoreResult (\<lambda>e. e) (restore_from_snapshot s e)"

definition run :: "budget_op list \<Rightarrow> budget_engine \<Rightarrow> budget_engine" where
  "run ops e = fold (\<lambda>op e. snd (exec_op op e)) ops e"

lemmas op_invs = ensure_tenant_inv top_up_inv set_max_reserved_inv try_reserve_inv commit_inv
  release_inv try_snapshot_inv rotate_inv restore_inv

lemma exec_op_inv: "engine_inv e \<Longrightarrow> engine_inv (snd (exec_op op e))"
  by (cases op) (simp_all add: op_invs)

interpretation budget_machine: machine new_engine exec_op engine_inv
  by unfold_locales (simp_all add: engine_inv_new exec_op_inv)

lemma run_inv: "engine_inv e \<Longrightarrow> engine_inv (run ops e)"
  unfolding run_def by (rule budget_machine.inv_fold)

lemma run_new_inv: "engine_inv (run ops new_engine)"
  unfolding run_def by (rule budget_machine.inv_run)

text \<open>
  C2. Conservation holds after any sequence of operations, refused ones, snapshots and restores
  included: for every tenant the spendable balance, the reserved total and the lifetime spend are
  non-negative, they add up to the total granted as mathematical integers (nothing wraps), and
  the reserved total is exactly the sum of the open holds.
\<close>

theorem conservation_always:
  assumes "remaining_of (run ops new_engine) t = Some remaining"
  shows "\<exists>spent granted.
    committed_of (run ops new_engine) t = Some spent
    \<and> initial_of (run ops new_engine) t = Some granted
    \<and> 0 \<le> sint remaining \<and> 0 \<le> sint spent \<and> 0 \<le> sint (reserved_of (run ops new_engine) t)
    \<and> sint (reserved_of (run ops new_engine) t) = held (reservations (run ops new_engine)) t
    \<and> sint remaining + sint (reserved_of (run ops new_engine) t) + sint spent = sint granted"
proof -
  let ?e = "run ops new_engine"
  note inv = run_new_inv [of ops]
  from assms obtain a b c d where "tenant_ok ?e t a b c d"
    by (cases rule: engine_inv_cases [OF inv, of t]) (auto simp: remaining_of_def tenant_absent_def)
  with assms held_nonneg [OF engine_inv_holds [OF inv], of t] show ?thesis
    by (auto simp: tenant_ok_def remaining_of_def committed_of_def initial_of_def reserved_of_def)
qed

definition example_ops :: "budget_op list" where
  "example_ops = [Ensure ''acme'' 100, Reserve ''acme'' 30]"

lemma example_run:
  "run example_ops new_engine =
     \<lparr> tenant_budgets = fmupd ''acme'' 70 fmempty, initial_microcents = fmupd ''acme'' 100 fmempty,
       committed_microcents = fmupd ''acme'' 0 fmempty,
       reservations = fmupd 1 \<lparr> rr_tenant_id = ''acme'', rr_reserved_microcents = 30 \<rparr> fmempty,
       max_reserved_microcents = fmempty, tenant_reserved_totals = fmupd ''acme'' 30 fmempty,
       next_id = 2, snapshot_version = 0, last_certified_committed_total = 0 \<rparr>"
  by (simp add: run_def example_ops_def new_engine_def try_ensure_tenant_def try_reserve_def
      try_increment_reserved_total_def checked_add_i64_def in_i64_def i64_min_def i64_max_def
      allocate_id_def RECOVERY_ALLOCATOR_MASK_def RECOVERY_SNAPSHOT_TAG_def debit_if_available_def
      fmupd_upd Let_def)

theorem conservation_always_witness:
  "remaining_of (run example_ops new_engine) ''acme'' = Some 70
   \<and> (\<exists>spent granted.
        committed_of (run example_ops new_engine) ''acme'' = Some spent
        \<and> initial_of (run example_ops new_engine) ''acme'' = Some granted
        \<and> 70 + sint (reserved_of (run example_ops new_engine) ''acme'') + sint spent = sint granted)"
proof -
  have r: "remaining_of (run example_ops new_engine) ''acme'' = Some 70"
    by (simp add: example_run remaining_of_def)
  from conservation_always [OF r] r show ?thesis by auto
qed

end
