(* ===== verification/Budget_Spec.thy ===== *)
theory Budget_Spec
  imports Budget_Inv
begin

text \<open>
  What the budget engine promises. The abstract ledger has no cached balances: it is the grants,
  the lifetime spend, the open holds, the caps, the next identifier and the certified total, and the
  spendable balance is what is left. The engine refines it operation by operation. Further theorems: a
  settled reservation stays settled, conservation checks never fail, snapshots restore exactly, and
  legacy snapshots migrate.
\<close>

section \<open>The abstract ledger\<close>

record ledger =
  g_granted :: "string \<Rightarrow> int option"
  g_spent :: "string \<Rightarrow> int"
  g_holds :: "(u64, reservation_record) fmap"
  g_caps :: "string \<Rightarrow> int"
  g_next :: nat
  g_certified :: int

definition g_reserved :: "ledger \<Rightarrow> string \<Rightarrow> int" where
  "g_reserved g t = held (g_holds g) t"

definition g_remaining :: "ledger \<Rightarrow> string \<Rightarrow> int" where
  "g_remaining g t = the (g_granted g t) - g_spent g t - g_reserved g t"

definition abs_ledger :: "budget_engine \<Rightarrow> ledger" where
  "abs_ledger e =
     \<lparr> g_granted = (\<lambda>t. map_option sint (fmlookup (initial_microcents e) t)),
       g_spent = (\<lambda>t. case fmlookup (committed_microcents e) t of None \<Rightarrow> 0 | Some v \<Rightarrow> sint v),
       g_holds = reservations e,
       g_caps = (\<lambda>t. case fmlookup (max_reserved_microcents e) t of None \<Rightarrow> 0 | Some v \<Rightarrow> sint v),
       g_next = unat (next_id e),
       g_certified = sint (last_certified_committed_total e) \<rparr>"

definition spec_ensure :: "string \<Rightarrow> i64 \<Rightarrow> ledger \<Rightarrow> (budget_configuration_error + unit) \<times> ledger" where
  "spec_ensure t v g =
     (if sint v < 0 then (Inl (NegativeAmount ''budget_microcents'' v), g)
      else if g_granted g t \<noteq> None then (Inr (), g)
      else (Inr (), g\<lparr> g_granted := (g_granted g)(t := Some (sint v)), g_spent := (g_spent g)(t := 0) \<rparr>))"

text \<open>A cap of 0 is no cap.\<close>

definition spec_set_max :: "string \<Rightarrow> i64 \<Rightarrow> ledger \<Rightarrow> (budget_configuration_error + unit) \<times> ledger" where
  "spec_set_max t v g =
     (if sint v < 0 then (Inl (NegativeAmount ''max_reserved_microcents'' v), g)
      else (Inr (), g\<lparr> g_caps := (g_caps g)(t := sint v) \<rparr>))"

definition spec_top_up :: "string \<Rightarrow> i64 \<Rightarrow> ledger \<Rightarrow> top_up_result \<times> ledger" where
  "spec_top_up t v g =
     (if sint v \<le> 0 then (TopUpInvalidAmount, g)
      else case g_granted g t of
          None \<Rightarrow> (TopUpMissingTenant, g)
        | Some granted \<Rightarrow>
            if granted + sint v > i64_max then (TopUpOverflow, g)
            else (ToppedUp v (word_of_int (granted + sint v)) (word_of_int (g_remaining g t + sint v)),
                  g\<lparr> g_granted := (g_granted g)(t := Some (granted + sint v)) \<rparr>))"

definition spec_reserve :: "string \<Rightarrow> i64 \<Rightarrow> ledger \<Rightarrow> (budget_reservation \<times> u64 option) \<times> ledger" where
  "spec_reserve t v g =
     (if sint v \<le> 0 then ((Insufficient 0 v, None), g)
      else if g_granted g t = None then ((ReserveMissingTenant, None), g)
      else if g_reserved g t + sint v > i64_max
        then ((ReserveOverflow (word_of_int (g_reserved g t)), None), g)
      else if 0 < g_caps g t \<and> g_caps g t < g_reserved g t + sint v
        then ((ExposureLimitExceeded (word_of_int (g_reserved g t)) (word_of_int (g_caps g t)), None), g)
      else if g_next g = 2 ^ 63 - 1 then ((ReserveOverflow (word_of_int (g_reserved g t)), None), g)
      else if g_remaining g t < sint v
        then ((Insufficient (word_of_int (g_remaining g t)) v, None), g\<lparr> g_next := g_next g + 1 \<rparr>)
      else ((Reserved (word_of_int (g_remaining g t - sint v)), Some (of_nat (g_next g))),
            g\<lparr> g_next := g_next g + 1,
               g_holds := fmupd (of_nat (g_next g))
                 \<lparr> rr_tenant_id = t, rr_reserved_microcents = v \<rparr> (g_holds g) \<rparr>))"

definition spec_commit :: "u64 \<Rightarrow> i64 \<Rightarrow> ledger \<Rightarrow> budget_settlement \<times> ledger" where
  "spec_commit i v g =
     (if sint v < 0 then (InvalidAmount, g)
      else case fmlookup (g_holds g) i of
          None \<Rightarrow> (MissingReservation, g)
        | Some r \<Rightarrow>
            let t = rr_tenant_id r; left = g_remaining g t + sint (rr_reserved_microcents r) - sint v in
            if g_spent g t + sint v > i64_max then (SettleOverflow (word_of_int (g_remaining g t)), g)
            else if left < 0 then (Overrun (word_of_int (g_remaining g t)), g)
            else (Committed (word_of_int left) v,
                  g\<lparr> g_holds := fmdrop i (g_holds g),
                     g_spent := (g_spent g)(t := g_spent g t + sint v) \<rparr>))"

definition spec_release :: "u64 \<Rightarrow> ledger \<Rightarrow> budget_settlement \<times> ledger" where
  "spec_release i g =
     (case fmlookup (g_holds g) i of
        None \<Rightarrow> (MissingReservation, g)
      | Some r \<Rightarrow>
          (Released (word_of_int (g_remaining g (rr_tenant_id r) + sint (rr_reserved_microcents r)))
             (rr_reserved_microcents r),
           g\<lparr> g_holds := fmdrop i (g_holds g) \<rparr>))"

text \<open>A snapshot lists the tenants in order, with their balances computed; its version is the next identifier behind bit 63.\<close>

definition ledger_row :: "ledger \<Rightarrow> string \<Rightarrow> tenant_ledger" where
  "ledger_row g t =
     \<lparr> l_tenant_id = t, l_initial_microcents = word_of_int (the (g_granted g t)),
       l_remaining_microcents = word_of_int (g_remaining g t), l_reserved_microcents = word_of_int (g_reserved g t),
       l_committed_microcents = word_of_int (g_spent g t) \<rparr>"

definition spec_snapshot :: "ledger \<Rightarrow> (snapshot_allocator_error + budget_snapshot) \<times> ledger" where
  "spec_snapshot g =
     (if g_next g = 2 ^ 63 - 1 then (Inl AllocatorExhausted, g)
      else (Inr \<lparr> sn_version = of_nat (2 ^ 63 + g_next g + 1),
                  sn_tenants = map (ledger_row g) (sorted_list_of_set (dom (g_granted g))),
                  sn_active_reservations = fcard (fmdom (g_holds g)), sn_wal_high_watermark = None \<rparr>,
            g\<lparr> g_next := g_next g + 1 \<rparr>))"

definition spec_rotate :: "i64 \<Rightarrow> ledger \<Rightarrow> i64 \<times> ledger" where
  "spec_rotate tot g =
     (if sint tot \<le> g_certified g then (0, g)
      else (word_of_int (sint tot - g_certified g), g\<lparr> g_certified := sint tot \<rparr>))"

text \<open>A restore replaces the whole ledger by the rows of a valid snapshot, with no holds and no caps.\<close>

definition spec_restore :: "budget_snapshot \<Rightarrow> ledger \<Rightarrow> (restore_error + unit) \<times> ledger" where
  "spec_restore s g =
     (case validate_snapshot_for_restore s of
        Inl err \<Rightarrow> (Inl err, g)
      | Inr _ \<Rightarrow>
          (Inr (),
           \<lparr> g_granted = (\<lambda>t. map_option (\<lambda>l. sint (l_initial_microcents l)) (find (\<lambda>l. l_tenant_id l = t) (sn_tenants s))),
             g_spent = (\<lambda>t. case find (\<lambda>l. l_tenant_id l = t) (sn_tenants s) of
                 None \<Rightarrow> 0 | Some l \<Rightarrow> sint (l_committed_microcents l)),
             g_holds = fmempty, g_caps = (\<lambda>_. 0), g_next = unat (sn_version s) mod 2 ^ 63,
             g_certified = min (sum_list (map (\<lambda>l. sint (l_committed_microcents l)) (sn_tenants s))) i64_max \<rparr>))"

section \<open>Refinement\<close>

lemma abs_tenant:
  assumes "tenant_ok e t a b c d"
  shows "g_granted (abs_ledger e) t = Some (sint d)" "g_spent (abs_ledger e) t = sint c"
    "g_reserved (abs_ledger e) t = sint b" "g_remaining (abs_ledger e) t = sint a"
  using assms by (auto simp: abs_ledger_def g_reserved_def g_remaining_def tenant_ok_def)

lemma abs_absent: "tenant_absent e t \<Longrightarrow> g_granted (abs_ledger e) t = None"
  by (simp add: abs_ledger_def tenant_absent_def)

lemma abs_fields:
  "g_holds (abs_ledger e) = reservations e" "g_next (abs_ledger e) = unat (next_id e)"
  "g_caps (abs_ledger e) t = sint (cap_of e t)"
  by (auto simp: abs_ledger_def cap_of_def split: option.splits)

lemma in_i64_sum:
  assumes "0 \<le> sint (a :: i64)" "0 \<le> sint (b :: i64)"
  shows "in_i64 (sint a + sint b) \<longleftrightarrow> \<not> sint a + sint b > i64_max"
  using assms by (auto simp: in_i64_def i64_min_def)

lemma word_of_sint: "word_of_int (sint a) = a" "word_of_int (sint a + sint b) = a + b"
  "word_of_int (sint a - sint b) = a - b" "word_of_int (sint a + sint b - sint c) = a + b - c"
  for a b c :: i64
  by simp_all

lemma reserve_refines:
  assumes inv: "engine_inv e"
  shows "spec_reserve t v (abs_ledger e) =
    (fst (try_reserve t v e), abs_ledger (snd (try_reserve t v e)))"
proof (cases "0 < sint v")
  case False
  then show ?thesis by (simp add: spec_reserve_def try_reserve_def)
next
  case pos: True
  show ?thesis
  proof (cases rule: engine_inv_cases [OF inv, of t])
    case 1
    with pos show ?thesis by (simp add: spec_reserve_def try_reserve_absent abs_absent)
  next
    case (2 a b c d)
    have b: "0 \<le> sint b"
      using 2 held_nonneg [OF engine_inv_holds [OF inv], of t] by (simp add: tenant_ok_def)
    have upd: "abs_ledger (e\<lparr> next_id := next_id e + 1 \<rparr>) = (abs_ledger e)\<lparr> g_next := Suc (unat (next_id e)) \<rparr>"
      if "unat (next_id e) \<noteq> 2 ^ 63 - 1"
      using engine_inv_ids(1) [OF inv that] by (simp add: abs_ledger_def)
    show ?thesis
      using pos b upd engine_inv_ids(1) [OF inv]
      by (auto simp: spec_reserve_def try_reserve_ok [OF inv 2 pos] abs_tenant [OF 2] abs_fields
          in_i64_sum word_of_sint) (simp_all add: abs_ledger_def)
  qed
qed

lemma abs_settled:
  assumes "tenant_ok e t a b c d"
  shows "abs_ledger (e\<lparr> reservations := m, committed_microcents := fmupd t v (committed_microcents e),
      tenant_budgets := x, tenant_reserved_totals := y \<rparr>) =
    (abs_ledger e)\<lparr> g_holds := m, g_spent := (g_spent (abs_ledger e))(t := sint v) \<rparr>"
  by (auto simp: abs_ledger_def fun_eq_iff)

lemma commit_refines:
  assumes inv: "engine_inv e"
  shows "spec_commit i v (abs_ledger e) = (fst (commit i v e), abs_ledger (snd (commit i v e)))"
proof (cases "0 \<le> sint v")
  case False
  then show ?thesis by (simp add: spec_commit_def commit_def)
next
  case nn: True
  show ?thesis
  proof (cases "fmlookup (reservations e) i")
    case None
    with nn show ?thesis by (simp add: spec_commit_def commit_def abs_fields)
  next
    case (Some r)
    obtain a b c d where ok: "tenant_ok e (rr_tenant_id r) a b c d"
      using engine_inv_hold [OF inv Some] by metis
    then have c: "0 \<le> sint c" by (simp add: tenant_ok_def)
    show ?thesis
    proof (cases "in_i64 (sint c + sint v)")
      case False
      then show ?thesis
        using nn Some in_i64_sum [OF c nn]
        by (simp add: spec_commit_def commit_ok [OF inv Some ok nn] abs_fields abs_tenant [OF ok] Let_def)
    next
      case True
      then have "sint (c + v) = sint c + sint v" by (simp add: word_fit)
      with True nn Some in_i64_sum [OF c nn] show ?thesis
        by (simp add: spec_commit_def commit_ok [OF inv Some ok nn] abs_fields abs_tenant [OF ok] Let_def
            abs_settled [OF ok] word_of_sint not_less)
    qed
  qed
qed

lemma release_refines:
  assumes inv: "engine_inv e"
  shows "spec_release i (abs_ledger e) = (fst (release i e), abs_ledger (snd (release i e)))"
proof (cases "fmlookup (reservations e) i")
  case None
  then show ?thesis by (simp add: spec_release_def release_def abs_fields)
next
  case (Some r)
  obtain a b c d where ok: "tenant_ok e (rr_tenant_id r) a b c d"
    using engine_inv_hold [OF inv Some] by metis
  show ?thesis
    using Some by (simp add: spec_release_def release_ok [OF Some ok] abs_fields abs_tenant [OF ok] Let_def)
      (simp add: abs_ledger_def)
qed

lemma top_up_refines:
  assumes inv: "engine_inv e"
  shows "spec_top_up t v (abs_ledger e) = (fst (top_up_tenant t v e), abs_ledger (snd (top_up_tenant t v e)))"
proof (cases "0 < sint v")
  case False
  then show ?thesis by (simp add: spec_top_up_def top_up_tenant_def)
next
  case pos: True
  show ?thesis
  proof (cases rule: engine_inv_cases [OF inv, of t])
    case 1
    with pos show ?thesis by (simp add: spec_top_up_def top_up_tenant_def tenant_absent_def abs_absent)
  next
    case (2 a b c d)
    have d: "0 \<le> sint d" using 2 held_nonneg [OF engine_inv_holds [OF inv], of t] by (auto simp: tenant_ok_def)
    have "sint (d + v) = sint d + sint v" if "in_i64 (sint d + sint v)" using that by (simp add: word_fit)
    with pos d in_i64_sum [OF d, of v] show ?thesis
      by (auto simp: spec_top_up_def top_up_ok [OF 2 inv pos] abs_tenant [OF 2])
        (auto simp: abs_ledger_def fun_eq_iff)
  qed
qed

lemma ensure_refines:
  assumes inv: "engine_inv e"
  shows "spec_ensure t v (abs_ledger e) = (fst (try_ensure_tenant t v e), abs_ledger (snd (try_ensure_tenant t v e)))"
  by (cases rule: engine_inv_cases [OF inv, of t])
    (auto simp: spec_ensure_def try_ensure_tenant_def tenant_absent_def tenant_ok_def abs_ledger_def fun_eq_iff)

lemma set_max_refines:
  "spec_set_max t v (abs_ledger e)
    = (fst (try_set_max_reserved_microcents t v e), abs_ledger (snd (try_set_max_reserved_microcents t v e)))"
  by (auto simp: spec_set_max_def try_set_max_reserved_microcents_def abs_ledger_def fun_eq_iff)

lemma rotate_refines:
  "spec_rotate v (abs_ledger e) = (fst (rotate_certificate_baseline v e), abs_ledger (snd (rotate_certificate_baseline v e)))"
  by (auto simp: spec_rotate_def rotate_certificate_baseline_def abs_ledger_def)

lemma tenant_row_ledger:
  assumes inv: "engine_inv e"
  shows "map (tenant_row e) (sorted_list_of_fmap (tenant_budgets e))
    = map (ledger_row (abs_ledger e)) (sorted_list_of_set (dom (g_granted (abs_ledger e))))"
proof -
  have "t |\<in>| fmdom (tenant_budgets e) \<longleftrightarrow> t \<in> dom (g_granted (abs_ledger e))" for t
    by (cases rule: engine_inv_cases [OF inv, of t])
      (auto simp: tenant_absent_def tenant_ok_def abs_ledger_def fmlookup_dom_iff)
  then have "fset (fmdom (tenant_budgets e)) = dom (g_granted (abs_ledger e))" by blast
  moreover have "tenant_row e (t, the (fmlookup (tenant_budgets e) t)) = ledger_row (abs_ledger e) t"
    if "t \<in> dom (g_granted (abs_ledger e))" for t
  proof (cases rule: engine_inv_cases [OF inv, of t])
    case 1
    with that show ?thesis by (simp add: abs_absent domIff)
  next
    case (2 a b c d)
    then show ?thesis by (simp add: tenant_row_def ledger_row_def abs_tenant [OF 2]) (auto simp: tenant_ok_def)
  qed
  moreover have "finite (dom (g_granted (abs_ledger e)))" using calculation(1) by (metis finite_fset)
  ultimately show ?thesis
    by (simp add: sorted_list_of_fmap_def sorted_list_of_fset.rep_eq comp_def)
qed

lemma tag_bit: "bit RECOVERY_SNAPSHOT_TAG k \<longleftrightarrow> k = 63"
  by (simp only: RECOVERY_SNAPSHOT_TAG_def push_bit_of_1 bit_exp_iff possible_bit_word) auto

lemma tag_plus:
  assumes "unat n < 2 ^ 63"
  shows "RECOVERY_SNAPSHOT_TAG OR n = of_nat (2 ^ 63 + unat n)"
proof -
  have "\<not> bit (unat n) 63" using assms by (simp add: bit_iff_odd)
  then have "\<not> bit n 63" by (simp add: bit_unsigned_iff)
  then have "RECOVERY_SNAPSHOT_TAG AND n = 0" by (intro bit_word_eqI) (auto simp: bit_simps tag_bit)
  then have "RECOVERY_SNAPSHOT_TAG OR n = RECOVERY_SNAPSHOT_TAG + n" by (rule disjunctive_add_eq_or [symmetric])
  then show ?thesis by (simp add: RECOVERY_SNAPSHOT_TAG_def push_bit_eq_mult)
qed

lemma snapshot_refines:
  assumes inv: "engine_inv e"
  shows "spec_snapshot (abs_ledger e) = (fst (try_snapshot e), abs_ledger (snd (try_snapshot e)))"
proof (cases "unat (next_id e) = 2 ^ 63 - 1")
  case True
  then show ?thesis by (simp add: spec_snapshot_def try_snapshot_def allocate_id_def next_id_less_mask abs_fields)
next
  case False
  then have lt: "unat (next_id e) < 2 ^ 63 - 1" and n: "unat (next_id e + 1) = Suc (unat (next_id e))"
    using inv engine_inv_ids(1) [OF inv] by (auto simp: engine_inv_def)
  have "RECOVERY_SNAPSHOT_TAG OR (next_id e + 1) = of_nat (2 ^ 63 + unat (next_id e) + 1)"
    using tag_plus [of "next_id e + 1"] lt n by simp
  then show ?thesis using False lt n
    by (simp add: spec_snapshot_def try_snapshot_def allocate_id_def next_id_less_mask abs_fields Let_def
        tenant_row_ledger [OF inv] active_reservations_def) (simp add: abs_ledger_def)
qed

lemma sum_committed_min:
  assumes "\<forall>l \<in> set ls. 0 \<le> sint (l_committed_microcents l)" "0 \<le> sint tot"
  shows "sint (case sum_committed tot ls of None \<Rightarrow> word_of_int i64_max | Some v \<Rightarrow> v)
    = min (sint tot + sum_list (map (\<lambda>l. sint (l_committed_microcents l)) ls)) i64_max"
  using assms
proof (induction ls arbitrary: tot)
  case Nil
  then show ?case using sint_in_i64 [of tot] by (simp add: in_i64_def)
next
  case (Cons l ls)
  let ?c = "l_committed_microcents l"
  have c: "0 \<le> sint ?c" and rest: "0 \<le> sum_list (map (\<lambda>l. sint (l_committed_microcents l)) ls)"
    using Cons.prems(1) by (auto intro!: sum_list_nonneg)
  show ?case
  proof (cases "in_i64 (sint tot + sint ?c)")
    case True
    then have "sint (tot + ?c) = sint tot + sint ?c" by (simp add: word_fit)
    with True show ?thesis using Cons.IH [of "tot + ?c"] Cons.prems c by (simp add: checked_add_i64_def)
  next
    case False
    then have "sint tot + sint ?c > i64_max" using in_i64_sum [OF Cons.prems(2) c] by simp
    then show ?thesis using False rest by (simp add: checked_add_i64_def in_i64_self in_i64_def i64_min_def i64_max_def)
  qed
qed

lemma restore_refines:
  "spec_restore s (abs_ledger e) = (fst (restore_from_snapshot s e), abs_ledger (snd (restore_from_snapshot s e)))"
proof (cases "validate_snapshot_for_restore s")
  case (Inl err)
  then show ?thesis by (simp add: spec_restore_def restore_from_snapshot_def)
next
  case (Inr u)
  then obtain n where n: "allocator_from_snapshot_version (sn_version s) = Inr n" "validate_snapshot_ledger s = Inr ()"
    by (cases "allocator_from_snapshot_version (sn_version s)") (auto simp: validate_snapshot_for_restore_def)
  then have ok: "fst (restore_from_snapshot s e) = Inr ()" using Inr by (simp add: restore_from_snapshot_def Let_def)
  have "\<forall>l \<in> set (sn_tenants s). 0 \<le> sint (l_committed_microcents l)"
    using n(2) by (simp add: validate_snapshot_ledger_Inr row_ok_def)
  note sum = sum_committed_min [OF this, of 0]
  have cert: "last_certified_committed_total (snd (restore_from_snapshot s e))
      = (case sum_committed 0 (sn_tenants s) of None \<Rightarrow> word_of_int i64_max | Some v \<Rightarrow> v)"
    using Inr n(1) by (simp add: restore_from_snapshot_def Let_def)
  show ?thesis using Inr sum
    by (auto simp: spec_restore_def ok abs_ledger_def restore_state [OF ok] cert unat_and_mask fun_eq_iff option.map_comp comp_def
        split: option.split)
qed

lemma absent_held:
  assumes inv: "engine_inv e" and "tenant_absent e t"
  shows "held (reservations e) t = 0"
  unfolding held_def
proof (intro sum.neutral ballI)
  fix i
  show "(case fmlookup (reservations e) i of None \<Rightarrow> 0
      | Some r \<Rightarrow> if rr_tenant_id r = t then sint (rr_reserved_microcents r) else 0) = 0"
    using assms by (auto simp: engine_inv_def split: option.split)
qed

lemma queries_refine:
  assumes inv: "engine_inv e"
  shows "initial_of e t = map_option word_of_int (g_granted (abs_ledger e) t)"
    "committed_of e t = map_option (\<lambda>_. word_of_int (g_spent (abs_ledger e) t)) (g_granted (abs_ledger e) t)"
    "remaining_of e t = map_option (\<lambda>_. word_of_int (g_remaining (abs_ledger e) t)) (g_granted (abs_ledger e) t)"
    "reserved_of e t = word_of_int (g_reserved (abs_ledger e) t)"
proof -
  have "initial_of e t = map_option word_of_int (g_granted (abs_ledger e) t)
    \<and> committed_of e t = map_option (\<lambda>_. word_of_int (g_spent (abs_ledger e) t)) (g_granted (abs_ledger e) t)
    \<and> remaining_of e t = map_option (\<lambda>_. word_of_int (g_remaining (abs_ledger e) t)) (g_granted (abs_ledger e) t)
    \<and> reserved_of e t = word_of_int (g_reserved (abs_ledger e) t)"
  proof (cases rule: engine_inv_cases [OF inv, of t])
    case 1
    then show ?thesis
      by (simp add: abs_absent) (simp add: initial_of_def committed_of_def remaining_of_def reserved_of_def tenant_absent_def
          g_reserved_def abs_fields absent_held [OF inv 1])
  next
    case (2 a b c d)
    then show ?thesis
      by (simp add: abs_tenant [OF 2]) (auto simp: initial_of_def committed_of_def remaining_of_def reserved_of_def tenant_ok_def)
  qed
  then show "initial_of e t = map_option word_of_int (g_granted (abs_ledger e) t)"
    "committed_of e t = map_option (\<lambda>_. word_of_int (g_spent (abs_ledger e) t)) (g_granted (abs_ledger e) t)"
    "remaining_of e t = map_option (\<lambda>_. word_of_int (g_remaining (abs_ledger e) t)) (g_granted (abs_ledger e) t)"
    "reserved_of e t = word_of_int (g_reserved (abs_ledger e) t)" by simp_all
qed

text \<open>
  C8. The engine refines the abstract ledger. In every state reached by a sequence of operations, each
  operation that changes the state (reserve, commit, release, top up, ensure, set the exposure cap, take
  a snapshot, rotate the certificate baseline and restore a snapshot) returns on every branch exactly the
  result that the abstract ledger computes from grants, lifetime spend, open holds, caps, the next
  identifier and the certified total, and changes these as the abstract operation does; and the four
  balance queries answer what the abstract ledger computes. The cached balances and reserved totals of
  the engine are never observable as anything else.
\<close>

theorem engine_refines_ledger:
  fixes ops defines "e \<equiv> run ops new_engine"
  shows "spec_reserve t v (abs_ledger e) = (fst (try_reserve t v e), abs_ledger (snd (try_reserve t v e)))
    \<and> spec_commit i v (abs_ledger e) = (fst (commit i v e), abs_ledger (snd (commit i v e)))
    \<and> spec_release i (abs_ledger e) = (fst (release i e), abs_ledger (snd (release i e)))
    \<and> spec_top_up t v (abs_ledger e) = (fst (top_up_tenant t v e), abs_ledger (snd (top_up_tenant t v e)))
    \<and> spec_ensure t v (abs_ledger e) = (fst (try_ensure_tenant t v e), abs_ledger (snd (try_ensure_tenant t v e)))
    \<and> spec_set_max t v (abs_ledger e)
        = (fst (try_set_max_reserved_microcents t v e), abs_ledger (snd (try_set_max_reserved_microcents t v e)))
    \<and> spec_snapshot (abs_ledger e) = (fst (try_snapshot e), abs_ledger (snd (try_snapshot e)))
    \<and> spec_rotate v (abs_ledger e) = (fst (rotate_certificate_baseline v e), abs_ledger (snd (rotate_certificate_baseline v e)))
    \<and> spec_restore s (abs_ledger e) = (fst (restore_from_snapshot s e), abs_ledger (snd (restore_from_snapshot s e)))
    \<and> initial_of e t = map_option word_of_int (g_granted (abs_ledger e) t)
    \<and> committed_of e t = map_option (\<lambda>_. word_of_int (g_spent (abs_ledger e) t)) (g_granted (abs_ledger e) t)
    \<and> remaining_of e t = map_option (\<lambda>_. word_of_int (g_remaining (abs_ledger e) t)) (g_granted (abs_ledger e) t)
    \<and> reserved_of e t = word_of_int (g_reserved (abs_ledger e) t)"
  unfolding e_def using run_new_inv [of ops]
  by (intro conjI reserve_refines commit_refines release_refines top_up_refines ensure_refines set_max_refines
      snapshot_refines rotate_refines restore_refines queries_refine)

section \<open>Settlement is final\<close>

fun is_restore :: "budget_op \<Rightarrow> bool" where
  "is_restore (Restore s) = True"
| "is_restore _ = False"

definition settled :: "u64 \<Rightarrow> budget_engine \<Rightarrow> bool" where
  "settled i e \<longleftrightarrow> fmlookup (reservations e) i = None \<and> unat i < unat (next_id e)"

lemma reserve_ids:
  assumes inv: "engine_inv e" and "settled i e"
  shows "settled i (snd (try_reserve t v e))"
proof (cases "0 < sint v")
  case pos: True
  show ?thesis
  proof (cases rule: engine_inv_cases [OF inv, of t])
    case 1
    with pos assms(2) show ?thesis by (simp add: try_reserve_absent)
  next
    case (2 a b c d)
    with assms(2) engine_inv_ids(1) [OF inv] show ?thesis
      by (auto simp: try_reserve_ok [OF inv 2 pos] settled_def)
  qed
qed (use assms(2) in \<open>simp add: try_reserve_def\<close>)

lemma settle_effect:
  assumes inv: "engine_inv e"
  shows "next_id (snd (commit i v e)) = next_id e" "next_id (snd (release i e)) = next_id e"
    "reservations (snd (commit i v e)) \<in> {reservations e, fmdrop i (reservations e)}"
    "reservations (snd (release i e)) \<in> {reservations e, fmdrop i (reservations e)}"
proof -
  have "next_id (snd (commit i v e)) = next_id e
      \<and> reservations (snd (commit i v e)) \<in> {reservations e, fmdrop i (reservations e)}
      \<and> next_id (snd (release i e)) = next_id e
      \<and> reservations (snd (release i e)) \<in> {reservations e, fmdrop i (reservations e)}"
  proof (cases "fmlookup (reservations e) i")
    case None
    then show ?thesis by (simp add: commit_def release_def)
  next
    case (Some r)
    obtain a b c d where ok: "tenant_ok e (rr_tenant_id r) a b c d"
      using engine_inv_hold [OF inv Some] by metis
    have "commit i v e = (InvalidAmount, e)" if "\<not> 0 \<le> sint v" using that by (simp add: commit_def)
    then show ?thesis
      by (cases "0 \<le> sint v") (auto simp: commit_ok [OF inv Some ok] release_ok [OF Some ok] Let_def)
  qed
  then show "next_id (snd (commit i v e)) = next_id e" "next_id (snd (release i e)) = next_id e"
    "reservations (snd (commit i v e)) \<in> {reservations e, fmdrop i (reservations e)}"
    "reservations (snd (release i e)) \<in> {reservations e, fmdrop i (reservations e)}" by blast+
qed

lemma settled_step:
  assumes inv: "engine_inv e" and s: "settled i e" and "\<not> is_restore op"
  shows "settled i (snd (exec_op op e))"
proof (cases op)
  case (Reserve t v)
  then show ?thesis using reserve_ids [OF inv s] by simp
next
  case (Commit j v)
  then show ?thesis using s settle_effect(1,3) [OF inv, of j v] by (auto simp: settled_def fmlookup_drop)
next
  case (Release j)
  then show ?thesis using s settle_effect(2,4) [OF inv, of j] by (auto simp: settled_def fmlookup_drop)
next
  case Snapshot
  have "settled i (e\<lparr> next_id := next_id e + 1, snapshot_version := v \<rparr>)" if "unat (next_id e) < 2 ^ 63 - 1" for v
    using s that engine_inv_ids(1) [OF inv] by (simp add: settled_def)
  with s Snapshot show ?thesis by (auto simp: try_snapshot_def allocate_id_def next_id_less_mask Let_def)
qed (use assms in \<open>auto simp: settled_def try_ensure_tenant_def top_up_tenant_def
    try_set_max_reserved_microcents_def rotate_certificate_baseline_def split: option.splits sum.splits\<close>)

lemma settled_run:
  assumes "engine_inv e" "settled i e" "list_all (\<lambda>op. \<not> is_restore op) ops"
  shows "settled i (run ops e)"
  using assms
proof (induction ops arbitrary: e)
  case (Cons op ops)
  then show ?case using settled_step [of e i op] exec_op_inv [of e op] by (simp add: run_def)
qed (simp add: run_def)

lemma committed_settles:
  assumes inv: "engine_inv e"
  shows "fst (commit i v e) = Committed x y \<Longrightarrow> settled i (snd (commit i v e))"
    "fst (release i e) = Released x y \<Longrightarrow> settled i (snd (release i e))"
proof -
  have id: "unat i < unat (next_id e)" if "fmlookup (reservations e) i \<noteq> None"
    using inv that by (auto simp: engine_inv_def)
  {
    assume c: "fst (commit i v e) = Committed x y"
    then obtain r where r: "fmlookup (reservations e) i = Some r" and v: "0 \<le> sint v"
      by (auto simp: commit_def split: if_splits option.splits)
    obtain a b c' d where ok: "tenant_ok e (rr_tenant_id r) a b c' d" using engine_inv_hold [OF inv r] by metis
    show "settled i (snd (commit i v e))"
      using c id r by (auto simp: commit_ok [OF inv r ok v] Let_def settled_def split: if_splits)
  }
  {
    assume c: "fst (release i e) = Released x y"
    then obtain r where r: "fmlookup (reservations e) i = Some r"
      by (auto simp: release_def split: option.splits)
    obtain a b c' d where ok: "tenant_ok e (rr_tenant_id r) a b c' d" using engine_inv_hold [OF inv r] by metis
    show "settled i (snd (release i e))"
      using id r by (simp add: release_ok [OF r ok] Let_def settled_def)
  }
qed

text \<open>
  C12. A reservation is settled at most once: after a commit or a release of a reservation has
  succeeded, no later sequence of operations (restores apart) brings the identifier back, and every
  further attempt to release it or to commit a valid amount is refused as a missing reservation.
\<close>

theorem settle_at_most_once:
  fixes ops ops' i v defines "e \<equiv> run ops new_engine"
  assumes "e' = snd (commit i v e) \<and> fst (commit i v e) = Committed x y
    \<or> e' = snd (release i e) \<and> fst (release i e) = Released x y"
    and "list_all (\<lambda>op. \<not> is_restore op) ops'" and "0 \<le> sint w"
  shows "fst (release i (run ops' e')) = MissingReservation
    \<and> fst (commit i w (run ops' e')) = MissingReservation"
proof -
  have inv: "engine_inv e" unfolding e_def by (rule run_new_inv)
  then have "engine_inv e'" "settled i e'"
    using assms(2) commit_inv [OF inv, of i v] release_inv [OF inv, of i] committed_settles [OF inv, of i] by metis+
  then have "settled i (run ops' e')" by (rule settled_run [OF _ _ assms(3)])
  then show ?thesis using assms(4) by (simp add: settled_def release_def commit_def)
qed

theorem settle_at_most_once_witness:
  "fst (release 1 (run example_ops new_engine)) = Released 100 30
   \<and> fst (release 1 (run [Reserve ''acme'' 5] (snd (release 1 (run example_ops new_engine))))) = MissingReservation"
proof -
  have r: "fst (release 1 (run example_ops new_engine)) = Released 100 30"
    by (simp add: example_run release_def drop_hold_def Let_def)
  from settle_at_most_once [of "snd (release 1 (run example_ops new_engine))" 1 0 example_ops 100 30
      "[Reserve ''acme'' 5]" 0] r
  show ?thesis by simp
qed

section \<open>Snapshots\<close>

lemma sorted_list_of_fmap_props:
  "distinct (map fst (sorted_list_of_fmap m))"
  "(k, v) \<in> set (sorted_list_of_fmap m) \<longleftrightarrow> fmlookup m k = Some v"
  by (auto simp: sorted_list_of_fmap_def comp_def fmlookup_dom_iff sorted_list_of_fset.rep_eq)

lemma find_sorted_list_of_fmap:
  "find (\<lambda>x. fst x = k) (sorted_list_of_fmap m) = map_option (Pair k) (fmlookup m k)"
proof (cases "fmlookup m k")
  case None
  then show ?thesis using sorted_list_of_fmap_props(2) [of k _ m] by (auto simp: find_None_iff)
next
  case (Some v)
  have "find (\<lambda>x. fst x = k) xs = Some (k, v)" if "distinct (map fst xs)" "(k, v) \<in> set xs" for xs
    using that by (induction xs) (auto simp: rev_image_eqI)
  with Some show ?thesis by (simp add: sorted_list_of_fmap_props)
qed

lemma find_map: "find P (map f xs) = map_option f (find (\<lambda>x. P (f x)) xs)"
  by (induction xs) auto

lemma snapshot_rows:
  assumes inv: "engine_inv e" and "l \<in> set (map (tenant_row e) (sorted_list_of_fmap (tenant_budgets e)))"
  obtains a b c d where "tenant_ok e (l_tenant_id l) a b c d"
    "l = \<lparr> l_tenant_id = l_tenant_id l, l_initial_microcents = d, l_remaining_microcents = a,
           l_reserved_microcents = b, l_committed_microcents = c \<rparr>"
proof -
  from assms(2) obtain t v where l: "l = tenant_row e (t, v)" "fmlookup (tenant_budgets e) t = Some v"
    by (auto simp: sorted_list_of_fmap_props)
  then obtain a b c d where ok: "tenant_ok e t a b c d"
    by (cases rule: engine_inv_cases [OF inv, of t]) (auto simp: tenant_absent_def)
  show thesis
    by (rule that [of a b c d]) (use l ok in \<open>auto simp: tenant_row_def tenant_ok_def\<close>)
qed

lemma snapshot_balanced:
  assumes inv: "engine_inv e"
  shows "conservation_status_for_snapshot (map (tenant_row e) (sorted_list_of_fmap (tenant_budgets e))) = Balanced"
  unfolding conservation_Balanced
proof
  fix l assume "l \<in> set (map (tenant_row e) (sorted_list_of_fmap (tenant_budgets e)))"
  with inv obtain a b c d where ok: "tenant_ok e (l_tenant_id l) a b c d"
    and l: "l = \<lparr> l_tenant_id = l_tenant_id l, l_initial_microcents = d, l_remaining_microcents = a,
           l_reserved_microcents = b, l_committed_microcents = c \<rparr>"
    by (rule snapshot_rows)
  have "l_remaining_microcents l = a" "l_reserved_microcents l = b" "l_committed_microcents l = c"
    "l_initial_microcents l = d" by (subst l, simp)+
  moreover have "0 \<le> sint b"
    using ok held_nonneg [OF engine_inv_holds [OF inv], of "l_tenant_id l"] by (simp add: tenant_ok_def)
  moreover have "in_i64 (sint a + sint b)"
    using ok \<open>0 \<le> sint b\<close> by (intro sint_in_range [of _ d]) (auto simp: tenant_ok_def)
  ultimately show "0 \<le> sint (l_remaining_microcents l)
        \<and> in_i64 (sint (l_remaining_microcents l) + sint (l_reserved_microcents l))
        \<and> sint (l_remaining_microcents l) + sint (l_reserved_microcents l)
          + sint (l_committed_microcents l) = sint (l_initial_microcents l)"
    using ok by (simp add: tenant_ok_def)
qed

text \<open>
  The conservation check never reports a violation or an overflow: after any sequence of
  operations \<open>verify_conservation\<close> answers \<open>Balanced\<close>, except that it fails as a snapshot does once
  the allocator of identifiers is exhausted.
\<close>

lemma verify_conservation_balanced:
  "fst (verify_conservation (run ops new_engine)) =
     (if unat (next_id (run ops new_engine)) = 2 ^ 63 - 1 then None else Some Balanced)"
proof -
  have inv: "engine_inv (run ops new_engine)" by (rule run_new_inv)
  then have "unat (next_id (run ops new_engine)) < 2 ^ 63" by (simp add: engine_inv_def)
  then show ?thesis
    using snapshot_balanced [OF inv]
    by (auto simp: verify_conservation_def try_snapshot_def allocate_id_def next_id_less_mask Let_def)
qed

lemma tag_or:
  assumes "unat n < 2 ^ 63"
  shows "(RECOVERY_SNAPSHOT_TAG OR n) AND RECOVERY_ALLOCATOR_MASK = n"
    "(RECOVERY_SNAPSHOT_TAG OR n) AND RECOVERY_SNAPSHOT_TAG \<noteq> 0"
proof -
  have "\<not> bit (unat n) 63" using assms by (simp add: bit_iff_odd)
  then have small: "\<not> bit n 63" by (simp add: bit_unsigned_iff)
  show "(RECOVERY_SNAPSHOT_TAG OR n) AND RECOVERY_ALLOCATOR_MASK = n"
  proof (rule bit_word_eqI)
    fix k assume "k < LENGTH(64)"
    then show "bit ((RECOVERY_SNAPSHOT_TAG OR n) AND RECOVERY_ALLOCATOR_MASK) k = bit n k"
      using small by (cases "k = 63") (auto simp: mask_bits tag_bit bit_simps)
  qed
  have "bit ((RECOVERY_SNAPSHOT_TAG OR n) AND RECOVERY_SNAPSHOT_TAG) 63"
    by (simp add: tag_bit bit_simps)
  then show "(RECOVERY_SNAPSHOT_TAG OR n) AND RECOVERY_SNAPSHOT_TAG \<noteq> 0" by (metis bit_0_eq bot_apply bot_bool_def)
qed

lemma snapshot_validates:
  assumes inv: "engine_inv e" and none: "active_reservations e = 0"
    and snap: "try_snapshot e = (Inr s, e')"
  shows "validate_snapshot_ledger s = Inr ()" "sn_version s = RECOVERY_SNAPSHOT_TAG OR (next_id e + 1)"
    "sn_tenants s = map (tenant_row e) (sorted_list_of_fmap (tenant_budgets e))"
    "next_id e' = next_id e + 1" "unat (next_id e) < 2 ^ 63 - 1" "reservations e = fmempty"
proof -
  from snap show sn: "sn_version s = RECOVERY_SNAPSHOT_TAG OR (next_id e + 1)"
    "sn_tenants s = map (tenant_row e) (sorted_list_of_fmap (tenant_budgets e))"
    "next_id e' = next_id e + 1" "unat (next_id e) < 2 ^ 63 - 1"
    by (auto simp: try_snapshot_def allocate_id_def next_id_less_mask Let_def split: if_splits)
  have "fmdom (reservations e) = {||}" using none by (simp add: active_reservations_def)
  then show res: "reservations e = fmempty" by (intro fmap_ext) (metis fempty_iff fmdomI fmlookup_dom_iff
      fmempty_lookup option.exhaust)
  have "sn_active_reservations s = 0"
    using snap none by (auto simp: try_snapshot_def allocate_id_def Let_def split: if_splits)
  moreover have "map l_tenant_id (sn_tenants s) = map fst (sorted_list_of_fmap (tenant_budgets e))"
    by (simp add: sn tenant_row_def case_prod_unfold)
  moreover have "row_ok l" if l: "l \<in> set (sn_tenants s)" for l
  proof -
    from l obtain a b c d where ok: "tenant_ok e (l_tenant_id l) a b c d"
      and row: "l = \<lparr> l_tenant_id = l_tenant_id l, l_initial_microcents = d, l_remaining_microcents = a,
           l_reserved_microcents = b, l_committed_microcents = c \<rparr>"
      unfolding sn by (rule snapshot_rows [OF inv])
    have "l_remaining_microcents l = a" "l_reserved_microcents l = b" "l_committed_microcents l = c"
      "l_initial_microcents l = d" by (subst row, simp)+
    moreover have "sint b = 0" using ok res by (simp add: tenant_ok_def)
    moreover have "b = 0" using \<open>sint b = 0\<close> sint_eq_iff [of b 0] by simp
    ultimately show ?thesis using ok by (auto simp: row_ok_def tenant_ok_def)
  qed
  ultimately show "validate_snapshot_ledger s = Inr ()"
    by (simp add: validate_snapshot_ledger_Inr sorted_list_of_fmap_props)
qed

text \<open>
  C18. A snapshot restores exactly: when an engine with no open reservation takes a snapshot,
  restoring it on any engine succeeds, gives the same balances, reserved totals, lifetime spend and
  grants for every tenant, and continues the allocation of identifiers after every identifier the
  original engine has issued.
\<close>

theorem snapshot_restore_roundtrip:
  fixes ops defines "e \<equiv> run ops new_engine"
  assumes "active_reservations e = 0" and "try_snapshot e = (Inr s, e')"
  shows "fst (restore_from_snapshot s e0) = Inr ()
    \<and> tenant_budgets (snd (restore_from_snapshot s e0)) = tenant_budgets e
    \<and> tenant_reserved_totals (snd (restore_from_snapshot s e0)) = tenant_reserved_totals e
    \<and> committed_microcents (snd (restore_from_snapshot s e0)) = committed_microcents e
    \<and> initial_microcents (snd (restore_from_snapshot s e0)) = initial_microcents e
    \<and> reservations (snd (restore_from_snapshot s e0)) = fmempty
    \<and> next_id (snd (restore_from_snapshot s e0)) = next_id e'
    \<and> unat (next_id e) < unat (next_id (snd (restore_from_snapshot s e0)))"
proof -
  have inv: "engine_inv e" unfolding e_def by (rule run_new_inv)
  note sv = snapshot_validates [OF inv assms(2,3)]
  have id: "unat (next_id e + 1) = Suc (unat (next_id e))" "unat (next_id e + 1) < 2 ^ 63"
    using engine_inv_ids(1,2) [OF inv] sv(5) by auto
  have fence: "sn_version s AND RECOVERY_ALLOCATOR_MASK = next_id e + 1"
    "sn_version s AND RECOVERY_SNAPSHOT_TAG \<noteq> 0"
    unfolding sv(2) using tag_or [OF id(2)] by simp_all
  have "next_id e + 1 \<noteq> 0" using id(1) by (metis nat.simps(3) unsigned_0)
  then have ok: "fst (restore_from_snapshot s e0) = Inr ()"
    using sv(1) fence by (simp add: restore_accepts)
  note st = restore_state [OF ok]
  have row: "find (\<lambda>l. l_tenant_id l = t) (sn_tenants s) =
      map_option (\<lambda>v. tenant_row e (t, v)) (fmlookup (tenant_budgets e) t)" for t
    using find_sorted_list_of_fmap [of t "tenant_budgets e"]
    by (simp add: sv(3) find_map tenant_row_def case_prod_unfold option.map_comp comp_def)
  have same: "fmlookup (tenant_budgets (snd (restore_from_snapshot s e0))) t = fmlookup (tenant_budgets e) t
      \<and> fmlookup (tenant_reserved_totals (snd (restore_from_snapshot s e0))) t = fmlookup (tenant_reserved_totals e) t
      \<and> fmlookup (committed_microcents (snd (restore_from_snapshot s e0))) t = fmlookup (committed_microcents e) t
      \<and> fmlookup (initial_microcents (snd (restore_from_snapshot s e0))) t = fmlookup (initial_microcents e) t" for t
    by (cases rule: engine_inv_cases [OF inv, of t])
      (auto simp: st row tenant_row_def tenant_ok_def tenant_absent_def)
  then show ?thesis
    using ok st(5,7) fence(1) sv(4) id(1) by (auto intro!: fmap_ext)
qed

theorem snapshot_restore_roundtrip_witness:
  "fst (restore_from_snapshot
     (case try_snapshot (run [Ensure ''acme'' 100] new_engine) of (Inr s, _) \<Rightarrow> s | _ \<Rightarrow> undefined) new_engine) = Inr ()"
proof -
  let ?e = "run [Ensure ''acme'' 100] new_engine"
  have "active_reservations ?e = 0"
    by (simp add: run_def try_ensure_tenant_def new_engine_def active_reservations_def)
  moreover obtain s e' where s: "try_snapshot ?e = (Inr s, e')"
    by (simp add: run_def try_ensure_tenant_def new_engine_def try_snapshot_def allocate_id_def
        RECOVERY_ALLOCATOR_MASK_def RECOVERY_SNAPSHOT_TAG_def Let_def)
  ultimately show ?thesis using snapshot_restore_roundtrip [of "[Ensure ''acme'' 100]" s e' new_engine] by simp
qed

section \<open>Lifetime spend and grants\<close>

lemma spend_step:
  assumes inv: "engine_inv e" and "\<not> is_restore op" and ok: "tenant_ok e t a b c d"
  shows "\<exists>c' d'. fmlookup (committed_microcents (snd (exec_op op e))) t = Some c' \<and> sint c \<le> sint c'
    \<and> fmlookup (initial_microcents (snd (exec_op op e))) t = Some d' \<and> sint d \<le> sint d'"
proof -
  let ?g = "abs_ledger e" and ?g' = "abs_ledger (snd (exec_op op e))"
  have g: "g_granted ?g t = Some (sint d)" "g_spent ?g t = sint c" by (simp_all add: abs_tenant [OF ok])
  have "\<exists>x. g_granted ?g' t = Some x \<and> sint d \<le> x \<and> sint c \<le> g_spent ?g' t"
  proof (cases op)
    case (Ensure s v)
    then have "?g' = snd (spec_ensure s v ?g)" by (simp add: ensure_refines [OF inv])
    then show ?thesis using g by (auto simp: spec_ensure_def)
  next
    case (TopUp s v)
    then have "?g' = snd (spec_top_up s v ?g)" by (simp add: top_up_refines [OF inv])
    then show ?thesis using g by (auto simp: spec_top_up_def split: option.splits)
  next
    case (Reserve s v)
    then have "?g' = snd (spec_reserve s v ?g)" by (simp add: reserve_refines [OF inv])
    then show ?thesis using g by (auto simp: spec_reserve_def)
  next
    case (Commit i v)
    then have "?g' = snd (spec_commit i v ?g)" by (simp add: commit_refines [OF inv])
    then show ?thesis using g by (auto simp: spec_commit_def Let_def split: option.splits)
  next
    case (Release i)
    then have "?g' = snd (spec_release i ?g)" by (simp add: release_refines [OF inv])
    then show ?thesis using g by (auto simp: spec_release_def split: option.splits)
  qed (use assms(2) g in \<open>auto simp: abs_ledger_def try_set_max_reserved_microcents_def
      rotate_certificate_baseline_def try_snapshot_def allocate_id_def Let_def\<close>)
  moreover obtain a' b' c' d' where "tenant_ok (snd (exec_op op e)) t a' b' c' d'"
    using calculation abs_absent engine_inv_cases [OF exec_op_inv [OF inv]] by (metis option.distinct(1))
  ultimately show ?thesis by (auto simp: tenant_ok_def abs_ledger_def)
qed

lemma spend_run:
  assumes "engine_inv e" "list_all (\<lambda>op. \<not> is_restore op) ops" "tenant_ok e t a b c d"
  shows "\<exists>c' d'. committed_of (run ops e) t = Some c' \<and> sint c \<le> sint c'
    \<and> initial_of (run ops e) t = Some d' \<and> sint d \<le> sint d'"
  using assms
proof (induction ops arbitrary: e a b c d)
  case Nil
  then show ?case by (auto simp: run_def committed_of_def initial_of_def tenant_ok_def)
next
  case (Cons op ops)
  let ?e = "snd (exec_op op e)"
  from Cons.prems obtain c1 d1 where s: "fmlookup (committed_microcents ?e) t = Some c1" "sint c \<le> sint c1"
    "fmlookup (initial_microcents ?e) t = Some d1" "sint d \<le> sint d1"
    using spend_step [of e op t a b c d] by auto
  have inv: "engine_inv ?e" using Cons.prems by (simp add: exec_op_inv)
  then obtain a' b' where ok: "tenant_ok ?e t a' b' c1 d1"
    using s by (cases rule: engine_inv_cases [OF inv, of t]) (auto simp: tenant_absent_def tenant_ok_def)
  have "list_all (\<lambda>op. \<not> is_restore op) ops" using Cons.prems(2) by simp
  from Cons.IH [OF inv this ok] s show ?case by (fastforce simp: run_def)
qed

text \<open>
  Lifetime spend and grants only grow: along any sequence of operations without a restore, the
  committed amount of a tenant never decreases, the granted amount never decreases, and the tenant
  never disappears.
\<close>

lemma lifetime_spend_monotone:
  assumes "list_all (\<lambda>op. \<not> is_restore op) ops'"
    and "committed_of (run ops new_engine) t = Some c" and "initial_of (run ops new_engine) t = Some d"
  shows "\<exists>c' d'. committed_of (run ops' (run ops new_engine)) t = Some c' \<and> sint c \<le> sint c'
    \<and> initial_of (run ops' (run ops new_engine)) t = Some d' \<and> sint d \<le> sint d'"
proof -
  let ?e = "run ops new_engine"
  have inv: "engine_inv ?e" by (rule run_new_inv)
  obtain a b where "tenant_ok ?e t a b c d"
    using assms(2,3) by (cases rule: engine_inv_cases [OF inv, of t])
      (auto simp: tenant_absent_def tenant_ok_def committed_of_def initial_of_def)
  then show ?thesis by (rule spend_run [OF inv assms(1)])
qed

section \<open>Migration of legacy snapshots\<close>

lemma fence_range:
  "fence = 0 \<or> RECOVERY_ALLOCATOR_MASK < fence \<longleftrightarrow> \<not> (0 < unat fence \<and> unat fence < 2 ^ 63)"
  using unat_eq_iff [of fence 0] by (auto simp: word_less_nat_alt alloc_mask)

lemma migrate_Inr:
  "migrate_legacy_snapshot s fence = Inr s' \<longleftrightarrow>
     sn_version s AND RECOVERY_SNAPSHOT_TAG = 0 \<and> 0 < unat fence \<and> unat fence < 2 ^ 63
     \<and> validate_snapshot_ledger s = Inr () \<and> s' = s\<lparr> sn_version := RECOVERY_SNAPSHOT_TAG OR fence \<rparr>"
  unfolding migrate_legacy_snapshot_def fence_range by auto

lemma migrated_restores:
  assumes "migrate_legacy_snapshot s fence = Inr s'"
  shows "fst (restore_from_recovery_snapshot s' e) = Inr ()
    \<and> next_id (snd (restore_from_recovery_snapshot s' e)) = fence"
proof -
  from assms have v: "0 < unat fence" "unat fence < 2 ^ 63" "validate_snapshot_ledger s = Inr ()"
    "s' = s\<lparr> sn_version := RECOVERY_SNAPSHOT_TAG OR fence \<rparr>"
    by (simp_all add: migrate_Inr)
  have val: "validate_snapshot_ledger s' = Inr ()"
    using v(3) by (simp add: v(4) validate_snapshot_ledger_Inr)
  have fence: "sn_version s' AND RECOVERY_ALLOCATOR_MASK = fence" "sn_version s' AND RECOVERY_SNAPSHOT_TAG \<noteq> 0"
    "fence \<noteq> 0"
    using tag_or [OF v(2)] v(1) by (auto simp: v(4))
  then have ok: "fst (restore_from_snapshot s' e) = Inr ()" using val by (simp add: restore_accepts)
  with fence val restore_state(7) [OF ok] show ?thesis
    by (simp add: restore_from_recovery_snapshot_def case_prod_unfold)
qed

text \<open>
  Migration is exact: a snapshot is migrated precisely when it is untagged, the supplied fence
  lies in the range of the allocator and the ledger is valid; the result differs in the version
  only, is accepted by the recovery restore on every engine, and the restored engine issues
  identifiers from the fence on.
\<close>

lemma migrate_then_restore:
  "migrate_legacy_snapshot s fence = Inr s' \<longleftrightarrow>
      sn_version s AND RECOVERY_SNAPSHOT_TAG = 0 \<and> 0 < unat fence \<and> unat fence < 2 ^ 63
      \<and> sn_active_reservations s = 0 \<and> distinct (map l_tenant_id (sn_tenants s))
      \<and> list_all row_ok (sn_tenants s)
      \<and> s' = s\<lparr> sn_version := RECOVERY_SNAPSHOT_TAG OR fence \<rparr>
      \<and> fst (restore_from_recovery_snapshot s' e) = Inr ()
      \<and> next_id (snd (restore_from_recovery_snapshot s' e)) = fence"
  using migrated_restores [of s fence s' e] migrate_Inr [of s fence s']
  by (auto simp: validate_snapshot_ledger_Inr list_all_iff)

section \<open>Owned reservations\<close>

text \<open>
  C38. An owned reservation can be lost while its hold stays: \<open>Reservation::commit\<close> hands the value
  back only on an overrun. When the lifetime spend of the tenant would overflow, or the amount is
  negative, the settlement is returned as success although the engine is unchanged and the hold is
  still open, so the owner is gone while the money stays reserved.
\<close>

theorem owned_commit_keeps_hold_silently:
  fixes ops defines "e \<equiv> run ops new_engine"
  assumes "fmlookup (reservations e) (ow_id r) = Some rec"
    and "sint actual < 0 \<or> (\<exists>c. committed_of e (rr_tenant_id rec) = Some c \<and> sint c + sint actual > i64_max)"
  shows "\<exists>settlement. owned_commit r actual e = (Inr settlement, e)
    \<and> (settlement = InvalidAmount \<or> (\<exists>x. settlement = SettleOverflow x))
    \<and> fmlookup (reservations (snd (owned_commit r actual e))) (ow_id r) = Some rec"
proof (cases "sint actual < 0")
  case True
  then show ?thesis using assms(2) by (simp add: owned_commit_def commit_def)
next
  case False
  have inv: "engine_inv e" unfolding e_def by (rule run_new_inv)
  obtain a b c d where ok: "tenant_ok e (rr_tenant_id rec) a b c d"
    using engine_inv_hold [OF inv assms(2)] by metis
  then have "\<not> in_i64 (sint c + sint actual)"
    using assms(3) False by (auto simp: committed_of_def tenant_ok_def in_i64_def)
  with False show ?thesis
    using assms(2) by (simp add: owned_commit_def commit_ok [OF inv assms(2) ok] Let_def)
qed

theorem owned_commit_keeps_hold_silently_witness:
  "\<exists>settlement. owned_commit \<lparr> ow_id = 1, ow_amount_microcents = 30 \<rparr> (- 1) (run example_ops new_engine)
     = (Inr settlement, run example_ops new_engine)"
proof -
  have "fmlookup (reservations (run example_ops new_engine)) 1
      = Some \<lparr> rr_tenant_id = ''acme'', rr_reserved_microcents = 30 \<rparr>"
    by (simp add: example_run)
  from owned_commit_keeps_hold_silently [of example_ops "\<lparr> ow_id = 1, ow_amount_microcents = 30 \<rparr>" _ "- 1"] this
  show ?thesis by auto
qed

end
