(* ===== verification/Budget_Concurrent.thy ===== *)
theory Budget_Concurrent
  imports Budget_Inv
begin

text \<open>
  Interleavings of the budget engine (\<open>src/src/budget.rs\<close>). The sequential model runs an operation
  at a time; here every atomic access is a step of its own: the load and the exchange of each
  compare-and-swap loop, the identifier allocation, the fetch-and-add and fetch-and-sub updates,
  and the critical sections under the reservation and the grant locks. Threads stop between any
  two of them, a weak exchange may fail spuriously, and a loaded value may be stale.

  The state is the ledger of one tenant, whose atomics no operation on another tenant touches. The
  exposure cap is constant: it changes under the exclusive guard only, when no thread is inside an
  operation. The same guard makes a snapshot read a state in which every thread is idle.
\<close>

section \<open>Threads\<close>

datatype pc =
    Idle
  | RvTotal i64 i64
  | RvAlloc i64
  | RvLoad i64 u64
  | RvDebit i64 u64 i64
  | RvUndo i64
  | RvInsert i64 u64
  | CmStart u64 i64 i64
  | CmDebit u64 i64 i64 i64 i64
  | CmStore i64 i64 i64
  | CmRefund i64 i64
  | CmTotal i64
  | RlTotal i64
  | RlCredit i64
  | TuCredit i64 i64
  | TuStore i64

record conc =
  budget :: i64
  tot :: i64
  spent :: i64
  granted :: i64
  cap :: i64
  holds :: "(u64, i64) fmap"
  nxt :: u64
  res_lock :: "nat option"
  init_lock :: "nat option"
  threads :: "pc list"

definition goto :: "nat \<Rightarrow> pc \<Rightarrow> conc \<Rightarrow> conc" where
  "goto i p s = s\<lparr> threads := (threads s)[i := p] \<rparr>"

definition at :: "conc \<Rightarrow> nat \<Rightarrow> pc \<Rightarrow> bool" where
  "at s i p \<longleftrightarrow> i < length (threads s) \<and> threads s ! i = p"

definition within_cap :: "conc \<Rightarrow> i64 \<Rightarrow> i64 \<Rightarrow> bool" where
  "within_cap s cur cost \<longleftrightarrow>
     in_i64 (sint cur + sint cost) \<and> \<not> (0 < sint (cap s) \<and> sint (cap s) < sint (cur + cost))"

text \<open>The steps of \<open>try_reserve\<close>.\<close>

inductive reserve_step :: "conc \<Rightarrow> conc \<Rightarrow> bool" where
  start: "at s i Idle \<Longrightarrow> 0 < sint cost \<Longrightarrow> reserve_step s (goto i (RvTotal cost (tot s)) s)"
| refused: "at s i (RvTotal cost cur) \<Longrightarrow> \<not> within_cap s cur cost \<Longrightarrow> reserve_step s (goto i Idle s)"
| total: "at s i (RvTotal cost cur) \<Longrightarrow> within_cap s cur cost \<Longrightarrow> tot s = cur \<Longrightarrow>
    reserve_step s (goto i (RvAlloc cost) (s\<lparr> tot := cur + cost \<rparr>))"
| total_retry: "at s i (RvTotal cost cur) \<Longrightarrow> within_cap s cur cost \<Longrightarrow>
    reserve_step s (goto i (RvTotal cost (tot s)) s)"
| alloc: "at s i (RvAlloc cost) \<Longrightarrow> nxt s < RECOVERY_ALLOCATOR_MASK \<Longrightarrow>
    reserve_step s (goto i (RvLoad cost (nxt s)) (s\<lparr> nxt := nxt s + 1 \<rparr>))"
| exhausted: "at s i (RvAlloc cost) \<Longrightarrow> \<not> nxt s < RECOVERY_ALLOCATOR_MASK \<Longrightarrow>
    reserve_step s (goto i (RvUndo cost) s)"
| load: "at s i (RvLoad cost j) \<Longrightarrow> reserve_step s (goto i (RvDebit cost j (budget s)) s)"
| insufficient: "at s i (RvDebit cost j cur) \<Longrightarrow> sint cur < sint cost \<Longrightarrow>
    reserve_step s (goto i (RvUndo cost) s)"
| debit: "at s i (RvDebit cost j cur) \<Longrightarrow> sint cost \<le> sint cur \<Longrightarrow> budget s = cur \<Longrightarrow>
    reserve_step s (goto i (RvInsert cost j) (s\<lparr> budget := cur - cost \<rparr>))"
| debit_retry: "at s i (RvDebit cost j cur) \<Longrightarrow> sint cost \<le> sint cur \<Longrightarrow>
    reserve_step s (goto i (RvDebit cost j (budget s)) s)"
| undo: "at s i (RvUndo cost) \<Longrightarrow> reserve_step s (goto i Idle (s\<lparr> tot := tot s - cost \<rparr>))"
| insert: "at s i (RvInsert cost j) \<Longrightarrow> res_lock s = None \<Longrightarrow>
    reserve_step s (goto i Idle (s\<lparr> holds := fmupd j cost (holds s) \<rparr>))"

text \<open>The steps of \<open>commit\<close>, which holds the reservation lock from its first step to its last.\<close>

inductive commit_step :: "conc \<Rightarrow> conc \<Rightarrow> bool" where
  start: "at s i Idle \<Longrightarrow> res_lock s = None \<Longrightarrow> fmlookup (holds s) j = Some amount \<Longrightarrow> 0 \<le> sint actual \<Longrightarrow>
    commit_step s (goto i (CmStart j amount actual) (s\<lparr> holds := fmdrop j (holds s), res_lock := Some i \<rparr>))"
| overflow: "at s i (CmStart j amount actual) \<Longrightarrow> \<not> in_i64 (sint (spent s) + sint actual) \<Longrightarrow>
    commit_step s (goto i Idle (s\<lparr> holds := fmupd j amount (holds s), res_lock := None \<rparr>))"
| more: "at s i (CmStart j amount actual) \<Longrightarrow> in_i64 (sint (spent s) + sint actual) \<Longrightarrow>
    0 < sint (actual - amount) \<Longrightarrow>
    commit_step s (goto i (CmDebit j amount actual (spent s + actual) (budget s)) s)"
| less: "at s i (CmStart j amount actual) \<Longrightarrow> in_i64 (sint (spent s) + sint actual) \<Longrightarrow>
    \<not> 0 < sint (actual - amount) \<Longrightarrow>
    commit_step s (goto i (CmStore amount actual (spent s + actual)) s)"
| overrun: "at s i (CmDebit j amount actual new cur) \<Longrightarrow> sint cur < sint (actual - amount) \<Longrightarrow>
    commit_step s (goto i Idle (s\<lparr> holds := fmupd j amount (holds s), res_lock := None \<rparr>))"
| debit: "at s i (CmDebit j amount actual new cur) \<Longrightarrow> sint (actual - amount) \<le> sint cur \<Longrightarrow> budget s = cur \<Longrightarrow>
    commit_step s (goto i (CmStore amount actual new) (s\<lparr> budget := cur - (actual - amount) \<rparr>))"
| debit_retry: "at s i (CmDebit j amount actual new cur) \<Longrightarrow> sint (actual - amount) \<le> sint cur \<Longrightarrow>
    commit_step s (goto i (CmDebit j amount actual new (budget s)) s)"
| store: "at s i (CmStore amount actual new) \<Longrightarrow>
    commit_step s (goto i (CmRefund amount actual) (s\<lparr> spent := new \<rparr>))"
| refund: "at s i (CmRefund amount actual) \<Longrightarrow>
    commit_step s (goto i (CmTotal amount)
      (if sint (actual - amount) < 0 then s\<lparr> budget := budget s + - (actual - amount) \<rparr> else s))"
| total: "at s i (CmTotal amount) \<Longrightarrow>
    commit_step s (goto i Idle (s\<lparr> tot := tot s - amount, res_lock := None \<rparr>))"

text \<open>The steps of \<open>release\<close> and of \<open>top_up_tenant\<close>.\<close>

inductive release_step :: "conc \<Rightarrow> conc \<Rightarrow> bool" where
  start: "at s i Idle \<Longrightarrow> res_lock s = None \<Longrightarrow> fmlookup (holds s) j = Some amount \<Longrightarrow>
    release_step s (goto i (RlTotal amount) (s\<lparr> holds := fmdrop j (holds s), res_lock := Some i \<rparr>))"
| total: "at s i (RlTotal amount) \<Longrightarrow> release_step s (goto i (RlCredit amount) (s\<lparr> tot := tot s - amount \<rparr>))"
| credit: "at s i (RlCredit amount) \<Longrightarrow>
    release_step s (goto i Idle (s\<lparr> budget := budget s + amount, res_lock := None \<rparr>))"

inductive top_up_step :: "conc \<Rightarrow> conc \<Rightarrow> bool" where
  start: "at s i Idle \<Longrightarrow> init_lock s = None \<Longrightarrow> 0 < sint amount \<Longrightarrow> in_i64 (sint (granted s) + sint amount) \<Longrightarrow>
    top_up_step s (goto i (TuCredit amount (budget s)) (s\<lparr> init_lock := Some i \<rparr>))"
| overflow: "at s i (TuCredit amount cur) \<Longrightarrow> \<not> in_i64 (sint cur + sint amount) \<Longrightarrow>
    top_up_step s (goto i Idle (s\<lparr> init_lock := None \<rparr>))"
| credit: "at s i (TuCredit amount cur) \<Longrightarrow> in_i64 (sint cur + sint amount) \<Longrightarrow> budget s = cur \<Longrightarrow>
    top_up_step s (goto i (TuStore amount) (s\<lparr> budget := cur + amount \<rparr>))"
| credit_retry: "at s i (TuCredit amount cur) \<Longrightarrow> in_i64 (sint cur + sint amount) \<Longrightarrow>
    top_up_step s (goto i (TuCredit amount (budget s)) s)"
| store: "at s i (TuStore amount) \<Longrightarrow>
    top_up_step s (goto i Idle (s\<lparr> granted := granted s + amount, init_lock := None \<rparr>))"

inductive step :: "conc \<Rightarrow> conc \<Rightarrow> bool" where
  reserve: "reserve_step s s' \<Longrightarrow> step s s'"
| commit: "commit_step s s' \<Longrightarrow> step s s'"
| release: "release_step s s' \<Longrightarrow> step s s'"
| top_up: "top_up_step s s' \<Longrightarrow> step s s'"

section \<open>What a thread has in flight\<close>

text \<open>Counted in the reserved total, but not an open hold.\<close>

fun total_part :: "pc \<Rightarrow> int" where
  "total_part (RvAlloc c) = sint c"
| "total_part (RvLoad c _) = sint c"
| "total_part (RvDebit c _ _) = sint c"
| "total_part (RvUndo c) = sint c"
| "total_part (RvInsert c _) = sint c"
| "total_part (CmStart _ m _) = sint m"
| "total_part (CmDebit _ m _ _ _) = sint m"
| "total_part (CmStore m _ _) = sint m"
| "total_part (CmRefund m _) = sint m"
| "total_part (CmTotal m) = sint m"
| "total_part (RlTotal m) = sint m"
| "total_part _ = 0"

text \<open>Taken from the balance, but neither an open hold nor spent.\<close>

fun money :: "pc \<Rightarrow> int" where
  "money (RvInsert c _) = sint c"
| "money (CmStart _ m _) = sint m"
| "money (CmDebit _ m _ _ _) = sint m"
| "money (CmStore m a _) = max (sint m) (sint a)"
| "money (CmRefund m a) = max 0 (sint m - sint a)"
| "money (RlTotal m) = sint m"
| "money (RlCredit m) = sint m"
| "money _ = 0"

text \<open>The amounts a thread carries are what the entry checks of the operations admit.\<close>

fun pc_ok :: "conc \<Rightarrow> pc \<Rightarrow> bool" where
  "pc_ok s (RvTotal c _) = (0 < sint c)"
| "pc_ok s (RvAlloc c) = (0 < sint c)"
| "pc_ok s (RvLoad c _) = (0 < sint c)"
| "pc_ok s (RvDebit c _ _) = (0 < sint c)"
| "pc_ok s (RvUndo c) = (0 < sint c)"
| "pc_ok s (RvInsert c _) = (0 < sint c)"
| "pc_ok s (CmStart _ m a) = (0 < sint m \<and> 0 \<le> sint a)"
| "pc_ok s (CmDebit _ m a n _) = (0 < sint m \<and> sint m < sint a \<and> sint n = sint (spent s) + sint a)"
| "pc_ok s (CmStore m a n) = (0 < sint m \<and> 0 \<le> sint a \<and> sint n = sint (spent s) + sint a)"
| "pc_ok s (CmRefund m a) = (0 < sint m \<and> 0 \<le> sint a)"
| "pc_ok s (CmTotal m) = (0 < sint m)"
| "pc_ok s (RlTotal m) = (0 < sint m)"
| "pc_ok s (RlCredit m) = (0 < sint m)"
| "pc_ok s (TuCredit v _) = (0 < sint v \<and> in_i64 (sint (granted s) + sint v))"
| "pc_ok s (TuStore v) = (0 < sint v \<and> in_i64 (sint (granted s) + sint v))"
| "pc_ok s Idle = True"

fun settling :: "pc \<Rightarrow> bool" where
  "settling (CmStart _ _ _) = True"
| "settling (CmDebit _ _ _ _ _) = True"
| "settling (CmStore _ _ _) = True"
| "settling (CmRefund _ _) = True"
| "settling (CmTotal _) = True"
| "settling (RlTotal _) = True"
| "settling (RlCredit _) = True"
| "settling _ = False"

fun topping :: "pc \<Rightarrow> bool" where
  "topping (TuCredit _ _) = True"
| "topping (TuStore _) = True"
| "topping _ = False"

text \<open>A top-up that has credited the balance but not yet stored the new grant.\<close>

fun pending :: "pc \<Rightarrow> int" where
  "pending (TuStore v) = sint v"
| "pending _ = 0"

fun pc_id :: "pc \<Rightarrow> u64 option" where
  "pc_id (RvLoad _ j) = Some j"
| "pc_id (RvDebit _ j _) = Some j"
| "pc_id (RvInsert _ j) = Some j"
| "pc_id (CmStart j _ _) = Some j"
| "pc_id (CmDebit j _ _ _ _) = Some j"
| "pc_id _ = None"

definition hsum :: "(u64, i64) fmap \<Rightarrow> int" where
  "hsum m = (\<Sum>j \<in> fset (fmdom m). case fmlookup m j of None \<Rightarrow> 0 | Some v \<Rightarrow> sint v)"


lemma hsum_empty [simp]: "hsum fmempty = 0"
  by (simp add: hsum_def)

lemma hsum_upd:
  assumes "fmlookup m j = None"
  shows "hsum (fmupd j v m) = hsum m + sint v"
proof -
  have j: "j \<notin> fset (fmdom m)" using assms by (simp add: fmdom_notI)
  have "hsum (fmupd j v m) = sint v
      + (\<Sum>k \<in> fset (fmdom m). case fmlookup (fmupd j v m) k of None \<Rightarrow> 0 | Some v \<Rightarrow> sint v)"
    using j by (simp add: hsum_def)
  also have "(\<Sum>k \<in> fset (fmdom m). case fmlookup (fmupd j v m) k of None \<Rightarrow> 0 | Some v \<Rightarrow> sint v) = hsum m"
    unfolding hsum_def using j by (intro sum.cong) auto
  finally show ?thesis by simp
qed

lemma hsum_drop:
  assumes "fmlookup m j = Some v"
  shows "hsum (fmdrop j m) = hsum m - sint v"
proof -
  have "fmupd j v (fmdrop j m) = m" using assms by (intro fmap_ext) auto
  then show ?thesis using hsum_upd [of "fmdrop j m" j v] by simp
qed

section \<open>The invariant of all interleavings\<close>

definition holds_inv :: "conc \<Rightarrow> bool" where
  "holds_inv s \<longleftrightarrow> (\<forall>j v. fmlookup (holds s) j = Some v \<longrightarrow> 0 < sint v)"

definition lock_inv :: "conc \<Rightarrow> bool" where
  "lock_inv s \<longleftrightarrow>
     (\<forall>i < length (threads s). (settling (threads s ! i) \<longleftrightarrow> res_lock s = Some i)
        \<and> (topping (threads s ! i) \<longleftrightarrow> init_lock s = Some i))"

definition distinct_ids :: "u64 option list \<Rightarrow> bool" where
  "distinct_ids os \<longleftrightarrow>
     (\<forall>i < length os. \<forall>k < length os. i \<noteq> k \<longrightarrow> os ! i \<noteq> None \<longrightarrow> os ! i \<noteq> os ! k)"

definition ids_fresh :: "u64 option list \<Rightarrow> (u64, i64) fmap \<Rightarrow> u64 \<Rightarrow> bool" where
  "ids_fresh os m n \<longleftrightarrow>
     0 < unat n \<and> unat n < 2 ^ 63 \<and> distinct_ids os
     \<and> (\<forall>j. Some j \<in> set os \<longrightarrow> unat j < unat n \<and> fmlookup m j = None)
     \<and> (\<forall>j v. fmlookup m j = Some v \<longrightarrow> 0 < sint v \<and> unat j < unat n)"

definition ids_inv :: "conc \<Rightarrow> bool" where
  "ids_inv s \<longleftrightarrow> ids_fresh (map pc_id (threads s)) (holds s) (nxt s)"

definition sums_inv :: "conc \<Rightarrow> bool" where
  "sums_inv s \<longleftrightarrow>
     0 \<le> sint (budget s) \<and> 0 \<le> sint (spent s)
     \<and> sint (budget s) + hsum (holds s) + sum_list (map money (threads s)) + sint (spent s)
        = sint (granted s) + sum_list (map pending (threads s))
     \<and> sint (tot s) = hsum (holds s) + sum_list (map total_part (threads s))
     \<and> (0 < sint (cap s) \<longrightarrow> sint (tot s) \<le> sint (cap s))"

definition conc_inv :: "conc \<Rightarrow> bool" where
  "conc_inv s \<longleftrightarrow>
     lock_inv s \<and> ids_inv s \<and> sums_inv s \<and> list_all (pc_ok s) (threads s)"

lemma sum_list_replace:
  "k < length xs \<Longrightarrow> sum_list (xs[k := x]) = sum_list xs + x - xs ! k" for x :: int
  by (induction xs arbitrary: k) (auto split: nat.split)

lemma sum_goto:
  fixes f :: "pc \<Rightarrow> int"
  assumes "at s i p" "threads s1 = threads s"
  shows "sum_list (map f (threads (goto i p' s1))) = sum_list (map f (threads s)) + f p' - f p"
  using assms by (simp add: at_def goto_def map_update sum_list_replace)

lemma ids_inv_holds: "ids_inv s \<Longrightarrow> holds_inv s"
  by (auto simp: ids_inv_def ids_fresh_def holds_inv_def)

lemma hsum_nonneg: "holds_inv s \<Longrightarrow> 0 \<le> hsum (holds s)"
  unfolding hsum_def holds_inv_def by (intro sum_nonneg) (auto split: option.splits intro: less_imp_le)

lemma hold_le_hsum:
  assumes "holds_inv s" "fmlookup (holds s) j = Some v"
  shows "sint v \<le> hsum (holds s)"
proof -
  have "holds_inv (s\<lparr> holds := fmdrop j (holds s) \<rparr>)"
    using assms(1) by (auto simp: holds_inv_def fmlookup_drop split: if_splits)
  from hsum_nonneg [OF this] show ?thesis by (simp add: hsum_drop [OF assms(2)])
qed

lemma parts_nonneg: "pc_ok s p \<Longrightarrow> 0 \<le> money p \<and> 0 \<le> total_part p \<and> 0 \<le> pending p"
  by (cases p) (auto simp: max_def)

lemma part_le_sum:
  fixes f :: "pc \<Rightarrow> int"
  assumes "\<And>p. p \<in> set ps \<Longrightarrow> 0 \<le> f p" "i < length ps"
  shows "f (ps ! i) \<le> sum_list (map f ps)"
  using assms(2) assms(1)
proof (induction ps arbitrary: i)
  case (Cons q ps)
  have "0 \<le> sum_list (map f ps)" using Cons.prems by (intro sum_list_nonneg) auto
  moreover have "0 \<le> f q" using Cons.prems by simp
  moreover have "f (ps ! k) \<le> sum_list (map f ps)" if "k < length ps" for k
    using Cons.IH [OF that] Cons.prems(2) by simp
  ultimately show ?case using Cons.prems(1) by (cases i) force+
qed simp

lemma pending_sum:
  assumes "conc_inv s"
  shows "in_i64 (sint (granted s) + sum_list (map pending (threads s)))"
proof -
  have ok: "pc_ok s (threads s ! i)" if "i < length (threads s)" for i
    using assms that by (simp add: conc_inv_def list_all_length)
  have lock: "topping (threads s ! i) \<longleftrightarrow> init_lock s = Some i" if "i < length (threads s)" for i
    using assms that by (simp add: conc_inv_def lock_inv_def)
  show ?thesis
  proof (cases "\<exists>i < length (threads s). topping (threads s ! i)")
    case True
    then obtain i where i: "i < length (threads s)" "topping (threads s ! i)" by blast
    have "pending (threads s ! k) = 0" if "k < length (threads s)" "k \<noteq> i" for k
      using lock [OF i(1)] lock [OF that(1)] i(2) that(2) by (cases "threads s ! k") auto
    then have "sum_list (map pending (threads s)) = (\<Sum>k<length (threads s). if k = i then pending (threads s ! i) else 0)"
      unfolding sum_list_sum_nth by (intro sum.cong) auto
    also have "\<dots> = pending (threads s ! i)" using i(1) by simp
    finally have "sum_list (map pending (threads s)) = pending (threads s ! i)" .
    with ok [OF i(1)] i(2) show ?thesis by (cases "threads s ! i") auto
  next
    case False
    moreover have "\<not> topping p \<Longrightarrow> pending p = 0" for p by (cases p) simp_all
    ultimately have "\<forall>p \<in> set (threads s). pending p = 0" by (metis in_set_conv_nth)
    moreover have "\<forall>p \<in> set ps. pending p = 0 \<Longrightarrow> sum_list (map pending ps) = 0" for ps
      by (induction ps) auto
    ultimately show ?thesis by simp
  qed
qed

lemma conc_bounds:
  assumes "conc_inv s" "at s i p"
  shows "0 \<le> hsum (holds s)" "sint (budget s) + hsum (holds s) + money p + sint (spent s) \<le> i64_max"
    "hsum (holds s) + total_part p \<le> sint (tot s)" "pc_ok s p" "0 \<le> money p" "0 \<le> total_part p"
    "0 \<le> sint (budget s)" "0 \<le> sint (spent s)"
proof -
  have ok: "\<forall>q \<in> set (threads s). pc_ok s q" and i: "i < length (threads s)" "threads s ! i = p"
    using assms by (auto simp: conc_inv_def list_all_iff at_def)
  have "money p \<le> sum_list (map money (threads s))" "total_part p \<le> sum_list (map total_part (threads s))"
    using part_le_sum [of "threads s" money i] part_le_sum [of "threads s" total_part i] i ok parts_nonneg
    by blast+
  moreover have "sint (granted s) + sum_list (map pending (threads s)) \<le> i64_max"
    using pending_sum [OF assms(1)] by (simp add: in_i64_def)
  ultimately show "0 \<le> hsum (holds s)" "sint (budget s) + hsum (holds s) + money p + sint (spent s) \<le> i64_max"
    "hsum (holds s) + total_part p \<le> sint (tot s)" "0 \<le> sint (budget s)" "0 \<le> sint (spent s)"
    using assms(1) hsum_nonneg [OF ids_inv_holds, of s] by (auto simp: conc_inv_def sums_inv_def)
  show "pc_ok s p" using ok i by auto
  then show "0 \<le> money p" "0 \<le> total_part p" using parts_nonneg by blast+
qed


text \<open>
  One lemma for every step: the thread \<open>i\<close> moves from \<open>p\<close> to \<open>p'\<close> and the shared fields change
  from \<open>s\<close> to \<open>s1\<close>. What is to be checked of a step is local to the thread.
\<close>

definition lock_ok :: "nat \<Rightarrow> bool \<Rightarrow> bool \<Rightarrow> nat option \<Rightarrow> nat option \<Rightarrow> bool" where
  "lock_ok i before after old new \<longleftrightarrow>
     (if after then (if before then new = old else old = None \<and> new = Some i)
      else new = (if before then None else old))"

definition ids_ok :: "conc \<Rightarrow> conc \<Rightarrow> pc \<Rightarrow> pc \<Rightarrow> bool" where
  "ids_ok s s1 p p' \<longleftrightarrow>
     nxt s1 = nxt s \<and> (holds s1 = holds s \<and> pc_id p' \<in> {None, pc_id p}
        \<or> (\<exists>j v. pc_id p = Some j \<and> pc_id p' = None \<and> 0 < sint v \<and> holds s1 = fmupd j v (holds s))
        \<or> (\<exists>j v. fmlookup (holds s) j = Some v \<and> pc_id p' \<in> {None, Some j} \<and> holds s1 = fmdrop j (holds s)))
     \<or> holds s1 = holds s \<and> pc_id p' = Some (nxt s) \<and> nxt s1 = nxt s + 1 \<and> unat (nxt s) < 2 ^ 63 - 1"

lemma lock_goto:
  assumes "lock_inv s" "at s i p" "threads s1 = threads s"
    and "lock_ok i (settling p) (settling p') (res_lock s) (res_lock s1)"
    and "lock_ok i (topping p) (topping p') (init_lock s) (init_lock s1)"
  shows "lock_inv (goto i p' s1)"
  using assms
  by (auto simp: lock_inv_def goto_def at_def nth_list_update lock_ok_def split: if_splits)

lemma in_update: "Some j \<in> set (os[i := o']) \<Longrightarrow> Some j \<in> set os \<or> o' = Some j"
  using set_update_subset_insert [of os i o'] by auto

lemma distinct_ids_update:
  assumes d: "distinct_ids os" and o: "o' = None \<or> o' = os ! i \<or> o' \<notin> set os"
  shows "distinct_ids (os[i := o'])"
  unfolding distinct_ids_def
proof (intro allI impI)
  fix a b assume ab: "a < length (os[i := o'])" "b < length (os[i := o'])" "a \<noteq> b" "os[i := o'] ! a \<noteq> None"
  then have len: "a < length os" "b < length os" by simp_all
  note da = d [unfolded distinct_ids_def, rule_format, of a b] and db = d [unfolded distinct_ids_def, rule_format, of b a]
  show "os[i := o'] ! a \<noteq> os[i := o'] ! b"
  proof (cases "a = i")
    case True
    then have o': "os[i := o'] ! a = o'" "os[i := o'] ! b = os ! b" "o' \<noteq> None" using ab len by simp_all
    show ?thesis
    proof
      assume "os[i := o'] ! a = os[i := o'] ! b"
      then have "o' = os ! b" using o' by simp
      then show False using o o'(3) db ab(3) len True nth_mem [OF len(2)] by auto
    qed
  next
    case False
    then have o': "os[i := o'] ! a = os ! a" using len by simp
    show ?thesis
    proof (cases "b = i")
      case True
      then have b: "os[i := o'] ! b = o'" using len by simp
      show ?thesis
      proof
        assume "os[i := o'] ! a = os[i := o'] ! b"
        then have eq: "o' = os ! a" using o' b by simp
        then have "o' \<in> set os" "o' \<noteq> None" using nth_mem [OF len(1)] ab(4) o' by simp_all
        then show False using o eq da ab(3) len True by auto
      qed
    next
      case b: False
      then show ?thesis using o' da ab len by auto
    qed
  qed
qed

lemma distinct_ids_removed:
  assumes "distinct_ids os" "i < length os" "os ! i = Some j"
  shows "Some j \<notin> set (os[i := None])"
proof
  assume "Some j \<in> set (os[i := None])"
  then obtain k where k: "k < length os" "os[i := None] ! k = Some j" by (auto simp: in_set_conv_nth)
  then have "k \<noteq> i" by auto
  moreover from this k have "os ! k = Some j" by simp
  ultimately show False
    using assms(2,3) k(1) assms(1) [unfolded distinct_ids_def, rule_format, of i k] by simp
qed

lemma ids_fresh_keep:
  assumes "ids_fresh os m n" "o' = None \<or> o' = os ! i" "i < length os"
  shows "ids_fresh (os[i := o']) m n"
proof -
  have "Some j \<in> set os" if "Some j \<in> set (os[i := o'])" for j
    using in_update [OF that] assms(2,3) by (metis nth_mem option.distinct(1))
  then show ?thesis using assms(1,2) distinct_ids_update [of os o' i] unfolding ids_fresh_def by blast
qed

lemma ids_fresh_put:
  assumes f: "ids_fresh os m n" and i: "i < length os" "os ! i = Some j" and v: "0 < sint v"
  shows "ids_fresh (os[i := None]) (fmupd j v m) n"
proof -
  have "Some k \<in> set os \<and> k \<noteq> j" if "Some k \<in> set (os[i := None])" for k
    using that in_update [OF that] distinct_ids_removed [OF _ i] f unfolding ids_fresh_def by auto
  moreover have "unat j < unat n" using f i unfolding ids_fresh_def by (metis nth_mem)
  ultimately show ?thesis
    using f v distinct_ids_update [of os None i] unfolding ids_fresh_def by auto
qed

lemma ids_fresh_take:
  assumes f: "ids_fresh os m n" and m: "fmlookup m j = Some v" and o: "o' = None \<or> o' = Some j"
  shows "ids_fresh (os[i := o']) (fmdrop j m) n"
proof -
  have "Some j \<notin> set os" using f m unfolding ids_fresh_def by force
  then have "distinct_ids (os[i := o'])"
    using f o distinct_ids_update [of os o' i] unfolding ids_fresh_def by auto
  moreover have "Some k \<in> set os \<or> k = j" if "Some k \<in> set (os[i := o'])" for k
    using in_update [OF that] o by auto
  ultimately show ?thesis
    using f m unfolding ids_fresh_def by (auto simp: fmlookup_drop split: if_splits)
qed

lemma ids_fresh_new:
  assumes f: "ids_fresh os m n" and n: "unat n < 2 ^ 63 - 1"
  shows "ids_fresh (os[i := Some n]) m (n + 1)"
proof -
  have s: "unat (n + 1) = Suc (unat n)" using n by (simp add: unat_add_fit)
  have "Some n \<notin> set os" "fmlookup m n = None"
    using f unfolding ids_fresh_def by (auto, metis less_irrefl option.exhaust)
  moreover have "Some k \<in> set os \<or> k = n" if "Some k \<in> set (os[i := Some n])" for k
    using in_update [OF that] by auto
  moreover have "distinct_ids (os[i := Some n])"
    using f distinct_ids_update [of os "Some n" i] calculation(1) unfolding ids_fresh_def by auto
  ultimately show ?thesis
    using f n unfolding ids_fresh_def s by (auto simp: less_Suc_eq)
qed

lemma ids_goto:
  assumes inv: "ids_inv s" and at: "at s i p" "threads s1 = threads s" and ok: "ids_ok s s1 p p'"
  shows "ids_inv (goto i p' s1)"
proof -
  define os where "os = map pc_id (threads s)"
  have i: "i < length os" "os ! i = pc_id p" using at by (auto simp: at_def os_def)
  have eq: "ids_inv (goto i p' s1) \<longleftrightarrow> ids_fresh (os[i := pc_id p']) (holds s1) (nxt s1)"
    using at by (simp add: ids_inv_def goto_def map_update os_def)
  have f: "ids_fresh os (holds s) (nxt s)" using inv by (simp add: ids_inv_def os_def)
  show ?thesis
    using ok ids_fresh_keep [OF f _ i(1), of "pc_id p'"] ids_fresh_put [OF f i(1)] ids_fresh_take [OF f, of _ _ "pc_id p'" i]
      ids_fresh_new [OF f, of i]
    unfolding eq ids_ok_def i(2) by auto
qed

lemma pc_ok_cong: "pc_ok s p \<Longrightarrow> spent s1 = spent s \<or> \<not> settling p \<Longrightarrow> granted s1 = granted s \<or> \<not> topping p \<Longrightarrow> pc_ok s1 p"
  by (cases p) auto

lemma conc_inv_goto:
  assumes inv: "conc_inv s" and at: "at s i p" and th: "threads s1 = threads s" and cp: "cap s1 = cap s"
    and locks: "lock_ok i (settling p) (settling p') (res_lock s) (res_lock s1)"
      "lock_ok i (topping p) (topping p') (init_lock s) (init_lock s1)"
    and ids: "ids_ok s s1 p p'"
    and others: "spent s1 = spent s \<or> settling p" "granted s1 = granted s \<or> topping p"
    and pc: "pc_ok s1 p'"
    and nonneg: "0 \<le> sint (budget s1)" "0 \<le> sint (spent s1)"
    and money: "sint (budget s1) + hsum (holds s1) + money p' + sint (spent s1) - sint (granted s1) - pending p'
      = sint (budget s) + hsum (holds s) + money p + sint (spent s) - sint (granted s) - pending p"
    and total: "sint (tot s1) - hsum (holds s1) - total_part p' = sint (tot s) - hsum (holds s) - total_part p"
    and capped: "0 < sint (cap s) \<Longrightarrow> sint (tot s1) \<le> sint (cap s)"
  shows "conc_inv (goto i p' s1)"
proof -
  have i: "i < length (threads s)" "threads s ! i = p" using at by (auto simp: at_def)
  have parts: "lock_inv s" "ids_inv s" "sums_inv s" "\<forall>k < length (threads s). pc_ok s (threads s ! k)"
    using inv by (auto simp: conc_inv_def list_all_length)
  have "pc_ok s1 (threads s ! k)" if "k < length (threads s)" "k \<noteq> i" for k
  proof (rule pc_ok_cong)
    show "pc_ok s (threads s ! k)" using parts(4) that by blast
    show "spent s1 = spent s \<or> \<not> settling (threads s ! k)" "granted s1 = granted s \<or> \<not> topping (threads s ! k)"
      using others parts(1) that i by (auto simp: lock_inv_def)
  qed
  moreover have "pc_ok (goto i p' s1) q = pc_ok s1 q" for q by (cases q) (simp_all add: goto_def)
  ultimately have "list_all (pc_ok (goto i p' s1)) (threads (goto i p' s1))"
    using pc i th by (simp add: list_all_length) (simp add: goto_def nth_list_update)
  moreover have "sums_inv (goto i p' s1)"
  proof -
    have "budget (goto i p' s1) = budget s1" "spent (goto i p' s1) = spent s1" "granted (goto i p' s1) = granted s1"
      "tot (goto i p' s1) = tot s1" "cap (goto i p' s1) = cap s" "holds (goto i p' s1) = holds s1"
      by (simp_all add: goto_def cp)
    then show ?thesis
      using parts(3) nonneg money total capped unfolding sums_inv_def sum_goto [OF at th] by auto
  qed
  ultimately show ?thesis
    using lock_goto [OF parts(1) at th locks] ids_goto [OF parts(2) at th ids] by (simp add: conc_inv_def)
qed

section \<open>Every step keeps the invariant\<close>

lemma in_i64_nonneg: "0 \<le> v \<Longrightarrow> v \<le> i64_max \<Longrightarrow> in_i64 v"
  by (simp add: in_i64_def i64_min_def)

lemmas step_local = lock_ok_def ids_ok_def

text \<open>A step that touches no shared field.\<close>

lemma conc_inv_move:
  assumes "conc_inv s" "at s i p" "pc_ok s p'" "settling p' = settling p" "topping p' = topping p"
    and "pc_id p' \<in> {None, pc_id p}" "money p' = money p" "total_part p' = total_part p" "pending p' = pending p"
  shows "conc_inv (goto i p' s)"
  by (rule conc_inv_goto [OF assms(1,2)])
    (use assms conc_bounds [OF assms(1,2)] in \<open>auto simp: step_local conc_inv_def sums_inv_def\<close>)

lemma at_id_fresh:
  assumes "conc_inv s" "at s i p" "pc_id p = Some j"
  shows "fmlookup (holds s) j = None"
proof -
  have "Some j \<in> set (map pc_id (threads s))"
    using assms(2,3) by (force simp: at_def intro: rev_image_eqI [OF nth_mem])
  then show ?thesis using assms(1) unfolding conc_inv_def ids_inv_def ids_fresh_def by blast
qed

lemma tot_sub_fit:
  assumes "conc_inv s" "at s i p" "total_part p = sint v"
  shows "sint (tot s - v) = sint (tot s) - sint v"
  using conc_bounds [OF assms(1,2)] assms(3) sint_in_i64 [of "tot s"]
  by (intro sint_sub_fit in_i64_nonneg) (auto simp: in_i64_def)

lemma budget_add_fit:
  assumes "conc_inv s" "at s i p" "money p = v"
  shows "in_i64 (sint (budget s) + v)"
  using conc_bounds [OF assms(1,2)] assms(3) by (intro in_i64_nonneg) auto

lemma reserve_step_inv:
  assumes "reserve_step s s'" "conc_inv s"
  shows "conc_inv s'"
  using assms
proof (induction rule: reserve_step.induct)
  case (total s i cost cur)
  then have "sint (cur + cost) = sint cur + sint cost" by (simp add: within_cap_def word_fit)
  with total show ?case
    by (intro conc_inv_goto [OF total.prems total.hyps(1)])
      (use conc_bounds [OF total.prems total.hyps(1)] in \<open>auto simp: step_local within_cap_def\<close>)
next
  case (alloc s i cost)
  then have "unat (nxt s) < 2 ^ 63 - 1" by (simp add: word_less_nat_alt alloc_mask)
  with alloc show ?case
    by (intro conc_inv_goto [OF alloc.prems alloc.hyps(1)])
      (use conc_bounds [OF alloc.prems alloc.hyps(1)] in \<open>auto simp: step_local conc_inv_def sums_inv_def\<close>)
next
  case (debit s i cost j cur)
  note b = conc_bounds [OF debit.prems debit.hyps(1)]
  have "sint (cur - cost) = sint cur - sint cost"
    using b debit.hyps by (intro sint_sub_fit in_i64_nonneg) auto
  with debit show ?case
    by (intro conc_inv_goto [OF debit.prems debit.hyps(1)])
      (use b in \<open>auto simp: step_local conc_inv_def sums_inv_def\<close>)
next
  case (undo s i cost)
  then show ?case
    by (intro conc_inv_goto [OF undo.prems undo.hyps(1)])
      (use conc_bounds [OF undo.prems undo.hyps(1)] tot_sub_fit [OF undo.prems undo.hyps(1)]
        in \<open>auto simp: step_local conc_inv_def sums_inv_def\<close>)
next
  case (insert s i cost j)
  then show ?case
    by (intro conc_inv_goto [OF insert.prems insert.hyps(1)])
      (use conc_bounds [OF insert.prems insert.hyps(1)] at_id_fresh [OF insert.prems insert.hyps(1)]
        in \<open>auto simp: step_local conc_inv_def sums_inv_def hsum_upd\<close>)
qed (rule conc_inv_move, assumption, assumption, (auto dest: conc_bounds(4))[7])+

lemma commit_step_inv:
  assumes "commit_step s s'" "conc_inv s"
  shows "conc_inv s'"
  using assms
proof (induction rule: commit_step.induct)
  case (start s i j amount actual)
  have "0 < sint amount" using start ids_inv_holds [of s] by (auto simp: conc_inv_def holds_inv_def)
  with start show ?case
    by (intro conc_inv_goto [OF start.prems start.hyps(1)])
      (use conc_bounds [OF start.prems start.hyps(1)] in \<open>auto simp: step_local conc_inv_def sums_inv_def hsum_drop\<close>)
next
  case (overflow s i j amount actual)
  then show ?case
    by (intro conc_inv_goto [OF overflow.prems overflow.hyps(1)])
      (use conc_bounds [OF overflow.prems overflow.hyps(1)] at_id_fresh [OF overflow.prems overflow.hyps(1)]
        in \<open>auto simp: step_local conc_inv_def sums_inv_def hsum_upd\<close>)
next
  case (overrun s i j amount actual new cur)
  then show ?case
    by (intro conc_inv_goto [OF overrun.prems overrun.hyps(1)])
      (use conc_bounds [OF overrun.prems overrun.hyps(1)] at_id_fresh [OF overrun.prems overrun.hyps(1)]
        in \<open>auto simp: step_local conc_inv_def sums_inv_def hsum_upd\<close>)
next
  case (debit s i j amount actual new cur)
  note b = conc_bounds [OF debit.prems debit.hyps(1)]
  have d: "sint (actual - amount) = sint actual - sint amount"
    using b sint_in_i64 [of actual] by (intro sint_sub_fit in_i64_nonneg) (auto simp: in_i64_def)
  then have "in_i64 (sint cur - sint (actual - amount))"
    using b debit.hyps sint_in_i64 [of cur] by (intro in_i64_nonneg) (auto simp: in_i64_def)
  then have "sint (cur - (actual - amount)) = sint cur - (sint actual - sint amount)"
    using d by (simp add: sint_sub_fit)
  with debit d show ?case
    by (intro conc_inv_goto [OF debit.prems debit.hyps(1)])
      (use b in \<open>auto simp: step_local conc_inv_def sums_inv_def\<close>)
next
  case (store s i amount actual new)
  note b = conc_bounds [OF store.prems store.hyps(1)]
  then show ?case
    by (intro conc_inv_goto [OF store.prems store.hyps(1)])
      (use b store.prems in \<open>auto simp: step_local conc_inv_def sums_inv_def max_def\<close>)
next
  case (refund s i amount actual)
  note b = conc_bounds [OF refund.prems refund.hyps(1)]
  have d: "sint (actual - amount) = sint actual - sint amount"
    using b sint_in_i64 [of actual] sint_in_i64 [of amount]
    by (intro sint_sub_fit) (auto simp: in_i64_def i64_min_def i64_max_def)
  have "sint (budget s + - (actual - amount)) = sint (budget s) + (sint amount - sint actual)"
    if "sint actual < sint amount"
  proof -
    have "sint (amount - actual) = sint amount - sint actual"
      using b that sint_in_i64 [of amount] by (intro sint_sub_fit in_i64_nonneg) (auto simp: in_i64_def)
    moreover have "in_i64 (sint (budget s) + (sint amount - sint actual))"
      using budget_add_fit [OF refund.prems refund.hyps(1)] that by (simp add: max_def)
    ultimately have "sint (budget s + (amount - actual)) = sint (budget s) + (sint amount - sint actual)"
      by (subst sint_add_fit) auto
    then show ?thesis by simp
  qed
  with d refund show ?case
    by (intro conc_inv_goto [OF refund.prems refund.hyps(1)])
      (use b in \<open>auto simp: step_local conc_inv_def sums_inv_def\<close>)
next
  case (total s i amount)
  then show ?case
    by (intro conc_inv_goto [OF total.prems total.hyps(1)])
      (use conc_bounds [OF total.prems total.hyps(1)] tot_sub_fit [OF total.prems total.hyps(1)]
        in \<open>auto simp: step_local conc_inv_def sums_inv_def\<close>)
next
  case (more s i j amount actual)
  note b = conc_bounds [OF more.prems more.hyps(1)]
  have "sint (actual - amount) = sint actual - sint amount"
    using b sint_in_i64 [of actual] sint_in_i64 [of amount]
    by (intro sint_sub_fit) (auto simp: in_i64_def i64_min_def i64_max_def)
  then show ?case
    by (intro conc_inv_move [OF more.prems more.hyps(1)]) (use b more.hyps in \<open>auto simp: word_fit\<close>)
next
  case (less s i j amount actual)
  note b = conc_bounds [OF less.prems less.hyps(1)]
  have "sint (actual - amount) = sint actual - sint amount"
    using b sint_in_i64 [of actual] sint_in_i64 [of amount]
    by (intro sint_sub_fit) (auto simp: in_i64_def i64_min_def i64_max_def)
  then show ?case
    by (intro conc_inv_move [OF less.prems less.hyps(1)]) (use b less.hyps in \<open>auto simp: word_fit\<close>)
qed (rule conc_inv_move, assumption, assumption, (auto dest: conc_bounds(4))[7])+

lemma release_step_inv:
  assumes "release_step s s'" "conc_inv s"
  shows "conc_inv s'"
  using assms
proof (induction rule: release_step.induct)
  case (start s i j amount)
  have "0 < sint amount" using start ids_inv_holds [of s] by (auto simp: conc_inv_def holds_inv_def)
  with start show ?case
    by (intro conc_inv_goto [OF start.prems start.hyps(1)])
      (use conc_bounds [OF start.prems start.hyps(1)] in \<open>auto simp: step_local conc_inv_def sums_inv_def hsum_drop\<close>)
next
  case (total s i amount)
  then show ?case
    by (intro conc_inv_goto [OF total.prems total.hyps(1)])
      (use conc_bounds [OF total.prems total.hyps(1)] tot_sub_fit [OF total.prems total.hyps(1)]
        in \<open>auto simp: step_local conc_inv_def sums_inv_def\<close>)
next
  case (credit s i amount)
  have "sint (budget s + amount) = sint (budget s) + sint amount"
    using budget_add_fit [OF credit.prems credit.hyps(1)] by (simp add: sint_add_fit)
  with credit show ?case
    by (intro conc_inv_goto [OF credit.prems credit.hyps(1)])
      (use conc_bounds [OF credit.prems credit.hyps(1)] in \<open>auto simp: step_local conc_inv_def sums_inv_def\<close>)
qed

lemma top_up_step_inv:
  assumes "top_up_step s s'" "conc_inv s"
  shows "conc_inv s'"
  using assms
proof (induction rule: top_up_step.induct)
  case (start s i amount)
  then show ?case
    by (intro conc_inv_goto [OF start.prems start.hyps(1)])
      (use conc_bounds [OF start.prems start.hyps(1)] in \<open>auto simp: step_local conc_inv_def sums_inv_def\<close>)
next
  case (overflow s i amount cur)
  then show ?case
    by (intro conc_inv_goto [OF overflow.prems overflow.hyps(1)])
      (use conc_bounds [OF overflow.prems overflow.hyps(1)] in \<open>auto simp: step_local conc_inv_def sums_inv_def\<close>)
next
  case (credit s i amount cur)
  then have "sint (cur + amount) = sint cur + sint amount" by (simp add: sint_add_fit)
  with credit show ?case
    by (intro conc_inv_goto [OF credit.prems credit.hyps(1)])
      (use conc_bounds [OF credit.prems credit.hyps(1)] in \<open>auto simp: step_local conc_inv_def sums_inv_def\<close>)
next
  case (store s i amount)
  note b = conc_bounds [OF store.prems store.hyps(1)]
  then have "sint (granted s + amount) = sint (granted s) + sint amount" by (simp add: sint_add_fit)
  with store show ?case
    by (intro conc_inv_goto [OF store.prems store.hyps(1)])
      (use b in \<open>auto simp: step_local conc_inv_def sums_inv_def\<close>)
qed (rule conc_inv_move, assumption, assumption, (auto dest: conc_bounds(4))[7])+

lemma step_inv: "step s s' \<Longrightarrow> conc_inv s \<Longrightarrow> conc_inv s'"
  by (induction rule: step.induct)
    (blast intro: reserve_step_inv commit_step_inv release_step_inv top_up_step_inv)+

section \<open>Runs\<close>

definition quiescent :: "conc \<Rightarrow> bool" where
  "quiescent s \<longleftrightarrow> (\<forall>p \<in> set (threads s). p = Idle)"

definition start_state :: "i64 \<Rightarrow> i64 \<Rightarrow> nat \<Rightarrow> conc" where
  "start_state grant limit n =
     \<lparr> budget = grant, tot = 0, spent = 0, granted = grant, cap = limit, holds = fmempty, nxt = 1,
       res_lock = None, init_lock = None, threads = replicate n Idle \<rparr>"

lemma sum_idle:
  assumes "\<forall>p \<in> set ps. p = Idle"
  shows "sum_list (map money ps) = 0" "sum_list (map pending ps) = 0" "sum_list (map total_part ps) = 0"
  using assms by (induction ps) auto

lemma start_inv: "0 \<le> sint grant \<Longrightarrow> 0 \<le> sint limit \<Longrightarrow> conc_inv (start_state grant limit n)"
  using sum_idle [of "replicate n Idle"]
  by (auto simp: conc_inv_def start_state_def lock_inv_def ids_inv_def ids_fresh_def distinct_ids_def
      sums_inv_def list_all_length)

lemma steps_inv:
  assumes "step\<^sup>*\<^sup>* s s'" "conc_inv s"
  shows "conc_inv s'"
  using assms by (induction rule: rtranclp_induct) (auto intro: step_inv)

lemma step_cap: "step s s' \<Longrightarrow> cap s' = cap s"
  by (auto simp: goto_def elim!: step.cases reserve_step.cases commit_step.cases release_step.cases
      top_up_step.cases)

lemma steps_cap: "step\<^sup>*\<^sup>* s s' \<Longrightarrow> cap s' = cap s"
  by (induction rule: rtranclp_induct) (auto dest: step_cap)

text \<open>
  C5. Conservation under every interleaving: any number of threads reserve, commit, release and top
  up the same tenant, stopping between any two atomic accesses and with exchanges that fail
  spuriously. In every reachable state the balance is non-negative and the sum of the open holds
  stays within the exposure cap; whenever all threads are between operations, which is when a
  snapshot is taken, balance, open holds and lifetime spend add up to the grants and the reserved
  total is exactly the sum of the open holds.
\<close>

theorem interleaved_conservation:
  assumes "0 \<le> sint grant" and "0 \<le> sint limit" and "step\<^sup>*\<^sup>* (start_state grant limit n) s"
  shows "0 \<le> sint (budget s) \<and> 0 \<le> sint (spent s)
    \<and> (0 < sint limit \<longrightarrow> hsum (holds s) \<le> sint limit)
    \<and> (quiescent s \<longrightarrow> sint (budget s) + hsum (holds s) + sint (spent s) = sint (granted s)
         \<and> sint (tot s) = hsum (holds s))"
proof -
  have inv: "conc_inv s" by (rule steps_inv [OF assms(3) start_inv [OF assms(1,2)]])
  then have sums: "sums_inv s" and ok: "\<forall>p \<in> set (threads s). pc_ok s p"
    by (auto simp: conc_inv_def list_all_iff)
  have "0 \<le> sum_list (map total_part (threads s))"
    using ok parts_nonneg by (intro sum_list_nonneg) auto
  moreover have "cap s = limit" using steps_cap [OF assms(3)] by (simp add: start_state_def)
  ultimately show ?thesis using sums sum_idle [of "threads s"] by (auto simp: sums_inv_def quiescent_def)
qed

theorem interleaved_conservation_witness:
  "step\<^sup>*\<^sup>* (start_state 100 50 2) (goto 0 (RvTotal 30 0) (start_state 100 50 2))
   \<and> 0 \<le> sint (budget (goto 0 (RvTotal 30 0) (start_state 100 50 2)))"
proof -
  let ?s = "start_state 100 50 2"
  have "at ?s 0 Idle" "tot ?s = 0" by (simp_all add: at_def start_state_def)
  then have st: "step\<^sup>*\<^sup>* ?s (goto 0 (RvTotal 30 0) ?s)"
    using step.reserve [OF reserve_step.start [of ?s 0 30]] by auto
  from interleaved_conservation [of 100 50 2, OF _ _ st] st show ?thesis by simp
qed

end
