(* ===== verification/Merkle.thy ===== *)
theory Merkle
  imports Calybris_Prelude
begin

text \<open>
  Merkle trees, inclusion proofs and consistency proofs (\<open>src/src/merkle.rs\<close>): the recursive
  builders, the bit-twiddling verifiers of RFC 9162 and the cached tree, as the code has them.

  The hash function is the argument \<open>H\<close> of every definition that hashes. Sizes and indices, \<open>u64\<close> and
  \<open>usize\<close> in the code, are natural numbers: the code only shifts them right, subtracts from them
  under a guard and adds parts of a tree that is in memory.
\<close>

section \<open>Hashing\<close>

definition TREE_HEAD_TAG :: bytes where
  "TREE_HEAD_TAG = ascii ''calymth1''"

definition LEAF_PREFIX :: u8 where
  "LEAF_PREFIX = 0"

definition NODE_PREFIX :: u8 where
  "NODE_PREFIX = 1"

datatype merkle_error =
    IndexOutOfRange nat nat
  | BadSizes nat nat
  | BadProofLength
  | RootMismatch
  | BadEntryHash

record tree_head =
  th_size :: nat
  th_root :: hash

definition leaf_hash :: "hasher \<Rightarrow> bytes \<Rightarrow> hash" where
  "leaf_hash H data = H (LEAF_PREFIX # data)"

definition node_input :: "hash \<Rightarrow> hash \<Rightarrow> bytes" where
  "node_input l r = NODE_PREFIX # hash_bytes l @ hash_bytes r"

definition node_hash :: "hasher \<Rightarrow> hash \<Rightarrow> hash \<Rightarrow> hash" where
  "node_hash H l r = H (node_input l r)"

definition head_digest :: "hasher \<Rightarrow> tree_head \<Rightarrow> hash" where
  "head_digest H h = H (TREE_HEAD_TAG @ be_bytes 8 (of_nat (th_size h) :: u64) @ hash_bytes (th_root h))"

fun nibble :: "u8 \<Rightarrow> merkle_error + u8" where
  "nibble c =
     (if 48 \<le> c \<and> c \<le> 57 then Inr (c - 48)
      else if 97 \<le> c \<and> c \<le> 102 then Inr (c - 97 + 10)
      else Inl BadEntryHash)"

fun decode_pairs :: "bytes \<Rightarrow> merkle_error + bytes" where
  "decode_pairs (a # b # rest) =
     and_then (nibble a) (\<lambda>h. and_then (nibble b) (\<lambda>l.
       and_then (decode_pairs rest) (\<lambda>out. Inr ((push_bit 4 h OR l) # out))))"
| "decode_pairs _ = Inr []"

definition leaf_from_entry_hash :: "bytes \<Rightarrow> merkle_error + bytes" where
  "leaf_from_entry_hash bytes = (if length bytes \<noteq> 64 then Inl BadEntryHash else decode_pairs bytes)"

section \<open>Building\<close>

text \<open>\<open>63 - x.leading_zeros()\<close> of a positive \<open>x\<close>: the position of its highest bit.\<close>

fun ilog2 :: "nat \<Rightarrow> nat" where
  "ilog2 x = (if x < 2 then 0 else Suc (ilog2 (x div 2)))"

declare ilog2.simps [simp del]

definition split :: "nat \<Rightarrow> nat" where
  "split n = 2 ^ ilog2 (n - 1)"

lemma ilog2_bounds: "0 < x \<Longrightarrow> 2 ^ ilog2 x \<le> x \<and> x < 2 * 2 ^ ilog2 x"
proof (induction x rule: ilog2.induct)
  case (1 x)
  then show ?case by (cases "x < 2") (auto simp: ilog2.simps [of x])
qed

lemma split_bounds: "1 < n \<Longrightarrow> 0 < split n \<and> split n < n \<and> n \<le> 2 * split n"
  using ilog2_bounds [of "n - 1"] by (auto simp: split_def)

function root_of :: "hasher \<Rightarrow> hash list \<Rightarrow> hash" where
  "root_of H d =
     (case d of
        [] \<Rightarrow> H []
      | [h] \<Rightarrow> h
      | _ \<Rightarrow> let k = split (length d) in node_hash H (root_of H (take k d)) (root_of H (drop k d)))"
  by pat_completeness auto
termination
proof (relation "measure (\<lambda>(H, d). length d)", goal_cases)
  case (2 H d h a rest k)
  then show ?case using split_bounds [of "length d"] by auto
next
  case (3 H d h a rest k)
  then show ?case using split_bounds [of "length d"] by auto
qed simp

declare root_of.simps [simp del]

definition head_of :: "hasher \<Rightarrow> bytes list \<Rightarrow> tree_head" where
  "head_of H leaves =
     (let hashed = map (leaf_hash H) leaves in \<lparr> th_size = length hashed, th_root = root_of H hashed \<rparr>)"

function path :: "hasher \<Rightarrow> nat \<Rightarrow> hash list \<Rightarrow> hash list" where
  "path H m d =
     (if length d \<le> 1 then []
      else let k = split (length d) in
        if m < k then path H m (take k d) @ [root_of H (drop k d)]
        else path H (m - k) (drop k d) @ [root_of H (take k d)])"
  by pat_completeness auto
termination
proof (relation "measure (\<lambda>(H, m, d). length d)", goal_cases)
  case (2 H m d k)
  then show ?case using split_bounds [of "length d"] by auto
next
  case (3 H m d k)
  then show ?case using split_bounds [of "length d"] by auto
qed simp

declare path.simps [simp del]

definition inclusion_proof :: "hasher \<Rightarrow> hash list \<Rightarrow> nat \<Rightarrow> merkle_error + hash list" where
  "inclusion_proof H d index =
     (if index \<ge> length d then Inl (IndexOutOfRange index (length d)) else Inr (path H index d))"

text \<open>The inner \<open>go\<close> of \<open>all_inclusion_proofs\<close>, on a non-empty slice.\<close>

function all_proofs_go :: "hasher \<Rightarrow> hash list \<Rightarrow> hash \<times> hash list list" where
  "all_proofs_go H d =
     (if length d \<le> 1 then (hd d, [[]])
      else let k = split (length d);
               (left_root, left) = all_proofs_go H (take k d);
               (right_root, right) = all_proofs_go H (drop k d)
           in (node_hash H left_root right_root,
               map (\<lambda>p. p @ [right_root]) left @ map (\<lambda>p. p @ [left_root]) right))"
  by pat_completeness auto
termination
proof (relation "measure (\<lambda>(H, d). length d)", goal_cases)
  case (2 H d k)
  then show ?case using split_bounds [of "length d"] by auto
next
  case (3 H d k x l r)
  then show ?case using split_bounds [of "length d"] by auto
qed simp

declare all_proofs_go.simps [simp del]

definition all_inclusion_proofs :: "hasher \<Rightarrow> hash list \<Rightarrow> hash list list" where
  "all_inclusion_proofs H d = (if d = [] then [] else snd (all_proofs_go H d))"

text \<open>
  The recursion of \<open>subproof\<close> is entered with \<open>0 < m \<le> n\<close> only, so that \<open>m = n\<close> when \<open>n = 1\<close>.
\<close>

function subproof :: "hasher \<Rightarrow> nat \<Rightarrow> hash list \<Rightarrow> bool \<Rightarrow> hash list" where
  "subproof H m d b =
     (if m = length d \<or> length d \<le> 1 then (if b then [] else [root_of H d])
      else let k = split (length d) in
        if m \<le> k then subproof H m (take k d) b @ [root_of H (drop k d)]
        else subproof H (m - k) (drop k d) False @ [root_of H (take k d)])"
  by pat_completeness auto
termination
proof (relation "measure (\<lambda>(H, m, d, b). length d)", goal_cases)
  case (2 H m d b k)
  then show ?case using split_bounds [of "length d"] by auto
next
  case (3 H m d b k)
  then show ?case using split_bounds [of "length d"] by auto
qed simp

declare subproof.simps [simp del]

definition consistency_proof :: "hasher \<Rightarrow> hash list \<Rightarrow> nat \<Rightarrow> merkle_error + hash list" where
  "consistency_proof H d old_size =
     (if old_size = 0 \<or> old_size > length d then Inl (BadSizes old_size (length d))
      else Inr (subproof H old_size d True))"

section \<open>Verifying\<close>

text \<open>\<open>while f_n & 1 == 0 && f_n != 0\<close> and \<open>while f_n & 1 == 1\<close>.\<close>

fun skip_zeros :: "nat \<Rightarrow> nat \<Rightarrow> nat \<times> nat" where
  "skip_zeros f s = (if even f \<and> f \<noteq> 0 then skip_zeros (f div 2) (s div 2) else (f, s))"

function skip_ones :: "nat \<Rightarrow> nat \<Rightarrow> nat \<times> nat" where
  "skip_ones f s = (if odd f then skip_ones (f div 2) (s div 2) else (f, s))"
  by pat_completeness auto
termination by (relation "measure fst") (auto elim: oddE)

declare skip_zeros.simps [simp del] skip_ones.simps [simp del]

text \<open>One iteration of the loop of \<open>verify_inclusion\<close>; \<open>None\<close> is the early return.\<close>

definition inclusion_step :: "hasher \<Rightarrow> hash \<Rightarrow> nat \<times> nat \<times> hash \<Rightarrow> (nat \<times> nat \<times> hash) option" where
  "inclusion_step H p = (\<lambda>(f, s, r).
     if s = 0 then None
     else if odd f \<or> f = s then
       (let (f1, s1) = (if even f then skip_zeros f s else (f, s))
        in Some (f1 div 2, s1 div 2, node_hash H p r))
     else Some (f div 2, s div 2, node_hash H r p))"

fun inclusion_run :: "hasher \<Rightarrow> hash list \<Rightarrow> nat \<times> nat \<times> hash \<Rightarrow> (nat \<times> nat \<times> hash) option" where
  "inclusion_run H [] st = Some st"
| "inclusion_run H (p # ps) st = Option.bind (inclusion_step H p st) (inclusion_run H ps)"

definition verify_inclusion :: "hasher \<Rightarrow> tree_head \<Rightarrow> nat \<Rightarrow> hash \<Rightarrow> hash list \<Rightarrow> merkle_error + unit" where
  "verify_inclusion H head index leaf proof =
     (if index \<ge> th_size head then Inl (IndexOutOfRange index (th_size head))
      else case inclusion_run H proof (index, th_size head - 1, leaf) of
          None \<Rightarrow> Inl BadProofLength
        | Some (f, s, r) \<Rightarrow>
            if s \<noteq> 0 then Inl BadProofLength
            else if r = th_root head then Inr () else Inl RootMismatch)"

definition consistency_step ::
  "hasher \<Rightarrow> hash \<Rightarrow> nat \<times> nat \<times> hash \<times> hash \<Rightarrow> (nat \<times> nat \<times> hash \<times> hash) option" where
  "consistency_step H c = (\<lambda>(f, s, fr, sr).
     if s = 0 then None
     else if odd f \<or> f = s then
       (let (f1, s1) = (if even f then skip_zeros f s else (f, s))
        in Some (f1 div 2, s1 div 2, node_hash H c fr, node_hash H c sr))
     else Some (f div 2, s div 2, fr, node_hash H sr c))"

fun consistency_run ::
  "hasher \<Rightarrow> hash list \<Rightarrow> nat \<times> nat \<times> hash \<times> hash \<Rightarrow> (nat \<times> nat \<times> hash \<times> hash) option" where
  "consistency_run H [] st = Some st"
| "consistency_run H (c # cs) st = Option.bind (consistency_step H c st) (consistency_run H cs)"

fun is_power_of_two :: "nat \<Rightarrow> bool" where
  "is_power_of_two n = (if n < 2 then n = 1 else even n \<and> is_power_of_two (n div 2))"

declare is_power_of_two.simps [simp del]

definition verify_consistency :: "hasher \<Rightarrow> tree_head \<Rightarrow> tree_head \<Rightarrow> hash list \<Rightarrow> merkle_error + unit" where
  "verify_consistency H old new proof =
     (if th_size old = 0 \<or> th_size old > th_size new then Inl (BadSizes (th_size old) (th_size new))
      else if th_size old = th_size new then
        (if proof = [] \<and> th_root old = th_root new then Inr ()
         else if proof \<noteq> [] then Inl BadProofLength
         else Inl RootMismatch)
      else
        let proof = (if is_power_of_two (th_size old) then th_root old # proof else proof);
            (f, s) = skip_ones (th_size old - 1) (th_size new - 1)
        in (case proof of
              [] \<Rightarrow> Inl BadProofLength
            | first # rest \<Rightarrow>
                (case consistency_run H rest (f, s, first, first) of
                   None \<Rightarrow> Inl BadProofLength
                 | Some (f, s, fr, sr) \<Rightarrow>
                     if s \<noteq> 0 then Inl BadProofLength
                     else if fr = th_root old \<and> sr = th_root new then Inr ()
                     else Inl RootMismatch)))"

end
