(* ===== verification/Merkle_Verify.thy ===== *)
theory Merkle_Verify
  imports Merkle
begin

text \<open>
  The verifiers of RFC 9162 are correct. Their loops, which walk up the tree by shifting the index
  and the size, are first shown equal to a recursion over the shape of the tree
  (\<open>fold_path\<close>, \<open>fold_cons\<close>). From there: every proof the builders produce verifies, and a proof
  that verifies against the root of a given list of leaves either shows what it claims or exhibits
  two different inputs with the same hash, one among the inputs the verifier hashes and one among
  the inputs the tree hashes. No property of the hash function is assumed.
\<close>

section \<open>Shape of the tree\<close>

lemma ilog2_eq: "2 ^ j \<le> x \<Longrightarrow> x < 2 * 2 ^ j \<Longrightarrow> ilog2 x = j"
proof (induction x arbitrary: j rule: ilog2.induct)
  case (1 x)
  show ?case
  proof (cases "x < 2")
    case True
    with 1(2) have "(2::nat) ^ j < 2 ^ 1" by simp
    then have "j = 0" by (simp only: power_strict_increasing_iff)
    with True show ?thesis by (simp add: ilog2.simps [of x])
  next
    case False
    then obtain i where j: "j = Suc i" using 1(3) by (cases j) auto
    with 1(2,3) have "2 ^ i \<le> x div 2" "x div 2 < 2 * 2 ^ i" by auto
    with 1(1) [OF False] have "ilog2 (x div 2) = i" by blast
    with False j show ?thesis by (simp add: ilog2.simps [of x])
  qed
qed

lemma split_eq: "2 ^ j < n \<Longrightarrow> n \<le> 2 * 2 ^ j \<Longrightarrow> split n = 2 ^ j"
  by (simp add: split_def ilog2_eq)

lemma split_power: "split (2 ^ Suc j) = 2 ^ j"
  by (rule split_eq) simp_all

lemma split_obtain:
  assumes "1 < n"
  obtains j where "split n = 2 ^ j" "2 ^ j < n" "n \<le> 2 * 2 ^ j"
  using that [of "ilog2 (n - 1)"] split_bounds [OF assms] by (simp add: split_def)

lemma split_prefix:
  assumes "1 < n" "split n < m" "m \<le> n"
  shows "split m = split n"
proof -
  obtain j where "split n = 2 ^ j" "n \<le> 2 * 2 ^ j" using split_obtain [OF assms(1)] by metis
  with assms show ?thesis using split_eq [of j m] by simp
qed

lemma root_of_one [simp]: "root_of H [h] = h"
  by (simp add: root_of.simps)

lemma root_of_split:
  assumes "1 < length d"
  shows "root_of H d = node_hash H (root_of H (take (split (length d)) d)) (root_of H (drop (split (length d)) d))"
proof -
  obtain a b ds where d: "d = a # b # ds" using assms by (metis One_nat_def length_Cons less_Suc0 less_numeral_extra(4)
        list.exhaust list.size(3) not_less_zero)
  show ?thesis by (subst root_of.simps) (simp add: d Let_def)
qed

lemma split_less: "Suc 0 < n \<Longrightarrow> split n < n" "Suc 0 < n \<Longrightarrow> n - split n < n"
  using split_bounds [of n] by auto

function pathlen :: "nat \<Rightarrow> nat \<Rightarrow> nat" where
  "pathlen i n =
     (if n \<le> 1 then 0
      else if i < split n then Suc (pathlen i (split n)) else Suc (pathlen (i - split n) (n - split n)))"
  by pat_completeness auto
termination
  by (relation "measure snd") (auto simp: not_le split_less)

declare pathlen.simps [simp del]

function fold_path :: "hasher \<Rightarrow> nat \<Rightarrow> nat \<Rightarrow> hash \<Rightarrow> hash list \<Rightarrow> hash" where
  "fold_path H i n r ps =
     (if n \<le> 1 then r
      else if i < split n then node_hash H (fold_path H i (split n) r (butlast ps)) (last ps)
      else node_hash H (last ps) (fold_path H (i - split n) (n - split n) r (butlast ps)))"
  by pat_completeness auto
termination
  by (relation "measure (\<lambda>(H, i, n, r, ps). n)") (auto simp: not_le split_less)

declare fold_path.simps [simp del]

lemma pathlen_small [simp]: "n \<le> 1 \<Longrightarrow> pathlen i n = 0"
  by (simp add: pathlen.simps)

lemma fold_path_small [simp]: "n \<le> 1 \<Longrightarrow> fold_path H i n r ps = r"
  by (simp add: fold_path.simps)

section \<open>The inclusion loop\<close>

lemma inclusion_run_append:
  "inclusion_run H (ps @ qs) st = Option.bind (inclusion_run H ps st) (inclusion_run H qs)"
  by (induction ps arbitrary: st) (auto split: bind_splits)

lemma snoc_exhaust: "length ps = Suc l \<Longrightarrow> \<exists>qs x. ps = qs @ [x] \<and> length qs = l"
  by (metis append_butlast_last_id length_append_singleton list.size(3) nat.inject nat.simps(3))

lemma skip_zeros_power: "odd c \<Longrightarrow> skip_zeros (2 ^ a * c) (2 ^ a * c) = (c, c)"
proof (induction a)
  case (Suc a)
  then have "c \<noteq> 0" by (metis even_zero)
  with Suc show ?case by (subst skip_zeros.simps) simp
qed (subst skip_zeros.simps, simp)

lemma inclusion_step_edge:
  assumes "odd c"
  shows "inclusion_step H x (2 ^ a * c, 2 ^ a * c, r) = Some (c div 2, c div 2, node_hash H x r)"
proof -
  have "c \<noteq> 0" using assms by (metis even_zero)
  then show ?thesis
    using skip_zeros_power [OF assms, of a] assms by (cases a) (simp_all add: inclusion_step_def)
qed

text \<open>In a complete subtree that is not on the right edge every step shifts by one.\<close>

lemma inclusion_complete_subtree:
  assumes "i < 2 ^ j" "c < s div 2 ^ j" "length ps = pathlen i (2 ^ j)"
  shows "inclusion_run H ps (i + 2 ^ j * c, s, r) = Some (c, s div 2 ^ j, fold_path H i (2 ^ j) r ps)"
  using assms
proof (induction j arbitrary: i c ps)
  case 0
  then show ?case by simp
next
  case (Suc j)
  have n: "\<not> (2::nat) * 2 ^ j \<le> Suc 0" "(2::nat) * 2 ^ j - 2 ^ j = 2 ^ j"
    using one_le_power [of "2 :: nat" j] by linarith+
  have sd: "s div 2 ^ Suc j = s div 2 ^ j div 2" by (metis div_mult2_eq power_Suc2)
  show ?case
  proof (cases "i < 2 ^ j")
    case True
    then have "length ps = Suc (pathlen i (2 ^ j))"
      using Suc.prems(3) by (simp add: pathlen.simps [of _ "2 * 2 ^ j"] split_power [simplified] n)
    then obtain qs x where ps: "ps = qs @ [x]" "length qs = pathlen i (2 ^ j)" using snoc_exhaust by blast
    have c: "2 * c < s div 2 ^ j" using Suc.prems(2) sd by linarith
    from Suc.IH [OF True c ps(2)] c sd show ?thesis
      by (simp add: ps(1) inclusion_run_append inclusion_step_def fold_path.simps [of _ _ "2 * 2 ^ j"]
          split_power [simplified] True n mult.assoc mult.left_commute [of 2])
  next
    case False
    then have "length ps = Suc (pathlen (i - 2 ^ j) (2 ^ j))"
      using Suc.prems(3) by (simp add: pathlen.simps [of _ "2 * 2 ^ j"] split_power [simplified] n)
    then obtain qs x where ps: "ps = qs @ [x]" "length qs = pathlen (i - 2 ^ j) (2 ^ j)" using snoc_exhaust by blast
    have i: "i - 2 ^ j < 2 ^ j" "i + 2 ^ Suc j * c = (i - 2 ^ j) + 2 ^ j * (2 * c + 1)"
      using False Suc.prems(1) by auto
    have c: "2 * c + 1 < s div 2 ^ j" using Suc.prems(2) sd by linarith
    from Suc.IH [OF i(1) c ps(2)] c sd False show ?thesis
      unfolding i(2)
      by (simp add: ps(1) inclusion_run_append inclusion_step_def fold_path.simps [of _ _ "2 * 2 ^ j"]
          split_power [simplified] n)
  qed
qed

text \<open>On the right edge the loop ends with index and size equal, above the subtree.\<close>

lemma inclusion_right_edge:
  assumes "i < n" "n \<le> 2 ^ e" "length ps = pathlen i n"
  shows "\<exists>a. inclusion_run H ps (i + 2 ^ e * c, n - 1 + 2 ^ e * c, r) = Some (2 ^ a * c, 2 ^ a * c, fold_path H i n r ps)"
  using assms
proof (induction n arbitrary: i e c ps rule: less_induct)
  case (less n)
  show ?case
  proof (cases "n \<le> 1")
    case True
    then have "i = 0" "n = 1" using less.prems(1) by auto
    with less.prems show ?thesis by auto
  next
    case False
    then obtain j where j: "split n = 2 ^ j" "2 ^ j < n" "n \<le> 2 * 2 ^ j" using split_obtain [of n] by auto
    have "(2::nat) ^ j < 2 ^ e" using j(2) less.prems(2) by linarith
    then have "j < e" by simp
    then obtain d where e: "e = Suc (j + d)" using less_imp_Suc_add by blast
    have pe: "(2::nat) ^ e * c = 2 ^ j * (2 * (2 ^ d * c))" by (simp add: e power_add)
    show ?thesis
    proof (cases "i < 2 ^ j")
      case True
      then have "length ps = Suc (pathlen i (2 ^ j))"
        using less.prems(3) False by (simp add: pathlen.simps [of _ n] j(1))
      then obtain qs x where ps: "ps = qs @ [x]" "length qs = pathlen i (2 ^ j)" using snoc_exhaust by blast
      have "n - 1 + 2 ^ e * c = (n - 1 - 2 ^ j) + 2 ^ j * Suc (2 * (2 ^ d * c))"
        using j by (simp add: pe)
      then have s: "(n - 1 + 2 ^ e * c) div 2 ^ j = Suc (2 * (2 ^ d * c))"
        using j by (simp only: div_mult_self2) simp
      then have "2 * (2 ^ d * c) < (n - 1 + 2 ^ e * c) div 2 ^ j" by simp
      from inclusion_complete_subtree [OF True this ps(2), of H r]
      have "inclusion_run H qs (i + 2 ^ e * c, n - 1 + 2 ^ e * c, r)
          = Some (2 * (2 ^ d * c), Suc (2 * (2 ^ d * c)), fold_path H i (2 ^ j) r qs)"
        unfolding pe [symmetric] s .
      then have "inclusion_run H ps (i + 2 ^ e * c, n - 1 + 2 ^ e * c, r)
          = Some (2 ^ d * c, 2 ^ d * c, fold_path H i n r ps)"
        using False True by (simp add: ps(1) inclusion_run_append inclusion_step_def j(1) fold_path.simps [of _ _ n])
      then show ?thesis by blast
    next
      case right: False
      let ?c = "2 * (2 ^ d * c) + 1"
      have "length ps = Suc (pathlen (i - 2 ^ j) (n - 2 ^ j))"
        using less.prems(3) False right by (simp add: pathlen.simps [of _ n] j(1))
      then obtain qs x where ps: "ps = qs @ [x]" "length qs = pathlen (i - 2 ^ j) (n - 2 ^ j)"
        using snoc_exhaust by blast
      have "n - 2 ^ j < n" "i - 2 ^ j < n - 2 ^ j" "n - 2 ^ j \<le> 2 ^ j"
        using right less.prems(1) j by auto
      from less.IH [OF this ps(2), of ?c]
      obtain a where a: "inclusion_run H qs (i - 2 ^ j + 2 ^ j * ?c, n - 2 ^ j - 1 + 2 ^ j * ?c, r)
          = Some (2 ^ a * ?c, 2 ^ a * ?c, fold_path H (i - 2 ^ j) (n - 2 ^ j) r qs)" by blast
      have st: "i - 2 ^ j + 2 ^ j * ?c = i + 2 ^ e * c" "n - 2 ^ j - 1 + 2 ^ j * ?c = n - 1 + 2 ^ e * c"
        using right j(2) by (simp_all add: pe)
      have "odd ?c" "?c div 2 = 2 ^ d * c" by simp_all
      then have "inclusion_step H x (2 ^ a * ?c, 2 ^ a * ?c, fold_path H (i - 2 ^ j) (n - 2 ^ j) r qs)
          = Some (2 ^ d * c, 2 ^ d * c, fold_path H i n r ps)"
        using False right inclusion_step_edge [of ?c H x a]
        by (simp add: ps(1) j(1) fold_path.simps [of _ _ n])
      with a show ?thesis unfolding st ps(1) inclusion_run_append by auto
    qed
  qed
qed


lemma inclusion_run_exact:
  assumes "i < n" "length ps = pathlen i n"
  shows "inclusion_run H ps (i, n - 1, r) = Some (0, 0, fold_path H i n r ps)"
proof -
  have "n \<le> 2 ^ n" using less_exp [of n] by simp
  from inclusion_right_edge [OF assms(1) this assms(2), of H 0 r] show ?thesis by simp
qed

lemma inclusion_run_length:
  assumes i: "i < n" and run: "inclusion_run H ps (i, n - 1, r) = Some (f, 0, r')"
  shows "length ps = pathlen i n"
proof (rule linorder_cases [of "length ps" "pathlen i n"])
  assume short: "length ps < pathlen i n"
  define qs where "qs = replicate (pathlen i n - length ps) (0 :: hash)"
  have "length (ps @ qs) = pathlen i n" using short by (simp add: qs_def)
  from inclusion_run_exact [OF i this, of H r] run
  have "inclusion_run H qs (f, 0, r') \<noteq> None" by (simp add: inclusion_run_append)
  moreover obtain q rest where "qs = q # rest" using short by (cases qs) (auto simp: qs_def)
  ultimately show ?thesis by (simp add: inclusion_step_def)
next
  assume long: "pathlen i n < length ps"
  let ?l = "pathlen i n"
  have "inclusion_run H (take ?l ps) (i, n - 1, r) = Some (0, 0, fold_path H i n r (take ?l ps))"
    using long by (intro inclusion_run_exact [OF i]) simp
  moreover obtain q rest where "drop ?l ps = q # rest" using long by (metis drop_eq_Nil leD list.exhaust)
  ultimately have "inclusion_run H (take ?l ps @ drop ?l ps) (i, n - 1, r) = None"
    by (simp only: inclusion_run_append) (simp add: inclusion_step_def)
  with run show ?thesis by simp
qed

lemma verify_inclusion_Inr:
  "verify_inclusion H head i leaf ps = Inr () \<longleftrightarrow>
     i < th_size head \<and> length ps = pathlen i (th_size head)
     \<and> fold_path H i (th_size head) leaf ps = th_root head"
proof (cases "i < th_size head")
  case True
  show ?thesis
  proof (cases "length ps = pathlen i (th_size head)")
    case len: True
    with True show ?thesis
      using inclusion_run_exact [OF True len, of H leaf] by (simp add: verify_inclusion_def)
  next
    case False
    with True show ?thesis
      using inclusion_run_length [OF True, of H ps leaf]
      by (auto simp: verify_inclusion_def split: option.splits)
  qed
qed (simp add: verify_inclusion_def)

section \<open>Inclusion proofs are complete\<close>

lemma path_fold:
  assumes "i < length d"
  shows "length (path H i d) = pathlen i (length d)"
    and "fold_path H i (length d) (d ! i) (path H i d) = root_of H d"
proof -
  have "length (path H i d) = pathlen i (length d)
      \<and> fold_path H i (length d) (d ! i) (path H i d) = root_of H d"
    using assms
  proof (induction d arbitrary: i rule: length_induct)
    case (1 d)
    show ?case
    proof (cases "length d \<le> 1")
      case True
      with 1(2) obtain h where "d = [h]" "i = 0" by (cases d) auto
      then show ?thesis by (simp add: path.simps)
    next
      case False
      let ?k = "split (length d)"
      have k: "0 < ?k" "?k < length d" using False split_bounds [of "length d"] by auto
      note root = root_of_split [of d H]
      show ?thesis
      proof (cases "i < ?k")
        case True
        have "length (take ?k d) < length d" "i < length (take ?k d)" using k True by auto
        with 1(1) have "length (path H i (take ?k d)) = pathlen i (length (take ?k d))"
          "fold_path H i (length (take ?k d)) (take ?k d ! i) (path H i (take ?k d)) = root_of H (take ?k d)"
          by blast+
        with False True k root show ?thesis
          by (simp add: path.simps [of _ _ d] pathlen.simps [of _ "length d"] fold_path.simps [of _ _ "length d"]
              Let_def min_def)
      next
        case right: False
        have "length (drop ?k d) < length d" "i - ?k < length (drop ?k d)" using k right 1(2) by auto
        with 1(1) have "length (path H (i - ?k) (drop ?k d)) = pathlen (i - ?k) (length (drop ?k d))"
          "fold_path H (i - ?k) (length (drop ?k d)) (drop ?k d ! (i - ?k)) (path H (i - ?k) (drop ?k d))
            = root_of H (drop ?k d)"
          by blast+
        with False right k root 1(2) show ?thesis
          by (simp add: path.simps [of _ _ d] pathlen.simps [of _ "length d"] fold_path.simps [of _ _ "length d"]
              Let_def)
      qed
    qed
  qed
  then show "length (path H i d) = pathlen i (length d)"
    "fold_path H i (length d) (d ! i) (path H i d) = root_of H d" by blast+
qed

section \<open>Inclusion proofs are sound\<close>

text \<open>What the tree over \<open>d\<close> hashes, and what the verifier hashes along a proof.\<close>

function tree_inputs :: "hasher \<Rightarrow> hash list \<Rightarrow> bytes list" where
  "tree_inputs H d =
     (if length d \<le> 1 then []
      else let k = split (length d) in
        node_input (root_of H (take k d)) (root_of H (drop k d))
          # tree_inputs H (take k d) @ tree_inputs H (drop k d))"
  by pat_completeness auto
termination
  by (relation "measure (\<lambda>(H, d). length d)") (auto simp: not_le split_less)

declare tree_inputs.simps [simp del]

function path_inputs :: "hasher \<Rightarrow> nat \<Rightarrow> nat \<Rightarrow> hash \<Rightarrow> hash list \<Rightarrow> bytes list" where
  "path_inputs H i n r ps =
     (if n \<le> 1 then []
      else if i < split n
        then node_input (fold_path H i (split n) r (butlast ps)) (last ps)
               # path_inputs H i (split n) r (butlast ps)
      else node_input (last ps) (fold_path H (i - split n) (n - split n) r (butlast ps))
             # path_inputs H (i - split n) (n - split n) r (butlast ps))"
  by pat_completeness auto
termination
  by (relation "measure (\<lambda>(H, i, n, r, ps). n)") (auto simp: not_le split_less)

declare path_inputs.simps [simp del]

lemma node_input_inject: "node_input a b = node_input c d \<longleftrightarrow> a = c \<and> b = d"
  by (auto simp: node_input_def hash_bytes_def be_bytes_inject)

lemma node_hash_eq:
  assumes "node_hash H a b = node_hash H c d" "\<not> (a = c \<and> b = d)"
    and "node_input a b \<in> set xs" "node_input c d \<in> set ys"
  shows "collision H xs ys"
  using assms unfolding collision_def node_hash_def by (metis node_input_inject)

lemma tree_inputs_parts:
  assumes "1 < length d"
  shows "node_input (root_of H (take (split (length d)) d)) (root_of H (drop (split (length d)) d)) \<in> set (tree_inputs H d)"
    "set (tree_inputs H (take (split (length d)) d)) \<subseteq> set (tree_inputs H d)"
    "set (tree_inputs H (drop (split (length d)) d)) \<subseteq> set (tree_inputs H d)"
  using assms by (auto simp: tree_inputs.simps [of _ d] Let_def)

lemma fold_path_sound:
  assumes "i < length d" "fold_path H i (length d) r ps = root_of H d"
  shows "r = d ! i \<or> collision H (path_inputs H i (length d) r ps) (tree_inputs H d)"
  using assms
proof (induction d arbitrary: i ps rule: length_induct)
  case (1 d)
  show ?case
  proof (cases "length d \<le> 1")
    case True
    with 1(2) obtain h where "d = [h]" "i = 0" by (cases d) auto
    with 1(3) show ?thesis by simp
  next
    case False
    let ?k = "split (length d)"
    have k: "0 < ?k" "?k < length d" and l: "1 < length d" using False split_bounds [of "length d"] by auto
    note root = root_of_split [OF l, of H] and parts = tree_inputs_parts [OF l, of H]
    show ?thesis
    proof (cases "i < ?k")
      case True
      let ?l = "fold_path H i ?k r (butlast ps)"
      have eq: "node_hash H ?l (last ps) = node_hash H (root_of H (take ?k d)) (root_of H (drop ?k d))"
        using 1(3) True False root by (simp add: fold_path.simps [of _ _ "length d"])
      have ins: "path_inputs H i (length d) r ps = node_input ?l (last ps) # path_inputs H i ?k r (butlast ps)"
        using True False by (simp add: path_inputs.simps [of _ _ "length d"])
      show ?thesis
      proof (cases "?l = root_of H (take ?k d)")
        case False
        then show ?thesis using node_hash_eq [OF eq _ _ parts(1)] by (simp add: ins)
      next
        case sub: True
        have "length (take ?k d) < length d" "i < length (take ?k d)" "length (take ?k d) = ?k" using k True by auto
        with 1(1) sub have "r = take ?k d ! i \<or> collision H (path_inputs H i ?k r (butlast ps)) (tree_inputs H (take ?k d))"
          by metis
        then show ?thesis using True parts(2) by (elim disjE) (simp, rule disjI2, erule collision_mono, auto simp: ins)
      qed
    next
      case right: False
      let ?r = "fold_path H (i - ?k) (length d - ?k) r (butlast ps)"
      have eq: "node_hash H (last ps) ?r = node_hash H (root_of H (take ?k d)) (root_of H (drop ?k d))"
        using 1(3) right False root by (simp add: fold_path.simps [of _ _ "length d"])
      have ins: "path_inputs H i (length d) r ps
          = node_input (last ps) ?r # path_inputs H (i - ?k) (length d - ?k) r (butlast ps)"
        using right False by (simp add: path_inputs.simps [of _ _ "length d"])
      show ?thesis
      proof (cases "?r = root_of H (drop ?k d)")
        case False
        then show ?thesis using node_hash_eq [OF eq _ _ parts(1)] by (simp add: ins)
      next
        case sub: True
        have "length (drop ?k d) < length d" "i - ?k < length (drop ?k d)" "length (drop ?k d) = length d - ?k"
          using k right 1(2) by auto
        with 1(1) sub have "r = drop ?k d ! (i - ?k)
            \<or> collision H (path_inputs H (i - ?k) (length d - ?k) r (butlast ps)) (tree_inputs H (drop ?k d))"
          by metis
        then show ?thesis using right k 1(2) parts(3)
          by (elim disjE) (simp, rule disjI2, erule collision_mono, auto simp: ins)
      qed
    qed
  qed
qed

definition head_over :: "hasher \<Rightarrow> hash list \<Rightarrow> tree_head" where
  "head_over H d = \<lparr> th_size = length d, th_root = root_of H d \<rparr>"

text \<open>
  Every inclusion proof verifies: the builder returns an out-of-range error exactly for an index
  outside the tree, and otherwise a proof that the verifier accepts for that leaf against the head
  of the tree, for every hash function, every number of leaves and every index.
\<close>

lemma inclusion_proof_complete:
  "case inclusion_proof H d i of
     Inl e \<Rightarrow> length d \<le> i \<and> e = IndexOutOfRange i (length d)
   | Inr ps \<Rightarrow> i < length d \<and> verify_inclusion H (head_over H d) i (d ! i) ps = Inr ()"
  using path_fold [of i d H] by (auto simp: inclusion_proof_def verify_inclusion_Inr head_over_def)

text \<open>
  Inclusion proofs are sound: a proof accepted for index \<open>i\<close> against the head of the tree over
  \<open>d\<close> proves the leaf \<open>d ! i\<close>, unless the inputs hashed while checking the proof and the inputs
  hashed while building the tree contain two different byte strings with the same hash.
\<close>

lemma inclusion_proof_sound:
  assumes "verify_inclusion H (head_over H d) i leaf ps = Inr ()"
  shows "i < length d
    \<and> (leaf = d ! i \<or> collision H (path_inputs H i (length d) leaf ps) (tree_inputs H d))"
  using assms fold_path_sound [of i d H leaf ps] by (simp add: verify_inclusion_Inr head_over_def)

section \<open>The consistency loop\<close>

text \<open>
  The recursion behind a consistency proof: the subtree that ends at the old size is complete, its
  root comes first, and every further element is the root of a sibling on the way up.
\<close>

function conslen :: "nat \<Rightarrow> nat \<Rightarrow> nat" where
  "conslen m n =
     (if m = n \<or> n \<le> 1 then 0
      else if m \<le> split n then Suc (conslen m (split n)) else Suc (conslen (m - split n) (n - split n)))"
  by pat_completeness auto
termination
  by (relation "measure snd") (auto simp: not_le split_less)

declare conslen.simps [simp del]

function fold_cons :: "hasher \<Rightarrow> nat \<Rightarrow> nat \<Rightarrow> hash \<Rightarrow> hash list \<Rightarrow> hash \<times> hash" where
  "fold_cons H m n first ps =
     (if m = n \<or> n \<le> 1 then (first, first)
      else if m \<le> split n then
        (let (fr, sr) = fold_cons H m (split n) first (butlast ps) in (fr, node_hash H sr (last ps)))
      else
        (let (fr, sr) = fold_cons H (m - split n) (n - split n) first (butlast ps)
         in (node_hash H (last ps) fr, node_hash H (last ps) sr)))"
  by pat_completeness auto
termination
  by (relation "measure (\<lambda>(H, m, n, f, ps). n)") (auto simp: not_le split_less)

declare fold_cons.simps [simp del]

lemma conslen_same [simp]: "conslen n n = 0"
  by (simp add: conslen.simps)

lemma fold_cons_same [simp]: "fold_cons H n n first ps = (first, first)"
  by (simp add: fold_cons.simps)

fun twos :: "nat \<Rightarrow> nat" where
  "twos m = (if even m \<and> m \<noteq> 0 then Suc (twos (m div 2)) else 0)"

declare twos.simps [simp del]

lemma twos_power [simp]: "twos (2 ^ j) = j"
  by (induction j) (simp_all add: twos.simps)

lemma twos_add:
  assumes "0 < m" "m < 2 ^ j"
  shows "twos (m + 2 ^ j * c) = twos m" "twos m < j"
proof -
  have "twos (m + 2 ^ j * c) = twos m \<and> twos m < j"
    using assms
  proof (induction j arbitrary: m)
    case (Suc j)
    show ?case
    proof (cases "even m")
      case True
      then obtain q where q: "m = 2 * q" by blast
      with Suc.prems have "0 < q" "q < 2 ^ j" by auto
      from Suc.IH [OF this] q Suc.prems(1) show ?thesis
        by (simp add: twos.simps [of "2 * q"] twos.simps [of "2 * q + 2 * 2 ^ j * c"])
    next
      case False
      then show ?thesis by (simp add: twos.simps [of m] twos.simps [of "m + 2 * 2 ^ j * c"])
    qed
  qed simp
  then show "twos (m + 2 ^ j * c) = twos m" "twos m < j" by blast+
qed

lemma skip_ones_twos: "0 < m \<Longrightarrow> skip_ones (m - 1) s = ((m - 1) div 2 ^ twos m, s div 2 ^ twos m)"
proof (induction m arbitrary: s rule: twos.induct)
  case (1 m)
  show ?case
  proof (cases "even m")
    case True
    then obtain q where q: "m = 2 * q" "0 < q" using 1(2) by auto
    then have "odd (m - 1)" "(m - 1) div 2 = q - 1" by auto
    moreover have "skip_ones (q - 1) (s div 2) = ((q - 1) div 2 ^ twos q, s div 2 div 2 ^ twos q)"
      using 1(1) [of "s div 2"] True 1(2) q by simp
    moreover have "twos m = Suc (twos q)" using q by (simp add: twos.simps [of "2 * q"])
    ultimately show ?thesis
      by (subst skip_ones.simps) (simp add: div_mult2_eq)
  next
    case False
    then show ?thesis using 1(2) by (subst skip_ones.simps) (auto simp: twos.simps [of m])
  qed
qed

lemma consistency_run_append:
  "consistency_run H (ps @ qs) st = Option.bind (consistency_run H ps st) (consistency_run H qs)"
  by (induction ps arbitrary: st) (auto split: bind_splits)

lemma consistency_step_edge:
  assumes "odd c"
  shows "consistency_step H x (2 ^ a * c, 2 ^ a * c, fr, sr)
    = Some (c div 2, c div 2, node_hash H x fr, node_hash H x sr)"
proof -
  have "c \<noteq> 0" using assms by (metis even_zero)
  then show ?thesis
    using skip_zeros_power [OF assms, of a] assms by (cases a) (simp_all add: consistency_step_def)
qed

lemma consistency_complete_subtree:
  assumes "0 < m" "m \<le> 2 ^ j" "c < s div 2 ^ j" "length ps = conslen m (2 ^ j)"
  shows "consistency_run H ps ((m - 1 + 2 ^ j * c) div 2 ^ twos m, s div 2 ^ twos m, x, x)
    = Some (c, s div 2 ^ j, fold_cons H m (2 ^ j) x ps)"
  using assms
proof (induction j arbitrary: m c ps)
  case 0
  then have "m = 1" by simp
  with 0 show ?case by (simp add: twos.simps)
next
  case (Suc j)
  have n: "\<not> (2::nat) * 2 ^ j \<le> Suc 0" "(2::nat) * 2 ^ j - 2 ^ j = 2 ^ j"
    using one_le_power [of "2 :: nat" j] by linarith+
  have sd: "s div 2 ^ Suc j = s div 2 ^ j div 2" by (metis div_mult2_eq power_Suc2)
  show ?case
  proof (cases "m = 2 ^ Suc j")
    case True
    have "(2 ^ Suc j - 1 + 2 ^ Suc j * c) div 2 ^ Suc j = c"
      by (subst div_mult_self2) simp_all
    with True Suc.prems(4) show ?thesis by (simp del: power_Suc)
  next
    case neq: False
    show ?thesis
    proof (cases "m \<le> 2 ^ j")
      case True
      have "length ps = Suc (conslen m (2 ^ j))"
        using Suc.prems(4) True neq by (simp add: conslen.simps [of _ "2 * 2 ^ j"] split_power [simplified] n)
      then obtain qs p where ps: "ps = qs @ [p]" "length qs = conslen m (2 ^ j)" using snoc_exhaust by blast
      have c: "2 * c < s div 2 ^ j" using Suc.prems(3) sd by linarith
      have st: "m - 1 + 2 ^ Suc j * c = m - 1 + 2 ^ j * (2 * c)" by simp
      from Suc.IH [OF Suc.prems(1) True c ps(2)] c sd neq True show ?thesis
        unfolding st
        by (simp add: ps(1) consistency_run_append consistency_step_def fold_cons.simps [of _ _ "2 * 2 ^ j"]
            split_power [simplified] n case_prod_unfold Let_def)
    next
      case False
      let ?m = "m - 2 ^ j"
      have m: "0 < ?m" "?m \<le> 2 ^ j" "?m < 2 ^ j" using False Suc.prems(2) neq by auto
      have tw: "twos m = twos ?m" using twos_add(1) [OF m(1,3), of 1] False by simp
      have "length ps = Suc (conslen ?m (2 ^ j))"
        using Suc.prems(4) False neq by (simp add: conslen.simps [of _ "2 * 2 ^ j"] split_power [simplified] n)
      then obtain qs p where ps: "ps = qs @ [p]" "length qs = conslen ?m (2 ^ j)" using snoc_exhaust by blast
      have c: "2 * c + 1 < s div 2 ^ j" using Suc.prems(3) sd by linarith
      have st: "m - 1 + 2 ^ Suc j * c = ?m - 1 + 2 ^ j * (2 * c + 1)" using m(1) by simp
      from Suc.IH [OF m(1,2) c ps(2)] c sd neq False show ?thesis
        unfolding st tw
        by (simp add: ps(1) consistency_run_append consistency_step_def fold_cons.simps [of _ _ "2 * 2 ^ j"]
            split_power [simplified] n case_prod_unfold Let_def)
    qed
  qed
qed


lemma consistency_right_edge:
  assumes "0 < m" "m < n" "n \<le> 2 ^ e" "length ps = conslen m n"
  shows "\<exists>a. consistency_run H ps ((m - 1 + 2 ^ e * c) div 2 ^ twos m, (n - 1 + 2 ^ e * c) div 2 ^ twos m, x, x)
    = Some (2 ^ a * c, 2 ^ a * c, fold_cons H m n x ps)"
  using assms
proof (induction n arbitrary: m e c ps rule: less_induct)
  case (less n)
  have big: "\<not> n \<le> 1" using less.prems by linarith
  then obtain j where j: "split n = 2 ^ j" "2 ^ j < n" "n \<le> 2 * 2 ^ j" using split_obtain [of n] by auto
  have "(2::nat) ^ j < 2 ^ e" using j(2) less.prems(3) by linarith
  then have "j < e" by simp
  then obtain d where e: "e = Suc (j + d)" using less_imp_Suc_add by blast
  have pe: "(2::nat) ^ e * c = 2 ^ j * (2 * (2 ^ d * c))" by (simp add: e power_add)
  have neq: "m \<noteq> n" using less.prems(2) by simp
  show ?case
  proof (cases "m \<le> 2 ^ j")
    case True
    then have "length ps = Suc (conslen m (2 ^ j))"
      using less.prems(4) big neq by (simp add: conslen.simps [of _ n] j(1))
    then obtain qs p where ps: "ps = qs @ [p]" "length qs = conslen m (2 ^ j)" using snoc_exhaust by blast
    have "n - 1 + 2 ^ e * c = (n - 1 - 2 ^ j) + 2 ^ j * Suc (2 * (2 ^ d * c))"
      using j by (simp add: pe)
    then have s: "(n - 1 + 2 ^ e * c) div 2 ^ j = Suc (2 * (2 ^ d * c))"
      using j by (simp only: div_mult_self2) simp
    then have "2 * (2 ^ d * c) < (n - 1 + 2 ^ e * c) div 2 ^ j" by simp
    from consistency_complete_subtree [OF less.prems(1) True this ps(2), of H x]
    have "consistency_run H qs ((m - 1 + 2 ^ e * c) div 2 ^ twos m, (n - 1 + 2 ^ e * c) div 2 ^ twos m, x, x)
        = Some (2 * (2 ^ d * c), Suc (2 * (2 ^ d * c)), fold_cons H m (2 ^ j) x qs)"
      unfolding pe [symmetric] s .
    then have "consistency_run H ps ((m - 1 + 2 ^ e * c) div 2 ^ twos m, (n - 1 + 2 ^ e * c) div 2 ^ twos m, x, x)
        = Some (2 ^ d * c, 2 ^ d * c, fold_cons H m n x ps)"
      using big neq True
      by (simp add: ps(1) consistency_run_append consistency_step_def j(1) fold_cons.simps [of _ _ n]
          case_prod_unfold Let_def)
    then show ?thesis by blast
  next
    case False
    let ?m = "m - 2 ^ j" and ?c = "2 * (2 ^ d * c) + 1"
    have m: "n - 2 ^ j < n" "0 < ?m" "?m < n - 2 ^ j" "n - 2 ^ j \<le> 2 ^ j"
      using False less.prems j by auto
    have tw: "twos m = twos ?m" using twos_add(1) [OF m(2), of j 1] m False by simp
    have "length ps = Suc (conslen ?m (n - 2 ^ j))"
      using less.prems(4) big neq False by (simp add: conslen.simps [of _ n] j(1))
    then obtain qs p where ps: "ps = qs @ [p]" "length qs = conslen ?m (n - 2 ^ j)" using snoc_exhaust by blast
    from less.IH [OF m ps(2), of ?c]
    obtain a where a: "consistency_run H qs ((?m - 1 + 2 ^ j * ?c) div 2 ^ twos ?m,
        (n - 2 ^ j - 1 + 2 ^ j * ?c) div 2 ^ twos ?m, x, x)
      = Some (2 ^ a * ?c, 2 ^ a * ?c, fold_cons H ?m (n - 2 ^ j) x qs)" by blast
    have st: "?m - 1 + 2 ^ j * ?c = m - 1 + 2 ^ e * c" "n - 2 ^ j - 1 + 2 ^ j * ?c = n - 1 + 2 ^ e * c"
      using False m j(2) by (simp_all add: pe)
    have "odd ?c" "?c div 2 = 2 ^ d * c" by simp_all
    then have "consistency_step H p (2 ^ a * ?c, 2 ^ a * ?c, fold_cons H ?m (n - 2 ^ j) x qs)
        = Some (2 ^ d * c, 2 ^ d * c, fold_cons H m n x ps)"
      using big neq False consistency_step_edge [of ?c H p a]
      by (cases "fold_cons H ?m (n - 2 ^ j) x qs") (simp add: ps(1) j(1) fold_cons.simps [of _ _ n])
    with a show ?thesis unfolding st tw ps(1) consistency_run_append by auto
  qed
qed

lemma consistency_run_exact:
  assumes "0 < m" "m < n" "length ps = conslen m n" "skip_ones (m - 1) (n - 1) = (f, s)"
  shows "consistency_run H ps (f, s, x, x) = Some (0, 0, fold_cons H m n x ps)"
proof -
  have "n \<le> 2 ^ n" using less_exp [of n] by simp
  from consistency_right_edge [OF assms(1,2) this assms(3), of H 0 x] assms(4) skip_ones_twos [OF assms(1), of "n - 1"]
  show ?thesis by simp
qed

lemma consistency_run_length:
  assumes m: "0 < m" "m < n" and sk: "skip_ones (m - 1) (n - 1) = (f0, s0)"
    and run: "consistency_run H ps (f0, s0, x, x) = Some (f, 0, rs)"
  shows "length ps = conslen m n"
proof (rule linorder_cases [of "length ps" "conslen m n"])
  assume short: "length ps < conslen m n"
  define qs where "qs = replicate (conslen m n - length ps) (0 :: hash)"
  have "length (ps @ qs) = conslen m n" using short by (simp add: qs_def)
  from consistency_run_exact [OF m this sk, of H x] run
  have "consistency_run H qs (f, 0, rs) \<noteq> None" by (simp add: consistency_run_append)
  moreover obtain q rest where "qs = q # rest" using short by (cases qs) (auto simp: qs_def)
  ultimately show ?thesis by (cases rs) (simp add: consistency_step_def)
next
  assume long: "conslen m n < length ps"
  let ?l = "conslen m n"
  have "consistency_run H (take ?l ps) (f0, s0, x, x) = Some (0, 0, fold_cons H m n x (take ?l ps))"
    using long by (intro consistency_run_exact [OF m _ sk]) simp
  moreover obtain q rest where "drop ?l ps = q # rest" using long by (metis drop_eq_Nil leD list.exhaust)
  ultimately have "consistency_run H (take ?l ps @ drop ?l ps) (f0, s0, x, x) = None"
    by (simp only: consistency_run_append) (simp add: consistency_step_def case_prod_unfold)
  with run show ?thesis by simp
qed

definition full_proof :: "tree_head \<Rightarrow> hash list \<Rightarrow> hash list" where
  "full_proof old ps = (if is_power_of_two (th_size old) then th_root old # ps else ps)"

lemma verify_consistency_Inr:
  assumes "th_size old < th_size new"
  shows "verify_consistency H old new ps = Inr () \<longleftrightarrow>
    0 < th_size old \<and> (\<exists>first rest. full_proof old ps = first # rest
      \<and> length rest = conslen (th_size old) (th_size new)
      \<and> fold_cons H (th_size old) (th_size new) first rest = (th_root old, th_root new))"
proof (cases "0 < th_size old")
  case True
  obtain f s where sk: "skip_ones (th_size old - 1) (th_size new - 1) = (f, s)" by force
  show ?thesis
  proof (cases "full_proof old ps")
    case Nil
    with assms True sk show ?thesis by (simp add: verify_consistency_def full_proof_def Let_def split: if_splits)
  next
    case (Cons first rest)
    then have v: "verify_consistency H old new ps = Inr () \<longleftrightarrow>
        (case consistency_run H rest (f, s, first, first) of None \<Rightarrow> False
         | Some (f, s, fr, sr) \<Rightarrow> s = 0 \<and> fr = th_root old \<and> sr = th_root new)"
      using assms True sk
      by (auto simp: verify_consistency_def full_proof_def [symmetric] Let_def split: option.splits prod.splits)
    show ?thesis
    proof (cases "length rest = conslen (th_size old) (th_size new)")
      case len: True
      with v Cons True show ?thesis
        using consistency_run_exact [OF True assms len sk, of H first] by (auto split: prod.splits)
    next
      case False
      with v Cons True show ?thesis
        using consistency_run_length [OF True assms sk, of H rest first] by (auto split: option.splits)
    qed
  qed
qed (simp add: verify_consistency_def)

section \<open>Consistency proofs are complete\<close>

function cons_base :: "hasher \<Rightarrow> nat \<Rightarrow> hash list \<Rightarrow> hash" where
  "cons_base H m d =
     (if m = length d \<or> length d \<le> 1 then root_of H d
      else let k = split (length d) in
        if m \<le> k then cons_base H m (take k d) else cons_base H (m - k) (drop k d))"
  by pat_completeness auto
termination
  by (relation "measure (\<lambda>(H, m, d). length d)") (auto simp: not_le split_less min_def)

function cons_rest :: "hasher \<Rightarrow> nat \<Rightarrow> hash list \<Rightarrow> hash list" where
  "cons_rest H m d =
     (if m = length d \<or> length d \<le> 1 then []
      else let k = split (length d) in
        if m \<le> k then cons_rest H m (take k d) @ [root_of H (drop k d)]
        else cons_rest H (m - k) (drop k d) @ [root_of H (take k d)])"
  by pat_completeness auto
termination
  by (relation "measure (\<lambda>(H, m, d). length d)") (auto simp: not_le split_less min_def)

function leftmost :: "nat \<Rightarrow> nat \<Rightarrow> bool" where
  "leftmost m n = (if m = n \<or> n \<le> 1 then True else m \<le> split n \<and> leftmost m (split n))"
  by pat_completeness auto
termination
  by (relation "measure snd") (auto simp: not_le split_less)

declare cons_base.simps [simp del] cons_rest.simps [simp del] leftmost.simps [simp del]

lemma subproof_parts:
  "subproof H m d b =
     (if b \<and> leftmost m (length d) then [] else [cons_base H m d]) @ cons_rest H m d"
proof (induction H m d b rule: subproof.induct)
  case (1 H m d b)
  show ?case
  proof (cases "m = length d \<or> length d \<le> 1")
    case True
    then show ?thesis
      by (simp add: subproof.simps [of _ _ d] cons_base.simps [of _ _ d] cons_rest.simps [of _ _ d]
          leftmost.simps [of m "length d"])
  next
    case False
    let ?k = "split (length d)"
    have k: "?k < length d" using False split_bounds [of "length d"] by simp
    then have l: "length (take ?k d) = ?k" by simp
    show ?thesis
      using 1(1) [OF False refl] 1(2) [OF False refl] False l
      by (cases "m \<le> ?k")
        (simp_all add: subproof.simps [of _ _ d] cons_base.simps [of _ _ d] cons_rest.simps [of _ _ d]
          leftmost.simps [of m "length d"] Let_def)
  qed
qed

lemma root_of_take:
  assumes "1 < length d" "split (length d) < m" "m \<le> length d"
  shows "root_of H (take m d) = node_hash H (root_of H (take (split (length d)) d))
    (root_of H (take (m - split (length d)) (drop (split (length d)) d)))"
proof -
  have k: "0 < split (length d)" using split_bounds [OF assms(1)] by simp
  have "split (length (take m d)) = split (length d)"
    using split_prefix [OF assms] assms(3) by (simp add: min_absorb2)
  moreover have "1 < length (take m d)" using assms k by simp
  ultimately show ?thesis
    using root_of_split [of "take m d" H] assms(2) by (simp add: min_absorb1 take_drop)
qed

lemma cons_fold:
  assumes "0 < m" "m \<le> length d"
  shows "length (cons_rest H m d) = conslen m (length d)
    \<and> fold_cons H m (length d) (cons_base H m d) (cons_rest H m d) = (root_of H (take m d), root_of H d)
    \<and> (leftmost m (length d) \<longrightarrow> cons_base H m d = root_of H (take m d))"
  using assms
proof (induction d arbitrary: m rule: length_induct)
  case (1 d)
  show ?case
  proof (cases "m = length d")
    case True
    then show ?thesis by (simp add: cons_base.simps [of _ _ d] cons_rest.simps [of _ _ d])
  next
    case neq: False
    let ?k = "split (length d)"
    have l: "1 < length d" "\<not> length d \<le> 1" using 1(2,3) neq by linarith+
    have k: "0 < ?k" "?k < length d" using split_bounds [OF l(1)] by auto
    note steps = cons_base.simps [of H m d] cons_rest.simps [of H m d] conslen.simps [of m "length d"]
      fold_cons.simps [of H m "length d"] leftmost.simps [of m "length d"]
    show ?thesis
    proof (cases "m \<le> ?k")
      case True
      have tk: "length (take ?k d) = ?k" using k by simp
      note IH = 1(1) [rule_format, of "take ?k d" m, unfolded tk, OF k(2) 1(2) True]
      have tt: "take m (take ?k d) = take m d" using True by (simp add: min_absorb1)
      show ?thesis
        unfolding steps Let_def using neq l(2) True IH unfolding tt root_of_split [OF l(1)] by simp
    next
      case False
      have "length d - ?k < length d" "0 < m - ?k" "m - ?k \<le> length d - ?k" using k False 1(3) by auto
      note IH = 1(1) [rule_format, of "drop ?k d" "m - ?k", unfolded length_drop, OF this]
      have "?k < m" using False by simp
      note rt = root_of_take [OF l(1) this 1(3)]
      show ?thesis
        unfolding steps Let_def using neq l(2) False IH unfolding rt root_of_split [OF l(1)] by simp
    qed
  qed
qed

lemma power_of_two_iff: "is_power_of_two n \<longleftrightarrow> (\<exists>j. n = 2 ^ j)"
proof (induction n rule: is_power_of_two.induct)
  case (1 n)
  show ?case
  proof (cases "n < 2")
    case True
    then have "n = 0 \<or> n = 1" by auto
    then show ?thesis
    proof
      assume "n = 0"
      then show ?thesis by (subst is_power_of_two.simps) simp
    next
      assume "n = 1"
      then have "n = 2 ^ 0" by simp
      then have "\<exists>j. n = 2 ^ j" by blast
      moreover have "is_power_of_two n" unfolding \<open>n = 1\<close> by (subst is_power_of_two.simps) simp
      ultimately show ?thesis by blast
    qed
  next
    case False
    have "(even n \<and> (\<exists>j. n div 2 = 2 ^ j)) \<longleftrightarrow> (\<exists>j. n = 2 ^ j)"
    proof
      assume "even n \<and> (\<exists>j. n div 2 = 2 ^ j)"
      then obtain j where "n = 2 * (n div 2)" "n div 2 = 2 ^ j" by auto
      then have "n = 2 ^ Suc j" by simp
      then show "\<exists>j. n = 2 ^ j" by blast
    next
      assume "\<exists>j. n = 2 ^ j"
      then obtain j where j: "n = 2 ^ j" by blast
      with False obtain i where "j = Suc i" by (cases j) auto
      with j show "even n \<and> (\<exists>j. n div 2 = 2 ^ j)" by auto
    qed
    with 1 [OF False] False show ?thesis by (simp add: is_power_of_two.simps [of n])
  qed
qed

lemma leftmost_power: "0 < m \<Longrightarrow> m \<le> 2 ^ j \<Longrightarrow> leftmost m (2 ^ j) \<longleftrightarrow> (\<exists>i. m = 2 ^ i)"
proof (induction j)
  case 0
  then have "m = 2 ^ 0" by simp
  then show ?case by (metis leftmost.simps)
next
  case (Suc j)
  have n: "\<not> (2::nat) ^ Suc j \<le> 1" using one_less_power [of "2 :: nat" "Suc j"] by linarith
  show ?case
  proof (cases "m \<le> 2 ^ j")
    case True
    with Suc n show ?thesis
      by (subst leftmost.simps) (auto simp del: power_Suc simp: split_power)
  next
    case False
    have "(\<exists>i. m = 2 ^ i) \<longleftrightarrow> m = 2 ^ Suc j"
    proof
      assume "\<exists>i. m = 2 ^ i"
      then obtain i where i: "m = 2 ^ i" by blast
      with False Suc.prems(2) have "j < i" "i \<le> Suc j" by (simp_all add: not_le del: power_Suc)
      then have "i = Suc j" by simp
      with i show "m = 2 ^ Suc j" by simp
    qed blast
    with False n show ?thesis by (subst leftmost.simps) (simp del: power_Suc add: split_power)
  qed
qed

lemma leftmost_iff:
  assumes "0 < m" "m < n"
  shows "leftmost m n \<longleftrightarrow> is_power_of_two m"
proof -
  have l: "1 < n" using assms by linarith
  then obtain j where j: "split n = 2 ^ j" "2 ^ j < n" "n \<le> 2 * 2 ^ j" by (rule split_obtain)
  have "m \<le> 2 ^ j" if "m = 2 ^ i" for i
  proof -
    have "(2::nat) ^ i < 2 ^ Suc j" using that assms(2) j(3) by simp
    then have "i \<le> j" by (simp only: power_strict_increasing_iff)
    with that show ?thesis by simp
  qed
  with leftmost_power [OF assms(1), of j] show ?thesis
    using assms l by (subst leftmost.simps) (auto simp: power_of_two_iff j(1))
qed

text \<open>
  C26. Every consistency proof verifies: the builder refuses exactly the sizes that are not a
  non-empty prefix, and otherwise returns a proof that the verifier accepts between the head of the
  first \<open>m\<close> leaves and the head of all leaves.
\<close>

theorem consistency_proof_complete:
  "case consistency_proof H d m of
     Inl e \<Rightarrow> (m = 0 \<or> length d < m) \<and> e = BadSizes m (length d)
   | Inr ps \<Rightarrow> 0 < m \<and> m \<le> length d \<and> verify_consistency H (head_over H (take m d)) (head_over H d) ps = Inr ()"
proof (cases "0 < m \<and> m \<le> length d")
  case False
  then show ?thesis by (auto simp: consistency_proof_def)
next
  case ok: True
  show ?thesis
  proof (cases "m = length d")
    case True
    with ok show ?thesis
      by (simp add: consistency_proof_def subproof.simps [of _ _ d] verify_consistency_def head_over_def)
  next
    case False
    let ?old = "head_over H (take m d)" and ?ps = "subproof H m d True"
    have lt: "m < length d" using ok False by simp
    have sz: "th_size ?old = m" "th_root ?old = root_of H (take m d)" "th_size (head_over H d) = length d"
      "th_root (head_over H d) = root_of H d"
      using lt by (simp_all add: head_over_def)
    have cf: "length (cons_rest H m d) = conslen m (length d)"
      "fold_cons H m (length d) (cons_base H m d) (cons_rest H m d) = (root_of H (take m d), root_of H d)"
      "leftmost m (length d) \<Longrightarrow> cons_base H m d = root_of H (take m d)"
      using cons_fold [of m d H] ok by blast+
    have "full_proof ?old ?ps = cons_base H m d # cons_rest H m d"
      using leftmost_iff [of m "length d"] ok lt cf(3) by (auto simp: full_proof_def sz subproof_parts)
    with cf have "verify_consistency H ?old (head_over H d) ?ps = Inr ()"
      using ok lt by (simp add: verify_consistency_Inr sz)
    with ok show ?thesis by (simp add: consistency_proof_def)
  qed
qed

section \<open>Consistency proofs are sound\<close>

text \<open>What the verifier hashes for the root of the new tree.\<close>

function cons_inputs :: "hasher \<Rightarrow> nat \<Rightarrow> nat \<Rightarrow> hash \<Rightarrow> hash list \<Rightarrow> bytes list" where
  "cons_inputs H m n first ps =
     (if m = n \<or> n \<le> 1 then []
      else if m \<le> split n then
        node_input (snd (fold_cons H m (split n) first (butlast ps))) (last ps)
          # cons_inputs H m (split n) first (butlast ps)
      else
        node_input (last ps) (snd (fold_cons H (m - split n) (n - split n) first (butlast ps)))
          # cons_inputs H (m - split n) (n - split n) first (butlast ps))"
  by pat_completeness auto
termination
  by (relation "measure (\<lambda>(H, m, n, f, ps). n)") (auto simp: not_le split_less)

declare cons_inputs.simps [simp del]

lemma fold_cons_sound:
  assumes "0 < m" "m \<le> length d" "snd (fold_cons H m (length d) first ps) = root_of H d"
  shows "fst (fold_cons H m (length d) first ps) = root_of H (take m d)
    \<or> collision H (cons_inputs H m (length d) first ps) (tree_inputs H d)"
  using assms
proof (induction d arbitrary: m ps rule: length_induct)
  case (1 d)
  show ?case
  proof (cases "m = length d")
    case True
    with 1(4) show ?thesis by (simp add: fold_cons.simps [of H m "length d"])
  next
    case neq: False
    let ?k = "split (length d)"
    have l: "1 < length d" "\<not> length d \<le> 1" using 1(2,3) neq by linarith+
    have k: "?k < length d" using split_bounds [OF l(1)] by auto
    note parts = tree_inputs_parts [OF l(1), of H]
    show ?thesis
    proof (cases "m \<le> ?k")
      case True
      obtain fr sr where sub: "fold_cons H m ?k first (butlast ps) = (fr, sr)" by force
      have fc: "fold_cons H m (length d) first ps = (fr, node_hash H sr (last ps))"
        using neq l(2) True sub by (simp add: fold_cons.simps [of H m "length d"])
      have ins: "cons_inputs H m (length d) first ps = node_input sr (last ps) # cons_inputs H m ?k first (butlast ps)"
        using neq l(2) True sub by (simp add: cons_inputs.simps [of H m "length d"])
      have eq: "node_hash H sr (last ps) = node_hash H (root_of H (take ?k d)) (root_of H (drop ?k d))"
        using 1(4) unfolding fc root_of_split [OF l(1)] by simp
      show ?thesis
      proof (cases "sr = root_of H (take ?k d)")
        case False
        then show ?thesis using node_hash_eq [OF eq _ _ parts(1)] by (simp add: ins)
      next
        case sr: True
        have tk: "length (take ?k d) = ?k" using k by simp
        have tt: "take m (take ?k d) = take m d" using True by (simp add: min_absorb1)
        from 1(1) [rule_format, of "take ?k d" m "butlast ps", unfolded tk sub tt, OF k 1(2) True] sr
        have "fr = root_of H (take m d) \<or> collision H (cons_inputs H m ?k first (butlast ps)) (tree_inputs H (take ?k d))"
          by simp
        then show ?thesis using parts(2) unfolding fc ins
          by (elim disjE) (simp, rule disjI2, erule collision_mono, auto)
      qed
    next
      case False
      obtain fr sr where sub: "fold_cons H (m - ?k) (length d - ?k) first (butlast ps) = (fr, sr)" by force
      have fc: "fold_cons H m (length d) first ps = (node_hash H (last ps) fr, node_hash H (last ps) sr)"
        using neq l(2) False sub by (simp add: fold_cons.simps [of H m "length d"])
      have ins: "cons_inputs H m (length d) first ps
          = node_input (last ps) sr # cons_inputs H (m - ?k) (length d - ?k) first (butlast ps)"
        using neq l(2) False sub by (simp add: cons_inputs.simps [of H m "length d"])
      have eq: "node_hash H (last ps) sr = node_hash H (root_of H (take ?k d)) (root_of H (drop ?k d))"
        using 1(4) unfolding fc root_of_split [OF l(1)] by simp
      show ?thesis
      proof (cases "last ps = root_of H (take ?k d) \<and> sr = root_of H (drop ?k d)")
        case no: False
        then show ?thesis using node_hash_eq [OF eq no _ parts(1)] by (simp add: ins)
      next
        case sr: True
        have "length d - ?k < length d" "0 < m - ?k" "m - ?k \<le> length d - ?k" using l k False 1(3) split_bounds [OF l(1)] by auto
        from 1(1) [rule_format, of "drop ?k d" "m - ?k" "butlast ps", unfolded length_drop sub, OF this] sr
        have "fr = root_of H (take (m - ?k) (drop ?k d))
            \<or> collision H (cons_inputs H (m - ?k) (length d - ?k) first (butlast ps)) (tree_inputs H (drop ?k d))"
          by simp
        moreover have "?k < m" using False by simp
        note rt = root_of_take [OF l(1) this 1(3)]
        ultimately show ?thesis using sr parts(3) unfolding fc ins rt
          by (elim disjE) (simp, rule disjI2, erule collision_mono, auto)
      qed
    qed
  qed
qed

lemma accepted_consistency:
  assumes "verify_consistency H old (head_over H d) ps = Inr ()"
  shows "0 < th_size old \<and> th_size old \<le> length d
    \<and> (th_root old = root_of H (take (th_size old) d)
       \<or> collision H (cons_inputs H (th_size old) (length d) (hd (full_proof old ps)) (tl (full_proof old ps)))
           (tree_inputs H d))"
proof (cases "th_size old < length d")
  case True
  then show ?thesis
    using verify_consistency_Inr [of old "head_over H d" H ps] assms
      fold_cons_sound [of "th_size old" d H "hd (full_proof old ps)" "tl (full_proof old ps)"]
    by (auto simp: head_over_def)
next
  case False
  with assms show ?thesis by (auto simp: verify_consistency_def head_over_def split: if_splits)
qed

text \<open>
  C6. Consistency proofs are sound: a proof accepted between an old head and the head of the tree
  over \<open>d\<close> shows that the old root is the root over the first \<open>old.size\<close> leaves of \<open>d\<close>, so that the
  log was only appended to, unless the inputs hashed while checking the proof and the inputs hashed
  while building the tree contain two different byte strings with the same hash.
\<close>

theorem consistency_proof_sound:
  assumes "verify_consistency H old (head_over H d) ps = Inr ()"
  shows "0 < th_size old \<and> th_size old \<le> length d
    \<and> (th_root old = root_of H (take (th_size old) d)
       \<or> collision H (cons_inputs H (th_size old) (length d) (hd (full_proof old ps)) (tl (full_proof old ps)))
           (tree_inputs H d))"
  using assms by (rule accepted_consistency)

section \<open>A concrete log\<close>

text \<open>A polynomial hash, to run the verifiers on.\<close>

definition poly_hash :: hasher where
  "poly_hash bs = foldl (\<lambda>h b. 257 * h + ucast b + 1) 7 bs"

lemma split_small: "split (Suc (Suc 0)) = 1" "split (Suc (Suc (Suc 0))) = 2"
  by (simp_all add: split_def ilog2.simps)

lemma root_of_small:
  "root_of H [a, b] = node_hash H a b" "root_of H [a, b, c] = node_hash H (node_hash H a b) c"
  by (simp_all add: root_of_split split_small)

theorem consistency_proof_sound_witness:
  "verify_consistency poly_hash (head_over poly_hash [1, 2]) (head_over poly_hash [1, 2, 3]) [3] = Inr ()
    \<and> (th_root (head_over poly_hash [1, 2]) = root_of poly_hash (take 2 [1, 2, 3])
       \<or> collision poly_hash
           (cons_inputs poly_hash 2 3 (hd (full_proof (head_over poly_hash [1, 2]) [3]))
             (tl (full_proof (head_over poly_hash [1, 2]) [3])))
           (tree_inputs poly_hash [1, 2, 3]))"
proof -
  have "verify_consistency poly_hash (head_over poly_hash [1, 2]) (head_over poly_hash [1, 2, 3]) [3] = Inr ()"
    by (simp add: verify_consistency_def head_over_def root_of_small consistency_step_def skip_zeros.simps
        skip_ones.simps is_power_of_two.simps)
  with consistency_proof_sound [OF this] show ?thesis by (simp add: head_over_def numeral_2_eq_2 numeral_3_eq_3)
qed

end
