(* ===== verification/Merkle_Cache.thy ===== *)
theory Merkle_Cache
  imports Merkle_Verify
begin

text \<open>
  The cached tree of \<open>src/src/merkle.rs\<close> (\<open>MerkleTree\<close>): one row per level with the roots of the
  complete, aligned subtrees, appended to by \<open>push\<close> and read by \<open>subtree\<close>, and the batch builder
  \<open>all_inclusion_proofs\<close>. The proof builders of the cache reach the rows only through \<open>subtree\<close>;
  the locale \<open>subtree_provider\<close> is that contract, and the cached tree meets it.
\<close>

section \<open>The tree\<close>

record merkle_tree =
  levels :: "hash list list"

definition new_tree :: merkle_tree where
  "new_tree = \<lparr> levels = [] \<rparr>"

text \<open>The loop of \<open>push\<close> from level \<open>k\<close> on; the argument is \<open>levels[k..]\<close>.\<close>

fun push_rows :: "hasher \<Rightarrow> hash \<Rightarrow> hash list list \<Rightarrow> hash list list" where
  "push_rows H hash [] = [[hash]]"
| "push_rows H hash (row # rest) =
     (let row = row @ [hash]; n = length row
      in if n mod 2 = 1 then row # rest
         else row # push_rows H (node_hash H (row ! (n - 2)) (row ! (n - 1))) rest)"

definition push :: "hasher \<Rightarrow> hash \<Rightarrow> merkle_tree \<Rightarrow> merkle_tree" where
  "push H leaf t = \<lparr> levels = push_rows H leaf (levels t) \<rparr>"

definition from_leaf_hashes :: "hasher \<Rightarrow> hash list \<Rightarrow> merkle_tree" where
  "from_leaf_hashes H leaf_hashes = fold (push H) leaf_hashes new_tree"

definition tree_len :: "merkle_tree \<Rightarrow> nat" where
  "tree_len t = (case levels t of [] \<Rightarrow> 0 | l # _ \<Rightarrow> length l)"

definition tree_is_empty :: "merkle_tree \<Rightarrow> bool" where
  "tree_is_empty t \<longleftrightarrow> tree_len t = 0"

fun trailing_zeros :: "nat \<Rightarrow> nat" where
  "trailing_zeros n = (if even n \<and> n \<noteq> 0 then Suc (trailing_zeros (n div 2)) else 0)"

declare trailing_zeros.simps [simp del]

text \<open>\<open>subtree\<close> is called with \<open>len > 0\<close> only; a length of one is a power of two.\<close>

function subtree :: "hasher \<Rightarrow> merkle_tree \<Rightarrow> nat \<Rightarrow> nat \<Rightarrow> hash" where
  "subtree H t start len =
     (if is_power_of_two len \<and> start mod len = 0 \<or> len \<le> 1
      then levels t ! trailing_zeros len ! (start div len)
      else let k = split len in node_hash H (subtree H t start k) (subtree H t (start + k) (len - k)))"
  by pat_completeness auto
termination
proof (relation "measure (\<lambda>(H, t, start, len). len)", goal_cases)
  case (2 H t start len k)
  then show ?case using split_bounds [of len] by auto
next
  case (3 H t start len k)
  then show ?case using split_bounds [of len] by auto
qed simp

declare subtree.simps [simp del]

definition tree_head_at :: "hasher \<Rightarrow> merkle_tree \<Rightarrow> nat \<Rightarrow> merkle_error + tree_head" where
  "tree_head_at H t sz =
     (if sz > tree_len t then Inl (BadSizes sz (tree_len t))
      else Inr \<lparr> th_size = sz, th_root = (if sz = 0 then H [] else subtree H t 0 sz) \<rparr>)"

text \<open>The two builders, over the \<open>subtree\<close> they call and the output they push to.\<close>

function path_over :: "(nat \<Rightarrow> nat \<Rightarrow> hash) \<Rightarrow> nat \<Rightarrow> nat \<Rightarrow> nat \<Rightarrow> hash list \<Rightarrow> hash list" where
  "path_over sub m start len out =
     (if len \<le> 1 then out
      else let k = split len in
        if m < k then path_over sub m start k out @ [sub (start + k) (len - k)]
        else path_over sub (m - k) (start + k) (len - k) out @ [sub start k])"
  by pat_completeness auto
termination
proof (relation "measure (\<lambda>(sub, m, start, len, out). len)", goal_cases)
  case (2 sub m start len out k)
  then show ?case using split_bounds [of len] by auto
next
  case (3 sub m start len out k)
  then show ?case using split_bounds [of len] by auto
qed simp

declare path_over.simps [simp del]

definition tree_inclusion_proof :: "hasher \<Rightarrow> merkle_tree \<Rightarrow> nat \<Rightarrow> nat \<Rightarrow> merkle_error + hash list" where
  "tree_inclusion_proof H t index sz =
     (if sz > tree_len t then Inl (BadSizes sz (tree_len t))
      else if index \<ge> sz then Inl (IndexOutOfRange index sz)
      else Inr (path_over (subtree H t) index 0 sz []))"

text \<open>As in the recursive builder, \<open>m = len\<close> whenever \<open>len = 1\<close>.\<close>

function subproof_over :: "(nat \<Rightarrow> nat \<Rightarrow> hash) \<Rightarrow> nat \<Rightarrow> nat \<Rightarrow> nat \<Rightarrow> bool \<Rightarrow> hash list \<Rightarrow> hash list" where
  "subproof_over sub m start len b out =
     (if m = len \<or> len \<le> 1 then (if b then out else out @ [sub start len])
      else let k = split len in
        if m \<le> k then subproof_over sub m start k b out @ [sub (start + k) (len - k)]
        else subproof_over sub (m - k) (start + k) (len - k) False out @ [sub start k])"
  by pat_completeness auto
termination
proof (relation "measure (\<lambda>(sub, m, start, len, b, out). len)", goal_cases)
  case (2 sub m start len b out k)
  then show ?case using split_bounds [of len] by auto
next
  case (3 sub m start len b out k)
  then show ?case using split_bounds [of len] by auto
qed simp

declare subproof_over.simps [simp del]

definition tree_consistency_proof :: "hasher \<Rightarrow> merkle_tree \<Rightarrow> nat \<Rightarrow> nat \<Rightarrow> merkle_error + hash list" where
  "tree_consistency_proof H t old sz =
     (if sz > tree_len t \<or> old = 0 \<or> old > sz then Inl (BadSizes old sz)
      else Inr (subproof_over (subtree H t) old 0 sz True []))"

section \<open>Building proofs from subtree roots\<close>

locale subtree_provider =
  fixes H :: hasher and d :: "hash list" and sub :: "nat \<Rightarrow> nat \<Rightarrow> hash"
  assumes sub_root: "0 < len \<Longrightarrow> start + len \<le> length d \<Longrightarrow> sub start len = root_of H (take len (drop start d))"
begin

lemma sub_split:
  assumes "1 < len" "start + len \<le> length d"
  shows "sub start (split len) = root_of H (take (split len) (take len (drop start d)))"
    "sub (start + split len) (len - split len) = root_of H (drop (split len) (take len (drop start d)))"
  using split_bounds [OF assms(1)] assms(2) sub_root [of "split len" start] sub_root [of "len - split len" "start + split len"]
  by (simp_all add: min_absorb1 drop_take add.commute)

lemma path_over:
  "start + len \<le> length d \<Longrightarrow> path_over sub m start len out = out @ path H m (take len (drop start d))"
proof (induction len arbitrary: m start rule: less_induct)
  case (less len)
  show ?case
  proof (cases "len \<le> 1")
    case True
    then show ?thesis using less.prems by (simp add: path_over.simps [of sub m start len] path.simps [of H m] min_def)
  next
    case False
    let ?k = "split len" and ?d = "take len (drop start d)"
    have k: "0 < ?k" "?k < len" using False split_bounds [of len] by auto
    have len: "length ?d = len" using less.prems by simp
    have l: "take ?k ?d = take ?k (drop start d)" "drop ?k ?d = take (len - ?k) (drop (start + ?k) d)"
      using k by (simp_all add: min_absorb1 drop_take add.commute)
    have IH: "path_over sub m start ?k out = out @ path H m (take ?k ?d)"
      "path_over sub (m - ?k) (start + ?k) (len - ?k) out = out @ path H (m - ?k) (drop ?k ?d)"
      using less.IH [of ?k start m] less.IH [of "len - ?k" "start + ?k" "m - ?k"] less.prems k unfolding l by auto
    show ?thesis
      unfolding path_over.simps [of sub m start len] path.simps [of H m ?d] len Let_def
      using False IH sub_split [of len start] less.prems by simp
  qed
qed

lemma subproof_over:
  "start + len \<le> length d \<Longrightarrow> 0 < m \<Longrightarrow> m \<le> len
    \<Longrightarrow> subproof_over sub m start len b out = out @ subproof H m (take len (drop start d)) b"
proof (induction len arbitrary: m start b rule: less_induct)
  case (less len)
  let ?k = "split len" and ?d = "take len (drop start d)"
  have len: "length ?d = len" using less.prems by simp
  show ?case
  proof (cases "m = len")
    case True
    show ?thesis
      unfolding subproof_over.simps [of sub m start len] subproof.simps [of H m ?d] len
      using True less.prems by (simp add: sub_root)
  next
    case False
    have l1: "\<not> len \<le> 1" using False less.prems by linarith
    have k: "0 < ?k" "?k < len" using l1 split_bounds [of len] by auto
    have l: "take ?k ?d = take ?k (drop start d)" "drop ?k ?d = take (len - ?k) (drop (start + ?k) d)"
      using k by (simp_all add: min_absorb1 drop_take add.commute)
    have IH: "m \<le> ?k \<Longrightarrow> subproof_over sub m start ?k b out = out @ subproof H m (take ?k ?d) b"
      "\<not> m \<le> ?k \<Longrightarrow> subproof_over sub (m - ?k) (start + ?k) (len - ?k) False out
        = out @ subproof H (m - ?k) (drop ?k ?d) False"
      using less.IH [of ?k start m] less.IH [of "len - ?k" "start + ?k" "m - ?k"] less.prems k unfolding l by auto
    show ?thesis
      unfolding subproof_over.simps [of sub m start len] subproof.simps [of H m ?d] len Let_def
      using False l1 IH sub_split [of len start] less.prems by simp
  qed
qed

end

section \<open>What the rows hold\<close>

definition level_row :: "hasher \<Rightarrow> hash list \<Rightarrow> nat \<Rightarrow> hash list" where
  "level_row H d k = map (\<lambda>i. root_of H (take (2 ^ k) (drop (i * 2 ^ k) d))) [0..<length d div 2 ^ k]"

fun rows_ok :: "hasher \<Rightarrow> hash list \<Rightarrow> nat \<Rightarrow> hash list list \<Rightarrow> bool" where
  "rows_ok H d k [] = (length d < 2 ^ k)"
| "rows_ok H d k (row # rest) = (row = level_row H d k \<and> rows_ok H d (Suc k) rest)"

lemma length_level_row [simp]: "length (level_row H d k) = length d div 2 ^ k"
  by (simp add: level_row_def)

lemma level_row_nth:
  "i < length d div 2 ^ k \<Longrightarrow> level_row H d k ! i = root_of H (take (2 ^ k) (drop (i * 2 ^ k) d))"
  by (simp add: level_row_def)

lemma block_prefix:
  assumes "i < length d div 2 ^ k"
  shows "take (2 ^ k) (drop (i * 2 ^ k) (d @ e)) = take (2 ^ k) (drop (i * 2 ^ k) d)"
proof -
  have "Suc i * 2 ^ k \<le> length d div 2 ^ k * 2 ^ k" using assms by (intro mult_right_mono) auto
  also have "\<dots> \<le> length d" by simp
  finally show ?thesis by simp
qed

lemma block_count: "m dvd Suc n \<Longrightarrow> Suc n = Suc (n div m) * m" for m n :: nat
  by (metis div_Suc dvd_div_mult_self dvd_eq_mod_eq_0)

lemma level_row_append:
  "level_row H (d @ [leaf]) k
    = level_row H d k @ (if 2 ^ k dvd Suc (length d) then [root_of H (drop (Suc (length d) - 2 ^ k) (d @ [leaf]))] else [])"
proof (cases "2 ^ k dvd Suc (length d)")
  case True
  let ?n = "length d div 2 ^ k"
  have n: "Suc (length d) div 2 ^ k = Suc ?n" using True by (simp add: div_Suc dvd_eq_mod_eq_0)
  have pos: "?n * 2 ^ k = Suc (length d) - 2 ^ k" "2 ^ k \<le> Suc (length d)"
    using block_count [OF True] by simp_all
  have "take (2 ^ k) (drop (?n * 2 ^ k) (d @ [leaf])) = drop (Suc (length d) - 2 ^ k) (d @ [leaf])"
    unfolding pos(1) using pos(2) by (intro take_all) auto
  with True n show ?thesis by (simp add: level_row_def block_prefix del: take_append drop_append)
next
  case False
  then have "Suc (length d) div 2 ^ k = length d div 2 ^ k" by (simp add: div_Suc dvd_eq_mod_eq_0)
  with False show ?thesis by (simp add: level_row_def block_prefix del: take_append drop_append)
qed

lemma rows_ok_stable:
  "rows_ok H d k rows \<Longrightarrow> \<not> 2 ^ k dvd Suc (length d) \<Longrightarrow> rows_ok H (d @ [leaf]) k rows"
proof (induction rows arbitrary: k)
  case Nil
  then show ?case by (cases "Suc (length d) = 2 ^ k") auto
next
  case (Cons row rest)
  have "\<not> 2 ^ Suc k dvd Suc (length d)" using Cons.prems(2) by (metis dvd_mult_right power_Suc)
  with Cons show ?case by (simp add: level_row_append del: power_Suc)
qed

lemma root_of_double:
  assumes "length d = 2 ^ Suc k"
  shows "root_of H d = node_hash H (root_of H (take (2 ^ k) d)) (root_of H (drop (2 ^ k) d))"
proof -
  have "1 < length d" unfolding assms by (rule one_less_power) simp_all
  from root_of_split [OF this, of H] show ?thesis unfolding assms split_power .
qed

lemma push_rows_ok:
  assumes "rows_ok H d k rows" "2 ^ k dvd Suc (length d)"
    and "hash = root_of H (drop (Suc (length d) - 2 ^ k) (d @ [leaf]))"
  shows "rows_ok H (d @ [leaf]) k (push_rows H hash rows)"
  using assms
proof (induction H hash rows arbitrary: k rule: push_rows.induct)
  case (1 H hash)
  then have "Suc (length d) = 2 ^ k" by (auto dest: dvd_imp_le)
  with 1 show ?case by (simp add: level_row_def)
next
  case (2 H hash row rest)
  let ?row = "row @ [hash]" and ?d = "d @ [leaf]" and ?n = "length d div 2 ^ k"
  have row: "?row = level_row H ?d k" using 2(2-4) by (simp add: level_row_append)
  have n: "Suc (length d) = Suc ?n * 2 ^ k" "length ?row = Suc ?n"
    using 2(2) block_count [OF 2(3)] by simp_all
  show ?case
  proof (cases "length ?row mod 2 = 1")
    case True
    then have "\<not> 2 dvd Suc ?n" using n(2) by (simp add: dvd_eq_mod_eq_0)
    then have "\<not> 2 ^ Suc k dvd Suc (length d)" unfolding n(1) power_Suc
      by (subst dvd_times_right_cancel_iff) simp_all
    then have "rows_ok H ?d (Suc k) rest" using rows_ok_stable [of H d "Suc k" rest leaf] 2(2) by simp
    with True row show ?thesis by (simp add: Let_def)
  next
    case False
    then obtain j where j: "Suc ?n = 2 * j" "0 < j" using n(2) by (metis evenE odd_iff_mod_2_eq_one zero_less_Suc nat_0_less_mult_iff)
    have len: "Suc (length d) = j * 2 ^ Suc k" unfolding n(1) j by simp
    let ?b = "drop (Suc (length d) - 2 ^ Suc k) ?d"
    have lb: "length ?b = 2 ^ Suc k" using len j(2) by (cases j) simp_all
    have off: "(2 * j - 2) * 2 ^ k = Suc (length d) - 2 ^ Suc k" "(2 * j - 1) * 2 ^ k = Suc (length d) - 2 ^ k"
      unfolding len by (simp_all add: algebra_simps)
    have dn: "length ?d div 2 ^ k = 2 * j" using n(2) j(1) unfolding row by simp
    have lt: "2 * j - 2 < length ?d div 2 ^ k" "2 * j - 1 < length ?d div 2 ^ k" unfolding dn using j(2) by simp_all
    have "2 ^ Suc k \<le> Suc (length d)" using len j(2) by (cases j) simp_all
    then have "2 ^ k + (Suc (length d) - 2 ^ Suc k) = Suc (length d) - 2 ^ k" by simp
    then have "drop (2 ^ k) ?b = drop (Suc (length d) - 2 ^ k) ?d" unfolding drop_drop by (rule arg_cong)
    moreover have "length (drop (Suc (length d) - 2 ^ k) ?d) \<le> 2 ^ k"
      unfolding length_drop length_append list.size by linarith
    ultimately have "take (2 ^ k) (drop (Suc (length d) - 2 ^ k) ?d) = drop (2 ^ k) ?b" by (simp only: take_all)
    then have "?row ! (2 * j - 2) = root_of H (take (2 ^ k) ?b)" "?row ! (2 * j - 1) = root_of H (drop (2 ^ k) ?b)"
      unfolding row level_row_nth [OF lt(1)] level_row_nth [OF lt(2)] off by simp_all
    then have "?row ! (length ?row - 2) = root_of H (take (2 ^ k) ?b)" "?row ! (length ?row - 1) = root_of H (drop (2 ^ k) ?b)"
      unfolding n(2) j(1) .
    then have "node_hash H (?row ! (length ?row - 2)) (?row ! (length ?row - 1)) = root_of H ?b"
      using root_of_double [OF lb] by simp
    moreover have "rows_ok H d (Suc k) rest" "2 ^ Suc k dvd Suc (length d)" using 2(2) len by simp_all
    ultimately have "rows_ok H ?d (Suc k)
        (push_rows H (node_hash H (?row ! (length ?row - 2)) (?row ! (length ?row - 1))) rest)"
      using 2(1) [OF refl refl False, of "Suc k"] by blast
    with False row show ?thesis by (simp add: Let_def)
  qed
qed

definition tree_ok :: "hasher \<Rightarrow> hash list \<Rightarrow> merkle_tree \<Rightarrow> bool" where
  "tree_ok H d t \<longleftrightarrow> rows_ok H d 0 (levels t)"

lemma new_tree_ok: "tree_ok H [] new_tree"
  by (simp add: tree_ok_def new_tree_def)

lemma push_ok: "tree_ok H d t \<Longrightarrow> tree_ok H (d @ [leaf]) (push H leaf t)"
  using push_rows_ok [of H d 0 "levels t" leaf leaf] by (simp add: tree_ok_def push_def)

lemma fold_push_ok: "tree_ok H d t \<Longrightarrow> tree_ok H (d @ e) (fold (push H) e t)"
proof (induction e arbitrary: d t)
  case (Cons leaf e)
  from Cons.IH [OF push_ok [OF Cons.prems, of leaf]] show ?case by simp
qed simp

lemma from_leaf_hashes_ok: "tree_ok H d (from_leaf_hashes H d)"
  using fold_push_ok [OF new_tree_ok, of H d] by (simp add: from_leaf_hashes_def)

lemma rows_ok_nth:
  "rows_ok H d k rows \<Longrightarrow> i < length d div 2 ^ (k + j) \<Longrightarrow> rows ! j ! i = root_of H (take (2 ^ (k + j)) (drop (i * 2 ^ (k + j)) d))"
proof (induction rows arbitrary: k j)
  case Nil
  then have "length d < 2 ^ (k + j)" by (simp add: less_le_trans [OF _ power_increasing])
  with Nil.prems(2) show ?case by simp
next
  case (Cons row rest)
  then show ?case using Cons.IH [of "Suc k" "j - 1"] by (cases j) (simp_all add: level_row_nth)
qed

lemma tree_ok_len: "tree_ok H d t \<Longrightarrow> tree_len t = length d"
  by (cases "levels t") (auto simp: tree_ok_def tree_len_def)

lemma trailing_zeros_power [simp]: "trailing_zeros (2 ^ k) = k"
  by (induction k) (simp_all add: trailing_zeros.simps)

lemma subtree_root:
  assumes "tree_ok H d t" "0 < len" "start + len \<le> length d"
  shows "subtree H t start len = root_of H (take len (drop start d))"
  using assms(2,3)
proof (induction len arbitrary: start rule: less_induct)
  case (less len)
  show ?case
  proof (cases "is_power_of_two len \<and> start mod len = 0 \<or> len \<le> 1")
    case True
    have "is_power_of_two 1" by (subst is_power_of_two.simps) simp
    with True less.prems(1) have "is_power_of_two len" "start mod len = 0" by (auto simp: le_Suc_eq)
    then obtain k where k: "len = 2 ^ k" unfolding power_of_two_iff by blast
    have st: "start = start div len * len" using \<open>start mod len = 0\<close> by (simp add: dvd_div_mult_self mod_0_imp_dvd)
    have "(start div len + 1) * len \<le> length d" using less.prems(2) st by (simp add: algebra_simps)
    then have "start div len < length d div len"
      using less.prems(1) by (simp add: less_eq_div_iff_mult_less_eq Suc_le_eq [symmetric])
    with rows_ok_nth [of H d 0 "levels t" "start div len" k] assms(1) st
    have "levels t ! k ! (start div len) = root_of H (take len (drop start d))" by (simp add: tree_ok_def k)
    with True show ?thesis unfolding subtree.simps [of H t start len] by (simp add: k)
  next
    case False
    let ?k = "split len"
    have l: "1 < len" and k: "0 < ?k" "?k < len" using False split_bounds [of len] by auto
    have "subtree H t start ?k = root_of H (take ?k (drop start d))"
      "subtree H t (start + ?k) (len - ?k) = root_of H (take (len - ?k) (drop (start + ?k) d))"
      using less.IH [of ?k start] less.IH [of "len - ?k" "start + ?k"] k less.prems by auto
    moreover have "root_of H (take len (drop start d))
        = node_hash H (root_of H (take ?k (drop start d))) (root_of H (take (len - ?k) (drop (start + ?k) d)))"
      using root_of_split [of "take len (drop start d)" H] l k less.prems
      by (simp add: min_absorb1 min_absorb2 drop_take add.commute)
    ultimately show ?thesis using False unfolding subtree.simps [of H t start len] Let_def by auto
  qed
qed

interpretation cached: subtree_provider H d "subtree H (from_leaf_hashes H d)" for H d
  by unfold_locales (rule subtree_root [OF from_leaf_hashes_ok])

text \<open>
  C27. The cached tree is an optimisation: over the leaves it was grown from by \<open>push\<close>, its length,
  the head of every prefix, every inclusion proof and every consistency proof, errors included, are
  what the functions that recompute the tree from the leaves return.
\<close>

theorem merkle_tree_agrees:
  "let t = from_leaf_hashes H d in
     tree_len t = length d
   \<and> tree_head_at H t sz =
       (if length d < sz then Inl (BadSizes sz (length d)) else Inr \<lparr> th_size = sz, th_root = root_of H (take sz d) \<rparr>)
   \<and> tree_inclusion_proof H t i sz =
       (if length d < sz then Inl (BadSizes sz (length d)) else inclusion_proof H (take sz d) i)
   \<and> tree_consistency_proof H t old sz =
       (if length d < sz then Inl (BadSizes old sz) else consistency_proof H (take sz d) old)"
proof -
  have "root_of H [] = H []" by (simp add: root_of.simps)
  then show ?thesis
    using tree_ok_len [OF from_leaf_hashes_ok, of H d] subtree_root [OF from_leaf_hashes_ok, of sz 0 d H]
      cached.path_over [of 0 sz d H i "[]"] cached.subproof_over [of 0 sz d old H True "[]"]
    by (auto simp: Let_def tree_head_at_def tree_inclusion_proof_def tree_consistency_proof_def
        inclusion_proof_def consistency_proof_def min_absorb2)
qed

section \<open>All inclusion proofs at once\<close>

lemma all_proofs_go:
  "d \<noteq> [] \<Longrightarrow> all_proofs_go H d = (root_of H d, map (\<lambda>i. path H i d) [0..<length d])"
proof (induction d rule: length_induct)
  case (1 d)
  show ?case
  proof (cases "length d \<le> 1")
    case True
    with 1(2) obtain h where "d = [h]" by (cases d) auto
    then show ?thesis by (simp add: all_proofs_go.simps [of H "[h]"] path.simps [of H _ "[h]"])
  next
    case False
    let ?k = "split (length d)"
    have l: "1 < length d" and k: "0 < ?k" "?k < length d" using False split_bounds [of "length d"] by auto
    have IH: "all_proofs_go H (take ?k d) = (root_of H (take ?k d), map (\<lambda>i. path H i (take ?k d)) [0..<?k])"
      "all_proofs_go H (drop ?k d) = (root_of H (drop ?k d), map (\<lambda>i. path H i (drop ?k d)) [0..<length d - ?k])"
      using 1(1) [rule_format, of "take ?k d"] 1(1) [rule_format, of "drop ?k d"] 1(2) k by simp_all
    have up: "[0..<length d] = [0..<?k] @ map (\<lambda>i. i + ?k) [0..<length d - ?k]"
      using k upt_add_eq_append [of 0 ?k "length d - ?k"] by (simp add: map_add_upt)
    show ?thesis
      unfolding all_proofs_go.simps [of H d] up
      using False IH root_of_split [OF l, of H] by (simp add: Let_def path.simps [of H _ d])
  qed
qed

lemma all_inclusion_proofs_eq: "all_inclusion_proofs H d = map (\<lambda>i. path H i d) [0..<length d]"
  by (simp add: all_inclusion_proofs_def all_proofs_go)

end
