(* ===== verification/Digest.thy ===== *)
theory Digest
  imports Prescribe_Correct
begin

text \<open>
  The canonical digests of \<open>src/src/digest.rs\<close>: the byte layouts of policies, requests and
  decisions, hashed by the parameter \<open>H\<close>, and the hexadecimal spelling of a digest.

  The layouts are injective on what they contain (the policy layout up to the order of the
  catalog), so equal digests mean equal content or a collision.
\<close>

section \<open>Layouts\<close>

definition POLICY_DIGEST_TAG :: bytes where
  "POLICY_DIGEST_TAG = ascii ''calypol1'' @ [0]"

definition INPUT_DIGEST_TAG :: bytes where
  "INPUT_DIGEST_TAG = ascii ''calyinp1'' @ [0]"

definition DECISION_DIGEST_TAG :: bytes where
  "DECISION_DIGEST_TAG = ascii ''calydcn1'' @ [0]"

definition LEDGER_DIGEST_TAG :: bytes where
  "LEDGER_DIGEST_TAG = ascii ''calyldg1'' @ [0]"

text \<open>A string is the list of its bytes; \<open>{b:02x}\<close> writes two lower-case digits.\<close>

definition hex_digit :: "nat \<Rightarrow> char" where
  "hex_digit n = char_of (if n < 10 then 48 + n else 87 + n)"

definition bytes_to_hex :: "bytes \<Rightarrow> string" where
  "bytes_to_hex bs = concat (map (\<lambda>b. [hex_digit (unat b div 16), hex_digit (unat b mod 16)]) bs)"

definition digest_to_hex :: "hash \<Rightarrow> string" where
  "digest_to_hex h = bytes_to_hex (hash_bytes h)"

definition update_model :: "kernel_model \<Rightarrow> bytes" where
  "update_model m =
     le_bytes 4 (model_id m) @ le_bytes 2 (provider_id m) @ le_bytes 2 (quality_bps m)
     @ le_bytes 2 (risk_ceiling_bps m) @ le_bytes 1 (enabled m) @ le_bytes 4 (p95_latency_ms m)
     @ le_bytes 8 (capabilities m) @ le_bytes 8 (region_mask m)
     @ le_bytes 8 (input_cost_microunits_per_million_tokens m)
     @ le_bytes 8 (output_cost_microunits_per_million_tokens m)"

definition policy_bytes :: "policy_snapshot \<Rightarrow> bytes" where
  "policy_bytes p =
     POLICY_DIGEST_TAG @ le_bytes 8 (ps_policy_epoch p) @ le_bytes 8 (ps_catalog_epoch p)
     @ le_bytes 2 (ps_hard_risk_limit_bps p) @ le_bytes 2 (ps_minimum_confidence_bps p)
     @ le_bytes 2 (ps_risk_penalty_multiplier_bps p) @ le_bytes 8 (ps_latency_penalty_microunits_per_ms p)
     @ concat (map update_model (sort_key model_id (ps_models p)))"

definition policy_digest :: "hasher \<Rightarrow> policy_snapshot \<Rightarrow> hash" where
  "policy_digest H p = H (policy_bytes p)"

definition input_bytes :: "kernel_input \<Rightarrow> bytes" where
  "input_bytes i =
     INPUT_DIGEST_TAG @ le_bytes 8 (request_sequence i) @ le_bytes 4 (requested_model_id i)
     @ le_bytes 4 (input_tokens i) @ le_bytes 4 (output_tokens i)
     @ le_bytes 8 (business_value_microunits i) @ le_bytes 8 (budget_limit_microunits i)
     @ le_bytes 2 (risk_bps i) @ le_bytes 2 (confidence_bps i) @ le_bytes 2 (minimum_quality_bps i)
     @ le_bytes 4 (max_p95_latency_ms i) @ le_bytes 8 (required_capabilities i)
     @ le_bytes 8 (allowed_provider_mask i) @ le_bytes 8 (required_region_mask i)"

definition input_digest :: "hasher \<Rightarrow> kernel_input \<Rightarrow> hash" where
  "input_digest H i = H (input_bytes i)"

definition decision_bytes :: "kernel_decision \<Rightarrow> bytes" where
  "decision_bytes d =
     DECISION_DIGEST_TAG @ le_bytes 8 (d_request_sequence d) @ [action_code (d_action d)]
     @ le_bytes 2 (reason_code (d_reason d)) @ le_bytes 4 (d_selected_model_id d)
     @ le_bytes 2 (d_selected_model_index d) @ le_bytes 8 (d_estimated_cost_microunits d)
     @ le_bytes 8 (d_expected_utility_microunits d) @ le_bytes 4 (d_counterfactual_model_id d)
     @ le_bytes 8 (d_counterfactual_utility_microunits d) @ le_bytes 2 (d_evaluated_models d)
     @ le_bytes 2 (d_eligible_models d) @ le_bytes 8 (d_policy_epoch d) @ le_bytes 8 (d_catalog_epoch d)"

definition decision_digest :: "hasher \<Rightarrow> kernel_decision \<Rightarrow> hash" where
  "decision_digest H d = H (decision_bytes d)"

section \<open>The layouts are injective\<close>

lemma length_update_model [simp]: "length (update_model m) = 47"
  by (simp add: update_model_def)

lemma update_model_inject [simp]: "update_model m = update_model n \<longleftrightarrow> m = n"
  by (auto simp: update_model_def le_bytes_inject intro: kernel_model.equality simp del: le_bytes.simps)

lemma concat_fixed_width:
  assumes "\<And>x. length (f x) = Suc w" "concat (map f xs) = concat (map f ys)" "inj f"
  shows "xs = ys"
  using assms(2)
proof (induction xs arbitrary: ys)
  case Nil
  then show ?case using assms(1) by (cases ys) (auto, metis list.size(3) nat.distinct(1))
next
  case (Cons x xs)
  then obtain y ys' where "ys = y # ys'" using assms(1) [of x] by (cases ys) auto
  with Cons assms(1,3) show ?case by (auto dest: injD)
qed

lemma input_bytes_inject [simp]: "input_bytes i = input_bytes j \<longleftrightarrow> i = j"
  by (auto simp: input_bytes_def le_bytes_inject intro: kernel_input.equality simp del: le_bytes.simps)

lemma action_code_inject [simp]: "action_code a = action_code b \<longleftrightarrow> a = b"
  by (cases a; cases b) simp_all

lemma reason_code_inject [simp]: "reason_code a = reason_code b \<longleftrightarrow> a = b"
  by (cases a; cases b) simp_all

lemma decision_bytes_inject [simp]: "decision_bytes d = decision_bytes e \<longleftrightarrow> d = e"
  by (auto simp: decision_bytes_def le_bytes_inject intro: kernel_decision.equality simp del: le_bytes.simps)

lemma policy_bytes_eq:
  "policy_bytes p = policy_bytes q \<longleftrightarrow>
     same_limits p q \<and> sort_key model_id (ps_models p) = sort_key model_id (ps_models q)"
proof -
  have "concat (map update_model xs) = concat (map update_model ys) \<longleftrightarrow> xs = ys" for xs ys
    using concat_fixed_width [of update_model 46 xs ys] by (auto simp: inj_def)
  then show ?thesis
    by (auto simp: policy_bytes_def same_limits_def le_bytes_inject simp del: le_bytes.simps)
qed

lemma sort_key_mset: "sort_key f xs = sort_key f ys \<Longrightarrow> mset xs = mset ys"
  by (metis mset_sort)

text \<open>
  C28. Digests identify decisions: two requests whose policy digests agree and whose input digests
  agree get the same decision (up to the index of the selected model, which depends on the order
  of the catalog), unless two of the hashed layouts collide.
\<close>

theorem equal_digests_same_decision:
  assumes "policy_wf p" and "policy_wf q" and "distinct (map model_id (ps_models p))"
    and "policy_digest H p = policy_digest H q" and "input_digest H i = input_digest H j"
  shows "(prescribe p i)\<lparr> d_selected_model_index := 0 \<rparr> = (prescribe q j)\<lparr> d_selected_model_index := 0 \<rparr>
    \<or> collision H [policy_bytes p, input_bytes i] [policy_bytes q, input_bytes j]"
proof (cases "policy_bytes p = policy_bytes q \<and> i = j")
  case True
  then have "same_limits p q" "mset (ps_models p) = mset (ps_models q)"
    by (auto simp: policy_bytes_eq dest: sort_key_mset)
  with prescribe_permute [OF assms(1,2) _ _ assms(3)] True show ?thesis by blast
next
  case False
  then show ?thesis using assms(4,5)
    by (auto simp: policy_digest_def input_digest_def intro: collisionI)
qed

lemma sort_key_distinct:
  assumes "mset xs = mset ys" "distinct (map f xs)"
  shows "sort_key f xs = sort_key f ys"
  using assms by (intro sort_key_inj_key_eq) (auto simp: distinct_map)

text \<open>
  The digest does not depend on the order of the catalog, for every constructor: a policy of
  \<open>try_new\<close> listed in two orders has one digest.
\<close>

lemma policy_digest_order_independent:
  assumes "same_limits p q" "mset (ps_models p) = mset (ps_models q)" "distinct (map model_id (ps_models p))"
  shows "policy_digest H p = policy_digest H q"
  unfolding policy_digest_def using policy_bytes_eq [of p q] sort_key_distinct [OF assms(2,3)] assms(1) by simp

theorem equal_digests_same_decision_witness:
  "(prescribe (new_unchecked 1 1 9600 5500 3500 2 [example_model, example_model_2]) example_input)
      \<lparr> d_selected_model_index := 0 \<rparr> =
    (prescribe (new_unchecked 1 1 9600 5500 3500 2 (rev [example_model, example_model_2])) example_input)
      \<lparr> d_selected_model_index := 0 \<rparr>
    \<or> collision (\<lambda>bs. of_nat (le_val bs))
        [policy_bytes (new_unchecked 1 1 9600 5500 3500 2 [example_model, example_model_2]), input_bytes example_input]
        [policy_bytes (new_unchecked 1 1 9600 5500 3500 2 (rev [example_model, example_model_2])), input_bytes example_input]"
  by (rule equal_digests_same_decision [OF new_unchecked_wf new_unchecked_wf example_orders(3)
        policy_digest_order_independent [OF example_orders] refl])

end
