(* ===== verification/Verify.thy ===== *)
theory Verify
  imports Digest
begin

text \<open>
  Replay, audit bundles and proof envelopes (\<open>src/src/verify.rs\<close>, \<open>src/src/proof.rs\<close>): a decision
  is verified by deciding again, a bundle binds policy, request and decision by their digests, and
  an envelope adds the positions in the log and in the ledger.

  The lemmas show that the fail-closed constructors return evidence exactly for decisions that
  replay, that the evidence they return passes the validation at the trust boundary, and that the
  hexadecimal digests of a bundle decode to the digests it was built from.
\<close>

section \<open>Bundles\<close>

datatype verify_result =
    Valid
  | Mismatch kernel_decision kernel_decision
  | DigestMismatch string string

datatype digest_decode_error =
    InvalidHexCharacter u8 nat
  | OddLength
  | InvalidStringLength

definition AUDIT_SCHEMA_VERSION :: string where
  "AUDIT_SCHEMA_VERSION = ''calybris.audit.v1''"

definition AUDIT_DIGEST_ALGORITHM :: string where
  "AUDIT_DIGEST_ALGORITHM = ''sha256''"

definition AUDIT_PROOF_VERSION :: u16 where
  "AUDIT_PROOF_VERSION = 1"

definition AUDIT_CREATED_BY :: string where
  "AUDIT_CREATED_BY = ''calybris''"

datatype audit_bundle_validation_error =
    SchemaVersion string
  | DigestAlgorithm string
  | ProofVersion u16
  | CreatedBy string
  | ReplayInvalid
  | NonCanonicalDigest string

record audit_bundle =
  schema_version :: string
  digest_algorithm :: string
  proof_version :: u16
  ab_policy_epoch :: u64
  ab_catalog_epoch :: u64
  created_by :: string
  policy_digest_hex :: string
  input_digest_hex :: string
  decision_digest_hex :: string
  replay_valid :: bool

fun from_hex_digit :: "u8 \<Rightarrow> nat \<Rightarrow> digest_decode_error + u8" where
  "from_hex_digit byte index =
     (if 48 \<le> byte \<and> byte \<le> 57 then Inr (byte - 48)
      else if 97 \<le> byte \<and> byte \<le> 102 then Inr (byte - 97 + 10)
      else Inl (InvalidHexCharacter byte index))"

text \<open>The loop of \<open>decode_hex32\<close> from index \<open>i\<close> on.\<close>

fun decode_hex_pairs :: "nat \<Rightarrow> bytes \<Rightarrow> digest_decode_error + bytes" where
  "decode_hex_pairs i (a # b # rest) =
     and_then (from_hex_digit a i) (\<lambda>hi. and_then (from_hex_digit b (i + 1)) (\<lambda>lo.
       and_then (decode_hex_pairs (i + 2) rest) (\<lambda>out. Inr ((push_bit 4 hi OR lo) # out))))"
| "decode_hex_pairs i _ = Inr []"

definition decode_hex32 :: "string \<Rightarrow> digest_decode_error + bytes" where
  "decode_hex32 hex =
     (if length hex mod 2 \<noteq> 0 then Inl OddLength
      else and_then (decode_hex_pairs 0 (ascii hex)) (\<lambda>out.
        if length out \<noteq> 32 then Inl InvalidStringLength else Inr out))"

text \<open>\<open>is_ascii_digit() || (b'a'..=b'f').contains\<close>, and the check of one digest field.\<close>

definition is_lower_hex :: "u8 \<Rightarrow> bool" where
  "is_lower_hex byte \<longleftrightarrow> 48 \<le> byte \<and> byte \<le> 57 \<or> 97 \<le> byte \<and> byte \<le> 102"

definition canonical_digest :: "string \<Rightarrow> bool" where
  "canonical_digest digest \<longleftrightarrow> length digest = 64 \<and> list_all is_lower_hex (ascii digest)"

text \<open>The loop over the named digest fields: the first one that is not canonical.\<close>

fun first_non_canonical :: "(string \<times> string) list \<Rightarrow> string option" where
  "first_non_canonical [] = None"
| "first_non_canonical ((field, digest) # rest) =
     (if canonical_digest digest then first_non_canonical rest else Some field)"

definition validate_canonical :: "audit_bundle \<Rightarrow> audit_bundle_validation_error + unit" where
  "validate_canonical b =
     (if schema_version b \<noteq> AUDIT_SCHEMA_VERSION then Inl (SchemaVersion (schema_version b))
      else if digest_algorithm b \<noteq> AUDIT_DIGEST_ALGORITHM then Inl (DigestAlgorithm (digest_algorithm b))
      else if proof_version b \<noteq> AUDIT_PROOF_VERSION then Inl (ProofVersion (proof_version b))
      else if created_by b \<noteq> AUDIT_CREATED_BY then Inl (CreatedBy (created_by b))
      else if \<not> replay_valid b then Inl ReplayInvalid
      else case first_non_canonical
          [(''policy_digest_hex'', policy_digest_hex b), (''input_digest_hex'', input_digest_hex b),
           (''decision_digest_hex'', decision_digest_hex b)] of
          Some field \<Rightarrow> Inl (NonCanonicalDigest field)
        | None \<Rightarrow> Inr ())"

definition audit_bundle_of :: "hasher \<Rightarrow> policy_snapshot \<Rightarrow> kernel_input \<Rightarrow> kernel_decision \<Rightarrow> audit_bundle" where
  "audit_bundle_of H p i d =
     \<lparr> schema_version = AUDIT_SCHEMA_VERSION, digest_algorithm = AUDIT_DIGEST_ALGORITHM,
       proof_version = AUDIT_PROOF_VERSION, ab_policy_epoch = ps_policy_epoch p,
       ab_catalog_epoch = ps_catalog_epoch p, created_by = AUDIT_CREATED_BY,
       policy_digest_hex = digest_to_hex (policy_digest H p),
       input_digest_hex = digest_to_hex (input_digest H i),
       decision_digest_hex = digest_to_hex (decision_digest H d),
       replay_valid = (prescribe p i = d) \<rparr>"

definition verify_decision :: "hasher \<Rightarrow> policy_snapshot \<Rightarrow> kernel_input \<Rightarrow> kernel_decision \<Rightarrow> verify_result" where
  "verify_decision H p i d =
     (let replayed = prescribe p i in
      if replayed \<noteq> d then Mismatch replayed d
      else let expected_d = decision_digest H replayed; actual_d = decision_digest H d in
        if expected_d \<noteq> actual_d then DigestMismatch (digest_to_hex expected_d) (digest_to_hex actual_d)
        else Valid)"

definition verified_audit_bundle ::
  "hasher \<Rightarrow> policy_snapshot \<Rightarrow> kernel_input \<Rightarrow> kernel_decision \<Rightarrow> verify_result + audit_bundle" where
  "verified_audit_bundle H p i d =
     (case verify_decision H p i d of
        Valid \<Rightarrow> Inr (audit_bundle_of H p i d)
      | error \<Rightarrow> Inl error)"

definition verify_decision_digest :: "hasher \<Rightarrow> kernel_decision \<Rightarrow> string \<Rightarrow> verify_result" where
  "verify_decision_digest H d claimed =
     (let expected_hex = digest_to_hex (decision_digest H d)
      in if claimed = expected_hex then Valid else DigestMismatch expected_hex claimed)"

definition snapshot_fingerprint :: "hasher \<Rightarrow> policy_snapshot \<Rightarrow> string" where
  "snapshot_fingerprint H p = digest_to_hex (policy_digest H p)"

record correctness_certificate =
  policy_fingerprint :: string
  input_fingerprint :: string
  decision_fingerprint :: string
  decision_sequence :: u64
  cc_selected_model_id :: u32
  cc_action :: string
  cc_reason :: string
  cc_replay_valid :: bool
  cc_evaluated_models :: u16
  cc_eligible_models :: u16
  cc_counterfactual_model_id :: u32
  cc_counterfactual_utility_microunits :: i64

definition certify_decision ::
  "hasher \<Rightarrow> policy_snapshot \<Rightarrow> kernel_input \<Rightarrow> kernel_decision \<Rightarrow> correctness_certificate" where
  "certify_decision H p i d =
     (let bundle = audit_bundle_of H p i d in
      \<lparr> policy_fingerprint = policy_digest_hex bundle, input_fingerprint = input_digest_hex bundle,
        decision_fingerprint = decision_digest_hex bundle, decision_sequence = d_request_sequence d,
        cc_selected_model_id = d_selected_model_id d, cc_action = action_display (d_action d),
        cc_reason = reason_display (d_reason d), cc_replay_valid = replay_valid bundle,
        cc_evaluated_models = d_evaluated_models d, cc_eligible_models = d_eligible_models d,
        cc_counterfactual_model_id = d_counterfactual_model_id d,
        cc_counterfactual_utility_microunits = d_counterfactual_utility_microunits d \<rparr>)"

definition counterfactual_utility :: "policy_snapshot \<Rightarrow> kernel_input \<Rightarrow> u32 \<Rightarrow> i64 option" where
  "counterfactual_utility p i alt_model_id = utility_for_model p i alt_model_id"

section \<open>Envelopes\<close>

definition PROOF_ENVELOPE_VERSION :: u16 where
  "PROOF_ENVELOPE_VERSION = 1"

datatype proof_envelope_validation_error =
    EnvelopeVersion u16
  | EnvelopeReplayInvalid
  | MissingAttachments
  | InvalidWalSequence
  | EnvelopeNonCanonicalDigest string

record proof_envelope =
  pe_proof_version :: u16
  pe_policy_digest_hex :: string
  pe_input_digest_hex :: string
  pe_decision_digest_hex :: string
  pe_replay_valid :: bool
  wal_sequence :: "u64 option"
  wal_entry_hash :: "string option"
  budget_snapshot_version :: "u64 option"
  ledger_digest_hex :: "string option"
  pe_action :: string
  pe_reason :: string
  pe_selected_model_id :: u32
  pe_counterfactual_model_id :: u32
  pe_estimated_cost_microunits :: u64
  pe_expected_utility_microunits :: i64

definition seal :: "hasher \<Rightarrow> policy_snapshot \<Rightarrow> kernel_input \<Rightarrow> kernel_decision \<Rightarrow> proof_envelope" where
  "seal H p i d =
     \<lparr> pe_proof_version = PROOF_ENVELOPE_VERSION,
       pe_policy_digest_hex = digest_to_hex (policy_digest H p),
       pe_input_digest_hex = digest_to_hex (input_digest H i),
       pe_decision_digest_hex = digest_to_hex (decision_digest H d),
       pe_replay_valid = (verify_decision H p i d = Valid),
       wal_sequence = None, wal_entry_hash = None, budget_snapshot_version = None, ledger_digest_hex = None,
       pe_action = action_display (d_action d), pe_reason = reason_display (d_reason d),
       pe_selected_model_id = d_selected_model_id d,
       pe_counterfactual_model_id = d_counterfactual_model_id d,
       pe_estimated_cost_microunits = d_estimated_cost_microunits d,
       pe_expected_utility_microunits = d_expected_utility_microunits d \<rparr>"

text \<open>The builder is the envelope under construction: \<open>new\<close> is \<open>seal\<close> and \<open>build\<close> returns it.\<close>

definition attach_wal :: "u64 \<Rightarrow> string \<Rightarrow> proof_envelope \<Rightarrow> proof_envelope" where
  "attach_wal seq entry_hash e = e\<lparr> wal_sequence := Some seq, wal_entry_hash := Some entry_hash \<rparr>"

definition attach_budget :: "u64 \<Rightarrow> string \<Rightarrow> proof_envelope \<Rightarrow> proof_envelope" where
  "attach_budget snapshot_version ledger e =
     e\<lparr> budget_snapshot_version := Some snapshot_version, ledger_digest_hex := Some ledger \<rparr>"

definition has_all_attachments :: "proof_envelope \<Rightarrow> bool" where
  "has_all_attachments e \<longleftrightarrow>
     pe_replay_valid e \<and> wal_sequence e \<noteq> None \<and> wal_entry_hash e \<noteq> None
     \<and> budget_snapshot_version e \<noteq> None \<and> ledger_digest_hex e \<noteq> None"

definition is_complete :: "proof_envelope \<Rightarrow> bool" where
  "is_complete e = has_all_attachments e"

definition validate_complete :: "proof_envelope \<Rightarrow> proof_envelope_validation_error + unit" where
  "validate_complete e =
     (if pe_proof_version e \<noteq> PROOF_ENVELOPE_VERSION then Inl (EnvelopeVersion (pe_proof_version e))
      else if \<not> pe_replay_valid e then Inl EnvelopeReplayInvalid
      else if \<not> has_all_attachments e then Inl MissingAttachments
      else if wal_sequence e = Some 0 then Inl InvalidWalSequence
      else case first_non_canonical
          [(''policy_digest_hex'', pe_policy_digest_hex e), (''input_digest_hex'', pe_input_digest_hex e),
           (''decision_digest_hex'', pe_decision_digest_hex e),
           (''wal_entry_hash'', the (wal_entry_hash e)), (''ledger_digest_hex'', the (ledger_digest_hex e))] of
          Some field \<Rightarrow> Inl (EnvelopeNonCanonicalDigest field)
        | None \<Rightarrow> Inr ())"

section \<open>Hexadecimal digests\<close>

lemma ascii_append [simp]: "ascii (xs @ ys) = ascii xs @ ascii ys"
  by (simp add: ascii_def)

lemma ascii_Cons [simp]: "ascii (c # cs) = of_nat (of_char c) # ascii cs"
  by (simp add: ascii_def)

lemma ascii_Nil [simp]: "ascii [] = []"
  by (simp add: ascii_def)

lemma bytes_to_hex_Cons:
  "bytes_to_hex (b # bs) = hex_digit (unat b div 16) # hex_digit (unat b mod 16) # bytes_to_hex bs"
  by (simp add: bytes_to_hex_def)

lemma length_bytes_to_hex [simp]: "length (bytes_to_hex bs) = 2 * length bs"
  by (induction bs) (simp_all add: bytes_to_hex_Cons, simp add: bytes_to_hex_def)

lemma hex_digit_byte: "n < 16 \<Longrightarrow> of_nat (of_char (hex_digit n)) = (if n < 10 then 48 + of_nat n else 87 + of_nat n :: u8)"
  by (simp add: hex_digit_def)

lemma nibble_cases:
  assumes "n < (16 :: nat)"
  shows "n \<in> {0, 1, 2, 3, 4, 5, 6, 7, 8, 9, 10, 11, 12, 13, 14, 15}"
  using assms by (simp add: numeral_eq_Suc less_Suc_eq)

lemma from_hex_digit_of_digit:
  "n < 16 \<Longrightarrow> from_hex_digit (of_nat (of_char (hex_digit n))) i = Inr (of_nat n)"
  by (drule nibble_cases) (auto simp: hex_digit_byte)

lemma is_lower_hex_digit: "n < 16 \<Longrightarrow> is_lower_hex (of_nat (of_char (hex_digit n)))"
  by (drule nibble_cases) (auto simp: hex_digit_byte is_lower_hex_def)

lemma byte_of_nibbles: "push_bit 4 (of_nat (unat b div 16)) OR of_nat (unat b mod 16) = b" for b :: u8
proof -
  have "of_nat (unat b div 16) = drop_bit 4 b" "of_nat (unat b mod 16) = take_bit 4 b"
    using unat_lt2p [of b]
    by (simp_all add: unat_eq_iff [symmetric] unsigned_drop_bit_eq unsigned_take_bit_eq drop_bit_eq_div
        take_bit_eq_mod unat_of_nat unat_div unat_mod)
  moreover have "push_bit 4 (drop_bit 4 b) OR take_bit 4 b = b"
    by (rule bit_word_eqI) (auto simp: bit_or_iff bit_push_bit_iff bit_drop_bit_eq bit_take_bit_iff)
  ultimately show ?thesis by simp
qed

lemma nibble_bounds [simp]: "unat b div 16 < 16" "unat b mod 16 < (16::nat)" for b :: u8
  using unat_lt2p [of b] by (simp_all add: less_mult_imp_div_less)

lemma decode_hex_pairs_hex [simp]: "decode_hex_pairs i (ascii (bytes_to_hex bs)) = Inr bs"
proof (induction bs arbitrary: i)
  case Nil
  then show ?case by (simp add: bytes_to_hex_def)
next
  case (Cons b bs)
  then show ?case
    by (simp add: bytes_to_hex_Cons from_hex_digit_of_digit byte_of_nibbles del: from_hex_digit.simps)
qed

lemma decode_hex32_digest [simp]: "decode_hex32 (digest_to_hex h) = Inr (hash_bytes h)"
  by (simp add: decode_hex32_def digest_to_hex_def)

lemma digest_to_hex_inject [simp]: "digest_to_hex g = digest_to_hex h \<longleftrightarrow> g = h"
  by (metis decode_hex32_digest hash_bytes_inject sum.inject(2))

lemma canonical_digest_to_hex [simp]: "canonical_digest (digest_to_hex h)"
proof -
  have "list_all is_lower_hex (ascii (bytes_to_hex bs))" for bs
    by (induction bs) (simp_all add: bytes_to_hex_Cons is_lower_hex_digit, simp add: bytes_to_hex_def)
  then show ?thesis by (simp add: canonical_digest_def digest_to_hex_def)
qed

section \<open>Evidence is issued for decisions that replay\<close>

lemma verify_decision_Valid: "verify_decision H p i d = Valid \<longleftrightarrow> prescribe p i = d"
  by (auto simp: verify_decision_def Let_def)

text \<open>
  Audit bundles are fail-closed: the verified constructor refuses exactly the decisions that the
  policy does not reproduce, returning the replayed decision beside the claimed one; the bundle of
  any other decision passes the validation at the trust boundary, and its three hexadecimal fields
  decode to the digests of the policy, the request and the decision.
\<close>

lemma verified_bundle_canonical:
  "case verified_audit_bundle H p i d of
     Inl e \<Rightarrow> prescribe p i \<noteq> d \<and> e = Mismatch (prescribe p i) d
   | Inr b \<Rightarrow> prescribe p i = d \<and> validate_canonical b = Inr ()
       \<and> decode_hex32 (policy_digest_hex b) = Inr (hash_bytes (policy_digest H p))
       \<and> decode_hex32 (input_digest_hex b) = Inr (hash_bytes (input_digest H i))
       \<and> decode_hex32 (decision_digest_hex b) = Inr (hash_bytes (decision_digest H d))"
  by (auto simp: verified_audit_bundle_def verify_decision_def audit_bundle_of_def validate_canonical_def Let_def)

lemma envelope_complete_iff:
  "validate_complete (attach_budget v ledger (attach_wal sq h (seal H p i d))) = Inr () \<longleftrightarrow>
     prescribe p i = d \<and> sq \<noteq> 0 \<and> canonical_digest h \<and> canonical_digest ledger"
  by (auto simp: validate_complete_def attach_budget_def attach_wal_def seal_def has_all_attachments_def
      verify_decision_Valid)

lemma certificate_replay:
  "cc_replay_valid (certify_decision H p i d) \<longleftrightarrow> verify_decision H p i d = Valid"
  by (simp add: certify_decision_def audit_bundle_of_def verify_decision_Valid Let_def)

lemma verify_decision_digest_Valid:
  assumes "verify_decision_digest H d (digest_to_hex (decision_digest H e)) = Valid"
  shows "d = e \<or> collision H [decision_bytes d] [decision_bytes e]"
  using assms
  by (auto simp: verify_decision_digest_def Let_def decision_digest_def collision_def split: if_splits)

end
