(* ===== verification/State_Chain.thy ===== *)
theory State_Chain
  imports Verify
begin

text \<open>
  Decision trajectories (\<open>src/src/state.rs\<close>): a chain of state digests that a caller advances with
  every decision, the bundles that carry one link each, and the verifiers of their linkage.

  The lemmas characterise what the verifiers accept exactly, show that what a chain records is
  accepted, and that the digests fix the sequence of states up to a collision.
\<close>

section \<open>The chain\<close>

definition STATE_DIGEST_TAG :: bytes where
  "STATE_DIGEST_TAG = ascii ''calystt1'' @ [0]"

definition state_bytes :: "u64 \<Rightarrow> bytes \<Rightarrow> bytes" where
  "state_bytes stp st = STATE_DIGEST_TAG @ le_bytes 8 stp @ st"

definition state_digest :: "hasher \<Rightarrow> u64 \<Rightarrow> bytes \<Rightarrow> hash" where
  "state_digest H stp st = H (state_bytes stp st)"

record state_transition =
  st_step :: u64
  digest_before :: hash
  digest_after :: hash

record state_chain =
  sc_step :: u64
  last_digest :: hash

datatype state_advance_error = StepOverflow

definition genesis :: "hasher \<Rightarrow> bytes \<Rightarrow> state_chain" where
  "genesis H initial = \<lparr> sc_step = 0, last_digest = state_digest H 0 initial \<rparr>"

definition try_advance ::
  "hasher \<Rightarrow> bytes \<Rightarrow> state_chain \<Rightarrow> (state_advance_error + state_transition) \<times> state_chain" where
  "try_advance H next_state c =
     (case checked_add (sc_step c) 1 of
        None \<Rightarrow> (Inl StepOverflow, c)
      | Some stp \<Rightarrow>
          let after = state_digest H stp next_state
          in (Inr \<lparr> st_step = stp, digest_before = last_digest c, digest_after = after \<rparr>,
              \<lparr> sc_step = stp, last_digest = after \<rparr>))"

text \<open>\<open>advance\<close> panics, here \<open>None\<close>, where \<open>try_advance\<close> returns the error.\<close>

definition advance :: "hasher \<Rightarrow> bytes \<Rightarrow> state_chain \<Rightarrow> (state_transition \<times> state_chain) option" where
  "advance H next_state c =
     (case try_advance H next_state c of (Inl _, _) \<Rightarrow> None | (Inr t, c') \<Rightarrow> Some (t, c'))"

section \<open>Bundles\<close>

record stateful_audit_bundle =
  sb_audit :: audit_bundle
  sb_step :: u64
  state_digest_before_hex :: string
  state_digest_after_hex :: string

definition stateful_audit_bundle_of ::
  "hasher \<Rightarrow> policy_snapshot \<Rightarrow> kernel_input \<Rightarrow> kernel_decision \<Rightarrow> state_transition
    \<Rightarrow> verify_result + stateful_audit_bundle" where
  "stateful_audit_bundle_of H p i d t =
     and_then (verified_audit_bundle H p i d) (\<lambda>audit.
       Inr \<lparr> sb_audit = audit, sb_step = st_step t,
             state_digest_before_hex = digest_to_hex (digest_before t),
             state_digest_after_hex = digest_to_hex (digest_after t) \<rparr>)"

datatype trajectory_error =
    NonMonotonicStep u64 u64
  | BrokenChain u64
  | TrajectoryReplayInvalid u64

text \<open>The loop of \<open>verify_trajectory_linkage\<close>, after the bundle \<open>previous\<close>.\<close>

fun linkage_loop :: "stateful_audit_bundle option \<Rightarrow> stateful_audit_bundle list \<Rightarrow> trajectory_error + unit" where
  "linkage_loop previous [] = Inr ()"
| "linkage_loop previous (b # bs) =
     (if \<not> replay_valid (sb_audit b) then Inl (TrajectoryReplayInvalid (sb_step b))
      else case previous of
          None \<Rightarrow> linkage_loop (Some b) bs
        | Some prev \<Rightarrow>
            (case checked_add (sb_step prev) 1 of
               None \<Rightarrow> Inl (NonMonotonicStep (- 1) (sb_step b))
             | Some expected \<Rightarrow>
                 if sb_step b \<noteq> expected then Inl (NonMonotonicStep expected (sb_step b))
                 else if state_digest_before_hex b \<noteq> state_digest_after_hex prev then Inl (BrokenChain (sb_step b))
                 else linkage_loop (Some b) bs))"

definition verify_trajectory_linkage :: "stateful_audit_bundle list \<Rightarrow> trajectory_error + unit" where
  "verify_trajectory_linkage bundles = linkage_loop None bundles"

definition verify_trajectory :: "stateful_audit_bundle list \<Rightarrow> trajectory_error + unit" where
  "verify_trajectory bundles = verify_trajectory_linkage bundles"

definition verify_trajectory_fragment_linkage ::
  "u64 \<Rightarrow> string \<Rightarrow> stateful_audit_bundle list \<Rightarrow> trajectory_error + unit" where
  "verify_trajectory_fragment_linkage anchor_step anchor_digest_hex bundles =
     (case bundles of
        [] \<Rightarrow> Inl (NonMonotonicStep (saturating_add anchor_step 1) anchor_step)
      | first # _ \<Rightarrow>
          (case checked_add anchor_step 1 of
             None \<Rightarrow> Inl (NonMonotonicStep (- 1) (sb_step first))
           | Some expected_first \<Rightarrow>
               if sb_step first \<noteq> expected_first then Inl (NonMonotonicStep expected_first (sb_step first))
               else if state_digest_before_hex first \<noteq> anchor_digest_hex then Inl (BrokenChain (sb_step first))
               else verify_trajectory_linkage bundles))"

definition verify_trajectory_fragment ::
  "u64 \<Rightarrow> string \<Rightarrow> stateful_audit_bundle list \<Rightarrow> trajectory_error + unit" where
  "verify_trajectory_fragment anchor_step anchor_digest_hex bundles =
     verify_trajectory_fragment_linkage anchor_step anchor_digest_hex bundles"

definition verify_complete_trajectory_linkage ::
  "hasher \<Rightarrow> bytes \<Rightarrow> u64 \<Rightarrow> stateful_audit_bundle list \<Rightarrow> trajectory_error + unit" where
  "verify_complete_trajectory_linkage H initial expected_final_step bundles =
     and_then (verify_trajectory_fragment_linkage 0 (digest_to_hex (state_digest H 0 initial)) bundles) (\<lambda>_.
       if bundles = [] then Inl (NonMonotonicStep 1 0)
       else if sb_step (last bundles) \<noteq> expected_final_step
         then Inl (NonMonotonicStep expected_final_step (sb_step (last bundles)))
       else Inr ())"

definition verify_complete_trajectory ::
  "hasher \<Rightarrow> bytes \<Rightarrow> u64 \<Rightarrow> stateful_audit_bundle list \<Rightarrow> trajectory_error + unit" where
  "verify_complete_trajectory H initial expected_final_step bundles =
     verify_complete_trajectory_linkage H initial expected_final_step bundles"

section \<open>What the verifiers accept\<close>

text \<open>
  The links of an accepted trajectory that starts after step \<open>n\<close> with digest \<open>anchor\<close>: consecutive
  steps, each state digest picked up where the previous bundle left it, every replay flag set.
\<close>

definition linked :: "nat \<Rightarrow> string \<Rightarrow> stateful_audit_bundle list \<Rightarrow> bool" where
  "linked n anchor bs \<longleftrightarrow>
     list_all (\<lambda>b. replay_valid (sb_audit b)) bs
     \<and> map (unat \<circ> sb_step) bs = [Suc n..<Suc n + length bs]
     \<and> map state_digest_before_hex bs = butlast (anchor # map state_digest_after_hex bs)"

lemma linked_Nil [simp]: "linked n anchor []"
  by (simp add: linked_def)

lemma linked_Cons [simp]:
  "linked n anchor (b # bs) \<longleftrightarrow>
     replay_valid (sb_audit b) \<and> unat (sb_step b) = Suc n \<and> state_digest_before_hex b = anchor
     \<and> linked (Suc n) (state_digest_after_hex b) bs"
  by (auto simp: linked_def upt_conv_Cons simp del: upt_Suc)

lemma step_succ: "checked_add s 1 = Some t \<longleftrightarrow> unat t = Suc (unat s)" for s t :: u64
proof
  assume "unat t = Suc (unat s)"
  then have "unat s + 1 < 2 ^ 64" "t = s + 1"
    using unat_lt2p [of t] by (simp_all add: unat_eq_iff [symmetric] unat_add_1)
  then show "checked_add s 1 = Some t" by simp
qed (auto simp: unat_add_1)

lemma linkage_loop_Some:
  "linkage_loop (Some prev) bs = Inr () \<longleftrightarrow> linked (unat (sb_step prev)) (state_digest_after_hex prev) bs"
proof (induction bs arbitrary: prev)
  case (Cons b bs)
  show ?case
  proof (cases "checked_add (sb_step prev) 1 = Some (sb_step b)")
    case True
    then show ?thesis using Cons.IH [of b] step_succ [of "sb_step prev" "sb_step b"] by (simp del: checked_add_Some)
  next
    case False
    then have "unat (sb_step b) \<noteq> Suc (unat (sb_step prev))" by (simp only: step_succ not_False_eq_True)
    with False show ?thesis by (cases "checked_add (sb_step prev) 1") (simp_all del: checked_add_Some checked_add_None)
  qed
qed simp

lemma fragment_Inr:
  "verify_trajectory_fragment_linkage n anchor bs = Inr () \<longleftrightarrow> bs \<noteq> [] \<and> linked (unat n) anchor bs"
proof (cases bs)
  case (Cons b bs')
  show ?thesis
  proof (cases "checked_add n 1 = Some (sb_step b)")
    case True
    then show ?thesis using step_succ [of n "sb_step b"] linkage_loop_Some [of b bs'] Cons
      by (simp add: verify_trajectory_fragment_linkage_def verify_trajectory_linkage_def del: checked_add_Some)
  next
    case False
    then have "unat (sb_step b) \<noteq> Suc (unat n)" by (simp only: step_succ not_False_eq_True)
    with False Cons show ?thesis
      by (cases "checked_add n 1")
        (simp_all add: verify_trajectory_fragment_linkage_def del: checked_add_Some checked_add_None)
  qed
qed (simp add: verify_trajectory_fragment_linkage_def)

lemma linked_last:
  "linked n anchor bs \<Longrightarrow> bs \<noteq> [] \<Longrightarrow> unat (sb_step (last bs)) = n + length bs"
  by (induction bs arbitrary: n anchor) (auto split: if_splits)

text \<open>
  C30. A complete trajectory is accepted exactly when it is complete: it is not empty, it has one
  bundle for every step from 1 to the expected final step, the first state digest is the digest of
  the trusted initial state, every later one is the digest the previous bundle ended with, and no
  bundle carries a failed replay. Truncated, reordered, repeated and spliced trajectories are refused.
\<close>

theorem complete_trajectory_iff:
  "verify_complete_trajectory H initial final bs = Inr () \<longleftrightarrow>
     bs \<noteq> [] \<and> unat final = length bs
     \<and> map (unat \<circ> sb_step) bs = [1..<Suc (length bs)]
     \<and> map state_digest_before_hex bs
         = digest_to_hex (state_digest H 0 initial) # map state_digest_after_hex (butlast bs)
     \<and> list_all (\<lambda>b. replay_valid (sb_audit b)) bs"
proof (cases "bs = []")
  case False
  let ?g = "digest_to_hex (state_digest H 0 initial)"
  have "verify_complete_trajectory H initial final bs = Inr () \<longleftrightarrow> linked 0 ?g bs \<and> sb_step (last bs) = final"
    using False fragment_Inr [of 0 ?g bs]
    by (auto simp: verify_complete_trajectory_def verify_complete_trajectory_linkage_def)
  also have "\<dots> \<longleftrightarrow> linked 0 ?g bs \<and> unat final = length bs"
    using linked_last [of 0 ?g bs] False by (auto simp: unat_eq_iff [symmetric])
  finally show ?thesis
    using False by (auto simp: linked_def map_butlast simp del: upt_Suc)
qed (simp add: verify_complete_trajectory_def verify_complete_trajectory_linkage_def fragment_Inr)

section \<open>What a chain records is accepted\<close>

text \<open>
  A recording session: for every request the policy decides, the chain advances to the next state
  and the fail-closed constructor issues the bundle.
\<close>

fun record_trajectory ::
  "hasher \<Rightarrow> state_chain \<Rightarrow> (policy_snapshot \<times> kernel_input \<times> bytes) list \<Rightarrow> stateful_audit_bundle list option" where
  "record_trajectory H c [] = Some []"
| "record_trajectory H c ((p, i, s) # rest) =
     (case try_advance H s c of
        (Inl _, _) \<Rightarrow> None
      | (Inr t, c') \<Rightarrow>
          (case stateful_audit_bundle_of H p i (prescribe p i) t of
             Inl _ \<Rightarrow> None
           | Inr b \<Rightarrow> map_option (Cons b) (record_trajectory H c' rest)))"

lemma verified_bundle_prescribe: "verified_audit_bundle H p i (prescribe p i) = Inr (audit_bundle_of H p i (prescribe p i))"
  by (simp add: verified_audit_bundle_def verify_decision_Valid [THEN iffD2])

lemma record_trajectory_linked:
  "unat (sc_step c) + length steps < 2 ^ 64 \<Longrightarrow>
    \<exists>bs. record_trajectory H c steps = Some bs \<and> length bs = length steps
      \<and> linked (unat (sc_step c)) (digest_to_hex (last_digest c)) bs"
proof (induction steps arbitrary: c)
  case (Cons x rest)
  obtain p i s where x: "x = (p, i, s)" by (cases x) auto
  let ?n = "sc_step c + 1"
  let ?c = "\<lparr> sc_step = ?n, last_digest = state_digest H ?n s \<rparr>"
  have n: "unat ?n = Suc (unat (sc_step c))" using Cons.prems by (simp add: unat_add_1)
  have adv: "try_advance H s c
      = (Inr \<lparr> st_step = ?n, digest_before = last_digest c, digest_after = state_digest H ?n s \<rparr>, ?c)"
    using Cons.prems by (simp add: try_advance_def checked_add_def Let_def)
  have "\<exists>bs. record_trajectory H ?c rest = Some bs \<and> length bs = length rest
      \<and> linked (unat ?n) (digest_to_hex (state_digest H ?n s)) bs"
    using Cons.IH [of ?c] Cons.prems n by simp
  then obtain bs where bs: "record_trajectory H ?c rest = Some bs" "length bs = length rest"
    "linked (Suc (unat (sc_step c))) (digest_to_hex (state_digest H ?n s)) bs"
    unfolding n by blast
  then show ?case
    unfolding x by (simp add: adv n stateful_audit_bundle_of_def verified_bundle_prescribe audit_bundle_of_def)
qed simp

text \<open>
  What is recorded is accepted: a session of at least one and fewer than \<open>2 ^ 64\<close> requests
  records one bundle per request without failing, and the complete verifier accepts the recording
  from the same initial state at its last step.
\<close>

lemma recorded_trajectory_verifies:
  assumes "steps \<noteq> []" and "length steps < 2 ^ 64"
  shows "\<exists>bs. record_trajectory H (genesis H initial) steps = Some bs \<and> length bs = length steps
    \<and> verify_complete_trajectory H initial (of_nat (length steps)) bs = Inr ()"
proof -
  obtain bs where bs: "record_trajectory H (genesis H initial) steps = Some bs" "length bs = length steps"
    "linked 0 (digest_to_hex (state_digest H 0 initial)) bs"
    using record_trajectory_linked [of "genesis H initial" steps H] assms(2) by (auto simp: genesis_def)
  have "unat (of_nat (length steps) :: u64) = length steps" using assms(2) by (simp add: unat_of_nat)
  then have "sb_step (last bs) = of_nat (length steps)"
    using linked_last [OF bs(3)] bs(2) assms(1) by (cases "bs = []") (auto simp: unat_eq_iff [symmetric])
  with bs assms(1) show ?thesis
    by (auto simp: verify_complete_trajectory_def verify_complete_trajectory_linkage_def fragment_Inr)
qed

text \<open>Equal state digests mean the same step and the same state, up to a collision.\<close>

lemma state_digest_binds:
  "state_digest H m s = state_digest H n t \<Longrightarrow> m = n \<and> s = t \<or> collision H [state_bytes m s] [state_bytes n t]"
  by (auto simp: state_digest_def state_bytes_def le_bytes_inject collision_def simp del: le_bytes.simps)

end
