(* ===== verification/Counterfactual.thy ===== *)
theory Counterfactual
  imports Prescribe_Correct
begin

text \<open>
  Counterfactual explanations (\<open>src/src/counterfactual.rs\<close>): the smallest change of one lever of a
  candidate after which the kernel selects it, and how far the levers of the selected candidate can
  move before it loses. Both answers come from a binary search over runs of the real kernel.

  The lemmas show that moving a lever in its favourable direction never loses a selection, and that
  the binary searches therefore return what a search of the whole range would.

  Lever values, \<open>u64\<close> in the code, are natural numbers: the searches stay between bounds that fit
  16, 32 and 30 bits, and narrow them back with \<open>as u16\<close> and \<open>as u32\<close>, here \<open>of_nat\<close>.
\<close>

section \<open>Searches\<close>

definition PPM :: nat where
  "PPM = 1000000"

definition MAX_PRICE_SCALE_PPM :: nat where
  "MAX_PRICE_SCALE_PPM = 1000 * PPM"

function lowest_loop :: "(nat \<Rightarrow> bool) \<Rightarrow> nat \<Rightarrow> nat \<Rightarrow> nat" where
  "lowest_loop pred lo hi =
     (if lo < hi then
        let mid = lo + (hi - lo) div 2
        in if pred mid then lowest_loop pred lo mid else lowest_loop pred (mid + 1) hi
      else lo)"
  by pat_completeness auto
termination by (relation "measure (\<lambda>(pred, lo, hi). hi - lo)") (auto simp: Let_def)

definition lowest_true :: "nat \<Rightarrow> nat \<Rightarrow> (nat \<Rightarrow> bool) \<Rightarrow> nat option" where
  "lowest_true lo hi pred = (if lo > hi \<or> \<not> pred hi then None else Some (lowest_loop pred lo hi))"

function highest_loop :: "(nat \<Rightarrow> bool) \<Rightarrow> nat \<Rightarrow> nat \<Rightarrow> nat" where
  "highest_loop pred lo hi =
     (if lo < hi then
        let mid = lo + (hi - lo + 1) div 2
        in if pred mid then highest_loop pred mid hi else highest_loop pred lo (mid - 1)
      else lo)"
  by pat_completeness auto
termination by (relation "measure (\<lambda>(pred, lo, hi). hi - lo)") (auto simp: Let_def)

definition highest_true :: "nat \<Rightarrow> nat \<Rightarrow> (nat \<Rightarrow> bool) \<Rightarrow> nat option" where
  "highest_true lo hi pred = (if lo > hi \<or> \<not> pred lo then None else Some (highest_loop pred lo hi))"

declare lowest_loop.simps [simp del] highest_loop.simps [simp del]

section \<open>Levers\<close>

datatype lever = QualityBps | P95LatencyMs | PriceScalePpm | RiskCeilingBps | Enabled

record requirement =
  rq_lever :: lever
  rq_current :: nat
  rq_boundary :: nat
  cost_at_boundary_microunits :: "u64 option"

record counterfactual =
  cf_model_id :: u32
  cf_decision :: kernel_decision
  blocked_by_request :: "kernel_reason option"
  cf_levers :: "requirement list"

record margin =
  mg_model_id :: u32
  mg_decision :: kernel_decision
  mg_levers :: "requirement list"

definition selected :: "kernel_decision \<Rightarrow> u32 \<Rightarrow> bool" where
  "selected decision mid \<longleftrightarrow> is_executable decision \<and> d_selected_model_id decision = mid"

definition request_block :: "kernel_reason \<Rightarrow> kernel_reason option" where
  "request_block reason = (if reason = RiskHardLimit \<or> reason = ConfidenceHardLimit then Some reason else None)"

definition with_model :: "policy_snapshot \<Rightarrow> nat \<Rightarrow> kernel_model \<Rightarrow> policy_snapshot" where
  "with_model p index m =
     new_unchecked (ps_policy_epoch p) (ps_catalog_epoch p) (ps_hard_risk_limit_bps p)
       (ps_minimum_confidence_bps p) (ps_risk_penalty_multiplier_bps p)
       (ps_latency_penalty_microunits_per_ms p) ((ps_models p)[index := m])"

definition scale_price :: "nat \<Rightarrow> u64 \<Rightarrow> u64" where
  "scale_price scale_ppm price = u64_of_u128 (ucast price * of_nat scale_ppm div of_nat PPM)"

definition scaled :: "kernel_model \<Rightarrow> nat \<Rightarrow> kernel_model" where
  "scaled m scale_ppm =
     m\<lparr> input_cost_microunits_per_million_tokens := scale_price scale_ppm (input_cost_microunits_per_million_tokens m),
        output_cost_microunits_per_million_tokens := scale_price scale_ppm (output_cost_microunits_per_million_tokens m) \<rparr>"

definition plain :: "lever \<Rightarrow> nat \<Rightarrow> nat \<Rightarrow> requirement" where
  "plain l current boundary =
     \<lparr> rq_lever = l, rq_current = current, rq_boundary = boundary, cost_at_boundary_microunits = None \<rparr>"

definition priced :: "policy_snapshot \<Rightarrow> nat \<Rightarrow> kernel_input \<Rightarrow> kernel_model \<Rightarrow> nat \<Rightarrow> requirement" where
  "priced p index i m scale_ppm =
     (let decision = prescribe (with_model p index (scaled m scale_ppm)) i
      in \<lparr> rq_lever = PriceScalePpm, rq_current = PPM, rq_boundary = scale_ppm,
           cost_at_boundary_microunits = Some (d_estimated_cost_microunits decision) \<rparr>)"

text \<open>\<open>iter().position\<close>, and \<open>if let Some(b) = search { levers.push(f(b)) }\<close>.\<close>

fun position :: "('a \<Rightarrow> bool) \<Rightarrow> 'a list \<Rightarrow> nat option" where
  "position P [] = None"
| "position P (x # xs) = (if P x then Some 0 else map_option Suc (position P xs))"

fun pushed :: "(nat \<Rightarrow> requirement) \<Rightarrow> nat option \<Rightarrow> requirement list" where
  "pushed f None = []"
| "pushed f (Some b) = [f b]"

text \<open>The closure \<open>wins\<close> of both functions.\<close>

definition wins :: "policy_snapshot \<Rightarrow> kernel_input \<Rightarrow> nat \<Rightarrow> u32 \<Rightarrow> kernel_model \<Rightarrow> bool" where
  "wins p i index mid candidate = selected (prescribe (with_model p index candidate) i) mid"

type_synonym search = "nat \<Rightarrow> nat \<Rightarrow> (nat \<Rightarrow> bool) \<Rightarrow> nat option"

text \<open>The two functions, over the two searches they call.\<close>

definition what_would_win_by ::
  "search \<Rightarrow> search \<Rightarrow> policy_snapshot \<Rightarrow> kernel_input \<Rightarrow> u32 \<Rightarrow> counterfactual option" where
  "what_would_win_by lowest highest p i mid =
     (case position (\<lambda>m. model_id m = mid) (ps_models p) of
        None \<Rightarrow> None
      | Some index \<Rightarrow>
          let decision = prescribe p i;
              blocked = request_block (d_reason decision);
              out = \<lparr> cf_model_id = mid, cf_decision = decision, blocked_by_request = blocked, cf_levers = [] \<rparr>
          in if blocked \<noteq> None \<or> selected decision mid then Some out
             else
               let m = ps_models p ! index;
                   w = wins p i index mid
               in if enabled m = 0 then
                    Some (out\<lparr> cf_levers := (if w (m\<lparr> enabled := 1 \<rparr>) then [plain Enabled 0 1] else []) \<rparr>)
                  else
                    let q = unat (quality_bps m);
                        l = unat (p95_latency_ms m);
                        r = unat (risk_ceiling_bps m)
                    in Some (out\<lparr> cf_levers :=
                         pushed (plain QualityBps q)
                           (lowest q (unat MAX_BPS) (\<lambda>v. w (m\<lparr> quality_bps := of_nat v \<rparr>)))
                         @ pushed (plain P95LatencyMs l)
                           (highest 0 l (\<lambda>v. w (m\<lparr> p95_latency_ms := of_nat v \<rparr>)))
                         @ pushed (priced p index i m) (highest 0 PPM (\<lambda>s. w (scaled m s)))
                         @ pushed (plain RiskCeilingBps r)
                           (lowest r (unat MAX_BPS) (\<lambda>v. w (m\<lparr> risk_ceiling_bps := of_nat v \<rparr>))) \<rparr>))"

definition what_would_win :: "policy_snapshot \<Rightarrow> kernel_input \<Rightarrow> u32 \<Rightarrow> counterfactual option" where
  "what_would_win = what_would_win_by lowest_true highest_true"

definition decision_margin_by ::
  "search \<Rightarrow> search \<Rightarrow> policy_snapshot \<Rightarrow> kernel_input \<Rightarrow> margin option" where
  "decision_margin_by lowest highest p i =
     (let decision = prescribe p i in
      if \<not> is_executable decision then None
      else
        let mid = d_selected_model_id decision in
        case position (\<lambda>m. model_id m = mid) (ps_models p) of
          None \<Rightarrow> None
        | Some index \<Rightarrow>
            let m = ps_models p ! index;
                w = wins p i index mid;
                q = unat (quality_bps m);
                l = unat (p95_latency_ms m);
                r = unat (risk_ceiling_bps m)
            in Some \<lparr> mg_model_id = mid, mg_decision = decision, mg_levers =
                 pushed (plain QualityBps q) (lowest 0 q (\<lambda>v. w (m\<lparr> quality_bps := of_nat v \<rparr>)))
                 @ (if \<not> w (m\<lparr> p95_latency_ms := - 1 \<rparr>)
                    then pushed (plain P95LatencyMs l)
                      (highest l (2 ^ 32 - 1) (\<lambda>v. w (m\<lparr> p95_latency_ms := of_nat v \<rparr>)))
                    else [])
                 @ (if \<not> w (scaled m MAX_PRICE_SCALE_PPM)
                    then pushed (priced p index i m)
                      (highest PPM MAX_PRICE_SCALE_PPM (\<lambda>s. w (scaled m s)))
                    else [])
                 @ (if \<not> w (m\<lparr> risk_ceiling_bps := 0 \<rparr>)
                    then pushed (plain RiskCeilingBps r)
                      (lowest 0 r (\<lambda>v. w (m\<lparr> risk_ceiling_bps := of_nat v \<rparr>)))
                    else []) \<rparr>)"

definition decision_margin :: "policy_snapshot \<Rightarrow> kernel_input \<Rightarrow> margin option" where
  "decision_margin = decision_margin_by lowest_true highest_true"

section \<open>Binary search is exhaustive search\<close>

text \<open>The reference searches look at every value, nearest first.\<close>

definition scan_up :: search where
  "scan_up lo hi pred = List.find pred [lo..<Suc hi]"

definition scan_down :: search where
  "scan_down lo hi pred = List.find pred (rev [lo..<Suc hi])"

lemma find_upt_Some:
  "a \<le> r \<Longrightarrow> r < b \<Longrightarrow> P r \<Longrightarrow> (\<And>v. a \<le> v \<Longrightarrow> v < r \<Longrightarrow> \<not> P v) \<Longrightarrow> List.find P [a..<b] = Some r"
proof (induction "r - a" arbitrary: a)
  case 0
  then show ?case by (simp add: upt_conv_Cons)
next
  case (Suc k)
  then have "\<not> P a" "a < b" by auto
  with Suc show ?case by (simp add: upt_conv_Cons)
qed

lemma find_rev_upt_Some:
  "a \<le> r \<Longrightarrow> r < b \<Longrightarrow> P r \<Longrightarrow> (\<And>v. r < v \<Longrightarrow> v < b \<Longrightarrow> \<not> P v) \<Longrightarrow> List.find P (rev [a..<b]) = Some r"
proof (induction b)
  case (Suc b)
  then show ?case by (cases "r = b") auto
qed simp

definition rising :: "nat \<Rightarrow> nat \<Rightarrow> (nat \<Rightarrow> bool) \<Rightarrow> bool" where
  "rising lo hi pred \<longleftrightarrow> (\<forall>v w. lo \<le> v \<longrightarrow> v \<le> w \<longrightarrow> w \<le> hi \<longrightarrow> pred v \<longrightarrow> pred w)"

definition falling :: "nat \<Rightarrow> nat \<Rightarrow> (nat \<Rightarrow> bool) \<Rightarrow> bool" where
  "falling lo hi pred \<longleftrightarrow> (\<forall>v w. lo \<le> v \<longrightarrow> v \<le> w \<longrightarrow> w \<le> hi \<longrightarrow> pred w \<longrightarrow> pred v)"

lemma rising_sub: "rising lo hi pred \<Longrightarrow> lo \<le> lo' \<Longrightarrow> hi' \<le> hi \<Longrightarrow> rising lo' hi' pred"
  unfolding rising_def by (meson le_trans)

lemma falling_sub: "falling lo hi pred \<Longrightarrow> lo \<le> lo' \<Longrightarrow> hi' \<le> hi \<Longrightarrow> falling lo' hi' pred"
  unfolding falling_def by (meson le_trans)

lemma lowest_loop:
  assumes "lo \<le> hi" "pred hi" "rising lo hi pred"
  shows "lo \<le> lowest_loop pred lo hi \<and> lowest_loop pred lo hi \<le> hi \<and> pred (lowest_loop pred lo hi)
    \<and> (\<forall>v. lo \<le> v \<longrightarrow> v < lowest_loop pred lo hi \<longrightarrow> \<not> pred v)"
  using assms
proof (induction "hi - lo" arbitrary: lo hi rule: less_induct)
  case less
  note step = lowest_loop.simps [of pred lo hi]
  show ?case
  proof (cases "lo < hi")
    case True
    let ?mid = "lo + (hi - lo) div 2"
    have mid: "lo \<le> ?mid" "?mid < hi" using True by auto
    show ?thesis
    proof (cases "pred ?mid")
      case yes: True
      have "?mid - lo < hi - lo" using mid by simp
      from less.hyps [OF this mid(1) yes rising_sub [OF less.prems(3)]] mid
      have "lo \<le> lowest_loop pred lo ?mid \<and> lowest_loop pred lo ?mid \<le> ?mid \<and> pred (lowest_loop pred lo ?mid)
          \<and> (\<forall>v. lo \<le> v \<longrightarrow> v < lowest_loop pred lo ?mid \<longrightarrow> \<not> pred v)"
        by simp
      moreover have "lowest_loop pred lo hi = lowest_loop pred lo ?mid" using True yes by (simp add: step Let_def)
      ultimately show ?thesis using mid by simp
    next
      case no: False
      have "hi - (?mid + 1) < hi - lo" "?mid + 1 \<le> hi" using mid by auto
      from less.hyps [OF this less.prems(2) rising_sub [OF less.prems(3)]] mid
      have "?mid + 1 \<le> lowest_loop pred (?mid + 1) hi \<and> lowest_loop pred (?mid + 1) hi \<le> hi
          \<and> pred (lowest_loop pred (?mid + 1) hi)
          \<and> (\<forall>v. ?mid + 1 \<le> v \<longrightarrow> v < lowest_loop pred (?mid + 1) hi \<longrightarrow> \<not> pred v)"
        by simp
      note above_mid = this
      have "\<not> pred v" if "lo \<le> v" "v < lowest_loop pred (?mid + 1) hi" for v
      proof (cases "?mid + 1 \<le> v")
        case True
        with above_mid that show ?thesis by blast
      next
        case False
        then have "v \<le> ?mid" "?mid \<le> hi" using mid(2) by simp_all
        with no less.prems(3) that(1) show ?thesis unfolding rising_def by blast
      qed
      moreover have "lowest_loop pred lo hi = lowest_loop pred (?mid + 1) hi" using True no by (simp add: step Let_def)
      moreover have "lo \<le> ?mid + 1" by simp
      ultimately show ?thesis using above_mid by (simp only:) (meson le_trans)
    qed
  next
    case False
    with less.prems(1) have "hi = lo" by simp
    with less.prems(2) step show ?thesis by simp
  qed
qed

lemma highest_loop:
  assumes "lo \<le> hi" "pred lo" "falling lo hi pred"
  shows "lo \<le> highest_loop pred lo hi \<and> highest_loop pred lo hi \<le> hi \<and> pred (highest_loop pred lo hi)
    \<and> (\<forall>v. highest_loop pred lo hi < v \<longrightarrow> v \<le> hi \<longrightarrow> \<not> pred v)"
  using assms
proof (induction "hi - lo" arbitrary: lo hi rule: less_induct)
  case less
  note step = highest_loop.simps [of pred lo hi]
  show ?case
  proof (cases "lo < hi")
    case True
    let ?mid = "lo + (hi - lo + 1) div 2"
    have mid: "lo < ?mid" "?mid \<le> hi" using True by auto
    show ?thesis
    proof (cases "pred ?mid")
      case yes: True
      have "hi - ?mid < hi - lo" using mid by simp
      from less.hyps [OF this mid(2) yes falling_sub [OF less.prems(3)]] mid
      have "?mid \<le> highest_loop pred ?mid hi \<and> highest_loop pred ?mid hi \<le> hi \<and> pred (highest_loop pred ?mid hi)
          \<and> (\<forall>v. highest_loop pred ?mid hi < v \<longrightarrow> v \<le> hi \<longrightarrow> \<not> pred v)"
        by simp
      moreover have "highest_loop pred lo hi = highest_loop pred ?mid hi" using True yes by (simp add: step Let_def)
      ultimately show ?thesis using mid by simp
    next
      case no: False
      have below: "?mid - 1 - lo < hi - lo" "lo \<le> ?mid - 1" "?mid - 1 \<le> hi" using mid by auto
      from less.hyps [OF below(1,2) less.prems(2) falling_sub [OF less.prems(3) order_refl below(3)]]
      have "lo \<le> highest_loop pred lo (?mid - 1) \<and> highest_loop pred lo (?mid - 1) \<le> ?mid - 1
          \<and> pred (highest_loop pred lo (?mid - 1))
          \<and> (\<forall>v. highest_loop pred lo (?mid - 1) < v \<longrightarrow> v \<le> ?mid - 1 \<longrightarrow> \<not> pred v)" .
      note below_mid = this
      have "\<not> pred v" if "highest_loop pred lo (?mid - 1) < v" "v \<le> hi" for v
      proof (cases "v \<le> ?mid - 1")
        case True
        with below_mid that show ?thesis by blast
      next
        case False
        then have "lo \<le> ?mid" "?mid \<le> v" using mid(1) by simp_all
        with no less.prems(3) that(2) show ?thesis unfolding falling_def by blast
      qed
      moreover have "highest_loop pred lo hi = highest_loop pred lo (?mid - 1)" using True no by (simp add: step Let_def)
      ultimately show ?thesis using below_mid below(3) by (simp only:) (meson le_trans)
    qed
  next
    case False
    with less.prems(1) have "hi = lo" by simp
    with less.prems(2) step show ?thesis by simp
  qed
qed

lemma lowest_true_scan:
  assumes "rising lo hi pred"
  shows "lowest_true lo hi pred = scan_up lo hi pred"
proof (cases "lo > hi \<or> \<not> pred hi")
  case True
  have "\<not> pred v" if "lo \<le> v" "v \<le> hi" for v
    using assms True that unfolding rising_def by (meson le_trans not_le order_refl)
  then have "List.find pred [lo..<Suc hi] = None"
    by (simp add: find_None_iff less_Suc_eq_le del: upt_Suc)
  with True show ?thesis by (simp add: lowest_true_def scan_up_def del: upt_Suc)
next
  case False
  let ?r = "lowest_loop pred lo hi"
  have r: "lo \<le> ?r" "?r \<le> hi" "pred ?r" "\<And>v. lo \<le> v \<Longrightarrow> v < ?r \<Longrightarrow> \<not> pred v"
    using lowest_loop [OF _ _ assms] False by auto
  have "List.find pred [lo..<Suc hi] = Some ?r"
    using r(1-3) by (intro find_upt_Some r(4)) simp_all
  with False show ?thesis by (simp only: lowest_true_def scan_up_def if_False)
qed

lemma highest_true_scan:
  assumes "falling lo hi pred"
  shows "highest_true lo hi pred = scan_down lo hi pred"
proof (cases "lo > hi \<or> \<not> pred lo")
  case True
  have "\<not> pred v" if "lo \<le> v" "v \<le> hi" for v
    using assms True that unfolding falling_def by (meson le_trans not_le order_refl)
  then have "List.find pred (rev [lo..<Suc hi]) = None"
    by (simp add: find_None_iff less_Suc_eq_le del: upt_Suc)
  with True show ?thesis by (simp add: highest_true_def scan_down_def del: upt_Suc)
next
  case False
  let ?r = "highest_loop pred lo hi"
  have r: "lo \<le> ?r" "?r \<le> hi" "pred ?r" "\<And>v. ?r < v \<Longrightarrow> v \<le> hi \<Longrightarrow> \<not> pred v"
    using highest_loop [OF _ _ assms] False by auto
  have "List.find pred (rev [lo..<Suc hi]) = Some ?r"
    using r(1-3) by (intro find_rev_upt_Some r(4)) simp_all
  with False show ?thesis by (simp only: highest_true_def scan_down_def if_False)
qed

section \<open>Favourable moves\<close>

text \<open>The candidate \<open>m'\<close> is \<open>m\<close> with some levers moved in their favourable direction.\<close>

definition improves :: "kernel_model \<Rightarrow> kernel_model \<Rightarrow> bool" where
  "improves m m' \<longleftrightarrow>
     model_id m' = model_id m \<and> provider_id m' = provider_id m \<and> capabilities m' = capabilities m
     \<and> region_mask m' = region_mask m \<and> (enabled m \<noteq> 0 \<longrightarrow> enabled m' \<noteq> 0)
     \<and> quality_bps m \<le> quality_bps m' \<and> p95_latency_ms m' \<le> p95_latency_ms m
     \<and> input_cost_microunits_per_million_tokens m' \<le> input_cost_microunits_per_million_tokens m
     \<and> output_cost_microunits_per_million_tokens m' \<le> output_cost_microunits_per_million_tokens m
     \<and> risk_ceiling_bps m \<le> risk_ceiling_bps m'"

lemma token_price_mono: "c \<le> c' \<Longrightarrow> token_cost t c \<le> token_cost t c'"
  unfolding token_cost_def by (intro div_le_mono add_le_mono1 mult_le_mono2) (simp add: word_le_nat_alt)

lemma improves_cost: "improves m m' \<Longrightarrow> exact_cost m' i \<le> exact_cost m i"
  unfolding exact_cost_def improves_def by (intro min.mono add_mono token_price_mono) auto

lemma improves_utility: "improves m m' \<Longrightarrow> exact_utility p i m \<le> exact_utility p i m'"
proof -
  assume imp: "improves m m'"
  let ?v = "max 0 (sint (business_value_microunits i))"
  have "uint (quality_bps m) \<le> uint (quality_bps m')" "uint (p95_latency_ms m') \<le> uint (p95_latency_ms m)"
    using imp by (simp_all add: improves_def word_le_def)
  then have "scaled_bps ?v (uint (confidence_bps i)) (uint (quality_bps m))
      \<le> scaled_bps ?v (uint (confidence_bps i)) (uint (quality_bps m'))"
    "uint (p95_latency_ms m') * uint (ps_latency_penalty_microunits_per_ms p)
      \<le> uint (p95_latency_ms m) * uint (ps_latency_penalty_microunits_per_ms p)"
    unfolding scaled_bps_def by (intro zdiv_mono1 mult_left_mono mult_right_mono; simp)+
  then have "raw_utility p i m \<le> raw_utility p i m'"
    using improves_cost [OF imp, of i] unfolding raw_utility_def Let_def by linarith
  then show "exact_utility p i m \<le> exact_utility p i m'"
    unfolding exact_utility_def by (intro max.mono min.mono) simp_all
qed

lemma improves_eligible: "improves m m' \<Longrightarrow> eligible p i m \<Longrightarrow> eligible p i m'"
  using improves_cost [of m m' i] improves_utility [of m m' p i]
  by (auto simp: eligible_def passes_gates_def improves_def)

lemma improves_rank: "improves m m' \<Longrightarrow> rank_key p i m' \<le> rank_key p i m"
  using improves_cost [of m m' i] improves_utility [of m m' p i]
  by (auto simp: rank_key_def less_eq_prod_simp improves_def word_le_def)

section \<open>When a candidate is selected\<close>

lemma selected_iff:
  assumes wf: "policy_wf p" and ids: "distinct (map model_id (ps_models p))" and m: "m \<in> set (ps_models p)"
  shows "selected (prescribe p i) (model_id m) \<longleftrightarrow>
    within_limits p i \<and> eligible p i m
    \<and> (\<forall>m' \<in> set (ps_models p). eligible p i m' \<longrightarrow> rank_key p i m \<le> rank_key p i m')"
proof (cases "within_limits p i")
  case False
  then show ?thesis by (simp add: prescribe_out_of_limits selected_def reject_action)
next
  case True
  note eq = prescribe_reference [OF wf True]
  show ?thesis
  proof (cases "ranking p i")
    case Nil
    then show ?thesis using m ranking_empty [of p i] by (auto simp: eq selected_def reference_action)
  next
    case (Cons x rest)
    then obtain n h where h: "ranking p i = (n, h) # rest" by (cases x) auto
    have hm: "h \<in> set (ps_models p)" "eligible p i h"
      using ranking_bounded [OF wf, of n h i] h by auto
    have "selected (prescribe p i) (model_id m) \<longleftrightarrow> model_id h = model_id m"
      using h by (simp add: eq selected_def reference_action) (simp add: reference_decision_def)
    also have "\<dots> \<longleftrightarrow> h = m" using ids hm(1) m by (auto simp: distinct_map inj_on_def)
    also have "\<dots> \<longleftrightarrow> eligible p i m \<and> (\<forall>m' \<in> set (ps_models p). eligible p i m' \<longrightarrow> rank_key p i m \<le> rank_key p i m')"
    proof
      assume "h = m"
      then show "eligible p i m \<and> (\<forall>m' \<in> set (ps_models p). eligible p i m' \<longrightarrow> rank_key p i m \<le> rank_key p i m')"
        using ranking_head [OF h] hm by blast
    next
      assume a: "eligible p i m \<and> (\<forall>m' \<in> set (ps_models p). eligible p i m' \<longrightarrow> rank_key p i m \<le> rank_key p i m')"
      then have "rank_key p i m = rank_key p i h" using ranking_head [OF h m] hm by (simp add: antisym)
      then have "model_id m = model_id h" by (simp add: rank_key_def uint_eq_iff)
      then show "h = m" using ids hm(1) m by (auto simp: distinct_map inj_on_def)
    qed
    finally show ?thesis using True by simp
  qed
qed

lemma with_model_facts:
  "policy_wf (with_model p index m)" "same_limits (with_model p index m) p"
  "ps_models (with_model p index m) = (ps_models p)[index := m]"
  by (simp_all add: with_model_def new_unchecked_wf same_limits_def) (simp_all add: new_unchecked_def)

lemma wins_iff:
  assumes "distinct (map model_id (ps_models p))" "index < length (ps_models p)"
    and "model_id (ps_models p ! index) = mid" "model_id m = mid"
  shows "wins p i index mid m \<longleftrightarrow>
    within_limits p i \<and> eligible p i m
    \<and> (\<forall>m' \<in> set ((ps_models p)[index := m]). eligible p i m' \<longrightarrow> rank_key p i m \<le> rank_key p i m')"
proof -
  let ?q = "with_model p index m"
  have "map model_id ((ps_models p)[index := m]) = map model_id (ps_models p)"
    using assms by (simp add: map_update list_update_same_conv)
  then have "distinct (map model_id (ps_models ?q))" using assms(1) by (simp add: with_model_facts)
  moreover have "m \<in> set (ps_models ?q)" using assms(2) by (simp add: with_model_facts set_update_memI)
  ultimately show ?thesis
    using selected_iff [OF with_model_facts(1), of p index m m i] same_limits_exact [OF with_model_facts(2)] assms(4)
    by (simp add: wins_def with_model_facts)
qed

lemma wins_mono:
  assumes "distinct (map model_id (ps_models p))" "index < length (ps_models p)"
    and "model_id (ps_models p ! index) = mid" "model_id m = mid"
    and "improves m m'" "wins p i index mid m"
  shows "wins p i index mid m'"
proof -
  have mid': "model_id m' = mid" using assms(4,5) by (simp add: improves_def)
  have other: "x \<in> set ((ps_models p)[index := m])" if "x \<in> set ((ps_models p)[index := m'])" "x \<noteq> m'" for x
    using that assms(2) by (auto simp: in_set_conv_nth nth_list_update split: if_splits)
  from assms(6) have w: "within_limits p i" "eligible p i m"
    "\<And>x. x \<in> set ((ps_models p)[index := m]) \<Longrightarrow> eligible p i x \<Longrightarrow> rank_key p i m \<le> rank_key p i x"
    using wins_iff [OF assms(1-4)] by auto
  have "rank_key p i m' \<le> rank_key p i x" if "x \<in> set ((ps_models p)[index := m'])" "eligible p i x" for x
    using that other [OF that(1)] w(3) improves_rank [OF assms(5), of p i] by (cases "x = m'") (auto intro: order_trans)
  with w improves_eligible [OF assms(5)] show ?thesis
    unfolding wins_iff [OF assms(1-3) mid'] by blast
qed

lemma position_Some: "position P xs = Some n \<Longrightarrow> n < length xs \<and> P (xs ! n)"
  by (induction xs arbitrary: n) (auto split: if_splits)

lemma of_nat_word_mono: "v \<le> w \<Longrightarrow> w < 2 ^ LENGTH('a) \<Longrightarrow> of_nat v \<le> (of_nat w :: 'a::len word)"
  by (simp add: word_le_nat_alt unat_of_nat)

lemma unat_scale_price:
  assumes "s \<le> MAX_PRICE_SCALE_PPM"
  shows "unat (scale_price s price) = min (2 ^ 64 - 1) (unat price * s div PPM)"
proof -
  have u: "unat (ucast price :: u128) = unat price" by simp
  have s: "unat (of_nat s :: u128) = s" "unat (of_nat PPM :: u128) = PPM"
    using assms by (simp_all add: MAX_PRICE_SCALE_PPM_def PPM_def unat_of_nat)
  have "unat price * s \<le> 2 ^ 64 * MAX_PRICE_SCALE_PPM"
    using assms unat_lt2p [of price] by (intro mult_le_mono) auto
  also have "\<dots> < 2 ^ LENGTH(128)" by (simp add: MAX_PRICE_SCALE_PPM_def PPM_def)
  finally have "unat (ucast price * of_nat s :: u128) = unat price * s"
    using unat_mul_fit [of "ucast price :: u128" "of_nat s"] by (simp only: u s)
  then show ?thesis by (simp add: scale_price_def unat_u64_of_u128 unat_div s)
qed

lemma scale_price_mono: "v \<le> w \<Longrightarrow> w \<le> MAX_PRICE_SCALE_PPM \<Longrightarrow> scale_price v price \<le> scale_price w price"
  using div_le_mono [OF mult_le_mono2, of v w "unat price" PPM]
  by (simp add: word_le_nat_alt unat_scale_price min.coboundedI2)

lemma lever_improves:
  "v \<le> w \<Longrightarrow> w < 2 ^ 16 \<Longrightarrow> improves (m\<lparr> quality_bps := of_nat v \<rparr>) (m\<lparr> quality_bps := of_nat w \<rparr>)"
  "v \<le> w \<Longrightarrow> w < 2 ^ 32 \<Longrightarrow> improves (m\<lparr> p95_latency_ms := of_nat w \<rparr>) (m\<lparr> p95_latency_ms := of_nat v \<rparr>)"
  "v \<le> w \<Longrightarrow> w \<le> MAX_PRICE_SCALE_PPM \<Longrightarrow> improves (scaled m w) (scaled m v)"
  "v \<le> w \<Longrightarrow> w < 2 ^ 16 \<Longrightarrow> improves (m\<lparr> risk_ceiling_bps := of_nat v \<rparr>) (m\<lparr> risk_ceiling_bps := of_nat w \<rparr>)"
  by (simp_all add: improves_def of_nat_word_mono scaled_def scale_price_mono)

lemma lever_searches:
  assumes "distinct (map model_id (ps_models p))" "position (\<lambda>m. model_id m = mid) (ps_models p) = Some index"
    and m: "m = ps_models p ! index"
  shows "hi < 2 ^ 16 \<Longrightarrow> lowest_true lo hi (\<lambda>v. wins p i index mid (m\<lparr> quality_bps := of_nat v \<rparr>))
      = scan_up lo hi (\<lambda>v. wins p i index mid (m\<lparr> quality_bps := of_nat v \<rparr>))"
    "hi < 2 ^ 32 \<Longrightarrow> highest_true lo hi (\<lambda>v. wins p i index mid (m\<lparr> p95_latency_ms := of_nat v \<rparr>))
      = scan_down lo hi (\<lambda>v. wins p i index mid (m\<lparr> p95_latency_ms := of_nat v \<rparr>))"
    "hi \<le> MAX_PRICE_SCALE_PPM \<Longrightarrow> highest_true lo hi (\<lambda>s. wins p i index mid (scaled m s))
      = scan_down lo hi (\<lambda>s. wins p i index mid (scaled m s))"
    "hi < 2 ^ 16 \<Longrightarrow> lowest_true lo hi (\<lambda>v. wins p i index mid (m\<lparr> risk_ceiling_bps := of_nat v \<rparr>))
      = scan_up lo hi (\<lambda>v. wins p i index mid (m\<lparr> risk_ceiling_bps := of_nat v \<rparr>))"
proof -
  have at: "index < length (ps_models p)" "model_id (ps_models p ! index) = mid" "model_id m = mid"
    using position_Some [OF assms(2)] m by auto
  note mono = wins_mono [OF assms(1) at(1,2)]
  show "hi < 2 ^ 16 \<Longrightarrow> lowest_true lo hi (\<lambda>v. wins p i index mid (m\<lparr> quality_bps := of_nat v \<rparr>))
      = scan_up lo hi (\<lambda>v. wins p i index mid (m\<lparr> quality_bps := of_nat v \<rparr>))"
    by (rule lowest_true_scan, unfold rising_def) (intro allI impI, rule mono [OF _ lever_improves(1)], use at in auto)
  show "hi < 2 ^ 32 \<Longrightarrow> highest_true lo hi (\<lambda>v. wins p i index mid (m\<lparr> p95_latency_ms := of_nat v \<rparr>))
      = scan_down lo hi (\<lambda>v. wins p i index mid (m\<lparr> p95_latency_ms := of_nat v \<rparr>))"
    by (rule highest_true_scan, unfold falling_def) (intro allI impI, rule mono [OF _ lever_improves(2)], use at in auto)
  show "hi \<le> MAX_PRICE_SCALE_PPM \<Longrightarrow> highest_true lo hi (\<lambda>s. wins p i index mid (scaled m s))
      = scan_down lo hi (\<lambda>s. wins p i index mid (scaled m s))"
    by (rule highest_true_scan, unfold falling_def)
      (intro allI impI, rule mono [OF _ lever_improves(3)], use at in \<open>auto simp: scaled_def\<close>)
  show "hi < 2 ^ 16 \<Longrightarrow> lowest_true lo hi (\<lambda>v. wins p i index mid (m\<lparr> risk_ceiling_bps := of_nat v \<rparr>))
      = scan_up lo hi (\<lambda>v. wins p i index mid (m\<lparr> risk_ceiling_bps := of_nat v \<rparr>))"
    by (rule lowest_true_scan, unfold rising_def) (intro allI impI, rule mono [OF _ lever_improves(4)], use at in auto)
qed

lemma lever_bounds:
  "unat MAX_BPS < 2 ^ 16" "unat (w16 :: u16) < 2 ^ 16" "unat (w32 :: u32) < 2 ^ 32" "2 ^ 32 - 1 < (2 ^ 32 :: nat)"
  "PPM \<le> MAX_PRICE_SCALE_PPM"
  using unat_lt2p [of w16] unat_lt2p [of w32] by (simp_all add: MAX_BPS_def MAX_PRICE_SCALE_PPM_def)

text \<open>
  C33. Counterfactuals are exact: for a catalog without repeated identifiers, the binary searches
  over runs of the kernel give, for every lever, the answer of trying every value of its range from
  the current one outwards: a reported boundary is the nearest value that wins, and a lever is left
  out exactly when no value of its range wins.
\<close>

theorem what_would_win_exhaustive:
  assumes "distinct (map model_id (ps_models p))"
  shows "what_would_win p i mid = what_would_win_by scan_up scan_down p i mid"
proof (cases "position (\<lambda>m. model_id m = mid) (ps_models p)")
  case None
  then show ?thesis by (simp add: what_would_win_def what_would_win_by_def)
next
  case (Some index)
  note eqs = lever_searches [OF assms Some refl] lever_bounds
  show ?thesis
    unfolding what_would_win_def what_would_win_by_def Some option.case Let_def
    by (simp only: eqs)
qed

theorem what_would_win_exhaustive_witness:
  "what_would_win (new_unchecked 1 1 9600 5500 3500 2 [example_model, example_model_2]) example_input 2
    = what_would_win_by scan_up scan_down
        (new_unchecked 1 1 9600 5500 3500 2 [example_model, example_model_2]) example_input 2"
  by (rule what_would_win_exhaustive [OF example_orders(3)])

section \<open>Margins\<close>

lemma zero_quality_ineligible: "quality_bps m = 0 \<Longrightarrow> \<not> eligible p i m"
proof -
  assume "quality_bps m = 0"
  then have "scaled_bps (max 0 (sint (business_value_microunits i))) (uint (confidence_bps i)) (uint (quality_bps m)) = 0"
    by (simp add: scaled_bps_def)
  moreover have "0 \<le> scaled_bps (max 0 (sint (business_value_microunits i))) (uint (risk_bps i))
      (uint (ps_risk_penalty_multiplier_bps p))"
    unfolding scaled_bps_def by (intro pos_imp_zdiv_nonneg_iff [THEN iffD2] mult_nonneg_nonneg) simp_all
  moreover have "0 \<le> uint (p95_latency_ms m) * uint (ps_latency_penalty_microunits_per_ms p)" by simp
  ultimately have "raw_utility p i m \<le> 0" unfolding raw_utility_def Let_def by linarith
  then show ?thesis by (auto simp: eligible_def exact_utility_def i64_min_def)
qed

lemma selected_wins:
  assumes "policy_wf p" "distinct (map model_id (ps_models p))"
    and "index < length (ps_models p)" "selected (prescribe p i) (model_id (ps_models p ! index))"
  shows "wins p i index (model_id (ps_models p ! index)) (ps_models p ! index)"
  using assms selected_iff [OF assms(1,2), of "ps_models p ! index" i] wins_iff [OF assms(2,3) refl refl, of i]
  by simp

lemma scan_up_Some: "lo \<le> hi \<Longrightarrow> pred hi \<Longrightarrow> \<exists>b. scan_up lo hi pred = Some b \<and> pred b"
  unfolding scan_up_def by (metis atLeastAtMost_iff atLeastLessThanSuc_atLeastAtMost find_None_iff find_Some_iff
      not_Some_eq order_refl set_upt)

lemma position_None: "position P xs = None \<longleftrightarrow> (\<forall>x \<in> set xs. \<not> P x)"
  by (induction xs) auto

text \<open>
  C34. Margins are exact: for a well-formed policy without repeated identifiers the reported margins
  are those of trying every value of a lever's range, a margin is reported exactly when something
  was selected, and its first entry is always a positive lower bound on the quality of the winner.
\<close>

theorem decision_margin_exhaustive:
  assumes "policy_wf p" and "distinct (map model_id (ps_models p))"
  shows "decision_margin p i = decision_margin_by scan_up scan_down p i
    \<and> (case decision_margin p i of
         None \<Rightarrow> is_rejected (prescribe p i)
       | Some g \<Rightarrow> is_executable (prescribe p i)
           \<and> (\<exists>q b rest. mg_levers g = plain QualityBps q b # rest \<and> 0 < b))"
proof (cases "is_executable (prescribe p i)")
  case False
  then have "is_rejected (prescribe p i)"
    by (cases "d_action (prescribe p i)") (simp_all add: is_executable_def is_rejected_def)
  with False show ?thesis by (simp add: decision_margin_def decision_margin_by_def)
next
  case True
  let ?mid = "d_selected_model_id (prescribe p i)"
  obtain index where pos: "position (\<lambda>m. model_id m = ?mid) (ps_models p) = Some index"
    using executable_in_catalog [OF assms(1) True] position_None [of "\<lambda>m. model_id m = ?mid" "ps_models p"] by auto
  let ?m = "ps_models p ! index"
  have at: "index < length (ps_models p)" "model_id ?m = ?mid" using position_Some [OF pos] by auto
  note eqs = lever_searches [OF assms(2) pos refl] lever_bounds
  have eq: "decision_margin p i = decision_margin_by scan_up scan_down p i"
    unfolding decision_margin_def decision_margin_by_def pos option.case Let_def by (simp only: eqs order_refl)
  let ?pred = "\<lambda>v. wins p i index ?mid (?m\<lparr> quality_bps := of_nat v \<rparr>)"
  have "?pred (unat (quality_bps ?m))"
    using selected_wins [OF assms at(1), of i] True at(2) by (simp add: selected_def)
  then obtain b where b: "scan_up 0 (unat (quality_bps ?m)) ?pred = Some b" "?pred b"
    using scan_up_Some [of 0 "unat (quality_bps ?m)" ?pred] by auto
  have "0 < b"
    using b(2) wins_iff [OF assms(2) at, of "?m\<lparr> quality_bps := of_nat b \<rparr>" i]
      zero_quality_ineligible [of "?m\<lparr> quality_bps := 0 \<rparr>" p i] at(2)
    by (cases b) auto
  with b(1) True pos show ?thesis
    unfolding eq by (auto simp: decision_margin_by_def Let_def)
qed

theorem decision_margin_exhaustive_witness:
  "decision_margin (new_unchecked 1 1 9600 5500 3500 2 [example_model, example_model_2]) example_input
    = decision_margin_by scan_up scan_down
        (new_unchecked 1 1 9600 5500 3500 2 [example_model, example_model_2]) example_input"
  using decision_margin_exhaustive [OF new_unchecked_wf example_orders(3)] by blast

end
