(* ===== verification/Wal.thy ===== *)
theory Wal
  imports State_Chain Merkle_Cache
begin

text \<open>
  The hash-chained write-ahead log (\<open>src/src/wal.rs\<close>, \<open>src/src/bounded_io.rs\<close>): the writer with
  its running hash, the line format, the verifying readers, anchors and the replay of audited
  records, and the Merkle index over a verified log (\<open>src/src/merkle.rs\<close>).

  The file is the list of its bytes. SHA-256 and HMAC-SHA256 are the parameters \<open>H\<close> and \<open>M\<close>;
  \<open>serde_json\<close> is the parameter \<open>S\<close>, a record of the three functions the code calls. The outcome of
  a write is an argument: a failed write leaves any number of bytes of the line in the file.
  Opening a file and the advisory lock are operating system calls and are not modelled; the texts
  of error messages are left out.
\<close>

section \<open>Entries\<close>

definition MIN_HMAC_KEY_BYTES :: nat where
  "MIN_HMAC_KEY_BYTES = 32"

definition MAX_WAL_ENTRY_BYTES :: nat where
  "MAX_WAL_ENTRY_BYTES = 16 * 1024 * 1024"

definition MAX_WAL_PAYLOAD_BYTES :: nat where
  "MAX_WAL_PAYLOAD_BYTES = MAX_WAL_ENTRY_BYTES - 512"

record 'a wal_entry =
  we_sequence :: u64
  previous_hash :: string
  entry_hash :: string
  we_data :: 'a

record wal_anchor =
  wa_schema_version :: string
  wa_sequence :: u64
  wa_last_hash :: string
  wa_keyed :: bool

definition WAL_ANCHOR_SCHEMA :: string where
  "WAL_ANCHOR_SCHEMA = ''calybris.wal-anchor.v1''"

datatype io_kind = InvalidData | InvalidInput | OtherKind | WriteFailed

datatype wal_error =
    WalIo io_kind
  | WalJson
  | ChainBroken u64 string string
  | DuplicateSequence u64
  | AuditFailed u64

text \<open>
  The functions of \<open>serde_json\<close> the log calls: \<open>to_writer\<close> on the stored type (its output, or
  nothing when serialisation fails), \<open>from_slice\<close> to an entry whose data keeps its text
  (\<open>RawValue\<close>), and \<open>from_slice\<close> to an entry of the stored type.
\<close>

record 'a serde =
  ser :: "'a \<Rightarrow> bytes option"
  de_raw :: "bytes \<Rightarrow> bytes wal_entry option"
  de :: "bytes \<Rightarrow> 'a wal_entry option"

definition validate_metadata :: "wal_anchor \<Rightarrow> bool \<Rightarrow> wal_error + unit" where
  "validate_metadata a keyed =
     (if wa_schema_version a \<noteq> WAL_ANCHOR_SCHEMA then Inl (WalIo InvalidData)
      else if wa_keyed a \<noteq> keyed then Inl (WalIo InvalidInput)
      else Inr ())"

definition verify_head :: "wal_anchor \<Rightarrow> u64 \<Rightarrow> string \<Rightarrow> bool \<Rightarrow> wal_error + u64 \<times> string" where
  "verify_head a found_sequence found_hash keyed =
     and_then (validate_metadata a keyed) (\<lambda>_.
       if found_sequence \<noteq> wa_sequence a \<or> found_hash \<noteq> wa_last_hash a then Inl (WalIo InvalidData)
       else Inr (wa_sequence a, wa_last_hash a))"

definition validate_hmac_key :: "bytes \<Rightarrow> wal_error + unit" where
  "validate_hmac_key key = (if length key < MIN_HMAC_KEY_BYTES then Inl (WalIo InvalidInput) else Inr ())"

text \<open>\<open>read_until\<close> on the newline byte: the bytes up to and including the first newline, and the rest.\<close>

fun read_until_newline :: "bytes \<Rightarrow> bytes \<times> bytes" where
  "read_until_newline [] = ([], [])"
| "read_until_newline (b # bs) =
     (if b = 10 then ([b], bs) else let (line, rest) = read_until_newline bs in (b # line, rest))"

definition read_bounded_line :: "bytes \<Rightarrow> wal_error + bytes \<times> bytes" where
  "read_bounded_line file =
     (let (line, rest) = read_until_newline file
      in if length line > MAX_WAL_ENTRY_BYTES then Inl (WalIo InvalidData) else Inr (line, rest))"

lemma read_until_newline_append: "read_until_newline bs = (line, rest) \<Longrightarrow> bs = line @ rest"
  by (induction bs arbitrary: line rest) (auto split: if_splits prod.splits)

lemma read_until_newline_progress: "bs \<noteq> [] \<Longrightarrow> length (snd (read_until_newline bs)) < length bs"
proof (induction bs)
  case (Cons b bs)
  then show ?case by (cases "bs = []") (auto simp: case_prod_unfold Let_def)
qed simp

definition is_ascii_whitespace :: "u8 \<Rightarrow> bool" where
  "is_ascii_whitespace b \<longleftrightarrow> b \<in> {9, 10, 12, 13, 32}"

section \<open>Hashing\<close>

definition compute_hash ::
  "hasher \<Rightarrow> (bytes \<Rightarrow> hasher) \<Rightarrow> string \<Rightarrow> bytes \<Rightarrow> bytes option \<Rightarrow> wal_error + string" where
  "compute_hash H M prev data_json key =
     (case key of
        Some k \<Rightarrow> and_then (validate_hmac_key k) (\<lambda>_. Inr (digest_to_hex (M k (ascii prev @ data_json))))
      | None \<Rightarrow> Inr (digest_to_hex (H (ascii prev @ data_json))))"

section \<open>The writer\<close>

record wal_writer =
  w_file :: bytes
  w_sequence :: u64
  w_last_hash :: string
  w_hmac_key :: "bytes option"
  w_poisoned :: bool

text \<open>\<open>{}\<close> on an unsigned integer.\<close>

fun decimal :: "nat \<Rightarrow> bytes" where
  "decimal n = (if n < 10 then [48 + of_nat n] else decimal (n div 10) @ [48 + of_nat (n mod 10)])"

declare decimal.simps [simp del]

definition entry_line :: "u64 \<Rightarrow> string \<Rightarrow> string \<Rightarrow> bytes \<Rightarrow> bytes" where
  "entry_line sq prev h data_json =
     ascii ''{\"sequence\":'' @ decimal (unat sq) @ ascii '',\"previous_hash\":\"'' @ ascii prev
     @ ascii ''\",\"entry_hash\":\"'' @ ascii h @ ascii ''\",\"data\":'' @ data_json @ ascii ''}'' @ [10]"

text \<open>
  Serialisation through \<open>LimitedWriter\<close>: nothing past the limit is kept. A value that does not
  serialise has no output here, so it is a JSON error; the code reports the limit instead when the
  output passed it before serialisation failed. Both refuse the append and leave the writer unchanged.
\<close>

definition limited_ser :: "nat \<Rightarrow> bytes option \<Rightarrow> wal_error + bytes" where
  "limited_ser limit out =
     (case out of
        None \<Rightarrow> Inl WalJson
      | Some j \<Rightarrow> if length j > limit then Inl (WalIo InvalidInput) else Inr j)"

text \<open>
  \<open>append\<close>; \<open>written\<close> is \<open>None\<close> when \<open>writeln!\<close> succeeds and otherwise how many bytes of the line
  reached the file.
\<close>

definition wal_append ::
  "hasher \<Rightarrow> (bytes \<Rightarrow> hasher) \<Rightarrow> 'a serde \<Rightarrow> nat option \<Rightarrow> 'a \<Rightarrow> wal_writer
    \<Rightarrow> (wal_error + 'a wal_entry) \<times> wal_writer" where
  "wal_append H M S written d w =
     (if w_poisoned w then (Inl (WalIo OtherKind), w)
      else case checked_add (w_sequence w) 1 of
        None \<Rightarrow> (Inl (WalIo InvalidData), w)
      | Some next_sequence \<Rightarrow>
          (case limited_ser MAX_WAL_PAYLOAD_BYTES (ser S d) of
             Inl e \<Rightarrow> (Inl e, w)
           | Inr data_json \<Rightarrow>
               (case compute_hash H M (w_last_hash w) data_json (w_hmac_key w) of
                  Inl e \<Rightarrow> (Inl e, w)
                | Inr eh \<Rightarrow>
                    let prev = w_last_hash w;
                        line = entry_line next_sequence prev eh data_json
                    in case written of
                         Some k \<Rightarrow> (Inl (WalIo WriteFailed), w\<lparr> w_file := w_file w @ take k line, w_poisoned := True \<rparr>)
                       | None \<Rightarrow>
                           (Inr \<lparr> we_sequence = next_sequence, previous_hash = prev, entry_hash = eh, we_data = d \<rparr>,
                            w\<lparr> w_file := w_file w @ line, w_sequence := next_sequence, w_last_hash := eh \<rparr>))))"

text \<open>\<open>flush\<close>, \<open>sync\<close> and \<open>flush_and_sync\<close>; \<open>ok\<close> is the outcome of the system call.\<close>

definition wal_sync :: "bool \<Rightarrow> wal_writer \<Rightarrow> (wal_error + unit) \<times> wal_writer" where
  "wal_sync ok w =
     (if w_poisoned w then (Inl (WalIo OtherKind), w)
      else if \<not> ok then (Inl (WalIo WriteFailed), w\<lparr> w_poisoned := True \<rparr>)
      else (Inr (), w))"

definition writer_anchor :: "wal_writer \<Rightarrow> wal_anchor" where
  "writer_anchor w =
     \<lparr> wa_schema_version = WAL_ANCHOR_SCHEMA, wa_sequence = w_sequence w, wa_last_hash = w_last_hash w,
       wa_keyed = (w_hmac_key w \<noteq> None) \<rparr>"

section \<open>Readers\<close>

text \<open>The checks on one parsed entry, shared by both loops of the source.\<close>

definition check_entry ::
  "hasher \<Rightarrow> (bytes \<Rightarrow> hasher) \<Rightarrow> bytes option \<Rightarrow> u64 \<Rightarrow> string \<Rightarrow> bytes wal_entry \<Rightarrow> wal_error + unit" where
  "check_entry H M key expected last_hash entry =
     (if we_sequence entry \<noteq> expected then Inl (DuplicateSequence (we_sequence entry))
      else if previous_hash entry \<noteq> last_hash
        then Inl (ChainBroken (we_sequence entry) last_hash (previous_hash entry))
      else and_then (compute_hash H M (previous_hash entry) (we_data entry) key) (\<lambda>computed.
        if computed \<noteq> entry_hash entry
        then Inl (ChainBroken (we_sequence entry) computed (entry_hash entry)) else Inr ()))"

function validate_loop ::
  "hasher \<Rightarrow> (bytes \<Rightarrow> hasher) \<Rightarrow> 'a serde \<Rightarrow> bytes option \<Rightarrow> u64 \<Rightarrow> u64 \<Rightarrow> string \<Rightarrow> bytes
    \<Rightarrow> wal_error + u64 \<times> string" where
  "validate_loop H M S key expected last_sequence last_hash file =
     (if file = [] then Inr (last_sequence, last_hash)
      else case read_bounded_line file of
        Inl e \<Rightarrow> Inl e
      | Inr (line, rest) \<Rightarrow>
          if list_all is_ascii_whitespace line
          then validate_loop H M S key expected last_sequence last_hash rest
          else case de_raw S line of
              None \<Rightarrow> Inl WalJson
            | Some entry \<Rightarrow>
                (case check_entry H M key expected last_hash entry of
                   Inl e \<Rightarrow> Inl e
                 | Inr _ \<Rightarrow>
                     (case checked_add expected 1 of
                        None \<Rightarrow> Inl (WalIo InvalidData)
                      | Some expected' \<Rightarrow>
                          validate_loop H M S key expected' (we_sequence entry) (entry_hash entry) rest)))"
  by pat_completeness auto
termination
proof (relation "measure (\<lambda>(H, M, S, key, e, s, h, file). length file)", goal_cases)
  case (2 H M S key e s h bs x line rest)
  then show ?case using read_until_newline_progress [of bs]
    by (auto simp: read_bounded_line_def case_prod_unfold Let_def split: if_splits)
next
  case (3 H M S key e s h bs x line rest entry u e')
  then show ?case using read_until_newline_progress [of bs]
    by (auto simp: read_bounded_line_def case_prod_unfold Let_def split: if_splits)
qed simp

declare validate_loop.simps [simp del]

definition validate_chain_reader ::
  "hasher \<Rightarrow> (bytes \<Rightarrow> hasher) \<Rightarrow> 'a serde \<Rightarrow> bytes option \<Rightarrow> bytes \<Rightarrow> wal_error + u64 \<times> string" where
  "validate_chain_reader H M S key file = validate_loop H M S key 1 0 ''genesis'' file"

definition validate_key :: "bytes option \<Rightarrow> wal_error + unit" where
  "validate_key key = (case key of None \<Rightarrow> Inr () | Some k \<Rightarrow> validate_hmac_key k)"

definition open_inner ::
  "hasher \<Rightarrow> (bytes \<Rightarrow> hasher) \<Rightarrow> 'a serde \<Rightarrow> bytes option \<Rightarrow> bytes \<Rightarrow> wal_error + wal_writer" where
  "open_inner H M S key file =
     and_then (validate_key key) (\<lambda>_.
     and_then (validate_chain_reader H M S key file) (\<lambda>(sq, h).
       Inr \<lparr> w_file = file, w_sequence = sq, w_last_hash = h, w_hmac_key = key, w_poisoned = False \<rparr>))"

definition validate_chain_inner ::
  "hasher \<Rightarrow> (bytes \<Rightarrow> hasher) \<Rightarrow> 'a serde \<Rightarrow> bytes option \<Rightarrow> bytes \<Rightarrow> wal_error + u64 \<times> string" where
  "validate_chain_inner H M S key file =
     and_then (validate_key key) (\<lambda>_. validate_chain_reader H M S key file)"

text \<open>\<open>visit\<close> is a closure over mutable state, here the last argument and second result.\<close>

function visit_loop ::
  "hasher \<Rightarrow> (bytes \<Rightarrow> hasher) \<Rightarrow> 'a serde \<Rightarrow> bytes option \<Rightarrow> ('a wal_entry \<Rightarrow> 's \<Rightarrow> 's)
    \<Rightarrow> u64 \<Rightarrow> u64 \<Rightarrow> string \<Rightarrow> bytes \<Rightarrow> 's \<Rightarrow> (wal_error + u64 \<times> string) \<times> 's" where
  "visit_loop H M S key visit expected last_sequence last_hash file s =
     (if file = [] then (Inr (last_sequence, last_hash), s)
      else case read_bounded_line file of
        Inl e \<Rightarrow> (Inl e, s)
      | Inr (line, rest) \<Rightarrow>
          if list_all is_ascii_whitespace line
          then visit_loop H M S key visit expected last_sequence last_hash rest s
          else case de_raw S line of
              None \<Rightarrow> (Inl WalJson, s)
            | Some entry \<Rightarrow>
                (case check_entry H M key expected last_hash entry of
                   Inl e \<Rightarrow> (Inl e, s)
                 | Inr _ \<Rightarrow>
                     (case checked_add expected 1 of
                        None \<Rightarrow> (Inl (WalIo InvalidData), s)
                      | Some expected' \<Rightarrow>
                          (case de S line of
                             None \<Rightarrow> (Inl WalJson, s)
                           | Some typed \<Rightarrow>
                               visit_loop H M S key visit expected' (we_sequence entry) (entry_hash entry) rest
                                 (visit typed s)))))"
  by pat_completeness auto
termination
proof (relation "measure (\<lambda>(H, M, S, key, v, e, q, h, file, s). length file)", goal_cases)
  case (2 H M S key v e q h bs s x line rest)
  then show ?case using read_until_newline_progress [of bs]
    by (auto simp: read_bounded_line_def case_prod_unfold Let_def split: if_splits)
next
  case (3 H M S key v e q h bs s x line rest entry u e' typed)
  then show ?case using read_until_newline_progress [of bs]
    by (auto simp: read_bounded_line_def case_prod_unfold Let_def split: if_splits)
qed simp

declare visit_loop.simps [simp del]

definition visit_verified_wal_inner ::
  "hasher \<Rightarrow> (bytes \<Rightarrow> hasher) \<Rightarrow> 'a serde \<Rightarrow> bytes option \<Rightarrow> ('a wal_entry \<Rightarrow> 's \<Rightarrow> 's) \<Rightarrow> bytes \<Rightarrow> 's
    \<Rightarrow> (wal_error + u64 \<times> string) \<times> 's" where
  "visit_verified_wal_inner H M S key visit file s =
     (case validate_key key of
        Inl e \<Rightarrow> (Inl e, s)
      | Inr _ \<Rightarrow> visit_loop H M S key visit 1 0 ''genesis'' file s)"

definition read_verified_wal_inner ::
  "hasher \<Rightarrow> (bytes \<Rightarrow> hasher) \<Rightarrow> 'a serde \<Rightarrow> bytes option \<Rightarrow> bytes \<Rightarrow> wal_error + 'a wal_entry list" where
  "read_verified_wal_inner H M S key file =
     (let (r, entries) = visit_verified_wal_inner H M S key (\<lambda>e es. es @ [e]) file []
      in and_then r (\<lambda>_. Inr entries))"

definition read_verified_wal_bounded_inner ::
  "hasher \<Rightarrow> (bytes \<Rightarrow> hasher) \<Rightarrow> 'a serde \<Rightarrow> bytes option \<Rightarrow> nat \<Rightarrow> nat \<Rightarrow> bytes
    \<Rightarrow> wal_error + 'a wal_entry list" where
  "read_verified_wal_bounded_inner H M S key max_entries max_total_bytes file =
     (if length file > max_total_bytes then Inl (WalIo InvalidData)
      else
        let (r, (entries, found)) = visit_verified_wal_inner H M S key
              (\<lambda>e (es, n). (if Suc n \<le> max_entries then es @ [e] else es, Suc n)) file ([], 0)
        in and_then r (\<lambda>_. if found > max_entries then Inl (WalIo InvalidData) else Inr entries))"

function read_wal :: "'a serde \<Rightarrow> bytes \<Rightarrow> wal_error + 'a wal_entry list" where
  "read_wal S file =
     (if file = [] then Inr []
      else case read_bounded_line file of
        Inl e \<Rightarrow> Inl e
      | Inr (line, rest) \<Rightarrow>
          if list_all is_ascii_whitespace line then read_wal S rest
          else case de S line of
              None \<Rightarrow> Inl WalJson
            | Some entry \<Rightarrow> and_then (read_wal S rest) (\<lambda>es. Inr (entry # es)))"
  by pat_completeness auto
termination
proof (relation "measure (\<lambda>(S, file). length file)", goal_cases)
  case (2 S bs x line rest)
  then show ?case using read_until_newline_progress [of bs]
    by (auto simp: read_bounded_line_def case_prod_unfold Let_def split: if_splits)
next
  case (3 S bs x line rest entry)
  then show ?case using read_until_newline_progress [of bs]
    by (auto simp: read_bounded_line_def case_prod_unfold Let_def split: if_splits)
qed simp

declare read_wal.simps [simp del]

definition verify_wal_against_anchor ::
  "hasher \<Rightarrow> (bytes \<Rightarrow> hasher) \<Rightarrow> 'a serde \<Rightarrow> bytes option \<Rightarrow> wal_anchor \<Rightarrow> bytes \<Rightarrow> wal_error + u64 \<times> string" where
  "verify_wal_against_anchor H M S key a file =
     and_then (validate_chain_inner H M S key file) (\<lambda>(sq, h). verify_head a sq h (key \<noteq> None))"

text \<open>The visited type is \<open>RawValue\<close> here, so the typed parser is the raw one.\<close>

definition raw_serde :: "'a serde \<Rightarrow> bytes serde" where
  "raw_serde S = \<lparr> ser = Some, de_raw = de_raw S, de = de_raw S \<rparr>"

definition verify_wal_contains_anchor_inner ::
  "hasher \<Rightarrow> (bytes \<Rightarrow> hasher) \<Rightarrow> 'a serde \<Rightarrow> bytes option \<Rightarrow> wal_anchor \<Rightarrow> bytes \<Rightarrow> wal_error + u64 \<times> string" where
  "verify_wal_contains_anchor_inner H M S key a file =
     and_then (validate_metadata a (key \<noteq> None)) (\<lambda>_.
       let prefix_hash = (if wa_sequence a = 0 then Some ''genesis'' else None);
           (r, prefix_hash) = visit_verified_wal_inner H M (raw_serde S) key
             (\<lambda>entry ph. if we_sequence entry = wa_sequence a then Some (entry_hash entry) else ph) file prefix_hash
       in and_then r (\<lambda>head.
            case prefix_hash of
              None \<Rightarrow> Inl (WalIo InvalidData)
            | Some found_hash \<Rightarrow>
                if found_hash \<noteq> wa_last_hash a then Inl (WalIo InvalidData) else Inr head))"

section \<open>Audited records\<close>

record 'm audited_record =
  ar_audit :: audit_bundle
  ar_input :: kernel_input
  ar_decision :: kernel_decision
  ar_metadata :: 'm

record wal_replay_verdict =
  rv_sequence :: u64
  rv_replay_valid :: bool
  policy_digest_match :: bool
  input_digest_match :: bool
  decision_digest_match :: bool

definition append_audited ::
  "hasher \<Rightarrow> (bytes \<Rightarrow> hasher) \<Rightarrow> 'm audited_record serde \<Rightarrow> nat option \<Rightarrow> policy_snapshot \<Rightarrow> kernel_input
    \<Rightarrow> kernel_decision \<Rightarrow> 'm \<Rightarrow> wal_writer \<Rightarrow> (wal_error + 'm audited_record wal_entry) \<times> wal_writer" where
  "append_audited H M S written p i d m w =
     wal_append H M S written
       \<lparr> ar_audit = audit_bundle_of H p i d, ar_input = i, ar_decision = d, ar_metadata = m \<rparr> w"

definition append_verified_audited ::
  "hasher \<Rightarrow> (bytes \<Rightarrow> hasher) \<Rightarrow> 'm audited_record serde \<Rightarrow> nat option \<Rightarrow> policy_snapshot \<Rightarrow> kernel_input
    \<Rightarrow> kernel_decision \<Rightarrow> 'm \<Rightarrow> wal_writer \<Rightarrow> (wal_error + 'm audited_record wal_entry) \<times> wal_writer" where
  "append_verified_audited H M S written p i d m w =
     (case verified_audit_bundle H p i d of
        Inl _ \<Rightarrow> (Inl (AuditFailed (saturating_add (w_sequence w) 1)), w)
      | Inr audit \<Rightarrow>
          wal_append H M S written \<lparr> ar_audit = audit, ar_input = i, ar_decision = d, ar_metadata = m \<rparr> w)"

type_synonym policy_resolver = "u64 \<Rightarrow> u64 \<Rightarrow> string \<Rightarrow> policy_snapshot option"

fun verify_audited_entries ::
  "hasher \<Rightarrow> policy_resolver \<Rightarrow> 'm audited_record wal_entry list \<Rightarrow> wal_error + wal_replay_verdict list" where
  "verify_audited_entries H resolve [] = Inr []"
| "verify_audited_entries H resolve (e # es) =
     (let bundle = ar_audit (we_data e); i = ar_input (we_data e); d = ar_decision (we_data e) in
      and_then (map_err (\<lambda>_. AuditFailed (we_sequence e)) (validate_canonical bundle)) (\<lambda>_.
      and_then (ok_or (AuditFailed (we_sequence e))
          (resolve (ab_policy_epoch bundle) (ab_catalog_epoch bundle) (policy_digest_hex bundle))) (\<lambda>p.
        let rv = (verify_decision H p i d = Valid);
            pm = (policy_digest_hex bundle = digest_to_hex (policy_digest H p));
            im = (input_digest_hex bundle = digest_to_hex (input_digest H i));
            dm = (decision_digest_hex bundle = digest_to_hex (decision_digest H d))
        in if \<not> rv \<or> \<not> pm \<or> \<not> im \<or> \<not> dm then Inl (AuditFailed (we_sequence e))
           else and_then (verify_audited_entries H resolve es) (\<lambda>vs.
             Inr (\<lparr> rv_sequence = we_sequence e, rv_replay_valid = rv, policy_digest_match = pm,
                    input_digest_match = im, decision_digest_match = dm \<rparr> # vs)))))"

text \<open>The resolver closure over one policy.\<close>

definition single_policy :: "hasher \<Rightarrow> policy_snapshot \<Rightarrow> policy_resolver" where
  "single_policy H p = (\<lambda>policy_epoch catalog_epoch digest.
     if policy_epoch = ps_policy_epoch p \<and> catalog_epoch = ps_catalog_epoch p
        \<and> digest = digest_to_hex (policy_digest H p) then Some p else None)"

definition replay_audited_wal_keyed ::
  "hasher \<Rightarrow> (bytes \<Rightarrow> hasher) \<Rightarrow> 'm audited_record serde \<Rightarrow> policy_snapshot \<Rightarrow> bytes option \<Rightarrow> bytes
    \<Rightarrow> wal_error + wal_replay_verdict list" where
  "replay_audited_wal_keyed H M S p key file =
     and_then (read_verified_wal_inner H M S key file) (verify_audited_entries H (single_policy H p))"

definition replay_audited_wal_keyed_bounded ::
  "hasher \<Rightarrow> (bytes \<Rightarrow> hasher) \<Rightarrow> 'm audited_record serde \<Rightarrow> policy_snapshot \<Rightarrow> bytes option \<Rightarrow> nat \<Rightarrow> nat \<Rightarrow> bytes
    \<Rightarrow> wal_error + wal_replay_verdict list" where
  "replay_audited_wal_keyed_bounded H M S p key max_entries max_total_bytes file =
     and_then (read_verified_wal_bounded_inner H M S key max_entries max_total_bytes file)
       (verify_audited_entries H (single_policy H p))"

definition replay_audited_wal_with_resolver ::
  "hasher \<Rightarrow> (bytes \<Rightarrow> hasher) \<Rightarrow> 'm audited_record serde \<Rightarrow> policy_resolver \<Rightarrow> bytes option \<Rightarrow> bytes
    \<Rightarrow> wal_error + wal_replay_verdict list" where
  "replay_audited_wal_with_resolver H M S resolve key file =
     and_then (read_verified_wal_inner H M S key file) (verify_audited_entries H resolve)"

section \<open>The Merkle index of a log\<close>

datatype wal_merkle_error = MerkleWal wal_error | MerkleEntry merkle_error

text \<open>The visited type is \<open>serde_json::Value\<close>; only the hash of an entry is used.\<close>

definition from_verified_wal ::
  "hasher \<Rightarrow> (bytes \<Rightarrow> hasher) \<Rightarrow> 'a serde \<Rightarrow> bytes option \<Rightarrow> bytes \<Rightarrow> wal_merkle_error + merkle_tree" where
  "from_verified_wal H M S key file =
     (let (r, (tree, bad)) = visit_verified_wal_inner H M S key
            (\<lambda>entry (tree, bad).
               case leaf_from_entry_hash (ascii (entry_hash entry)) of
                 Inr data \<Rightarrow> (push H (leaf_hash H data) tree, bad)
               | Inl error \<Rightarrow> (tree, Some error)) file (new_tree, None)
      in case r of
           Inl e \<Rightarrow> Inl (MerkleWal e)
         | Inr _ \<Rightarrow> (case bad of Some error \<Rightarrow> Inl (MerkleEntry error) | None \<Rightarrow> Inr tree))"

end
