(* ===== verification/Wal_Correct.thy ===== *)
theory Wal_Correct
  imports Wal
begin

text \<open>
  What the log guarantees: a log that was only appended to verifies and reads back what was
  appended; the head of a log fixes all its entries up to a collision; the replay of audited
  records accepts exactly the records the kernel issues; the Merkle index of a log is the tree over
  its entry hashes. A log that lost only its last newline is accepted and the next append, reported
  as a success, makes it unreadable.
\<close>

section \<open>Reading lines\<close>

definition ends_line :: "bytes \<Rightarrow> bool" where
  "ends_line f \<longleftrightarrow> f = [] \<or> last f = 10"

lemma read_until_newline_no: "10 \<notin> set bs \<Longrightarrow> read_until_newline (bs @ 10 # rest) = (bs @ [10], rest)"
  by (induction bs) auto

lemma read_until_newline_in:
  "10 \<in> set f \<Longrightarrow> read_until_newline (f @ g) = (fst (read_until_newline f), snd (read_until_newline f) @ g)"
  by (induction f) (auto simp: case_prod_unfold Let_def)

lemma ends_line_rest: "ends_line f \<Longrightarrow> f \<noteq> [] \<Longrightarrow> ends_line (snd (read_until_newline f))"
proof (induction f)
  case (Cons b f)
  then show ?case by (cases "f = []") (auto simp: ends_line_def case_prod_unfold Let_def)
qed simp

lemma ends_line_append: "ends_line g \<Longrightarrow> g \<noteq> [] \<Longrightarrow> ends_line (f @ g)"
  by (simp add: ends_line_def)

lemma read_bounded_line_Inr:
  "read_bounded_line f = Inr (line, rest) \<longleftrightarrow>
     read_until_newline f = (line, rest) \<and> length line \<le> MAX_WAL_ENTRY_BYTES"
  by (auto simp: read_bounded_line_def Let_def split: prod.splits if_splits)

lemma read_wal_append:
  "ends_line f \<Longrightarrow> read_wal S (f @ g) = and_then (read_wal S f) (\<lambda>es. and_then (read_wal S g) (\<lambda>es'. Inr (es @ es')))"
proof (induction S f rule: read_wal.induct)
  case (1 S f)
  show ?case
  proof (cases "f = []")
    case True
    then show ?thesis by (cases "read_wal S g") (simp_all add: read_wal.simps [of S "[]"])
  next
    case False
    then have nl: "10 \<in> set f" using 1(3) by (auto simp: ends_line_def) (metis last_in_set)
    obtain line rest where lr: "read_until_newline f = (line, rest)" by force
    have rest: "ends_line rest" using ends_line_rest [OF 1(3) False] lr by simp
    have lr': "read_until_newline (f @ g) = (line, rest @ g)" using read_until_newline_in [OF nl, of g] lr by simp
    show ?thesis
    proof (cases "length line \<le> MAX_WAL_ENTRY_BYTES")
      case False
      with lr lr' \<open>f \<noteq> []\<close> show ?thesis
        by (simp add: read_wal.simps [of S f] read_wal.simps [of S "f @ g"] read_bounded_line_def)
    next
      case True
      with lr lr' have b: "read_bounded_line f = Inr (line, rest)" "read_bounded_line (f @ g) = Inr (line, rest @ g)"
        by (simp_all add: read_bounded_line_Inr)
      note steps = read_wal.simps [of S f] read_wal.simps [of S "f @ g"]
      show ?thesis
      proof (cases "list_all is_ascii_whitespace line")
        case ws: True
        with 1(1) [OF False b(1) refl ws rest] b False show ?thesis by (simp add: steps)
      next
        case ws: False
        show ?thesis
        proof (cases "de S line")
          case None
          with ws b False show ?thesis by (simp add: steps)
        next
          case (Some e)
          with 1(2) [OF False b(1) refl ws Some rest] ws b False show ?thesis
            by (cases "read_wal S rest"; cases "read_wal S g") (simp_all add: steps)
        qed
      qed
    qed
  qed
qed

lemma read_wal_line:
  assumes "10 \<notin> set body" "length body < MAX_WAL_ENTRY_BYTES" "\<not> list_all is_ascii_whitespace body"
  shows "read_wal S (body @ [10]) = (case de S (body @ [10]) of None \<Rightarrow> Inl WalJson | Some e \<Rightarrow> Inr [e])"
proof -
  have "read_bounded_line (body @ [10]) = Inr (body @ [10], [])"
    using read_until_newline_no [OF assms(1), of "[]"] assms(2) by (simp add: read_bounded_line_Inr)
  then show ?thesis
    using assms(3) by (simp add: read_wal.simps [of S "body @ [10]"] read_wal.simps [of S "[]"] split: option.split)
qed

section \<open>Chains\<close>

text \<open>The hash function in use: keyed or not.\<close>

definition wal_hasher :: "hasher \<Rightarrow> (bytes \<Rightarrow> hasher) \<Rightarrow> bytes option \<Rightarrow> hasher" where
  "wal_hasher H M key = (case key of None \<Rightarrow> H | Some k \<Rightarrow> M k)"

lemma compute_hash_Inr:
  "validate_key key = Inr () \<Longrightarrow>
     compute_hash H M prev d key = Inr (digest_to_hex (wal_hasher H M key (ascii prev @ d)))"
  by (auto simp: compute_hash_def wal_hasher_def validate_key_def split: option.splits)

fun chain_from :: "hasher \<Rightarrow> nat \<Rightarrow> string \<Rightarrow> bytes wal_entry list \<Rightarrow> bool" where
  "chain_from G n h [] = True"
| "chain_from G n h (e # es) =
     (unat (we_sequence e) = Suc n \<and> previous_hash e = h
      \<and> entry_hash e = digest_to_hex (G (ascii h @ we_data e)) \<and> chain_from G (Suc n) (entry_hash e) es)"

definition head_hash :: "string \<Rightarrow> 'a wal_entry list \<Rightarrow> string" where
  "head_hash h es = (if es = [] then h else entry_hash (last es))"

lemma head_hash_simps [simp]: "head_hash h [] = h" "head_hash h (e # es) = head_hash (entry_hash e) es"
  "head_hash h (es @ [e]) = entry_hash e"
  by (simp_all add: head_hash_def)

lemma chain_from_append:
  "chain_from G n h (es @ fs) \<longleftrightarrow> chain_from G n h es \<and> chain_from G (n + length es) (head_hash h es) fs"
  by (induction es arbitrary: n h) auto

lemma check_entry_Inr:
  assumes "validate_key key = Inr ()"
  shows "check_entry H M key expected h e = Inr () \<longleftrightarrow>
    we_sequence e = expected \<and> previous_hash e = h
    \<and> entry_hash e = digest_to_hex (wal_hasher H M key (ascii h @ we_data e))"
  using assms by (auto simp: check_entry_def compute_hash_Inr)

definition last_seq :: "u64 \<Rightarrow> 'a wal_entry list \<Rightarrow> u64" where
  "last_seq s es = (if es = [] then s else we_sequence (last es))"

lemma last_seq_simps [simp]: "last_seq s [] = s" "last_seq s (e # es) = last_seq (we_sequence e) es"
  by (simp_all add: last_seq_def)

lemma expected_succ: "checked_add e 1 = Some e' \<Longrightarrow> unat e' = Suc (unat e)" for e e' :: u64
  by (auto simp: unat_add_1)

lemma raw_serde_simps [simp]: "de (raw_serde S) = de_raw S" "de_raw (raw_serde S) = de_raw S"
  by (simp_all add: raw_serde_def)

lemma loops_Nil [simp]:
  "validate_loop H M S key expected q h [] = Inr (q, h)" "read_wal S [] = Inr []"
  "visit_loop H M S key visit expected q h [] s = (Inr (q, h), s)"
  by (simp_all add: validate_loop.simps [of _ _ _ _ _ _ _ "[]"] read_wal.simps [of _ "[]"]
      visit_loop.simps [of _ _ _ _ _ _ _ _ "[]"])

lemma ex_Cons:
  assumes "\<And>fs. R fs \<longleftrightarrow> (\<exists>es. Q es \<and> fs = e # es)" and "\<And>es. P es \<longleftrightarrow> P' (e # es)"
  shows "(\<exists>es. Q es \<and> P es) \<longleftrightarrow> (\<exists>fs. R fs \<and> P' fs)"
  unfolding assms by blast

lemma validate_loop_Inr:
  assumes key: "validate_key key = Inr ()"
  shows "0 < unat expected \<Longrightarrow>
    validate_loop H M S key expected s h f = Inr r \<longleftrightarrow>
      (\<exists>es. read_wal (raw_serde S) f = Inr es \<and> chain_from (wal_hasher H M key) (unat expected - 1) h es
         \<and> unat expected + length es < 2 ^ 64 \<and> r = (last_seq s es, head_hash h es))"
proof (induction "length f" arbitrary: f expected s h rule: less_induct)
  case less
  note vl = validate_loop.simps [of H M S key expected s h f] and rw = read_wal.simps [of "raw_serde S" f]
  show ?case
  proof (cases "f = []")
    case True
    then show ?thesis using unat_lt2p [of expected] by (auto simp: vl rw)
  next
    case False
    show ?thesis
    proof (cases "read_bounded_line f")
      case (Inl e)
      with False show ?thesis by (simp add: vl rw)
    next
      case (Inr lr)
      obtain line rest where lr: "lr = (line, rest)" by force
      have sh: "length rest < length f"
        using Inr lr read_until_newline_progress [OF False] by (simp add: read_bounded_line_Inr)
      show ?thesis
      proof (cases "list_all is_ascii_whitespace line")
        case True
        with Inr lr False less.hyps [OF sh less.prems] show ?thesis by (simp add: vl rw)
      next
        case ws: False
        show ?thesis
        proof (cases "de_raw S line")
          case None
          with Inr lr False ws show ?thesis by (simp add: vl rw)
        next
          case (Some e)
          have seq: "we_sequence e = expected \<longleftrightarrow> unat (we_sequence e) = Suc (unat expected - 1)"
            using less.prems by (simp add: unat_eq_iff [symmetric])
          show ?thesis
          proof (cases "check_entry H M key expected h e")
            case (Inl x)
            with check_entry_Inr [OF key, of H M expected h e] seq
            have "\<not> chain_from (wal_hasher H M key) (unat expected - 1) h (e # es)" for es by auto
            with Inl Some Inr lr False ws show ?thesis by (auto simp: vl rw)
          next
            case ok: (Inr u)
            with check_entry_Inr [OF key, of H M expected h e] seq
            have ch: "chain_from (wal_hasher H M key) (unat expected - 1) h (e # es) \<longleftrightarrow>
                chain_from (wal_hasher H M key) (unat expected) (entry_hash e) es" for es
              using less.prems by auto
            show ?thesis
            proof (cases "checked_add expected 1")
              case None
              then have big: "2 ^ 64 \<le> unat expected + 1" by simp
              have "validate_loop H M S key expected s h f = Inl (WalIo InvalidData)"
                using None Some Inr ok lr False ws by (simp add: vl del: checked_add_None)
              moreover have "\<not> unat expected + length es < 2 ^ 64" if "read_wal (raw_serde S) f = Inr es" for es
              proof -
                have "es \<noteq> []" using that Some Inr lr False ws by (auto simp: rw)
                then have "1 \<le> length es" by (cases es) simp_all
                with big show ?thesis by linarith
              qed
              ultimately show ?thesis by auto
            next
              case e': (Some e')
              have u: "unat e' = Suc (unat expected)" using expected_succ [OF e'] .
              have "validate_loop H M S key expected s h f = validate_loop H M S key e' (we_sequence e) (entry_hash e) rest"
                using e' Some Inr ok lr False ws by (simp add: vl del: checked_add_Some)
              note vleq = this
              have rd: "read_wal (raw_serde S) f = Inr fs \<longleftrightarrow> (\<exists>es. read_wal (raw_serde S) rest = Inr es \<and> fs = e # es)" for fs
                using Some Inr lr False ws by (auto simp: rw)
              have "0 < unat e'" using u by simp
              note IH = less.hyps [OF sh this, of "we_sequence e" "entry_hash e"]
              show ?thesis
                unfolding vleq IH by (rule ex_Cons [OF rd]) (simp add: ch [simplified One_nat_def] u del: chain_from.simps)
            qed
          qed
        qed
      qed
    qed
  qed
qed

lemma visit_loop_Inr:
  "visit_loop H M S key visit expected q h f s = (Inr r, s') \<longleftrightarrow>
     validate_loop H M S key expected q h f = Inr r \<and> (\<exists>ts. read_wal S f = Inr ts \<and> s' = fold visit ts s)"
proof (induction "length f" arbitrary: f expected q h s rule: less_induct)
  case less
  note vl = visit_loop.simps [of H M S key visit expected q h f s]
    validate_loop.simps [of H M S key expected q h f] read_wal.simps [of S f]
  show ?case
  proof (cases "f = []")
    case True
    then show ?thesis by (auto simp: vl)
  next
    case False
    show ?thesis
    proof (cases "read_bounded_line f")
      case (Inl e)
      with False show ?thesis by (simp add: vl)
    next
      case (Inr lr)
      obtain line rest where lr: "lr = (line, rest)" by force
      have sh: "length rest < length f"
        using Inr lr read_until_newline_progress [OF False] by (simp add: read_bounded_line_Inr)
      note IH = less.hyps [OF sh]
      show ?thesis
        using Inr lr False IH
        by (auto simp: vl simp del: checked_add_Some checked_add_None split: if_splits option.splits sum.splits)
    qed
  qed
qed

lemma validate_chain_Inr:
  "validate_chain_inner H M S key f = Inr (n, h) \<longleftrightarrow>
     validate_key key = Inr ()
     \<and> (\<exists>es. read_wal (raw_serde S) f = Inr es \<and> chain_from (wal_hasher H M key) 0 ''genesis'' es
          \<and> Suc (length es) < 2 ^ 64 \<and> n = last_seq 0 es \<and> h = head_hash ''genesis'' es)"
  using validate_loop_Inr [of key 1 H M S 0 "''genesis''" f "(n, h)"]
  by (auto simp: validate_chain_inner_def validate_chain_reader_def)

lemma chain_from_last_seq: "chain_from G n h es \<Longrightarrow> es \<noteq> [] \<Longrightarrow> unat (last_seq s es) = n + length es"
  by (cases es rule: rev_cases) (simp_all add: chain_from_append last_seq_def)

section \<open>The head of a log fixes its entries\<close>

text \<open>What is hashed along a chain.\<close>

definition chain_inputs :: "bytes wal_entry list \<Rightarrow> bytes list" where
  "chain_inputs es = map (\<lambda>e. ascii (previous_hash e) @ we_data e) es"

lemma chain_hash_length: "chain_from G n h es \<Longrightarrow> es \<noteq> [] \<Longrightarrow> length (head_hash h es) = 64"
  by (cases es rule: rev_cases) (simp_all add: chain_from_append digest_to_hex_def)

lemma chain_binds:
  assumes "chain_from G 0 ''genesis'' es" "chain_from G 0 ''genesis'' fs"
    and "length es = length fs" "head_hash ''genesis'' es = head_hash ''genesis'' fs"
  shows "es = fs \<or> collision G (chain_inputs es) (chain_inputs fs)"
  using assms
proof (induction es arbitrary: fs rule: rev_induct)
  case (snoc e es)
  then obtain f gs where fs: "fs = gs @ [f]" by (metis length_0_conv rev_exhaust snoc_eq_iff_butlast)
  let ?h = "head_hash ''genesis'' es" and ?k = "head_hash ''genesis'' gs"
  have len: "length es = length gs" using snoc.prems(3) fs by simp
  have ce: "chain_from G 0 ''genesis'' es" "unat (we_sequence e) = Suc (length es)" "previous_hash e = ?h"
    "entry_hash e = digest_to_hex (G (ascii ?h @ we_data e))"
    using snoc.prems(1) by (simp_all add: chain_from_append)
  have cf: "chain_from G 0 ''genesis'' gs" "unat (we_sequence f) = Suc (length es)" "previous_hash f = ?k"
    "entry_hash f = digest_to_hex (G (ascii ?k @ we_data f))"
    using snoc.prems(2) by (simp_all add: chain_from_append fs len)
  have "entry_hash e = entry_hash f" using snoc.prems(4) fs by simp
  then have g: "G (ascii ?h @ we_data e) = G (ascii ?k @ we_data f)" using ce(4) cf(4) by simp
  show ?case
  proof (cases "ascii ?h @ we_data e = ascii ?k @ we_data f")
    case False
    with g show ?thesis by (intro disjI2 collisionI [OF g False]) (simp_all add: chain_inputs_def ce(3) cf(3) fs)
  next
    case True
    have "length ?h = length ?k"
      using chain_hash_length [OF ce(1)] chain_hash_length [OF cf(1)] len by (cases "es = []"; cases "gs = []") auto
    with True have "?h = ?k" "we_data e = we_data f" by simp_all
    moreover have "we_sequence e = we_sequence f" using ce(2) cf(2) by (simp add: unat_eq_iff [symmetric])
    ultimately have "e = f" using ce(3) cf(3) \<open>entry_hash e = entry_hash f\<close> by (intro wal_entry.equality) simp_all
    moreover have "es = gs \<or> collision G (chain_inputs es) (chain_inputs gs)"
      using snoc.IH [OF ce(1) cf(1) len] \<open>?h = ?k\<close> by simp
    moreover have "collision G (chain_inputs (es @ [e])) (chain_inputs fs)"
      if "collision G (chain_inputs es) (chain_inputs gs)"
      by (rule collision_mono [OF that]) (auto simp: chain_inputs_def fs)
    ultimately show ?thesis unfolding fs by blast
  qed
qed simp

text \<open>
  C14. The log is tamper-evident: two files that verify to the same head (sequence number and hash,
  with or without a key) hold the same entries, data included, unless the bytes hashed along the
  two chains contain a collision of the hash function in use. A suffix cannot be dropped, an entry
  changed, inserted, removed or moved without changing the head.
\<close>

theorem wal_head_binds:
  assumes "validate_chain_inner H M S key f = Inr head" and "validate_chain_inner H M S key g = Inr head"
  shows "\<exists>es fs. read_wal (raw_serde S) f = Inr es \<and> read_wal (raw_serde S) g = Inr fs
    \<and> (es = fs \<or> collision (wal_hasher H M key) (chain_inputs es) (chain_inputs fs))"
proof -
  obtain n h where head: "head = (n, h)" by force
  obtain es where es: "read_wal (raw_serde S) f = Inr es" "chain_from (wal_hasher H M key) 0 ''genesis'' es"
    "n = last_seq 0 es" "h = head_hash ''genesis'' es"
    using assms(1) unfolding head validate_chain_Inr by blast
  obtain fs where fs: "read_wal (raw_serde S) g = Inr fs" "chain_from (wal_hasher H M key) 0 ''genesis'' fs"
    "n = last_seq 0 fs" "h = head_hash ''genesis'' fs"
    using assms(2) unfolding head validate_chain_Inr by blast
  have "unat n = length es" "unat n = length fs"
    using chain_from_last_seq [OF es(2), of 0] chain_from_last_seq [OF fs(2), of 0] es(3) fs(3)
    by (cases "es = []"; cases "fs = []"; simp)+
  with chain_binds [OF es(2) fs(2)] es fs show ?thesis by auto
qed

section \<open>Appending\<close>

text \<open>
  What the log relies on in \<open>serde_json\<close>: compact output has no newline, strings of printable
  characters other than quote and backslash are written and read as they are, and reading back a
  line written with the output for \<open>d\<close> gives its four fields, the raw text of the data for a
  \<open>RawValue\<close> and \<open>d\<close> itself for the stored type.
\<close>

definition plain_text :: "string \<Rightarrow> bool" where
  "plain_text s \<longleftrightarrow> list_all (\<lambda>b. 32 \<le> b \<and> b < 127 \<and> b \<noteq> 34 \<and> b \<noteq> 92) (ascii s)"

definition serde_ok :: "'a serde \<Rightarrow> bool" where
  "serde_ok S \<longleftrightarrow>
     (\<forall>d j. ser S d = Some j \<longrightarrow> 10 \<notin> set j
        \<and> (\<forall>n p h. plain_text p \<longrightarrow> plain_text h \<longrightarrow>
             de_raw S (entry_line n p h j) = Some \<lparr> we_sequence = n, previous_hash = p, entry_hash = h, we_data = j \<rparr>
             \<and> de S (entry_line n p h j) = Some \<lparr> we_sequence = n, previous_hash = p, entry_hash = h, we_data = d \<rparr>))"

lemma serde_okD:
  assumes "serde_ok S" "ser S d = Some j"
  shows "10 \<notin> set j"
    "plain_text p \<Longrightarrow> plain_text h \<Longrightarrow>
      de_raw S (entry_line n p h j) = Some \<lparr> we_sequence = n, previous_hash = p, entry_hash = h, we_data = j \<rparr>"
    "plain_text p \<Longrightarrow> plain_text h \<Longrightarrow>
      de S (entry_line n p h j) = Some \<lparr> we_sequence = n, previous_hash = p, entry_hash = h, we_data = d \<rparr>"
  using assms unfolding serde_ok_def by blast+

lemma decimal_digits: "list_all (\<lambda>b. 48 \<le> b \<and> b \<le> 57) (decimal n)"
proof (induction n rule: decimal.induct)
  case (1 n)
  have "(48 :: u8) \<le> 48 + of_nat k \<and> 48 + of_nat k \<le> (57 :: u8)" if "k < 10" for k :: nat
    using that by (simp add: word_le_nat_alt unat_word_ariths unat_of_nat)
  then show ?case using 1 by (simp add: decimal.simps [of n])
qed

lemma length_decimal: "n < 10 ^ Suc k \<Longrightarrow> length (decimal n) \<le> Suc k"
proof (induction k arbitrary: n)
  case 0
  then show ?case by (simp add: decimal.simps [of n])
next
  case (Suc k)
  have "n div 10 < 10 ^ Suc k" using Suc.prems by (simp add: less_mult_imp_div_less mult.commute)
  with Suc.IH show ?case by (simp add: decimal.simps [of n])
qed

lemma length_decimal_u64: "length (decimal (unat n)) \<le> 20" for n :: u64
  using length_decimal [of "unat n" 19] unat_lt2p [of n] by simp

definition entry_body :: "u64 \<Rightarrow> string \<Rightarrow> string \<Rightarrow> bytes \<Rightarrow> bytes" where
  "entry_body n p h j = butlast (entry_line n p h j)"

lemma entry_line_body: "entry_line n p h j = entry_body n p h j @ [10]"
  by (simp add: entry_body_def entry_line_def butlast_append)

lemma ten_notin_plain: "plain_text s \<Longrightarrow> 10 \<notin> set (ascii s)"
  by (auto simp: plain_text_def list_all_iff)

lemma entry_body_no_newline:
  assumes "plain_text p" "plain_text h" "10 \<notin> set j"
  shows "10 \<notin> set (entry_body n p h j)"
  using assms decimal_digits [of "unat n"]
  by (auto simp: entry_body_def entry_line_def butlast_append ten_notin_plain list_all_iff simp del: ascii_Cons)
    (auto simp: ascii_def)

lemma entry_body_visible: "\<not> list_all is_ascii_whitespace (entry_body n p h j)"
  by (simp add: entry_body_def entry_line_def butlast_append is_ascii_whitespace_def)

lemma length_entry_body:
  assumes "length p \<le> 64" "length h \<le> 64" "length j \<le> MAX_WAL_PAYLOAD_BYTES"
  shows "length (entry_body n p h j) < MAX_WAL_ENTRY_BYTES"
  using assms length_decimal_u64 [of n]
  by (simp add: entry_body_def entry_line_def butlast_append MAX_WAL_PAYLOAD_BYTES_def MAX_WAL_ENTRY_BYTES_def)

lemma plain_genesis: "plain_text ''genesis''"
  by (simp add: plain_text_def)

lemma plain_hex: "plain_text (digest_to_hex h)"
proof -
  have "list_all is_lower_hex (ascii (digest_to_hex h))"
    using canonical_digest_to_hex [of h] by (simp add: canonical_digest_def)
  moreover have "is_lower_hex b \<Longrightarrow> 32 \<le> b \<and> b < 127 \<and> b \<noteq> 34 \<and> b \<noteq> 92" for b
    by (auto simp: is_lower_hex_def word_le_nat_alt word_less_nat_alt)
  ultimately show ?thesis by (auto simp: plain_text_def list_all_iff)
qed

lemma chain_head_plain: "chain_from G n h es \<Longrightarrow> plain_text h \<Longrightarrow> plain_text (head_hash h es)"
  by (cases es rule: rev_cases) (simp_all add: chain_from_append plain_hex)

lemma chain_head_length: "chain_from G n ''genesis'' es \<Longrightarrow> length (head_hash ''genesis'' es) \<le> 64"
  using chain_hash_length [of G n "''genesis''" es] by (cases "es = []") simp_all

lemma read_entry_line:
  assumes "serde_ok S" "ser S d = Some j" "length j \<le> MAX_WAL_PAYLOAD_BYTES"
    and "plain_text p" "plain_text h" "length p \<le> 64" "length h \<le> 64"
  shows "read_wal (raw_serde S) (entry_line n p h j)
      = Inr [\<lparr> we_sequence = n, previous_hash = p, entry_hash = h, we_data = j \<rparr>]"
    "read_wal S (entry_line n p h j) = Inr [\<lparr> we_sequence = n, previous_hash = p, entry_hash = h, we_data = d \<rparr>]"
  unfolding read_wal_line [OF entry_body_no_newline [OF assms(4,5) serde_okD(1) [OF assms(1,2)]]
      length_entry_body [OF assms(6,7,3)] entry_body_visible, folded entry_line_body]
  by (simp_all add: serde_okD(2,3) [OF assms(1,2,4,5)])

text \<open>The state of a writer whose file holds the entries \<open>es\<close>, as typed values \<open>ts\<close>.\<close>

definition writer_holds ::
  "hasher \<Rightarrow> (bytes \<Rightarrow> hasher) \<Rightarrow> 'a serde \<Rightarrow> wal_writer \<Rightarrow> bytes wal_entry list \<Rightarrow> 'a wal_entry list \<Rightarrow> bool" where
  "writer_holds H M S w es ts \<longleftrightarrow>
     \<not> w_poisoned w \<and> validate_key (w_hmac_key w) = Inr () \<and> ends_line (w_file w)
     \<and> read_wal (raw_serde S) (w_file w) = Inr es \<and> read_wal S (w_file w) = Inr ts
     \<and> chain_from (wal_hasher H M (w_hmac_key w)) 0 ''genesis'' es
     \<and> unat (w_sequence w) = length es \<and> w_last_hash w = head_hash ''genesis'' es"

lemma append_holds:
  assumes "serde_ok S" "writer_holds H M S w es ts"
    and "ser S d = Some j" "length j \<le> MAX_WAL_PAYLOAD_BYTES" "Suc (length es) < 2 ^ 64"
  shows "\<exists>e t w'. wal_append H M S None d w = (Inr t, w') \<and> we_data t = d
    \<and> writer_holds H M S w' (es @ [e]) (ts @ [t]) \<and> w_hmac_key w' = w_hmac_key w"
proof -
  let ?G = "wal_hasher H M (w_hmac_key w)" and ?p = "head_hash ''genesis'' es" and ?n = "w_sequence w + 1"
  let ?h = "digest_to_hex (?G (ascii ?p @ j))"
  note wh = assms(2) [unfolded writer_holds_def]
  have n: "unat ?n = Suc (length es)" "checked_add (w_sequence w) 1 = Some ?n"
    using wh assms(5) by (simp_all add: unat_add_1)
  have plain: "plain_text ?p" "plain_text ?h" using wh chain_head_plain plain_genesis plain_hex by blast+
  have len: "length ?p \<le> 64" "length ?h \<le> 64" using wh chain_head_length by (blast, simp add: digest_to_hex_def)
  let ?e = "\<lparr> we_sequence = ?n, previous_hash = ?p, entry_hash = ?h, we_data = j \<rparr>"
  let ?t = "\<lparr> we_sequence = ?n, previous_hash = ?p, entry_hash = ?h, we_data = d \<rparr>"
  let ?line = "entry_line ?n ?p ?h j"
  note rd = read_entry_line [OF assms(1,3,4) plain len]
  let ?w = "w\<lparr> w_file := w_file w @ ?line, w_sequence := ?n, w_last_hash := ?h \<rparr>"
  have "wal_append H M S None d w = (Inr ?t, ?w)"
    using wh assms(3,4) n(2) compute_hash_Inr [of "w_hmac_key w" H M ?p j]
    by (simp add: wal_append_def limited_ser_def Let_def del: checked_add_Some)
  moreover have "writer_holds H M S ?w (es @ [?e]) (ts @ [?t])"
    using wh rd n(1) by (simp add: writer_holds_def read_wal_append chain_from_append)
      (simp add: ends_line_def entry_line_body)
  ultimately show ?thesis by (intro exI [of _ ?e] exI [of _ ?t] exI [of _ ?w]) simp
qed

section \<open>Round trip\<close>

text \<open>A run of appends, none of which fails to write.\<close>

fun append_all ::
  "hasher \<Rightarrow> (bytes \<Rightarrow> hasher) \<Rightarrow> 'a serde \<Rightarrow> 'a list \<Rightarrow> wal_writer \<Rightarrow> (wal_error + 'a wal_entry list) \<times> wal_writer" where
  "append_all H M S [] w = (Inr [], w)"
| "append_all H M S (d # ds) w =
     (case wal_append H M S None d w of
        (Inl e, w') \<Rightarrow> (Inl e, w')
      | (Inr t, w') \<Rightarrow> (let (r, w'') = append_all H M S ds w' in (and_then r (\<lambda>ts. Inr (t # ts)), w'')))"

definition storable :: "'a serde \<Rightarrow> 'a \<Rightarrow> bool" where
  "storable S d \<longleftrightarrow> (\<exists>j. ser S d = Some j \<and> length j \<le> MAX_WAL_PAYLOAD_BYTES)"

lemma append_all_holds:
  assumes "serde_ok S" "writer_holds H M S w es ts" "list_all (storable S) ds" "length es + length ds < 2 ^ 64"
  shows "\<exists>es' ts' w'. append_all H M S ds w = (Inr ts', w') \<and> map we_data ts' = ds \<and> length es' = length ds
    \<and> writer_holds H M S w' (es @ es') (ts @ ts') \<and> w_hmac_key w' = w_hmac_key w"
  using assms(2-)
proof (induction ds arbitrary: w es ts)
  case (Cons d ds)
  obtain j where j: "ser S d = Some j" "length j \<le> MAX_WAL_PAYLOAD_BYTES"
    using Cons.prems(2) by (auto simp: storable_def)
  have "Suc (length es) < 2 ^ 64" using Cons.prems(3) by simp
  then obtain e t w1 where a: "wal_append H M S None d w = (Inr t, w1)" "we_data t = d"
    "writer_holds H M S w1 (es @ [e]) (ts @ [t])" "w_hmac_key w1 = w_hmac_key w"
    using append_holds [OF assms(1) Cons.prems(1) j] by blast
  obtain es' ts' w' where r: "append_all H M S ds w1 = (Inr ts', w')" "map we_data ts' = ds" "length es' = length ds"
    "writer_holds H M S w' ((es @ [e]) @ es') ((ts @ [t]) @ ts')" "w_hmac_key w' = w_hmac_key w1"
    using Cons.IH [OF a(3)] Cons.prems by auto
  show ?case by (rule exI [of _ "e # es'"], rule exI [of _ "t # ts'"], rule exI [of _ w']) (use a r in simp)
qed simp

lemma holds_validates:
  assumes "writer_holds H M S w es ts" "Suc (length es) < 2 ^ 64"
  shows "validate_chain_inner H M S (w_hmac_key w) (w_file w) = Inr (w_sequence w, w_last_hash w)"
proof -
  note wh = assms(1) [unfolded writer_holds_def]
  have "w_sequence w = last_seq 0 es"
    using wh chain_from_last_seq [of _ 0 "''genesis''" es 0] by (cases "es = []") (auto simp: unat_eq_iff [symmetric])
  with wh assms(2) show ?thesis unfolding validate_chain_Inr by blast
qed

lemma holds_reopens:
  assumes "writer_holds H M S w es ts" "Suc (length es) < 2 ^ 64"
  shows "open_inner H M S (w_hmac_key w) (w_file w) = Inr w"
  using holds_validates [OF assms] assms(1)
  by (cases "validate_key (w_hmac_key w)") (simp_all add: open_inner_def validate_chain_inner_def writer_holds_def)

lemma visit_holds:
  assumes "writer_holds H M S w es ts" "Suc (length es) < 2 ^ 64"
  shows "visit_verified_wal_inner H M S (w_hmac_key w) visit (w_file w) s
    = (Inr (w_sequence w, w_last_hash w), fold visit ts s)"
  using holds_validates [OF assms] assms(1)
  by (cases "validate_key (w_hmac_key w)")
    (simp_all add: visit_verified_wal_inner_def validate_chain_inner_def validate_chain_reader_def writer_holds_def
      visit_loop_Inr)

lemma fold_snoc_id: "fold (\<lambda>e es. es @ [e]) ts acc = acc @ ts"
  by (induction ts arbitrary: acc) simp_all

lemma raw_holds: "writer_holds H M S w es ts \<Longrightarrow> writer_holds H M (raw_serde S) w es es"
  by (simp add: writer_holds_def) (simp add: raw_serde_def)

lemma chain_member:
  assumes "chain_from G n h (es @ fs)" "es \<noteq> []" "unat q = n + length es"
  shows "fold (\<lambda>e ph. if we_sequence e = q then Some (entry_hash e) else ph) (es @ fs) ph = Some (head_hash h es)"
proof -
  have later: "chain_from G m k fs \<Longrightarrow> unat q \<le> m \<Longrightarrow>
      fold (\<lambda>e ph. if we_sequence e = q then Some (entry_hash e) else ph) fs ph = ph" for m k ph
    by (induction fs arbitrary: m k ph) auto
  obtain es' e where es: "es = es' @ [e]" using assms(2) by (cases es rule: rev_cases) auto
  have "we_sequence e = q" using assms(1,3) es by (simp add: chain_from_append unat_eq_iff [symmetric])
  moreover have "chain_from G (unat q) (head_hash h es) fs" using assms by (simp add: chain_from_append)
  ultimately show ?thesis using later es by simp
qed

lemma holds_contains:
  assumes "writer_holds H M S w (es @ fs) ts" "Suc (length (es @ fs)) < 2 ^ 64"
    and "writer_holds H M S w1 es ts1" "w_hmac_key w1 = w_hmac_key w"
  shows "verify_wal_contains_anchor_inner H M S (w_hmac_key w) (writer_anchor w1) (w_file w)
    = Inr (w_sequence w, w_last_hash w)"
proof -
  let ?v = "\<lambda>e ph. if we_sequence e = w_sequence w1 then Some (entry_hash e) else ph"
  have ch: "chain_from (wal_hasher H M (w_hmac_key w)) 0 ''genesis'' (es @ fs)" "unat (w_sequence w1) = length es"
    "w_last_hash w1 = head_hash ''genesis'' es"
    using assms(1,3) by (simp_all add: writer_holds_def)
  have "fold ?v (es @ fs) (if w_sequence w1 = 0 then Some ''genesis'' else None) = Some (w_last_hash w1)"
  proof (cases "es = []")
    case False
    then show ?thesis using chain_member [OF ch(1) False] ch(2,3) by simp
  next
    case True
    have "chain_from G m k fs \<Longrightarrow> fold (\<lambda>e ph. if we_sequence e = 0 then Some (entry_hash e) else ph) fs ph = ph" for G m k ph
      by (induction fs arbitrary: m k) auto
    moreover have "w_sequence w1 = 0" using ch(2) True by (simp add: unat_eq_iff [symmetric])
    ultimately show ?thesis using True ch by simp
  qed
  then show ?thesis
    using visit_holds [OF raw_holds [OF assms(1)] assms(2), of ?v] assms(4)
    by (simp add: verify_wal_contains_anchor_inner_def validate_metadata_def writer_anchor_def)
qed

text \<open>
  C11. What is appended is what is read. A log that is opened empty and appended to, first \<open>ds1\<close>, then
  \<open>ds2\<close>, each record within the payload limit, accepts every append; its file then reads back,
  verified, as exactly those records in order; reopening it gives the writer that wrote it; it
  passes the writer's anchor as its head; and it still contains the anchor taken between the two
  runs. With a key or without, of any length up to the last usable sequence number.
\<close>

theorem wal_round_trip:
  assumes "serde_ok S" and "validate_key key = Inr ()"
    and "list_all (storable S) (ds1 @ ds2)" and "Suc (length (ds1 @ ds2)) < 2 ^ 64"
  shows "\<exists>w0 ts1 w1 ts2 w2. open_inner H M S key [] = Inr w0
    \<and> append_all H M S ds1 w0 = (Inr ts1, w1) \<and> append_all H M S ds2 w1 = (Inr ts2, w2)
    \<and> map we_data (ts1 @ ts2) = ds1 @ ds2
    \<and> read_verified_wal_inner H M S key (w_file w2) = Inr (ts1 @ ts2)
    \<and> open_inner H M S key (w_file w2) = Inr w2
    \<and> verify_wal_against_anchor H M S key (writer_anchor w2) (w_file w2) = Inr (w_sequence w2, w_last_hash w2)
    \<and> verify_wal_contains_anchor_inner H M S key (writer_anchor w1) (w_file w2) = Inr (w_sequence w2, w_last_hash w2)"
proof -
  let ?w0 = "\<lparr> w_file = [], w_sequence = 0, w_last_hash = ''genesis'', w_hmac_key = key, w_poisoned = False \<rparr>"
  have o: "open_inner H M S key [] = Inr ?w0" using assms(2) by (simp add: open_inner_def validate_chain_reader_def)
  have "writer_holds H M S ?w0 [] []" using assms(2) by (simp add: writer_holds_def ends_line_def)
  then obtain es1 ts1 w1 where r1: "append_all H M S ds1 ?w0 = (Inr ts1, w1)" "map we_data ts1 = ds1"
    "length es1 = length ds1" "writer_holds H M S w1 es1 ts1" "w_hmac_key w1 = key"
    using append_all_holds [OF assms(1), of H M ?w0 "[]" "[]" ds1] assms(3,4) by auto
  then obtain es2 ts2 w2 where r2: "append_all H M S ds2 w1 = (Inr ts2, w2)" "map we_data ts2 = ds2"
    "length es2 = length ds2" "writer_holds H M S w2 (es1 @ es2) (ts1 @ ts2)" "w_hmac_key w2 = key"
    using append_all_holds [OF assms(1) r1(4), of ds2] assms(3,4) by auto
  have len: "Suc (length (es1 @ es2)) < 2 ^ 64" using r1(3) r2(3) assms(4) by simp
  note valid = holds_validates [OF r2(4) len, unfolded r2(5)]
  have "read_verified_wal_inner H M S key (w_file w2) = Inr (ts1 @ ts2)"
    using visit_holds [OF r2(4) len, of "\<lambda>e es. es @ [e]" "[]", unfolded r2(5)]
    by (simp only: read_verified_wal_inner_def fold_snoc_id Let_def prod.case) simp
  moreover have "verify_wal_against_anchor H M S key (writer_anchor w2) (w_file w2) = Inr (w_sequence w2, w_last_hash w2)"
    by (simp add: verify_wal_against_anchor_def valid verify_head_def validate_metadata_def writer_anchor_def r2(5))
  ultimately show ?thesis
    using o r1 r2 holds_reopens [OF r2(4) len, unfolded r2(5)]
      holds_contains [OF r2(4) len r1(4), unfolded r1(5) r2(5), OF refl] by auto
qed

section \<open>A log of booleans\<close>

text \<open>
  The laws asked of \<open>serde_json\<close> can hold: a parser of the line format for records that are JSON
  booleans.
\<close>

fun strip_prefix :: "bytes \<Rightarrow> bytes \<Rightarrow> bytes option" where
  "strip_prefix [] bs = Some bs"
| "strip_prefix (a # as) [] = None"
| "strip_prefix (a # as) (b # bs) = (if a = b then strip_prefix as bs else None)"

definition text_of :: "bytes \<Rightarrow> string" where
  "text_of bs = map (\<lambda>b. char_of (unat b)) bs"

definition bool_json :: "bool \<Rightarrow> bytes" where
  "bool_json b = (if b then ascii ''true'' else ascii ''false'')"

definition scan_tail :: "bytes \<Rightarrow> bool option" where
  "scan_tail r =
     (if r = bool_json True @ [125] \<or> r = bool_json True @ [125, 10] then Some True
      else if r = bool_json False @ [125] \<or> r = bool_json False @ [125, 10] then Some False else None)"

definition scan_line :: "bytes \<Rightarrow> bool wal_entry option" where
  "scan_line l =
     Option.bind (strip_prefix (ascii ''{\"sequence\":'') l) (\<lambda>l1.
     Option.bind (strip_prefix (ascii '',\"previous_hash\":\"'') (dropWhile (\<lambda>b. b \<noteq> 44) l1)) (\<lambda>l2.
     Option.bind (strip_prefix (ascii ''\",\"entry_hash\":\"'') (dropWhile (\<lambda>b. b \<noteq> 34) l2)) (\<lambda>l3.
     Option.bind (strip_prefix (ascii ''\",\"data\":'') (dropWhile (\<lambda>b. b \<noteq> 34) l3)) (\<lambda>l4.
     Option.bind (scan_tail l4) (\<lambda>d.
       Some \<lparr> we_sequence = of_nat (foldl (\<lambda>a b. 10 * a + (unat b - 48)) 0 (takeWhile (\<lambda>b. b \<noteq> 44) l1)),
              previous_hash = text_of (takeWhile (\<lambda>b. b \<noteq> 34) l2),
              entry_hash = text_of (takeWhile (\<lambda>b. b \<noteq> 34) l3), we_data = d \<rparr>)))))"

definition bool_serde :: "bool serde" where
  "bool_serde = \<lparr> ser = (\<lambda>b. Some (bool_json b)),
     de_raw = (\<lambda>l. map_option (\<lambda>e. \<lparr> we_sequence = we_sequence e, previous_hash = previous_hash e,
                                     entry_hash = entry_hash e, we_data = bool_json (we_data e) \<rparr>) (scan_line l)),
     de = scan_line \<rparr>"

lemma strip_prefix_append [simp]: "strip_prefix as (as @ bs) = Some bs"
  by (induction as) simp_all

lemma takeWhile_stop: "x \<notin> set as \<Longrightarrow> takeWhile (\<lambda>b. b \<noteq> x) (as @ x # bs) = as"
  by (induction as) auto

lemma dropWhile_stop: "x \<notin> set as \<Longrightarrow> dropWhile (\<lambda>b. b \<noteq> x) (as @ x # bs) = x # bs"
  by (induction as) auto

lemma text_of_ascii [simp]: "text_of (ascii s) = s"
proof -
  have "char_of (unat (of_nat (of_char c) :: u8)) = c" for c :: char
    by (simp add: unat_of_nat)
  then show ?thesis by (simp add: text_of_def ascii_def comp_def)
qed

lemma decimal_value: "foldl (\<lambda>a b. 10 * a + (unat b - 48)) 0 (decimal n) = n"
proof (induction n rule: decimal.induct)
  case (1 n)
  have d: "unat (48 + of_nat k :: u8) - 48 = k" if "k < 10" for k
    using that by (simp add: unat_word_ariths unat_of_nat)
  show ?case using 1 by (cases "n < 10") (simp_all add: decimal.simps [of n] d)
qed

lemma scan_entry:
  assumes "plain_text p" "plain_text h"
  shows "scan_line (ascii ''{\"sequence\":'' @ decimal (unat n) @ ascii '',\"previous_hash\":\"'' @ ascii p
      @ ascii ''\",\"entry_hash\":\"'' @ ascii h @ ascii ''\",\"data\":'' @ rest)
    = map_option (\<lambda>d. \<lparr> we_sequence = n, previous_hash = p, entry_hash = h, we_data = d \<rparr>) (scan_tail rest)"
proof -
  have sep: "44 \<notin> set (decimal (unat n))" "34 \<notin> set (ascii p)" "34 \<notin> set (ascii h)"
    using decimal_digits [of "unat n"] assms by (auto simp: plain_text_def list_all_iff)
  have comma: "ascii '',\"previous_hash\":\"'' = 44 # ascii ''\"previous_hash\":\"''"
    and quote: "ascii ''\",\"entry_hash\":\"'' = 34 # ascii '',\"entry_hash\":\"''"
    and quote': "ascii ''\",\"data\":'' = 34 # ascii '',\"data\":''" by simp_all
  show ?thesis
    unfolding scan_line_def
    by (simp only: strip_prefix_append Option.bind.bind_lunit comma append_Cons
        takeWhile_stop [OF sep(1)] dropWhile_stop [OF sep(1)] quote quote'
        takeWhile_stop [OF sep(2)] dropWhile_stop [OF sep(2)] takeWhile_stop [OF sep(3)] dropWhile_stop [OF sep(3)]
        strip_prefix_append [of "44 # as" for as, simplified append_Cons]
        strip_prefix_append [of "34 # as" for as, simplified append_Cons] text_of_ascii decimal_value)
      (cases "scan_tail rest"; simp)
qed

lemma scan_tail_bool [simp]:
  "scan_tail (bool_json b @ [125]) = Some b" "scan_tail (bool_json b @ [125, 10]) = Some b"
  "scan_tail (bool_json b @ 125 # 123 # r) = None"
  by (cases b; simp add: scan_tail_def bool_json_def)+

lemma bool_serde_entry:
  assumes "plain_text p" "plain_text h"
  shows "scan_line (entry_line n p h (bool_json b)) = Some \<lparr> we_sequence = n, previous_hash = p, entry_hash = h, we_data = b \<rparr>"
    "scan_line (entry_body n p h (bool_json b)) = Some \<lparr> we_sequence = n, previous_hash = p, entry_hash = h, we_data = b \<rparr>"
    "scan_line (entry_body n p h (bool_json b) @ entry_line n' p' h' (bool_json b')) = None"
proof -
  have close: "ascii ''}'' = [125]" by simp
  have body: "entry_body n p h j = ascii ''{\"sequence\":'' @ decimal (unat n) @ ascii '',\"previous_hash\":\"'' @ ascii p
      @ ascii ''\",\"entry_hash\":\"'' @ ascii h @ ascii ''\",\"data\":'' @ j @ [125]" for n p h j
    by (simp only: entry_body_def entry_line_def close butlast_append list.simps butlast.simps append_is_Nil_conv if_False if_True simp_thms append_assoc append_Nil append_Nil2 append_Cons)
  have brace: "ascii ''{\"sequence\":'' @ r = 123 # ascii ''\"sequence\":'' @ r" for r by simp
  show "scan_line (entry_line n p h (bool_json b)) = Some \<lparr> we_sequence = n, previous_hash = p, entry_hash = h, we_data = b \<rparr>"
    by (simp only: entry_line_body body append_assoc append_Cons append_Nil scan_entry [OF assms]) simp
  show "scan_line (entry_body n p h (bool_json b)) = Some \<lparr> we_sequence = n, previous_hash = p, entry_hash = h, we_data = b \<rparr>"
    by (simp only: body scan_entry [OF assms]) simp
  show "scan_line (entry_body n p h (bool_json b) @ entry_line n' p' h' (bool_json b')) = None"
    unfolding entry_line_body body append_assoc scan_entry [OF assms]
    by (simp only: brace append_Cons append_Nil scan_tail_bool option.map)
qed

lemma bool_serde_ok: "serde_ok bool_serde"
  by (auto simp: serde_ok_def bool_serde_def bool_serde_entry) (auto simp: bool_json_def split: if_splits)

lemma storable_bool: "storable bool_serde b"
  by (auto simp: storable_def bool_serde_def bool_json_def MAX_WAL_PAYLOAD_BYTES_def MAX_WAL_ENTRY_BYTES_def)

theorem wal_round_trip_witness:
  "\<exists>w0 ts1 w1 ts2 w2. open_inner poly_hash (\<lambda>k bs. poly_hash (k @ bs)) bool_serde (Some (replicate 32 7)) [] = Inr w0
    \<and> append_all poly_hash (\<lambda>k bs. poly_hash (k @ bs)) bool_serde [True] w0 = (Inr ts1, w1)
    \<and> append_all poly_hash (\<lambda>k bs. poly_hash (k @ bs)) bool_serde [False, True] w1 = (Inr ts2, w2)
    \<and> map we_data (ts1 @ ts2) = [True] @ [False, True]
    \<and> read_verified_wal_inner poly_hash (\<lambda>k bs. poly_hash (k @ bs)) bool_serde (Some (replicate 32 7)) (w_file w2)
        = Inr (ts1 @ ts2)
    \<and> open_inner poly_hash (\<lambda>k bs. poly_hash (k @ bs)) bool_serde (Some (replicate 32 7)) (w_file w2) = Inr w2
    \<and> verify_wal_against_anchor poly_hash (\<lambda>k bs. poly_hash (k @ bs)) bool_serde (Some (replicate 32 7))
        (writer_anchor w2) (w_file w2) = Inr (w_sequence w2, w_last_hash w2)
    \<and> verify_wal_contains_anchor_inner poly_hash (\<lambda>k bs. poly_hash (k @ bs)) bool_serde (Some (replicate 32 7))
        (writer_anchor w1) (w_file w2) = Inr (w_sequence w2, w_last_hash w2)"
  by (rule wal_round_trip [OF bool_serde_ok])
    (simp_all add: storable_bool validate_key_def validate_hmac_key_def MIN_HMAC_KEY_BYTES_def)

text \<open>A log of one entry, and the same log after an empty line.\<close>

theorem wal_head_binds_witness:
  "\<exists>es fs. read_wal (raw_serde bool_serde) (entry_line 1 ''genesis'' (digest_to_hex (poly_hash (ascii ''genesis'' @ bool_json True))) (bool_json True)) = Inr es
    \<and> read_wal (raw_serde bool_serde) (10 # entry_line 1 ''genesis'' (digest_to_hex (poly_hash (ascii ''genesis'' @ bool_json True))) (bool_json True)) = Inr fs
    \<and> (es = fs \<or> collision (wal_hasher poly_hash (\<lambda>k. poly_hash) None) (chain_inputs es) (chain_inputs fs))"
proof -
  let ?l = "entry_line 1 ''genesis'' (digest_to_hex (poly_hash (ascii ''genesis'' @ bool_json True))) (bool_json True)"
  let ?e = "\<lparr> we_sequence = 1, previous_hash = ''genesis'',
      entry_hash = digest_to_hex (poly_hash (ascii ''genesis'' @ bool_json True)), we_data = bool_json True \<rparr>"
  have "ser bool_serde True = Some (bool_json True)" "length (bool_json True) \<le> MAX_WAL_PAYLOAD_BYTES"
    by (simp_all add: bool_serde_def bool_json_def MAX_WAL_PAYLOAD_BYTES_def MAX_WAL_ENTRY_BYTES_def)
  from read_entry_line(1) [OF bool_serde_ok this plain_genesis plain_hex]
  have rl: "read_wal (raw_serde bool_serde) ?l = Inr [?e]" by (simp add: digest_to_hex_def)
  have "read_wal (raw_serde bool_serde) (10 # ?l) = Inr [?e]"
    using rl by (simp add: read_wal.simps [of _ "10 # _"] read_bounded_line_def is_ascii_whitespace_def MAX_WAL_ENTRY_BYTES_def)
  with rl have "validate_chain_inner poly_hash (\<lambda>k. poly_hash) bool_serde None ?l = Inr (1, entry_hash ?e)"
    "validate_chain_inner poly_hash (\<lambda>k. poly_hash) bool_serde None (10 # ?l) = Inr (1, entry_hash ?e)"
    unfolding validate_chain_Inr by (simp_all add: validate_key_def wal_hasher_def)
  then show ?thesis by (rule wal_head_binds)
qed

section \<open>A lost newline\<close>

text \<open>
  What \<open>serde_json::from_slice\<close> does with a line that has no newline, or that runs into another one:
  the trailing newline is white space, and anything else after the value is an error.
\<close>

definition serde_strict :: "'a serde \<Rightarrow> bool" where
  "serde_strict S \<longleftrightarrow>
     (\<forall>d j d' j' n p h n' p' h'. ser S d = Some j \<longrightarrow> ser S d' = Some j' \<longrightarrow> plain_text p \<longrightarrow> plain_text h \<longrightarrow>
        de_raw S (butlast (entry_line n p h j)) = de_raw S (entry_line n p h j)
        \<and> de_raw S (butlast (entry_line n p h j) @ entry_line n' p' h' j') = None)"

lemma serde_strictD:
  assumes "serde_strict S" "ser S d = Some j" "ser S d' = Some j'" "plain_text p" "plain_text h"
  shows "de_raw S (entry_body n p h j) = de_raw S (entry_line n p h j)"
    "de_raw S (entry_body n p h j @ entry_line n' p' h' j') = None"
  using assms unfolding serde_strict_def entry_body_def by blast+

lemma read_until_newline_none: "10 \<notin> set bs \<Longrightarrow> read_until_newline bs = (bs, [])"
  by (induction bs) auto

lemma read_wal_unterminated:
  assumes "10 \<notin> set body" "length body < MAX_WAL_ENTRY_BYTES" "\<not> list_all is_ascii_whitespace body"
  shows "read_wal S body = (case de S body of None \<Rightarrow> Inl WalJson | Some e \<Rightarrow> Inr [e])"
  using assms by (auto simp: read_wal.simps [of S body] read_bounded_line_def read_until_newline_none split: option.split)

lemma read_wal_unparsed:
  "read_until_newline f = (f, []) \<Longrightarrow> de S f = None \<Longrightarrow> \<not> list_all is_ascii_whitespace f \<Longrightarrow> read_wal S f \<noteq> Inr es"
  by (auto simp: read_wal.simps [of S f] read_bounded_line_def)

text \<open>
  C36. A log that lost only its last newline is accepted, and the next append destroys it. After one
  record is appended to an empty log and the newline that ends its line is lost (a torn write), the
  log still opens; the next append on the reopened log is reported as a success; and the log no
  longer verifies, since both records are now on one line. Opening checks every line, but not that
  the last one is terminated.
\<close>

theorem lost_newline_corrupts_next_append:
  assumes "serde_ok S" and "serde_strict S" and "validate_key key = Inr ()" and "storable S d" and "storable S d'"
  shows "\<exists>w0 t w1 w2 t' w3 e. open_inner H M S key [] = Inr w0
    \<and> wal_append H M S None d w0 = (Inr t, w1)
    \<and> open_inner H M S key (butlast (w_file w1)) = Inr w2
    \<and> wal_append H M S None d' w2 = (Inr t', w3)
    \<and> validate_chain_inner H M S key (w_file w3) = Inl e"
proof -
  let ?G = "wal_hasher H M key"
  obtain j where j: "ser S d = Some j" "length j \<le> MAX_WAL_PAYLOAD_BYTES" using assms(4) by (auto simp: storable_def)
  obtain j' where j': "ser S d' = Some j'" "length j' \<le> MAX_WAL_PAYLOAD_BYTES" using assms(5) by (auto simp: storable_def)
  let ?h = "digest_to_hex (?G (ascii ''genesis'' @ j))" and ?h' = "digest_to_hex (?G (ascii (digest_to_hex (?G (ascii ''genesis'' @ j))) @ j'))"
  let ?w0 = "\<lparr> w_file = [], w_sequence = 0, w_last_hash = ''genesis'', w_hmac_key = key, w_poisoned = False \<rparr>"
  let ?body = "entry_body 1 ''genesis'' ?h j" and ?line' = "entry_line 2 ?h ?h' j'"
  let ?e = "\<lparr> we_sequence = 1, previous_hash = ''genesis'', entry_hash = ?h, we_data = j \<rparr>"
  let ?w2 = "\<lparr> w_file = ?body, w_sequence = 1, w_last_hash = ?h, w_hmac_key = key, w_poisoned = False \<rparr>"
  have len: "length ?body < MAX_WAL_ENTRY_BYTES" using length_entry_body [of "''genesis''" ?h j] j(2) by (simp add: digest_to_hex_def)
  have nl: "10 \<notin> set ?body" by (rule entry_body_no_newline [OF plain_genesis plain_hex serde_okD(1) [OF assms(1) j(1)]])
  have body: "read_wal (raw_serde S) ?body = Inr [?e]"
    using read_wal_unterminated [OF nl len entry_body_visible, of "raw_serde S"]
    by (simp add: serde_strictD(1) [OF assms(2) j(1) j'(1) plain_genesis plain_hex]
        serde_okD(2) [OF assms(1) j(1) plain_genesis plain_hex])
  then have "validate_chain_inner H M S key ?body = Inr (1, ?h)"
    unfolding validate_chain_Inr using assms(3) by simp
  then have o2: "open_inner H M S key ?body = Inr ?w2" using assms(3) by (simp add: validate_chain_inner_def open_inner_def)
  have o0: "open_inner H M S key [] = Inr ?w0" using assms(3) by (simp add: open_inner_def validate_chain_reader_def)
  have a1: "wal_append H M S None d ?w0 = (Inr \<lparr> we_sequence = 1, previous_hash = ''genesis'', entry_hash = ?h, we_data = d \<rparr>,
      ?w0\<lparr> w_file := ?body @ [10], w_sequence := 1, w_last_hash := ?h \<rparr>)"
    using j compute_hash_Inr [OF assms(3)] by (simp add: wal_append_def limited_ser_def Let_def entry_line_body checked_add_def)
  have a2: "wal_append H M S None d' ?w2 = (Inr \<lparr> we_sequence = 2, previous_hash = ?h, entry_hash = ?h', we_data = d' \<rparr>,
      ?w2\<lparr> w_file := ?body @ ?line', w_sequence := 2, w_last_hash := ?h' \<rparr>)"
    using j' compute_hash_Inr [OF assms(3)] by (simp add: wal_append_def limited_ser_def Let_def checked_add_def)
  have "10 \<notin> set (entry_body 2 ?h ?h' j')"
    by (rule entry_body_no_newline [OF plain_hex plain_hex serde_okD(1) [OF assms(1) j'(1)]])
  then have "read_until_newline (?body @ ?line') = (?body @ ?line', [])"
    using read_until_newline_no [of "?body @ entry_body 2 ?h ?h' j'" "[]"] nl by (simp add: entry_line_body)
  moreover have "de (raw_serde S) (?body @ ?line') = None"
    using serde_strictD(2) [OF assms(2) j(1) j'(1) plain_genesis plain_hex] by simp
  moreover have "\<not> list_all is_ascii_whitespace (?body @ ?line')" using entry_body_visible by simp
  ultimately have "\<nexists>es. read_wal (raw_serde S) (?body @ ?line') = Inr es" using read_wal_unparsed by blast
  then have "\<nexists>r. validate_chain_inner H M S key (?body @ ?line') = Inr r" unfolding split_paired_Ex validate_chain_Inr by blast
  then obtain e where "validate_chain_inner H M S key (?body @ ?line') = Inl e"
    by (cases "validate_chain_inner H M S key (?body @ ?line')") auto
  with o0 a1 o2 a2 show ?thesis by auto
qed

lemma bool_serde_strict: "serde_strict bool_serde"
  by (auto simp: serde_strict_def bool_serde_def entry_body_def [symmetric] bool_serde_entry)

theorem lost_newline_corrupts_next_append_witness:
  "\<exists>w0 t w1 w2 t' w3 e. open_inner poly_hash (\<lambda>k. poly_hash) bool_serde None [] = Inr w0
    \<and> wal_append poly_hash (\<lambda>k. poly_hash) bool_serde None True w0 = (Inr t, w1)
    \<and> open_inner poly_hash (\<lambda>k. poly_hash) bool_serde None (butlast (w_file w1)) = Inr w2
    \<and> wal_append poly_hash (\<lambda>k. poly_hash) bool_serde None False w2 = (Inr t', w3)
    \<and> validate_chain_inner poly_hash (\<lambda>k. poly_hash) bool_serde None (w_file w3) = Inl e"
  by (rule lost_newline_corrupts_next_append [OF bool_serde_ok bool_serde_strict]) (simp_all add: validate_key_def storable_bool)

section \<open>Audited replay\<close>

text \<open>The records the kernel issues under a policy: the decision is the kernel's and the bundle its own.\<close>

definition issued_by :: "hasher \<Rightarrow> policy_snapshot \<Rightarrow> 'm audited_record wal_entry \<Rightarrow> bool" where
  "issued_by H p e \<longleftrightarrow>
     (let r = we_data e in
      prescribe p (ar_input r) = ar_decision r \<and> ar_audit r = audit_bundle_of H p (ar_input r) (ar_decision r))"

lemma validate_canonical_Inr:
  "validate_canonical b = Inr () \<longleftrightarrow>
     schema_version b = AUDIT_SCHEMA_VERSION \<and> digest_algorithm b = AUDIT_DIGEST_ALGORITHM
     \<and> proof_version b = AUDIT_PROOF_VERSION \<and> created_by b = AUDIT_CREATED_BY \<and> replay_valid b
     \<and> canonical_digest (policy_digest_hex b) \<and> canonical_digest (input_digest_hex b)
     \<and> canonical_digest (decision_digest_hex b)"
  by (auto simp: validate_canonical_def split: option.split)

lemma audited_entries_iff:
  "(\<exists>vs. verify_audited_entries H (single_policy H p) es = Inr vs) \<longleftrightarrow> list_all (issued_by H p) es"
proof (induction es)
  case (Cons e es)
  obtain b i d where r: "b = ar_audit (we_data e)" "i = ar_input (we_data e)" "d = ar_decision (we_data e)" by blast
  have eq: "b = audit_bundle_of H p i d \<and> prescribe p i = d \<longleftrightarrow>
      validate_canonical b = Inr () \<and> ab_policy_epoch b = ps_policy_epoch p \<and> ab_catalog_epoch b = ps_catalog_epoch p
      \<and> policy_digest_hex b = digest_to_hex (policy_digest H p) \<and> prescribe p i = d
      \<and> input_digest_hex b = digest_to_hex (input_digest H i) \<and> decision_digest_hex b = digest_to_hex (decision_digest H d)"
    unfolding validate_canonical_Inr audit_bundle_of_def by (cases b) auto
  show ?case
    using Cons.IH eq r
    by (cases "validate_canonical b"; cases "verify_audited_entries H (single_policy H p) es")
      (auto simp: issued_by_def Let_def single_policy_def verify_decision_Valid)
qed simp

lemma visit_verified_Inr:
  "visit_verified_wal_inner H M S key visit f s = (Inr head, s') \<longleftrightarrow>
     validate_chain_inner H M S key f = Inr head \<and> (\<exists>ts. read_wal S f = Inr ts \<and> s' = fold visit ts s)"
  by (cases "validate_key key")
    (simp_all add: visit_verified_wal_inner_def validate_chain_inner_def validate_chain_reader_def visit_loop_Inr)

lemma read_verified_Inr:
  "read_verified_wal_inner H M S key f = Inr ts \<longleftrightarrow>
     (\<exists>head. validate_chain_inner H M S key f = Inr head) \<and> read_wal S f = Inr ts"
proof -
  have "read_verified_wal_inner H M S key f = Inr ts \<longleftrightarrow>
      (\<exists>head. visit_verified_wal_inner H M S key (\<lambda>e es. es @ [e]) f [] = (Inr head, ts))"
    unfolding read_verified_wal_inner_def Let_def
    by (cases "visit_verified_wal_inner H M S key (\<lambda>e es. es @ [e]) f []") (simp only: prod.case and_then_Inr, blast)
  then show ?thesis unfolding visit_verified_Inr fold_snoc_id by auto
qed

text \<open>
  C13. Audited replay is exact. Replaying a log against a policy succeeds if and only if the chain of
  the log verifies, its records parse, and every record is one the kernel issues under that policy:
  its decision is what \<open>prescribe\<close> returns on the recorded request, and its audit bundle is, field by
  field, the bundle of that policy, request and decision.
\<close>

theorem audited_replay_iff:
  "(\<exists>vs. replay_audited_wal_keyed H M S p key f = Inr vs) \<longleftrightarrow>
     (\<exists>head es. validate_chain_inner H M S key f = Inr head \<and> read_wal S f = Inr es \<and> list_all (issued_by H p) es)"
proof -
  have "(\<exists>vs. replay_audited_wal_keyed H M S p key f = Inr vs) \<longleftrightarrow>
      (\<exists>es. read_verified_wal_inner H M S key f = Inr es \<and> (\<exists>vs. verify_audited_entries H (single_policy H p) es = Inr vs))"
    by (cases "read_verified_wal_inner H M S key f") (auto simp: replay_audited_wal_keyed_def)
  then show ?thesis unfolding read_verified_Inr audited_entries_iff by blast
qed

section \<open>The Merkle index\<close>

lemma nibble_hex [simp]: "n < 16 \<Longrightarrow> nibble (of_nat (of_char (hex_digit n))) = Inr (of_nat n)"
  by (drule nibble_cases) (auto simp: hex_digit_byte)

lemma decode_pairs_hex [simp]: "decode_pairs (ascii (bytes_to_hex bs)) = Inr bs"
proof (induction bs)
  case Nil
  then show ?case by (simp add: bytes_to_hex_def)
next
  case (Cons b bs)
  then show ?case by (simp add: bytes_to_hex_Cons byte_of_nibbles del: nibble.simps)
qed

lemma leaf_from_digest [simp]: "leaf_from_entry_hash (ascii (digest_to_hex h)) = Inr (hash_bytes h)"
  by (simp add: leaf_from_entry_hash_def digest_to_hex_def)

lemma fold_index:
  assumes "map entry_hash ts = map digest_to_hex hs"
  shows "fold (\<lambda>entry (tree, bad). case leaf_from_entry_hash (ascii (entry_hash entry)) of
      Inr data \<Rightarrow> (push H (leaf_hash H data) tree, bad) | Inl error \<Rightarrow> (tree, Some error)) ts (t, bad)
    = (fold (push H) (map (\<lambda>h. leaf_hash H (hash_bytes h)) hs) t, bad)"
  using assms
proof (induction ts arbitrary: hs t)
  case (Cons e ts)
  then obtain h hs' where hs: "hs = h # hs'" "entry_hash e = digest_to_hex h" "map entry_hash ts = map digest_to_hex hs'"
    by (cases hs) auto
  with Cons.IH [OF hs(3)] show ?case by simp
qed simp

text \<open>
  The Merkle index of a verified log is the tree over the hashes of its entries, so its heads and
  proofs are those of \<^theory_text>\<open>Merkle_Cache\<close>.
\<close>

lemma from_verified_wal_eq:
  assumes "read_verified_wal_inner H M S key f = Inr ts" "map entry_hash ts = map digest_to_hex hs"
  shows "from_verified_wal H M S key f = Inr (from_leaf_hashes H (map (\<lambda>h. leaf_hash H (hash_bytes h)) hs))"
proof -
  obtain head where head: "validate_chain_inner H M S key f = Inr head" and ts: "read_wal S f = Inr ts"
    using assms(1) unfolding read_verified_Inr by blast
  have "visit_verified_wal_inner H M S key v f s = (Inr head, fold v ts s)"
    for v :: "'a wal_entry \<Rightarrow> merkle_tree \<times> merkle_error option \<Rightarrow> merkle_tree \<times> merkle_error option" and s
    using head ts by (simp add: visit_verified_Inr)
  then show ?thesis by (simp add: from_verified_wal_def fold_index [OF assms(2)] from_leaf_hashes_def)
qed

end
