(* ===== verification/Outcome.thy ===== *)
theory Outcome
  imports Digest
begin

text \<open>
  Outcome records (\<open>src/src/outcome.rs\<close>): what was acted on, with what probability, and what came
  back, bound to a decision by the digests of its policy, request and decision. The exact condition
  under which a record is accepted for a decision, that an accepted record pins the decision, and
  that the digest of a record fixes it.
\<close>

section \<open>Records\<close>

definition IDENTITY_DIGEST_TAG :: bytes where
  "IDENTITY_DIGEST_TAG = ascii ''calyidn1'' @ [0]"

definition OUTCOME_DIGEST_TAG :: bytes where
  "OUTCOME_DIGEST_TAG = ascii ''calyout1'' @ [0]"

definition SELECTION_DIGEST_TAG :: bytes where
  "SELECTION_DIGEST_TAG = ascii ''calysel1'' @ [0]"

definition FULL_PROBABILITY_BPS :: u16 where
  "FULL_PROBABILITY_BPS = 10000"

record decision_identity =
  di_policy_digest :: hash
  di_input_digest :: hash
  di_decision_digest :: hash
  di_request_sequence :: u64

datatype identity_field = PolicyField | InputField | DecisionField | RequestSequenceField

datatype selection_strategy = MaximiseUtility | Explore | Human

record selection =
  se_strategy :: selection_strategy
  se_acted_model_id :: u32
  se_propensity_bps :: "u16 option"

datatype outcome_error =
    PropensityOutOfRange u16
  | DeterministicPropensity u16
  | MissingPropensity selection_strategy
  | UnknowablePropensity
  | EmptyObservation
  | ObservationOnAbandoned
  | CompletedInFlight
  | ActedOnRejection
  | ActedModelNotSelected u32 u32
  | ActedModelNotInCatalog u32
  | IdentityMismatch identity_field

datatype disposition = Applied | Abandoned | InFlight

record observation =
  realized_cost_microunits :: "u64 option"
  realized_latency_ms :: "u32 option"
  succeeded :: "bool option"

record outcome =
  oc_identity :: decision_identity
  observed_at_micros :: u64
  revision :: u32
  oc_selection :: selection
  oc_disposition :: disposition
  oc_observation :: observation

definition identity_of ::
  "hasher \<Rightarrow> policy_snapshot \<Rightarrow> kernel_input \<Rightarrow> kernel_decision \<Rightarrow> decision_identity" where
  "identity_of H p i d =
     \<lparr> di_policy_digest = policy_digest H p, di_input_digest = input_digest H i,
       di_decision_digest = decision_digest H d, di_request_sequence = d_request_sequence d \<rparr>"

definition disagreement :: "decision_identity \<Rightarrow> decision_identity \<Rightarrow> identity_field option" where
  "disagreement a b =
     (if di_policy_digest a \<noteq> di_policy_digest b then Some PolicyField
      else if di_input_digest a \<noteq> di_input_digest b then Some InputField
      else if di_decision_digest a \<noteq> di_decision_digest b then Some DecisionField
      else if di_request_sequence a \<noteq> di_request_sequence b then Some RequestSequenceField
      else None)"

section \<open>Selections\<close>

definition followed :: "kernel_decision \<Rightarrow> selection" where
  "followed d =
     \<lparr> se_strategy = MaximiseUtility, se_acted_model_id = d_selected_model_id d,
       se_propensity_bps = Some FULL_PROBABILITY_BPS \<rparr>"

definition explored_selection :: "u32 \<Rightarrow> u16 \<Rightarrow> selection" where
  "explored_selection acted bps =
     \<lparr> se_strategy = Explore, se_acted_model_id = acted, se_propensity_bps = Some bps \<rparr>"

definition human :: "u32 \<Rightarrow> selection" where
  "human acted = \<lparr> se_strategy = Human, se_acted_model_id = acted, se_propensity_bps = None \<rparr>"

fun check_propensity :: "selection_strategy \<Rightarrow> u16 option \<Rightarrow> outcome_error + unit" where
  "check_propensity Human (Some _) = Inl UnknowablePropensity"
| "check_propensity Human None = Inr ()"
| "check_propensity strategy None = Inl (MissingPropensity strategy)"
| "check_propensity strategy (Some bps) =
     (if bps = 0 \<or> bps > FULL_PROBABILITY_BPS then Inl (PropensityOutOfRange bps)
      else if strategy = MaximiseUtility \<and> bps \<noteq> FULL_PROBABILITY_BPS then Inl (DeterministicPropensity bps)
      else Inr ())"

definition validate_selection :: "selection \<Rightarrow> outcome_error + unit" where
  "validate_selection s = check_propensity (se_strategy s) (se_propensity_bps s)"

section \<open>Validation\<close>

definition observation_is_empty :: "observation \<Rightarrow> bool" where
  "observation_is_empty ob \<longleftrightarrow>
     realized_cost_microunits ob = None \<and> realized_latency_ms ob = None \<and> succeeded ob = None"

definition applied ::
  "hasher \<Rightarrow> policy_snapshot \<Rightarrow> kernel_input \<Rightarrow> kernel_decision \<Rightarrow> u64 \<Rightarrow> observation \<Rightarrow> outcome" where
  "applied H p i d at_micros ob =
     \<lparr> oc_identity = identity_of H p i d, observed_at_micros = at_micros, revision = 0,
       oc_selection = followed d, oc_disposition = Applied, oc_observation = ob \<rparr>"

definition abandoned ::
  "hasher \<Rightarrow> policy_snapshot \<Rightarrow> kernel_input \<Rightarrow> kernel_decision \<Rightarrow> u64 \<Rightarrow> outcome" where
  "abandoned H p i d at_micros =
     \<lparr> oc_identity = identity_of H p i d, observed_at_micros = at_micros, revision = 0,
       oc_selection = followed d, oc_disposition = Abandoned,
       oc_observation = \<lparr> realized_cost_microunits = None, realized_latency_ms = None, succeeded = None \<rparr> \<rparr>"

definition validate_outcome :: "outcome \<Rightarrow> outcome_error + unit" where
  "validate_outcome oc =
     and_then (validate_selection (oc_selection oc)) (\<lambda>_.
       case oc_disposition oc of
         Applied \<Rightarrow> if observation_is_empty (oc_observation oc) then Inl EmptyObservation else Inr ()
       | Abandoned \<Rightarrow> if \<not> observation_is_empty (oc_observation oc) then Inl ObservationOnAbandoned else Inr ()
       | InFlight \<Rightarrow> if succeeded (oc_observation oc) \<noteq> None then Inl CompletedInFlight else Inr ())"

definition validate_against ::
  "hasher \<Rightarrow> policy_snapshot \<Rightarrow> kernel_input \<Rightarrow> kernel_decision \<Rightarrow> outcome \<Rightarrow> outcome_error + unit" where
  "validate_against H p i d oc =
     and_then (validate_outcome oc) (\<lambda>_.
       case disagreement (oc_identity oc) (identity_of H p i d) of
         Some field \<Rightarrow> Inl (IdentityMismatch field)
       | None \<Rightarrow>
           let s = oc_selection oc in
           if d_action d = Reject \<and> oc_disposition oc \<noteq> Abandoned then Inl ActedOnRejection
           else if se_strategy s = MaximiseUtility \<and> se_acted_model_id s \<noteq> d_selected_model_id d
             then Inl (ActedModelNotSelected (se_acted_model_id s) (d_selected_model_id d))
           else if d_action d \<noteq> Reject \<and> \<not> list_ex (\<lambda>m. model_id m = se_acted_model_id s) (ps_models p)
             then Inl (ActedModelNotInCatalog (se_acted_model_id s))
           else Inr ())"

definition follows :: "hasher \<Rightarrow> kernel_decision \<Rightarrow> outcome \<Rightarrow> bool" where
  "follows H d oc \<longleftrightarrow>
     di_decision_digest (oc_identity oc) = decision_digest H d
     \<and> di_request_sequence (oc_identity oc) = d_request_sequence d"

section \<open>Digests\<close>

definition identity_bytes :: "decision_identity \<Rightarrow> bytes" where
  "identity_bytes a =
     IDENTITY_DIGEST_TAG @ hash_bytes (di_policy_digest a) @ hash_bytes (di_input_digest a)
     @ hash_bytes (di_decision_digest a) @ le_bytes 8 (di_request_sequence a)"

definition identity_digest :: "hasher \<Rightarrow> decision_identity \<Rightarrow> hash" where
  "identity_digest H a = H (identity_bytes a)"

fun strategy_code :: "selection_strategy \<Rightarrow> u8" where
  "strategy_code MaximiseUtility = 0"
| "strategy_code Explore = 1"
| "strategy_code Human = 2"

fun disposition_code :: "disposition \<Rightarrow> u8" where
  "disposition_code Applied = 0"
| "disposition_code Abandoned = 1"
| "disposition_code InFlight = 2"

text \<open>A presence byte followed by the value.\<close>

definition optional_bytes :: "('a \<Rightarrow> bytes) \<Rightarrow> 'a option \<Rightarrow> bytes" where
  "optional_bytes f x = (case x of Some v \<Rightarrow> 1 # f v | None \<Rightarrow> [0])"

definition selection_bytes :: "selection \<Rightarrow> bytes" where
  "selection_bytes s =
     SELECTION_DIGEST_TAG @ [strategy_code (se_strategy s)] @ le_bytes 4 (se_acted_model_id s)
     @ optional_bytes (le_bytes 2) (se_propensity_bps s)"

definition selection_digest :: "hasher \<Rightarrow> selection \<Rightarrow> hash" where
  "selection_digest H s = H (selection_bytes s)"

definition outcome_bytes :: "hasher \<Rightarrow> outcome \<Rightarrow> bytes" where
  "outcome_bytes H oc =
     OUTCOME_DIGEST_TAG @ hash_bytes (identity_digest H (oc_identity oc)) @ le_bytes 8 (observed_at_micros oc)
     @ le_bytes 4 (revision oc) @ hash_bytes (selection_digest H (oc_selection oc))
     @ [disposition_code (oc_disposition oc)]
     @ optional_bytes (le_bytes 8) (realized_cost_microunits (oc_observation oc))
     @ optional_bytes (le_bytes 4) (realized_latency_ms (oc_observation oc))
     @ optional_bytes (\<lambda>b. [if b then 1 else 0]) (succeeded (oc_observation oc))"

definition outcome_digest :: "hasher \<Rightarrow> outcome \<Rightarrow> hash" where
  "outcome_digest H oc = H (outcome_bytes H oc)"

section \<open>Acceptance\<close>

definition selection_ok :: "selection \<Rightarrow> bool" where
  "selection_ok s \<longleftrightarrow>
     (case se_strategy s of
        Human \<Rightarrow> se_propensity_bps s = None
      | MaximiseUtility \<Rightarrow> se_propensity_bps s = Some 10000
      | Explore \<Rightarrow> (\<exists>bps. se_propensity_bps s = Some bps \<and> 1 \<le> unat bps \<and> unat bps \<le> 10000))"

lemma validate_selection_Inr: "validate_selection s = Inr () \<longleftrightarrow> selection_ok s"
  by (cases "se_strategy s"; cases "se_propensity_bps s")
    (auto simp: validate_selection_def selection_ok_def FULL_PROBABILITY_BPS_def word_less_nat_alt
      not_less unat_eq_iff [symmetric])

lemma disagreement_None: "disagreement a b = None \<longleftrightarrow> a = b"
  by (auto simp: disagreement_def intro: decision_identity.equality)

lemma list_ex_model: "list_ex (\<lambda>m. model_id m = x) ms \<longleftrightarrow> x \<in> model_id ` set ms"
  by (auto simp: list_ex_iff)

lemma validate_against_Inr:
  "validate_against H p i d oc = Inr () \<longleftrightarrow>
     selection_ok (oc_selection oc)
     \<and> (oc_disposition oc = Applied \<longrightarrow> \<not> observation_is_empty (oc_observation oc))
     \<and> (oc_disposition oc = Abandoned \<longrightarrow> observation_is_empty (oc_observation oc))
     \<and> (oc_disposition oc = InFlight \<longrightarrow> succeeded (oc_observation oc) = None)
     \<and> oc_identity oc = identity_of H p i d
     \<and> (d_action d = Reject \<longrightarrow> oc_disposition oc = Abandoned)
     \<and> (se_strategy (oc_selection oc) = MaximiseUtility \<longrightarrow> se_acted_model_id (oc_selection oc) = d_selected_model_id d)
     \<and> (d_action d \<noteq> Reject \<longrightarrow> se_acted_model_id (oc_selection oc) \<in> model_id ` set (ps_models p))"
  by (cases "oc_disposition oc"; cases "disagreement (oc_identity oc) (identity_of H p i d)")
    (auto simp: validate_against_def validate_outcome_def validate_selection_Inr disagreement_None list_ex_model Let_def
      simp flip: disagreement_None)

text \<open>
  An accepted outcome pins its decision: a record that is accepted for two decisions was
  accepted for the same request and the same decision under policies with the same limits and the
  same models, unless two of the hashed layouts collide.
\<close>

lemma accepted_outcome_pins_decision:
  assumes "validate_against H p i d oc = Inr ()" and "validate_against H q j e oc = Inr ()"
  shows "i = j \<and> d = e \<and> same_limits p q \<and> mset (ps_models p) = mset (ps_models q)
    \<or> collision H [policy_bytes p, input_bytes i, decision_bytes d] [policy_bytes q, input_bytes j, decision_bytes e]"
proof -
  have eq: "policy_digest H p = policy_digest H q" "input_digest H i = input_digest H j"
    "decision_digest H d = decision_digest H e"
    using assms unfolding validate_against_Inr by (simp_all add: identity_of_def)
  show ?thesis
  proof (cases "policy_bytes p = policy_bytes q \<and> i = j \<and> d = e")
    case True
    then show ?thesis by (auto simp: policy_bytes_eq dest: sort_key_mset)
  next
    case False
    then show ?thesis using eq
      by (auto simp: policy_digest_def input_digest_def decision_digest_def intro: collisionI)
  qed
qed

lemma abandoned_accepted:
  assumes "d_action d = Reject" "policy_digest H p = policy_digest H q"
  shows "validate_against H q i d (abandoned H p i d at_micros) = Inr ()"
  unfolding validate_against_Inr using assms
  by (simp add: abandoned_def selection_ok_def followed_def FULL_PROBABILITY_BPS_def observation_is_empty_def identity_of_def)

lemma optional_bytes_append:
  assumes "\<And>v w. length (f v) = length (f w)" and "\<And>v w. f v = f w \<longleftrightarrow> v = w"
  shows "optional_bytes f x @ r = optional_bytes f y @ s \<longleftrightarrow> x = y \<and> r = s"
  using assms by (cases x; cases y) (auto simp: optional_bytes_def)

lemma strategy_code_inject [simp]: "strategy_code a = strategy_code b \<longleftrightarrow> a = b"
  by (cases a; cases b) simp_all

lemma disposition_code_inject [simp]: "disposition_code a = disposition_code b \<longleftrightarrow> a = b"
  by (cases a; cases b) simp_all

lemma identity_bytes_inject [simp]: "identity_bytes a = identity_bytes b \<longleftrightarrow> a = b"
  by (auto simp: identity_bytes_def le_bytes_inject intro: decision_identity.equality simp del: le_bytes.simps)

lemma selection_bytes_inject [simp]: "selection_bytes s = selection_bytes t \<longleftrightarrow> s = t"
proof -
  have "optional_bytes (le_bytes 2) x = optional_bytes (le_bytes 2) y \<longleftrightarrow> x = y" for x y :: "u16 option"
    using optional_bytes_append [of "le_bytes 2 :: u16 \<Rightarrow> bytes" x "[]" y "[]"]
    by (simp add: le_bytes_inject del: le_bytes.simps)
  then show ?thesis
    by (auto simp: selection_bytes_def le_bytes_inject intro: selection.equality simp del: le_bytes.simps)
qed

text \<open>The digest of a record fixes every field of it, up to a collision.\<close>

lemma outcome_digest_binds:
  assumes "outcome_digest H oc = outcome_digest H oc'"
  shows "oc = oc' \<or> collision H
    [outcome_bytes H oc, identity_bytes (oc_identity oc), selection_bytes (oc_selection oc)]
    [outcome_bytes H oc', identity_bytes (oc_identity oc'), selection_bytes (oc_selection oc')]"
proof (cases "outcome_bytes H oc = outcome_bytes H oc'
    \<and> oc_identity oc = oc_identity oc' \<and> oc_selection oc = oc_selection oc'")
  case False
  have ids: "identity_digest H (oc_identity oc) = identity_digest H (oc_identity oc')"
    "selection_digest H (oc_selection oc) = selection_digest H (oc_selection oc')"
    if "outcome_bytes H oc = outcome_bytes H oc'"
    using that by (simp_all add: outcome_bytes_def del: le_bytes.simps)
  from False assms ids show ?thesis
    by (cases "outcome_bytes H oc = outcome_bytes H oc'")
      (auto simp: outcome_digest_def identity_digest_def selection_digest_def intro: collisionI)
next
  case True
  have tail: "optional_bytes (le_bytes 8) c @ optional_bytes (le_bytes 4) l @ optional_bytes (\<lambda>b. [if b then 1 else 0]) s
      = optional_bytes (le_bytes 8) c' @ optional_bytes (le_bytes 4) l' @ optional_bytes (\<lambda>b. [if b then 1 else 0]) s'
      \<longleftrightarrow> c = c' \<and> l = l' \<and> s = s'" for c c' :: "u64 option" and l l' :: "u32 option" and s s' :: "bool option"
    using optional_bytes_append [of "\<lambda>b. [if b then 1 else 0]" s "[]" s' "[]"]
    by (simp add: optional_bytes_append le_bytes_inject del: le_bytes.simps)
  from True have "oc = oc'"
    by (intro outcome.equality observation.equality) (simp_all add: outcome_bytes_def tail le_bytes_inject del: le_bytes.simps)
  then show ?thesis ..
qed

end
