(* ===== verification/Exploration.thy ===== *)
theory Exploration
  imports Outcome
begin

text \<open>
  Keyed exploration among near-best candidates (\<open>src/src/exploration.rs\<close>) and the exact
  propensities an off-policy estimate reads (the integer part of \<open>src/src/ope.rs\<close>): the draw, the
  rejection sampling, the record and its conversion to a selection. The recorded probability is
  exact; sampling returns unless every retry word is refused; the record of an explored decision is
  one the outcome validation accepts.

  HMAC-SHA256 is the parameter \<open>M\<close>. The sampling loop may run forever, so it is a partial function
  and \<open>explore\<close> returns an option around its result.
\<close>

section \<open>Exact propensities\<close>

record propensity =
  pr_numerator :: u64
  pr_denominator :: u64

definition propensity_new :: "u64 \<Rightarrow> u64 \<Rightarrow> propensity option" where
  "propensity_new n d = (if n > 0 \<and> n \<le> d then Some \<lparr> pr_numerator = n, pr_denominator = d \<rparr> else None)"

definition propensity_from_bps :: "u16 \<Rightarrow> propensity option" where
  "propensity_from_bps bps = propensity_new (ucast bps) BASIS_POINTS"

definition is_one :: "propensity \<Rightarrow> bool" where
  "is_one q \<longleftrightarrow> pr_numerator q = pr_denominator q"

definition to_bps :: "propensity \<Rightarrow> u16" where
  "to_bps q =
     (let bps = (ucast (pr_numerator q) * ucast BASIS_POINTS + ucast (pr_denominator q) div 2)
                  div (ucast (pr_denominator q) :: u128)
      in ucast (max 1 (min bps (ucast BASIS_POINTS))))"

definition target_choice :: "policy_snapshot \<Rightarrow> kernel_input \<Rightarrow> u32" where
  "target_choice target i =
     (let d = prescribe target i in if is_executable d then d_selected_model_id d else 0)"

definition usable :: "hasher \<Rightarrow> kernel_input \<Rightarrow> outcome \<Rightarrow> bool" where
  "usable H i oc \<longleftrightarrow>
     validate_outcome oc = Inr () \<and> di_input_digest (oc_identity oc) = input_digest H i"

section \<open>Configuration and record\<close>

definition EXPLORATION_TAG :: bytes where
  "EXPLORATION_TAG = ascii ''calyexp1''"

definition MIN_EXPLORATION_KEY_BYTES :: nat where
  "MIN_EXPLORATION_KEY_BYTES = 32"

record exploration_config =
  rate_bps :: u16
  window_microunits :: u64

datatype exploration_error = ShortKey nat | RateOutOfRange u16 | RecordMismatch

record exploration_record =
  xr_decision :: kernel_decision
  xr_config :: exploration_config
  acted_model_id :: u32
  explored :: bool
  window_size :: u32
  propensity_numerator :: u64
  propensity_denominator :: u64

definition record_propensity :: "exploration_record \<Rightarrow> propensity option" where
  "record_propensity r = propensity_new (propensity_numerator r) (propensity_denominator r)"

definition record_propensity_bps :: "exploration_record \<Rightarrow> u16" where
  "record_propensity_bps r =
     (let bps = (ucast (propensity_numerator r) * ucast BASIS_POINTS + ucast (propensity_denominator r) div 2)
                  div (ucast (max (propensity_denominator r) 1) :: u128)
      in ucast (max 1 (min bps (ucast BASIS_POINTS))))"

definition record_selection :: "exploration_record \<Rightarrow> selection option" where
  "record_selection r =
     (if \<not> is_executable (xr_decision r) then None
      else Some (if explored r then explored_selection (acted_model_id r) (record_propensity_bps r)
                 else if propensity_numerator r = propensity_denominator r then followed (xr_decision r)
                 else explored_selection (acted_model_id r) (record_propensity_bps r)))"

definition record_bytes :: "hasher \<Rightarrow> policy_snapshot \<Rightarrow> kernel_input \<Rightarrow> exploration_record \<Rightarrow> bytes" where
  "record_bytes H p i r =
     EXPLORATION_TAG @ hash_bytes (policy_digest H p) @ hash_bytes (input_digest H i)
     @ hash_bytes (decision_digest H (xr_decision r)) @ be_bytes 2 (rate_bps (xr_config r))
     @ be_bytes 8 (window_microunits (xr_config r)) @ be_bytes 4 (acted_model_id r)
     @ [if explored r then 1 else 0] @ be_bytes 4 (window_size r) @ be_bytes 8 (propensity_numerator r)
     @ be_bytes 8 (propensity_denominator r)"

definition record_digest :: "hasher \<Rightarrow> policy_snapshot \<Rightarrow> kernel_input \<Rightarrow> exploration_record \<Rightarrow> hash" where
  "record_digest H p i r = H (record_bytes H p i r)"

section \<open>The draw\<close>

definition u64_from_be_bytes :: "bytes \<Rightarrow> u64" where
  "u64_from_be_bytes bs = of_nat (le_val (rev bs))"

definition ROLL :: u8 where
  "ROLL = 0"

definition PICK :: u8 where
  "PICK = 1"

definition draw :: "hasher \<Rightarrow> (bytes \<Rightarrow> hasher) \<Rightarrow> policy_snapshot \<Rightarrow> kernel_input \<Rightarrow> bytes \<Rightarrow> bytes" where
  "draw H M p i key =
     hash_bytes (M key (EXPLORATION_TAG @ hash_bytes (policy_digest H p) @ hash_bytes (input_digest H i)))"

definition retry_word ::
  "hasher \<Rightarrow> (bytes \<Rightarrow> hasher) \<Rightarrow> policy_snapshot \<Rightarrow> kernel_input \<Rightarrow> bytes \<Rightarrow> u8 \<Rightarrow> u32 \<Rightarrow> u64" where
  "retry_word H M p i key which n =
     u64_from_be_bytes (take 8 (hash_bytes (M key
       (EXPLORATION_TAG @ hash_bytes (policy_digest H p) @ hash_bytes (input_digest H i)
        @ [which] @ be_bytes 4 n))))"

definition rejected_words :: "u64 \<Rightarrow> u64" where
  "rejected_words n = (-1 mod n + 1) mod n"

text \<open>The \<open>while\<close> loop; the retry counter wraps, as in a release build.\<close>

partial_function (option) uniform_loop :: "u64 \<Rightarrow> (u32 \<Rightarrow> u64) \<Rightarrow> u32 \<Rightarrow> u64 \<Rightarrow> u64 option" where
  "uniform_loop rej retry i word =
     (if rej \<noteq> 0 \<and> word \<ge> - rej then uniform_loop rej retry (i + 1) (retry i) else Some word)"

definition uniform :: "u64 \<Rightarrow> u64 \<Rightarrow> (u32 \<Rightarrow> u64) \<Rightarrow> u64 option" where
  "uniform n first retry = map_option (\<lambda>word. word mod n) (uniform_loop (rejected_words n) retry 0 first)"

section \<open>Exploring\<close>

definition window_others :: "kernel_decision \<Rightarrow> exploration_config \<Rightarrow> candidate_explanation list \<Rightarrow> u32 list" where
  "window_others d cfg candidates =
     (let floor = sint (d_expected_utility_microunits d) - uint (window_microunits cfg)
      in map e_model_id (filter (\<lambda>c. e_model_id c \<noteq> d_selected_model_id d
           \<and> (case e_verdict c of Eligible t \<Rightarrow> sint (t_utility t) \<ge> floor | _ \<Rightarrow> False)) candidates))"

text \<open>The choice and the record, once the two numbers are drawn.\<close>

definition explore_choice ::
  "kernel_decision \<Rightarrow> exploration_config \<Rightarrow> u32 list \<Rightarrow> u64 \<Rightarrow> u64 \<Rightarrow> exploration_record" where
  "explore_choice d cfg others roll pick =
     (let k = of_nat (length others) + 1 :: u64;
          rate = ucast (rate_bps cfg) :: u64;
          den = BASIS_POINTS * k;
          explore_now = (k > 1 \<and> roll < rate);
          (acted, explored) =
            (if explore_now \<and> pick > 0 then (others ! unat (pick - 1), True) else (d_selected_model_id d, False));
          num = (if k = 1 then den else if explored then rate else (BASIS_POINTS - rate) * k + rate)
      in \<lparr> xr_decision = d, xr_config = cfg, acted_model_id = acted, explored = explored,
           window_size = ucast k, propensity_numerator = num, propensity_denominator = den \<rparr>)"

definition explore ::
  "hasher \<Rightarrow> (bytes \<Rightarrow> hasher) \<Rightarrow> policy_snapshot \<Rightarrow> kernel_input \<Rightarrow> exploration_config \<Rightarrow> bytes
    \<Rightarrow> (exploration_error + exploration_record) option" where
  "explore H M p i cfg key =
     (if length key < MIN_EXPLORATION_KEY_BYTES then Some (Inl (ShortKey (length key)))
      else if ucast (rate_bps cfg) > BASIS_POINTS then Some (Inl (RateOutOfRange (rate_bps cfg)))
      else
        let explanation = explain p i; d = x_decision explanation
        in if \<not> is_executable d
           then Some (Inr \<lparr> xr_decision = d, xr_config = cfg, acted_model_id = 0, explored = False, window_size = 0,
                            propensity_numerator = 1, propensity_denominator = 1 \<rparr>)
           else
             let others = window_others d cfg (x_candidates explanation);
                 k = of_nat (length others) + 1 :: u64;
                 bits = draw H M p i key
             in Option.bind (uniform BASIS_POINTS (u64_from_be_bytes (take 8 bits)) (retry_word H M p i key ROLL)) (\<lambda>roll.
                Option.bind (uniform k (u64_from_be_bytes (take 8 (drop 8 bits))) (retry_word H M p i key PICK)) (\<lambda>pick.
                  Some (Inr (explore_choice d cfg others roll pick)))))"

definition verify_exploration ::
  "hasher \<Rightarrow> (bytes \<Rightarrow> hasher) \<Rightarrow> policy_snapshot \<Rightarrow> kernel_input \<Rightarrow> bytes \<Rightarrow> exploration_record
    \<Rightarrow> (exploration_error + unit) option" where
  "verify_exploration H M p i key r =
     map_option (\<lambda>replayed. and_then replayed (\<lambda>replay. if replay = r then Inr () else Inl RecordMismatch))
       (explore H M p i (xr_config r) key)"

section \<open>Rejection sampling\<close>

lemma word_of_nat_unat: "of_nat (unat w) = w" for w :: u64
  by simp

lemma unat_neg: "unat (- w) = (if w = 0 then 0 else 2 ^ 64 - unat w)" for w :: u64
proof (cases "w = 0")
  case False
  then have w: "0 < unat w" by (simp add: word_neq_0_conv word_less_nat_alt)
  have "- w = of_nat (2 ^ 64 - unat w)" using unat_lt2p [of w] by (simp add: of_nat_diff)
  moreover have "unat (of_nat (2 ^ 64 - unat w) :: u64) = 2 ^ 64 - unat w"
    using w by (simp only: unat_of_nat) (simp add: take_bit_nat_eq_self)
  ultimately show ?thesis using False by metis
qed simp

text \<open>The words the sampling keeps.\<close>

definition accepted_word :: "u64 \<Rightarrow> u64 \<Rightarrow> bool" where
  "accepted_word n w \<longleftrightarrow> rejected_words n = 0 \<or> w < - rejected_words n"

lemma unat_rejected_words:
  assumes "0 < n"
  shows "unat (rejected_words n) = 2 ^ 64 mod unat n"
proof -
  have n: "0 < unat n" using assms by (simp add: word_less_nat_alt)
  have m: "unat (-1 mod n :: u64) = (2 ^ 64 - 1) mod unat n" by (simp add: unat_mod)
  have lt: "(2 ^ 64 - 1) mod unat n < unat n" using n by simp
  then have "(2 ^ 64 - 1) mod unat n + 1 < 2 ^ 64 \<or> (2 ^ 64 - 1) mod unat n + 1 = 2 ^ 64"
    using unat_lt2p [of n] by auto
  moreover have "(2 ^ 64 - 1) mod unat n + 1 \<le> unat n" using lt by simp
  ultimately have "unat (-1 mod n + 1 :: u64) = (2 ^ 64 - 1) mod unat n + 1"
    using unat_lt2p [of n] by (simp add: unat_word_ariths m)
  then have "unat (rejected_words n) = ((2 ^ 64 - 1) mod unat n + 1) mod unat n"
    by (simp add: rejected_words_def unat_mod)
  also have "\<dots> = (2 ^ 64 - 1 + 1) mod unat n" by (rule mod_add_left_eq)
  also have "(2 ^ 64 - 1 + 1 :: nat) = 2 ^ 64" by simp
  finally show ?thesis .
qed

lemma accepted_word_iff:
  assumes "0 < n"
  shows "accepted_word n w \<longleftrightarrow> unat w < unat n * (2 ^ 64 div unat n)"
proof -
  have "2 ^ 64 - 2 ^ 64 mod unat n = unat n * (2 ^ 64 div unat n)"
    by (metis minus_mod_eq_mult_div)
  moreover have "unat (- rejected_words n) = (if rejected_words n = 0 then 0 else 2 ^ 64 - unat (rejected_words n))"
    by (simp add: unat_neg)
  ultimately show ?thesis
    using unat_rejected_words [OF assms] unat_lt2p [of w]
    by (auto simp: accepted_word_def word_less_nat_alt simp flip: unat_eq_0)
qed

text \<open>Every result is covered by the same number of kept words.\<close>

lemma accepted_words_uniform:
  assumes "r < n"
  shows "card {w. accepted_word n w \<and> w mod n = r} = 2 ^ 64 div unat n"
proof -
  have n: "0 < n" using assms by (simp add: word_less_nat_alt)
  then have n': "0 < unat n" by (simp add: word_less_nat_alt)
  have r: "unat r < unat n" using assms by (simp add: word_less_nat_alt)
  let ?N = "2 ^ 64 div unat n"
  let ?f = "\<lambda>q. of_nat (q * unat n + unat r) :: u64"
  have bound: "q * unat n + unat r < unat n * ?N" if "q < ?N" for q
  proof -
    have "q * unat n + unat r < (q + 1) * unat n" using r by simp
    also have "\<dots> \<le> ?N * unat n" using that by (intro mult_right_mono) simp_all
    finally show ?thesis by (simp add: mult.commute)
  qed
  have le: "unat n * ?N \<le> 2 ^ 64" by (rule times_div_less_eq_dividend)
  have val: "unat (?f q) = q * unat n + unat r" if "q < ?N" for q
    using less_le_trans [OF bound [OF that] le] by (simp only: unat_of_nat) (simp add: take_bit_nat_eq_self)
  have "{w. accepted_word n w \<and> w mod n = r} = ?f ` {..< ?N}"
  proof (intro equalityI subsetI)
    fix w assume "w \<in> {w. accepted_word n w \<and> w mod n = r}"
    then have w: "unat w < unat n * ?N" "unat w mod unat n = unat r"
      using accepted_word_iff [OF n] by (auto simp flip: unat_mod)
    have "w = ?f (unat w div unat n)"
      using div_mult_mod_eq [of "unat w" "unat n"] unfolding w(2) by (simp only: word_of_nat_unat)
    moreover have "unat w div unat n < ?N" using w(1) by (simp add: less_mult_imp_div_less mult.commute)
    ultimately show "w \<in> ?f ` {..< ?N}" by blast
  next
    fix w assume "w \<in> ?f ` {..< ?N}"
    then obtain q where q: "q < ?N" "w = ?f q" by auto
    then have "unat w = q * unat n + unat r" using val by simp
    then show "w \<in> {w. accepted_word n w \<and> w mod n = r}"
      using bound [OF q(1)] r by (simp add: accepted_word_iff [OF n] unat_eq_iff [symmetric] unat_mod)
  qed
  moreover have "inj_on ?f {..< ?N}"
  proof (rule inj_onI)
    fix x y assume xy: "x \<in> {..< ?N}" "y \<in> {..< ?N}" "?f x = ?f y"
    then have "x * unat n + unat r = y * unat n + unat r" using val [of x] val [of y] by simp
    then show "x = y" using n' by simp
  qed
  ultimately show ?thesis by (simp add: card_image)
qed

text \<open>The loop stops at a kept word among the first one and the retries, as soon as there is one.\<close>

lemma uniform_loop_Some:
  assumes "uniform_loop rej retry i word = Some v"
  shows "(rej = 0 \<or> v < - rej) \<and> (v = word \<or> (\<exists>j. v = retry j))"
proof (rule uniform_loop.raw_induct [where P = "\<lambda>rej retry i word v.
    (rej = 0 \<or> v < - rej) \<and> (v = word \<or> (\<exists>j. v = retry j))", OF _ assms])
  fix loop :: "u64 \<Rightarrow> (u32 \<Rightarrow> u64) \<Rightarrow> u32 \<Rightarrow> u64 \<Rightarrow> u64 option" and rej retry i word v
  assume IH: "\<And>rej retry i word v. loop rej retry i word = Some v \<Longrightarrow>
      (rej = 0 \<or> v < - rej) \<and> (v = word \<or> (\<exists>j. v = retry j))"
    and eq: "(if rej \<noteq> 0 \<and> - rej \<le> word then loop rej retry (i + 1) (retry i) else Some word) = Some v"
  show "(rej = 0 \<or> v < - rej) \<and> (v = word \<or> (\<exists>j. v = retry j))"
  proof (cases "rej \<noteq> 0 \<and> - rej \<le> word")
    case True
    then have "loop rej retry (i + 1) (retry i) = Some v" using eq by simp
    from IH [OF this] show ?thesis by blast
  next
    case False
    then have "v = word" using eq by (simp only: if_False option.inject)
    with False show ?thesis by (auto simp: not_le)
  qed
qed

lemma mod_less_word: "0 < n \<Longrightarrow> w mod n < n" for n w :: u64
  by (simp add: word_less_nat_alt unat_mod)

text \<open>The words the loop looks at, in order: the first one, then the retries (the counter is a \<open>u32\<close>).\<close>

definition word_at :: "u64 \<Rightarrow> (u32 \<Rightarrow> u64) \<Rightarrow> nat \<Rightarrow> u64" where
  "word_at first retry k = (case k of 0 \<Rightarrow> first | Suc j \<Rightarrow> retry (of_nat j))"

lemma uniform_loop_first_kept:
  assumes "rej = 0 \<or> word_at word (\<lambda>j. retry (i + j)) k < - rej"
    and "\<And>j. j < k \<Longrightarrow> rej \<noteq> 0 \<and> word_at word (\<lambda>j. retry (i + j)) j \<ge> - rej"
  shows "uniform_loop rej retry i word = Some (word_at word (\<lambda>j. retry (i + j)) k)"
  using assms
proof (induction k arbitrary: i word)
  case 0
  then show ?case by (auto simp: uniform_loop.simps [of rej retry i word] word_at_def)
next
  case (Suc k)
  have shift: "word_at (retry i) (\<lambda>j. retry (i + 1 + j)) j = word_at word (\<lambda>j. retry (i + j)) (Suc j)" for j
    by (cases j) (simp_all add: word_at_def algebra_simps)
  have "rej \<noteq> 0 \<and> word \<ge> - rej" using Suc.prems(2) [of 0] by (simp add: word_at_def)
  moreover have "uniform_loop rej retry (i + 1) (retry i) = Some (word_at word (\<lambda>j. retry (i + j)) (Suc k))"
    using Suc.IH [of "retry i" "i + 1"] Suc.prems unfolding shift by (metis Suc_less_eq)
  ultimately show ?case by (simp add: uniform_loop.simps [of rej retry i word])
qed

lemma uniform_first_kept:
  assumes "accepted_word n (word_at first retry k)" "\<And>j. j < k \<Longrightarrow> \<not> accepted_word n (word_at first retry j)"
  shows "uniform n first retry = Some (word_at first retry k mod n)"
  using uniform_loop_first_kept [of "rejected_words n" first retry 0 k] assms
  by (simp add: uniform_def accepted_word_def not_less)

lemma uniform_Some_iff:
  "uniform n first retry = Some u \<longleftrightarrow>
     (\<exists>k. accepted_word n (word_at first retry k) \<and> (\<forall>j < k. \<not> accepted_word n (word_at first retry j))
       \<and> u = word_at first retry k mod n)"
proof
  assume u: "uniform n first retry = Some u"
  then obtain v where "uniform_loop (rejected_words n) retry 0 first = Some v" by (auto simp: uniform_def)
  from uniform_loop_Some [OF this] have v: "accepted_word n v" "v = first \<or> (\<exists>j. v = retry j)" by (auto simp: accepted_word_def)
  have "\<exists>k. v = word_at first retry k"
  proof (cases "v = first")
    case True
    then show ?thesis by (intro exI [of _ 0]) (simp add: word_at_def)
  next
    case False
    then obtain j where "v = retry j" using v(2) by blast
    then show ?thesis by (intro exI [of _ "Suc (unat j)"]) (simp add: word_at_def)
  qed
  with v(1) have ex: "\<exists>k. accepted_word n (word_at first retry k)" by metis
  define k where "k = (LEAST k. accepted_word n (word_at first retry k))"
  have k: "accepted_word n (word_at first retry k)" "\<And>j. j < k \<Longrightarrow> \<not> accepted_word n (word_at first retry j)"
    unfolding k_def using LeastI_ex [OF ex] not_less_Least by blast+
  from uniform_first_kept [OF k] u k show "\<exists>k. accepted_word n (word_at first retry k)
      \<and> (\<forall>j < k. \<not> accepted_word n (word_at first retry j)) \<and> u = word_at first retry k mod n" by auto
qed (use uniform_first_kept in blast)

lemma word_at_upd: "j \<le> k \<Longrightarrow> k < 2 ^ 32 \<Longrightarrow> word_at first (retry(of_nat k := w)) j = word_at first retry j"
  by (auto simp: word_at_def unat_eq_iff [symmetric] unat_of_nat take_bit_eq_mod split: nat.splits)

lemma uniform_returns_iff:
  assumes "0 < n"
  shows "(\<exists>u. uniform n first retry = Some u \<and> u < n) \<longleftrightarrow> accepted_word n first \<or> (\<exists>j. accepted_word n (retry j))"
proof -
  have "word_at first retry 0 = first" "word_at first retry (Suc (unat j)) = retry j" for j by (simp_all add: word_at_def)
  moreover have "word_at first retry k = first \<or> (\<exists>j. word_at first retry k = retry j)" for k
    by (cases k) (auto simp: word_at_def)
  ultimately have "(\<exists>k. accepted_word n (word_at first retry k)) \<longleftrightarrow> accepted_word n first \<or> (\<exists>j. accepted_word n (retry j))"
    by metis
  moreover have "(\<exists>u. uniform n first retry = Some u \<and> u < n) \<longleftrightarrow> (\<exists>k. accepted_word n (word_at first retry k))"
  proof
    assume ex: "\<exists>k. accepted_word n (word_at first retry k)"
    define k where "k = (LEAST k. accepted_word n (word_at first retry k))"
    have "accepted_word n (word_at first retry k)" "\<And>j. j < k \<Longrightarrow> \<not> accepted_word n (word_at first retry j)"
      unfolding k_def using LeastI_ex [OF ex] not_less_Least by blast+
    from uniform_first_kept [OF this] mod_less_word [OF assms]
    show "\<exists>u. uniform n first retry = Some u \<and> u < n" by blast
  qed (auto simp: uniform_Some_iff)
  ultimately show ?thesis by simp
qed

text \<open>Whichever word is the first one kept, its kept values share the results evenly.\<close>

lemma uniform_even_at:
  assumes "r < n" "k < 2 ^ 32" "\<forall>j \<le> k. \<not> accepted_word n (word_at first retry j)"
  shows "card {w. accepted_word n w \<and> uniform n first (retry(of_nat k := w)) = Some r} = 2 ^ 64 div unat n"
proof -
  have "uniform n first (retry(of_nat k := w)) = Some (w mod n)" if "accepted_word n w" for w
    using uniform_first_kept [of n first "retry(of_nat k := w)" "Suc k"] that assms(3) word_at_upd [OF _ assms(2), of _ first retry w]
    by (simp add: word_at_def [of _ _ "Suc k"] less_Suc_eq_le)
  then have "{w. accepted_word n w \<and> uniform n first (retry(of_nat k := w)) = Some r} = {w. accepted_word n w \<and> w mod n = r}" by auto
  then show ?thesis using accepted_words_uniform [OF assms(1)] by simp
qed

text \<open>
  C31. Sampling returns exactly when it can, and without bias. For a positive \<open>n\<close>, the result of
  \<open>uniform\<close> is the remainder of the first kept word in the order first word, retry 0, retry 1, and so
  on; there is a result exactly when some word is kept, and it is below \<open>n\<close>. Every number below \<open>n\<close> is
  the result for exactly \<open>2 ^ 64 div n\<close> of the kept values of the first word, and, when the first word
  and the retries before are all rejected, for exactly as many of the kept values of the next retry.
\<close>

theorem uniform_returns_unbiased:
  assumes "0 < n"
  shows "(uniform n first retry = Some u \<longleftrightarrow>
      (\<exists>k. accepted_word n (word_at first retry k) \<and> (\<forall>j < k. \<not> accepted_word n (word_at first retry j))
        \<and> u = word_at first retry k mod n))
    \<and> ((\<exists>u. uniform n first retry = Some u \<and> u < n) \<longleftrightarrow> accepted_word n first \<or> (\<exists>j. accepted_word n (retry j)))
    \<and> (\<forall>r < n. card {w. accepted_word n w \<and> uniform n w retry = Some r} = 2 ^ 64 div unat n)
    \<and> (\<forall>r < n. \<forall>k < 2 ^ 32. (\<forall>j \<le> k. \<not> accepted_word n (word_at first retry j)) \<longrightarrow>
        card {w. accepted_word n w \<and> uniform n first (retry(of_nat k := w)) = Some r} = 2 ^ 64 div unat n)"
proof (intro conjI allI impI)
  show "uniform n first retry = Some u \<longleftrightarrow>
      (\<exists>k. accepted_word n (word_at first retry k) \<and> (\<forall>j < k. \<not> accepted_word n (word_at first retry j))
        \<and> u = word_at first retry k mod n)"
    by (rule uniform_Some_iff)
  show "(\<exists>u. uniform n first retry = Some u \<and> u < n) \<longleftrightarrow> accepted_word n first \<or> (\<exists>j. accepted_word n (retry j))"
    using assms by (rule uniform_returns_iff)
  show "card {w. accepted_word n w \<and> uniform n w retry = Some r} = 2 ^ 64 div unat n" if "r < n" for r
  proof -
    have "uniform n w retry = Some (w mod n)" if "accepted_word n w" for w
      using uniform_first_kept [of n w retry 0] that by (simp add: word_at_def)
    then have "{w. accepted_word n w \<and> uniform n w retry = Some r} = {w. accepted_word n w \<and> w mod n = r}" by auto
    then show ?thesis using accepted_words_uniform [OF that] by simp
  qed
qed (rule uniform_even_at)

theorem uniform_returns_unbiased_witness:
  "0 < (3 :: u64) \<and> \<not> accepted_word 3 (-1)
   \<and> uniform 3 (-1) (\<lambda>j. ucast j + 4) = Some 1
   \<and> (\<exists>k. accepted_word 3 (word_at (-1) (\<lambda>j. ucast j + 4) k) \<and> 1 = word_at (-1) (\<lambda>j. ucast j + 4) k mod (3 :: u64))
   \<and> card {w. accepted_word 3 w \<and> uniform 3 w (\<lambda>j. ucast j + 4) = Some 2} = 2 ^ 64 div unat (3 :: u64)
   \<and> card {w. accepted_word 3 w \<and> uniform 3 (-1) ((\<lambda>_. -1)(0 := w)) = Some 2} = 2 ^ 64 div unat (3 :: u64)"
proof -
  have r: "rejected_words 3 = 1" by (simp add: rejected_words_def)
  have n: "\<not> accepted_word 3 (-1)" by (simp add: accepted_word_def r)
  have "uniform_loop 1 (\<lambda>j. ucast j + 4) 0 (-1) = Some 4"
    by (simp add: uniform_loop.simps [of 1 _ 0 "-1"] uniform_loop.simps [of 1 _ 1 4] word_le_nat_alt)
  then have u: "uniform 3 (-1) (\<lambda>j. ucast j + 4) = Some 1" by (simp add: uniform_def r)
  have three: "0 < (3 :: u64)" "2 < (3 :: u64)" by simp_all
  have "\<not> accepted_word 3 (word_at (-1) (\<lambda>_. -1) j)" for j using n by (cases j) (simp_all add: word_at_def)
  then have "card {w. accepted_word 3 w \<and> uniform 3 (-1) ((\<lambda>_. -1)(of_nat 0 := w)) = Some 2} = 2 ^ 64 div unat (3 :: u64)"
    by (intro uniform_returns_unbiased [OF three(1), THEN conjunct2, THEN conjunct2, THEN conjunct2, rule_format, OF three(2)]) simp_all
  then have c: "card {w. accepted_word 3 w \<and> uniform 3 (-1) ((\<lambda>_. -1)(0 := w)) = Some 2} = 2 ^ 64 div unat (3 :: u64)"
    by simp
  note t = uniform_returns_unbiased [OF three(1), of "-1" "\<lambda>j. ucast j + 4" 1]
  show ?thesis
    using u n c three iffD1 [OF conjunct1 [OF t] u] t [THEN conjunct2, THEN conjunct2, THEN conjunct1, rule_format, OF three(2)] by blast
qed

section \<open>The recorded probability\<close>

lemma card_word_less: "card {w. w < n} = unat n" for n :: u64
proof -
  have "{w. w < n} = of_nat ` {..< unat n}"
  proof (intro equalityI subsetI)
    fix w assume "w \<in> {w. w < n}"
    then have "unat w < unat n" "w = of_nat (unat w)" by (simp_all add: word_less_nat_alt)
    then show "w \<in> of_nat ` {..< unat n}" by blast
  next
    fix w :: u64 assume "w \<in> of_nat ` {..< unat n}"
    then obtain q where "q < unat n" "w = of_nat q" by auto
    then show "w \<in> {w. w < n}" using unat_lt2p [of n] by (simp add: word_less_nat_alt unat_of_nat take_bit_nat_eq_self)
  qed
  moreover have "inj_on (of_nat :: nat \<Rightarrow> u64) {..< unat n}"
  proof (rule inj_onI)
    fix x y assume xy: "x \<in> {..< unat n}" "y \<in> {..< unat n}" "of_nat x = (of_nat y :: u64)"
    then have "x < 2 ^ 64" "y < 2 ^ 64" using unat_lt2p [of n] by simp_all
    moreover have "unat (of_nat x :: u64) = unat (of_nat y :: u64)" using xy(3) by simp
    ultimately show "x = y" by (simp add: unat_of_nat take_bit_nat_eq_self)
  qed
  ultimately show ?thesis by (simp add: card_image)
qed

lemma card_fibres:
  assumes "finite G" "\<And>x. x \<in> G \<Longrightarrow> card {w \<in> A. f w = x} = c" "finite A"
  shows "card {w \<in> A. f w \<in> G} = card G * c"
proof -
  have "{w \<in> A. f w \<in> G} = (\<Union>x \<in> G. {w \<in> A. f w = x})" by blast
  moreover have "card (\<Union>x \<in> G. {w \<in> A. f w = x}) = (\<Sum>x \<in> G. card {w \<in> A. f w = x})"
    using assms by (intro card_UN_disjoint) auto
  ultimately show ?thesis using assms(2) by simp
qed

text \<open>Pairs of kept words, and the two numbers they give.\<close>

definition kept_words :: "u64 \<Rightarrow> (u64 \<times> u64) set" where
  "kept_words k = {w. accepted_word BASIS_POINTS w} \<times> {w. accepted_word k w}"

lemma kept_words_fibre:
  assumes "a < BASIS_POINTS" "b < k"
  shows "card {x \<in> kept_words k. (fst x mod BASIS_POINTS, snd x mod k) = (a, b)}
    = (2 ^ 64 div 10000) * (2 ^ 64 div unat k)"
proof -
  have "{x \<in> kept_words k. (fst x mod BASIS_POINTS, snd x mod k) = (a, b)}
      = {w. accepted_word BASIS_POINTS w \<and> w mod BASIS_POINTS = a} \<times> {w. accepted_word k w \<and> w mod k = b}"
    by (auto simp: kept_words_def)
  then show ?thesis
    using accepted_words_uniform [OF assms(1)] accepted_words_uniform [OF assms(2)]
    by (simp only: card_cartesian_product) (simp add: BASIS_POINTS_def)
qed

lemma kept_words_count:
  fixes P :: "u64 \<Rightarrow> u64 \<Rightarrow> bool"
  assumes "0 < k"
  shows "card {x \<in> kept_words k. P (fst x mod BASIS_POINTS) (snd x mod k)}
    = card {(a, b). a < BASIS_POINTS \<and> b < k \<and> P a b} * ((2 ^ 64 div 10000) * (2 ^ 64 div unat k))"
proof -
  let ?f = "\<lambda>x. (fst x mod BASIS_POINTS, snd x mod k)" and ?G = "{(a, b). a < BASIS_POINTS \<and> b < k \<and> P a b}"
  have "0 < BASIS_POINTS" by (simp add: BASIS_POINTS_def)
  then have "{x \<in> kept_words k. P (fst x mod BASIS_POINTS) (snd x mod k)} = {x \<in> kept_words k. ?f x \<in> ?G}"
    using assms mod_less_word by auto
  moreover have "card {x \<in> kept_words k. ?f x \<in> ?G} = card ?G * ((2 ^ 64 div 10000) * (2 ^ 64 div unat k))"
    by (rule card_fibres) (auto simp: kept_words_fibre [simplified])
  ultimately show ?thesis by simp
qed

lemma choice_acted:
  assumes "length others < 2 ^ 32"
  shows "acted_model_id (explore_choice d cfg others roll pick) =
      (if others \<noteq> [] \<and> roll < ucast (rate_bps cfg) \<and> 0 < pick then others ! unat (pick - 1) else d_selected_model_id d)"
    "explored (explore_choice d cfg others roll pick) \<longleftrightarrow> others \<noteq> [] \<and> roll < ucast (rate_bps cfg) \<and> 0 < pick"
    "propensity_denominator (explore_choice d cfg others roll pick) = BASIS_POINTS * (of_nat (length others) + 1)"
    "propensity_numerator (explore_choice d cfg others roll pick) =
      (if others = [] then BASIS_POINTS
       else if roll < ucast (rate_bps cfg) \<and> 0 < pick then ucast (rate_bps cfg)
       else (BASIS_POINTS - ucast (rate_bps cfg)) * (of_nat (length others) + 1) + ucast (rate_bps cfg))"
proof -
  have k: "unat (of_nat (length others) + 1 :: u64) = length others + 1"
    using assms by (simp add: unat_word_ariths unat_of_nat take_bit_nat_eq_self)
  then have "(of_nat (length others) + 1 = (1 :: u64)) \<longleftrightarrow> others = []" "(1 < of_nat (length others) + (1 :: u64)) \<longleftrightarrow> others \<noteq> []"
    by (auto simp: word_less_nat_alt unat_eq_iff [symmetric] simp del: unat_1)
  then show "acted_model_id (explore_choice d cfg others roll pick) =
      (if others \<noteq> [] \<and> roll < ucast (rate_bps cfg) \<and> 0 < pick then others ! unat (pick - 1) else d_selected_model_id d)"
    "explored (explore_choice d cfg others roll pick) \<longleftrightarrow> others \<noteq> [] \<and> roll < ucast (rate_bps cfg) \<and> 0 < pick"
    "propensity_denominator (explore_choice d cfg others roll pick) = BASIS_POINTS * (of_nat (length others) + 1)"
    "propensity_numerator (explore_choice d cfg others roll pick) =
      (if others = [] then BASIS_POINTS
       else if roll < ucast (rate_bps cfg) \<and> 0 < pick then ucast (rate_bps cfg)
       else (BASIS_POINTS - ucast (rate_bps cfg)) * (of_nat (length others) + 1) + ucast (rate_bps cfg))"
    by (simp_all add: explore_choice_def Let_def)
qed

lemma choice_fields:
  assumes "length others < 2 ^ 32" "unat (rate_bps cfg) \<le> 10000"
  shows "unat (of_nat (length others) + 1 :: u64) = length others + 1"
    "unat (propensity_denominator (explore_choice d cfg others roll pick)) = 10000 * (length others + 1)"
    "unat (propensity_numerator (explore_choice d cfg others roll pick)) =
      (if others \<noteq> [] \<and> explored (explore_choice d cfg others roll pick) then unat (rate_bps cfg)
       else (10000 - unat (rate_bps cfg)) * (length others + 1) + unat (rate_bps cfg))"
proof -
  show k: "unat (of_nat (length others) + 1 :: u64) = length others + 1"
    using assms(1) by (simp add: unat_word_ariths unat_of_nat take_bit_nat_eq_self)
  have den: "unat (BASIS_POINTS * (of_nat (length others) + 1)) = 10000 * (length others + 1)"
    using assms(1) by (subst unat_mul_fit) (simp_all add: BASIS_POINTS_def k)
  then show "unat (propensity_denominator (explore_choice d cfg others roll pick)) = 10000 * (length others + 1)"
    by (simp add: choice_acted(3) [OF assms(1)])
  have rate: "unat (ucast (rate_bps cfg) :: u64) = unat (rate_bps cfg)" by (rule unat_ucast_up) simp
  have sub: "unat (BASIS_POINTS - ucast (rate_bps cfg)) = 10000 - unat (rate_bps cfg)"
    using assms(2) by (simp add: unat_sub word_le_nat_alt rate BASIS_POINTS_def)
  have "(10000 - unat (rate_bps cfg)) * (length others + 1) \<le> 10000 * 2 ^ 32"
    using assms(1) by (intro mult_mono) simp_all
  then have num: "unat ((BASIS_POINTS - ucast (rate_bps cfg)) * (of_nat (length others) + 1) + ucast (rate_bps cfg))
      = (10000 - unat (rate_bps cfg)) * (length others + 1) + unat (rate_bps cfg)"
    using assms(2) by (subst unat_add_fit; (subst unat_mul_fit)?) (simp_all add: sub k rate)
  then show "unat (propensity_numerator (explore_choice d cfg others roll pick)) =
      (if others \<noteq> [] \<and> explored (explore_choice d cfg others roll pick) then unat (rate_bps cfg)
       else (10000 - unat (rate_bps cfg)) * (length others + 1) + unat (rate_bps cfg))"
    using assms(2) by (auto simp: choice_acted [OF assms(1)] rate BASIS_POINTS_def)
qed

text \<open>Of the pairs of a roll and a pick, those that act on the recorded model are as many as the numerator.\<close>

lemma choice_count:
  assumes "length others < 2 ^ 32" "unat (rate_bps cfg) \<le> 10000" "distinct others" "d_selected_model_id d \<notin> set others"
    and "roll < BASIS_POINTS" "pick < of_nat (length others) + 1"
  defines "r \<equiv> explore_choice d cfg others roll pick"
  shows "card {(a, b). a < BASIS_POINTS \<and> b < of_nat (length others) + 1
      \<and> acted_model_id (explore_choice d cfg others a b) = acted_model_id r} = unat (propensity_numerator r)"
proof -
  let ?k = "of_nat (length others) + 1 :: u64" and ?rate = "ucast (rate_bps cfg) :: u64"
  let ?S = "{(a, b). a < BASIS_POINTS \<and> b < ?k \<and> acted_model_id (explore_choice d cfg others a b) = acted_model_id r}"
  note acted = choice_acted(1,2) [OF assms(1), of d cfg] and k = choice_fields(1) [OF assms(1,2)]
    and num = choice_fields(3) [OF assms(1,2), of d roll pick, folded r_def]
  have rate: "unat ?rate = unat (rate_bps cfg)" "?rate \<le> BASIS_POINTS"
    using assms(2) by (simp_all add: word_le_nat_alt BASIS_POINTS_def)
  have idx: "unat (b - 1) = unat b - 1" if "0 < b" for b :: u64
    using that by (subst unat_sub) (simp_all add: word_le_nat_alt word_less_nat_alt)
  have in_others: "others ! unat (b - 1) \<in> set others" if "0 < b" "b < ?k" for b
    using that k by (intro nth_mem) (auto simp: idx word_less_nat_alt)
  show ?thesis
  proof (cases "others \<noteq> [] \<and> roll < ?rate \<and> 0 < pick")
    case True
    have "b = pick" if "0 < b" "b < ?k" "others ! unat (b - 1) = others ! unat (pick - 1)" for b
    proof -
      have "unat b - 1 < length others" "unat pick - 1 < length others" "0 < unat b" "0 < unat pick"
        using that(1,2) assms(6) True k by (auto simp: word_less_nat_alt)
      moreover have "others ! (unat b - 1) = others ! (unat pick - 1)" using that(1,3) True by (simp add: idx)
      ultimately have "unat b = unat pick" using nth_eq_iff_index_eq [OF assms(3)] by fastforce
      then show ?thesis by (simp add: unat_eq_iff)
    qed
    moreover have "d_selected_model_id d \<noteq> others ! unat (pick - 1)" using in_others [of pick] True assms(4,6) by metis
    ultimately have "?S = {a. a < ?rate} \<times> {pick}"
      using True rate(2) assms(6) by (auto simp: r_def acted split: if_splits)
    then show ?thesis
      using True num rate(1) by (simp add: card_cartesian_product card_word_less r_def acted)
  next
    case False
    let ?B = "{a. a < ?rate} \<times> ({b. b < ?k} - {0})"
    have S: "?S = {a. a < BASIS_POINTS} \<times> {b. b < ?k} - (if others = [] then {} else ?B)"
    proof -
      have eq: "acted_model_id (explore_choice d cfg others a b) = d_selected_model_id d \<longleftrightarrow> \<not> (others \<noteq> [] \<and> a < ?rate \<and> 0 < b)"
        if "b < ?k" for a b
        using in_others [of b] that assms(4) unfolding acted by (auto simp del: nth_mem)
      have "acted_model_id r = d_selected_model_id d" using False unfolding r_def acted by auto
      then have "?S = {(a, b). a < BASIS_POINTS \<and> b < ?k \<and> \<not> (others \<noteq> [] \<and> a < ?rate \<and> 0 < b)}" using eq by auto
      then show ?thesis by (auto simp: word_neq_0_conv)
    qed
    have B: "?B \<subseteq> {a. a < BASIS_POINTS} \<times> {b. b < ?k}" using rate(2) by auto
    have cB: "card ?B = unat (rate_bps cfg) * length others"
    proof -
      have "0 \<in> {b. b < ?k}" using k by (simp add: word_less_nat_alt)
      then have "card ({b. b < ?k} - {0}) = length others" using k by (simp only: card_Diff_singleton card_word_less)
      then show ?thesis using rate(1) by (simp add: card_cartesian_product card_word_less)
    qed
    have cA: "card ({a. a < BASIS_POINTS} \<times> {b. b < ?k}) = 10000 * (length others + 1)"
      using k by (simp only: card_cartesian_product card_word_less) (simp add: BASIS_POINTS_def)
    have "10000 * (n + 1) - t * n = (10000 - t) * (n + 1) + t" if "t \<le> 10000" for n t :: nat
    proof -
      obtain u where u: "10000 = t + u" using \<open>t \<le> 10000\<close> by (metis le_Suc_ex)
      show ?thesis unfolding u by (simp add: algebra_simps)
    qed
    then have "card ?S = (10000 - unat (rate_bps cfg)) * (length others + 1) + unat (rate_bps cfg)"
      unfolding S using assms(2) cA cB card_Diff_subset [OF _ B] by (cases "others = []") simp_all
    then show ?thesis using False num unfolding r_def acted by auto
  qed
qed

lemma explain_ids: "map e_model_id (x_candidates (explain p i)) \<in> {[], map model_id (ps_models p)}"
proof -
  have "map (\<lambda>x. model_id (snd x)) (enumerate 0 (ps_models p)) = map model_id (ps_models p)"
    by (simp only: map_snd_enumerate flip: map_map [unfolded comp_def])
  then show ?thesis by (simp add: explain_def Let_def explain_candidates_map case_prod_unfold comp_def)
qed

lemma length_distinct_u32: "distinct xs \<Longrightarrow> x \<notin> set xs \<Longrightarrow> length xs < 2 ^ 32" for x :: u32
proof -
  assume xs: "distinct xs" "x \<notin> set xs"
  have "card (set xs) < card (UNIV :: u32 set)" using xs(2) by (intro psubset_card_mono) auto
  then show ?thesis using xs(1) by (simp add: distinct_card card_word)
qed

lemma window_others_props:
  fixes d cfg i
  assumes "distinct (map model_id (ps_models p))"
  defines "others \<equiv> window_others d cfg (x_candidates (explain p i))"
  shows "distinct others" "d_selected_model_id d \<notin> set others" "length others < 2 ^ 32"
proof -
  have "distinct (map e_model_id (x_candidates (explain p i)))" using explain_ids [of p i] assms(1) by auto
  then show dis: "distinct others" unfolding others_def window_others_def Let_def by (rule distinct_map_filter)
  show sel: "d_selected_model_id d \<notin> set others" by (auto simp: others_def window_others_def Let_def)
  show "length others < 2 ^ 32" using dis sel by (rule length_distinct_u32)
qed

lemma uniform_below: "uniform n first retry = Some u \<Longrightarrow> 0 < n \<Longrightarrow> u < n"
  by (auto simp: uniform_def mod_less_word)

lemma explore_Inr:
  assumes "explore H M p i cfg key = Some (Inr r)" "is_executable (xr_decision r)"
    and "distinct (map model_id (ps_models p))"
  defines "others \<equiv> window_others (prescribe p i) cfg (x_candidates (explain p i))"
  shows "\<exists>roll pick. r = explore_choice (prescribe p i) cfg others roll pick
    \<and> roll < BASIS_POINTS \<and> pick < of_nat (length others) + 1 \<and> unat (rate_bps cfg) \<le> 10000
    \<and> is_executable (prescribe p i)"
proof -
  have d: "x_decision (explain p i) = prescribe p i" by (simp add: explain_def prescribe_def Let_def)
  let ?k = "of_nat (length others) + 1 :: u64" and ?bits = "draw H M p i key"
  obtain roll pick where u: "uniform BASIS_POINTS (u64_from_be_bytes (take 8 ?bits)) (retry_word H M p i key ROLL) = Some roll"
      "uniform ?k (u64_from_be_bytes (take 8 (drop 8 ?bits))) (retry_word H M p i key PICK) = Some pick"
    and r: "r = explore_choice (prescribe p i) cfg others roll pick" "is_executable (prescribe p i)"
      "\<not> BASIS_POINTS < ucast (rate_bps cfg)"
    using assms(1,2) by (auto simp: explore_def d others_def [symmetric] Let_def split: if_splits bind_splits)
  have "length others < 2 ^ 32" unfolding others_def by (rule window_others_props(3) [OF assms(3)])
  then have "0 < ?k"
    by (simp add: word_less_nat_alt unat_word_ariths unat_of_nat take_bit_nat_eq_self)
  moreover have "0 < BASIS_POINTS" by (simp add: BASIS_POINTS_def)
  moreover have "unat (rate_bps cfg) \<le> 10000" using r(3) by (simp add: word_less_nat_alt BASIS_POINTS_def)
  ultimately show ?thesis using r(1,2) uniform_below [OF u(1)] uniform_below [OF u(2)] by blast
qed

text \<open>
  The recorded probability is exact. When \<open>explore\<close> acts on a candidate, the share of the pairs of
  kept words on which the mechanism acts on that same candidate is exactly the recorded numerator
  over the recorded denominator, with no rounding and no overflow: not of the products, and not of
  the size of the window.
\<close>

lemma recorded_propensity_exact:
  assumes "distinct (map model_id (ps_models p))"
    and "explore H M p i cfg key = Some (Inr r)" and "is_executable (xr_decision r)"
  shows "let others = window_others (prescribe p i) cfg (x_candidates (explain p i));
             k = of_nat (length others) + 1
         in 0 < card (kept_words k)
            \<and> card {w \<in> kept_words k. acted_model_id
                  (explore_choice (prescribe p i) cfg others (fst w mod BASIS_POINTS) (snd w mod k)) = acted_model_id r}
                * unat (propensity_denominator r)
              = unat (propensity_numerator r) * card (kept_words k)"
proof -
  define others where "others = window_others (prescribe p i) cfg (x_candidates (explain p i))"
  note props = window_others_props [OF assms(1), of "prescribe p i" cfg i, folded others_def]
  obtain roll pick where r: "r = explore_choice (prescribe p i) cfg others roll pick"
    and w: "roll < BASIS_POINTS" "pick < of_nat (length others) + 1" and rate: "unat (rate_bps cfg) \<le> 10000"
    using explore_Inr [OF assms(2,3,1), folded others_def] by blast
  let ?k = "of_nat (length others) + 1 :: u64"
  let ?c = "(2 ^ 64 div 10000) * (2 ^ 64 div unat ?k)"
  note k = choice_fields(1) [OF props(3) rate]
  have pos: "0 < ?k" using k by (simp add: word_less_nat_alt)
  have "card {(a, b). a < BASIS_POINTS \<and> b < ?k \<and> True} = 10000 * (length others + 1)"
  proof -
    have "{(a, b). a < BASIS_POINTS \<and> b < ?k \<and> True} = {a. a < BASIS_POINTS} \<times> {b. b < ?k}" by auto
    then show ?thesis using k by (simp only: card_cartesian_product card_word_less) (simp add: BASIS_POINTS_def)
  qed
  with kept_words_count [OF pos, of "\<lambda>a b. True"]
  have total: "card (kept_words ?k) = 10000 * (length others + 1) * ?c" by simp
  have c: "0 < ?c" using props(3) k by (simp add: div_greater_zero_iff)
  show ?thesis
    unfolding Let_def others_def [symmetric] kept_words_count [OF pos, of "\<lambda>a b. acted_model_id
      (explore_choice (prescribe p i) cfg others a b) = acted_model_id r"] total
    using choice_count [OF props(3) rate props(1,2) w, folded r] choice_fields(2) [OF props(3) rate, of "prescribe p i" roll pick, folded r] c
    by simp
qed

section \<open>From a record to an outcome\<close>

lemma choice_propensity:
  fixes d roll pick
  assumes "length others < 2 ^ 32" "unat (rate_bps cfg) \<le> 10000"
  defines "r \<equiv> explore_choice d cfg others roll pick"
  shows "record_propensity r = Some \<lparr> pr_numerator = propensity_numerator r, pr_denominator = propensity_denominator r \<rparr>"
    "record_propensity_bps r = to_bps \<lparr> pr_numerator = propensity_numerator r, pr_denominator = propensity_denominator r \<rparr>"
proof -
  note f = choice_fields(2,3) [OF assms(1,2), of d roll pick, folded r_def]
  have pos: "0 < propensity_denominator r" using f(1) by (simp add: word_less_nat_alt)
  have "0 < unat (propensity_numerator r)"
  proof (cases "explored r")
    case True
    then have "0 < unat (rate_bps cfg)"
      unfolding r_def choice_acted(2) [OF assms(1)] by (auto simp: word_less_nat_alt)
    then show ?thesis using f(2) by simp
  next
    case False
    then show ?thesis using f(2) by (cases "unat (rate_bps cfg) = 0") simp_all
  qed
  moreover have "(10000 - t) * (n + 1) + t \<le> 10000 * (n + 1)" if "t \<le> 10000" for t n :: nat
  proof -
    obtain u where u: "10000 = t + u" using \<open>t \<le> 10000\<close> by (metis le_Suc_ex)
    show ?thesis unfolding u by (simp add: algebra_simps)
  qed
  then have "unat (propensity_numerator r) \<le> unat (propensity_denominator r)" using f assms(2) by auto
  ultimately show "record_propensity r = Some \<lparr> pr_numerator = propensity_numerator r, pr_denominator = propensity_denominator r \<rparr>"
    by (simp add: record_propensity_def propensity_new_def word_less_nat_alt word_le_nat_alt)
  have "max (propensity_denominator r) 1 = propensity_denominator r"
    using pos by (auto simp: max_def word_le_nat_alt word_less_nat_alt unat_eq_iff [symmetric])
  then show "record_propensity_bps r = to_bps \<lparr> pr_numerator = propensity_numerator r, pr_denominator = propensity_denominator r \<rparr>"
    by (simp add: record_propensity_bps_def to_bps_def)
qed

lemma to_bps_range: "1 \<le> unat (to_bps q)" "unat (to_bps q) \<le> 10000"
proof -
  have "1 \<le> unat (ucast (max 1 (min b (ucast BASIS_POINTS))) :: u16) \<and> unat (ucast (max 1 (min b (ucast BASIS_POINTS))) :: u16) \<le> 10000"
    for b :: u128
  proof -
    let ?c = "max 1 (min b (ucast BASIS_POINTS))"
    have "1 \<le> unat ?c \<and> unat ?c \<le> 10000"
      by (auto simp: max_def min_def word_le_nat_alt BASIS_POINTS_def)
    then show ?thesis by (simp add: unsigned_ucast_eq take_bit_nat_eq_self)
  qed
  then show "1 \<le> unat (to_bps q)" "unat (to_bps q) \<le> 10000" unfolding to_bps_def Let_def by blast+
qed

lemma to_bps_one:
  assumes "0 < n"
  shows "to_bps \<lparr> pr_numerator = n, pr_denominator = n \<rparr> = 10000"
proof -
  let ?n = "ucast n :: u128"
  have n: "unat ?n = unat n" "0 < unat n" using assms by (simp_all add: word_less_nat_alt)
  have small: "unat n * 10000 + unat n div 2 < 2 ^ 128" using unat_lt2p [of n] by simp
  have "unat (?n * 10000 + ?n div 2) = unat n * 10000 + unat n div 2"
    using small by (subst unat_add_fit; (subst unat_mul_fit)?) (simp_all add: n unat_div)
  then have "unat ((?n * 10000 + ?n div 2) div ?n) = (unat n * 10000 + unat n div 2) div unat n"
    by (simp add: unat_div n)
  also have "\<dots> = 10000" using n(2) by (simp add: div_mult_self3)
  finally have "(?n * 10000 + ?n div 2) div ?n = 10000" by (simp add: unat_eq_iff [symmetric])
  then show ?thesis by (simp add: to_bps_def BASIS_POINTS_def)
qed

text \<open>
  An explored decision can be recorded. The selection that a record of \<open>explore\<close> converts to,
  put into an outcome for the kernel's decision with any observation, is accepted against that
  decision; the exact probability exists and rounds to the basis points the selection records, so
  an exact estimate never sets the record aside; and a candidate other than the winner is one the
  kernel reported eligible, with a utility within the window of the best.
\<close>

lemma explored_outcome_accepted:
  assumes "policy_wf p" and "distinct (map model_id (ps_models p))"
    and "explore H M p i cfg key = Some (Inr r)" and "record_selection r = Some s"
    and "\<not> observation_is_empty ob"
  shows "validate_against H p i (prescribe p i)
      \<lparr> oc_identity = identity_of H p i (xr_decision r), observed_at_micros = t, revision = n, oc_selection = s,
        oc_disposition = Applied, oc_observation = ob \<rparr> = Inr ()
    \<and> (\<exists>q. record_propensity r = Some q \<and> se_propensity_bps s = Some (to_bps q))
    \<and> (if explored r
       then \<exists>c \<in> set (x_candidates (explain p i)). \<exists>u. e_model_id c = acted_model_id r \<and> e_verdict c = Eligible u
          \<and> sint (d_expected_utility_microunits (prescribe p i)) - uint (window_microunits cfg) \<le> sint (t_utility u)
       else acted_model_id r = d_selected_model_id (prescribe p i))"
proof -
  define others where "others = window_others (prescribe p i) cfg (x_candidates (explain p i))"
  have exec: "is_executable (xr_decision r)" using assms(4) by (auto simp: record_selection_def split: if_splits)
  note props = window_others_props [OF assms(2), of "prescribe p i" cfg i, folded others_def]
  obtain roll pick where r: "r = explore_choice (prescribe p i) cfg others roll pick"
    and w: "pick < of_nat (length others) + 1" and rate: "unat (rate_bps cfg) \<le> 10000"
    and ex: "is_executable (prescribe p i)"
    using explore_Inr [OF assms(3) exec assms(2), folded others_def] by blast
  have d: "xr_decision r = prescribe p i" by (simp add: r explore_choice_def Let_def)
  note q = choice_propensity [OF props(3) rate, of "prescribe p i" roll pick, folded r]
  have acted: "acted_model_id r = (if explored r then others ! unat (pick - 1) else d_selected_model_id (prescribe p i))"
    unfolding r choice_acted(1,2) [OF props(3)] by simp
  have window: "acted_model_id r \<in> set others" if "explored r"
  proof -
    have "0 < pick" using that unfolding r choice_acted(2) [OF props(3)] by simp
    then have "unat (pick - 1) < length others"
      using w choice_fields(1) [OF props(3) rate] by (subst unat_sub) (auto simp: word_le_nat_alt word_less_nat_alt)
    with acted that show ?thesis by simp
  qed
  have in_window: "\<exists>c \<in> set (x_candidates (explain p i)). \<exists>u. e_model_id c = m \<and> e_verdict c = Eligible u
      \<and> sint (d_expected_utility_microunits (prescribe p i)) - uint (window_microunits cfg) \<le> sint (t_utility u)"
    if m: "m \<in> set others" for m
  proof -
    obtain c where c: "c \<in> set (x_candidates (explain p i))" "m = e_model_id c"
      "case e_verdict c of Eligible u \<Rightarrow> sint (t_utility u)
          \<ge> sint (d_expected_utility_microunits (prescribe p i)) - uint (window_microunits cfg) | _ \<Rightarrow> False"
      using m by (auto simp: others_def window_others_def Let_def)
    then show ?thesis by (cases "e_verdict c") auto
  qed
  have ids: "e_model_id ` set (x_candidates (explain p i)) \<subseteq> model_id ` set (ps_models p)"
    using explain_ids [of p i] by (metis empty_iff empty_subsetI insert_iff list.set_map order_refl set_empty2)
  have cat: "acted_model_id r \<in> model_id ` set (ps_models p)"
    using window in_window ids executable_in_catalog [OF assms(1) ex] acted by (cases "explored r") (force, force)
  have action: "d_action (prescribe p i) \<noteq> Reject" using ex by (auto simp: is_executable_def)
  have one: "to_bps \<lparr> pr_numerator = propensity_numerator r, pr_denominator = propensity_denominator r \<rparr> = 10000"
    if "propensity_numerator r = propensity_denominator r"
    using to_bps_one [of "propensity_denominator r"] that choice_fields(2) [OF props(3) rate, of "prescribe p i" roll pick, folded r]
    by (simp add: word_less_nat_alt)
  have s: "se_propensity_bps s = Some (to_bps \<lparr> pr_numerator = propensity_numerator r, pr_denominator = propensity_denominator r \<rparr>)"
      "se_acted_model_id s = acted_model_id r" "selection_ok s"
      "se_strategy s = MaximiseUtility \<longrightarrow> se_acted_model_id s = d_selected_model_id (prescribe p i)"
    using assms(4) exec d acted q(2) one to_bps_range
    by (auto simp: record_selection_def explored_selection_def followed_def selection_ok_def FULL_PROBABILITY_BPS_def
        split: if_splits)
  show ?thesis
    unfolding validate_against_Inr using s assms(5) d cat action q(1) window in_window acted by auto
qed

section \<open>A run\<close>

lemma uniform_zero: "0 < n \<Longrightarrow> uniform n 0 retry = Some 0"
proof -
  assume "0 < n"
  have "uniform_loop (rejected_words n) retry 0 0 = Some 0"
    by (auto simp: uniform_loop.simps [of "rejected_words n" retry 0 0] word_neq_0_conv)
  then show ?thesis by (simp add: uniform_def)
qed

lemma zero_draw: "u64_from_be_bytes (take 8 (draw H (\<lambda>_ _. 0) p i key)) = 0"
  "u64_from_be_bytes (take 8 (drop 8 (draw H (\<lambda>_ _. 0) p i key))) = 0"
proof -
  have z: "le_bytes n (0 :: 'a::len word) = replicate n 0" for n
    by (induction n) (simp_all add: replicate_append_same)
  have "hash_bytes 0 = replicate 32 0" by (simp add: hash_bytes_def be_bytes_def z del: le_bytes.simps)
  moreover have "le_val (replicate n 0) = 0" for n by (induction n) simp_all
  ultimately show "u64_from_be_bytes (take 8 (draw H (\<lambda>_ _. 0) p i key)) = 0"
    "u64_from_be_bytes (take 8 (drop 8 (draw H (\<lambda>_ _. 0) p i key))) = 0"
    by (simp_all add: draw_def u64_from_be_bytes_def)
qed

lemma explore_zero:
  assumes "32 \<le> length key" "unat (rate_bps cfg) \<le> 10000" "is_executable (prescribe p i)"
    and "distinct (map model_id (ps_models p))"
  shows "explore H (\<lambda>_ _. 0) p i cfg key = Some (Inr (explore_choice (prescribe p i) cfg
    (window_others (prescribe p i) cfg (x_candidates (explain p i))) 0 0))"
proof -
  let ?others = "window_others (prescribe p i) cfg (x_candidates (explain p i))"
  have d: "x_decision (explain p i) = prescribe p i" by (simp add: explain_def prescribe_def Let_def)
  have "0 < (of_nat (length ?others) + 1 :: u64)"
    using window_others_props(3) [OF assms(4), of "prescribe p i" cfg i]
    by (simp add: word_less_nat_alt unat_word_ariths unat_of_nat take_bit_nat_eq_self)
  moreover have "0 < BASIS_POINTS" "\<not> BASIS_POINTS < ucast (rate_bps cfg)"
    using assms(2) by (simp_all add: BASIS_POINTS_def word_less_nat_alt)
  ultimately show ?thesis
    using assms(1,3) by (simp add: explore_def MIN_EXPLORATION_KEY_BYTES_def Let_def d zero_draw uniform_zero)
qed

definition example_pair :: policy_snapshot where
  "example_pair = new_unchecked 1 1 9600 5500 3500 2 [example_model, example_model_2]"

definition example_exploration :: exploration_config where
  "example_exploration = \<lparr> rate_bps = 200, window_microunits = 1000000 \<rparr>"

lemma example_pair_executable: "is_executable (prescribe example_pair example_input)"
proof -
  let ?p = "new_unchecked 1 1 9600 5500 3500 2 [example_model, example_model_2]"
  have lim: "within_limits ?p example_input"
    by (simp add: within_limits_def new_unchecked_def example_defs word_le_nat_alt word_less_nat_alt)
  have "passes_gates example_model example_input"
    by (simp add: passes_gates_def example_defs ALL_PROVIDERS_def)
  then have "eligible ?p example_input example_model"
    by (simp add: eligible_def exact_utility_def raw_utility_def exact_cost_def token_cost_def scaled_bps_def new_unchecked_def example_defs i64_min_def i64_max_def)
  moreover have "example_model \<in> set (ps_models ?p)" by (simp add: new_unchecked_def)
  ultimately have "ranking ?p example_input \<noteq> []" using ranking_empty [of ?p example_input] by blast
  then show ?thesis unfolding example_pair_def using prescribe_reference [OF new_unchecked_wf lim] by (simp add: reference_action)
qed

lemma example_pair_props: "policy_wf example_pair" "distinct (map model_id (ps_models example_pair))"
  unfolding example_pair_def by (rule new_unchecked_wf, rule example_orders(3))

lemma example_explored:
  "\<exists>r s. explore (\<lambda>_. 0) (\<lambda>_ _. 0) example_pair example_input example_exploration (replicate 32 1) = Some (Inr r)
     \<and> is_executable (xr_decision r) \<and> record_selection r = Some s"
proof -
  have "explore (\<lambda>_. 0) (\<lambda>_ _. 0) example_pair example_input example_exploration (replicate 32 1) =
      Some (Inr (explore_choice (prescribe example_pair example_input) example_exploration
        (window_others (prescribe example_pair example_input) example_exploration
          (x_candidates (explain example_pair example_input))) 0 0))"
    by (rule explore_zero [OF _ _ example_pair_executable example_pair_props(2)]) (simp_all add: example_exploration_def)
  moreover have "xr_decision (explore_choice d cfg others roll pick) = d" for d cfg others roll pick
    by (simp add: explore_choice_def Let_def)
  ultimately show ?thesis using example_pair_executable by (simp add: record_selection_def)
qed

end
