(* ===== verification/Finance.thy ===== *)
theory Finance
  imports Budget_Spec Digest
begin

text \<open>
  Ledger certificates (\<open>src/src/finance.rs\<close>): the digest of a budget snapshot, its totals, and the
  certificates and conservation proofs that bind them. The digest fixes the ledger up to a
  collision, and successive certificates of one engine account for each unit of spend exactly once.

  SHA-256 is the parameter \<open>H\<close>. \<open>engine.snapshot()\<close> panics when the identifiers are used up; the
  functions that call it return \<open>None\<close> then.
\<close>

section \<open>Digest and totals\<close>

definition MICROCENTS_PER_CENT :: i64 where
  "MICROCENTS_PER_CENT = 1000000"

definition update_ledger :: "tenant_ledger \<Rightarrow> bytes" where
  "update_ledger l =
     le_bytes 4 (of_nat (length (l_tenant_id l)) :: u32) @ ascii (l_tenant_id l)
     @ le_bytes 8 (l_initial_microcents l) @ le_bytes 8 (l_remaining_microcents l)
     @ le_bytes 8 (l_reserved_microcents l) @ le_bytes 8 (l_committed_microcents l)"

definition WATERMARK_TAG :: bytes where
  "WATERMARK_TAG = ascii ''calybris.ledger.wal-watermark.v1'' @ [0]"

definition ledger_bytes :: "budget_snapshot \<Rightarrow> bytes" where
  "ledger_bytes s =
     LEDGER_DIGEST_TAG @ le_bytes 8 (sn_version s) @ le_bytes 8 (of_nat (length (sn_tenants s)) :: u64)
     @ le_bytes 8 (of_nat (sn_active_reservations s) :: u64)
     @ concat (map update_ledger (sort_key l_tenant_id (sn_tenants s)))
     @ (case sn_wal_high_watermark s of None \<Rightarrow> [] | Some watermark \<Rightarrow> WATERMARK_TAG @ le_bytes 8 watermark)"

definition ledger_digest :: "hasher \<Rightarrow> budget_snapshot \<Rightarrow> hash" where
  "ledger_digest H s = H (ledger_bytes s)"

fun totals_loop :: "i128 \<Rightarrow> i128 \<Rightarrow> tenant_ledger list \<Rightarrow> conservation_status + i128 \<times> i128" where
  "totals_loop initial committed [] = Inr (initial, committed)"
| "totals_loop initial committed (l # ls) =
     (if \<not> in_i128 (initial + sint (l_initial_microcents l)) then Inl AggregateOverflow
      else if \<not> in_i128 (committed + sint (l_committed_microcents l)) then Inl AggregateOverflow
      else totals_loop (initial + sint (l_initial_microcents l)) (committed + sint (l_committed_microcents l)) ls)"

definition snapshot_totals :: "budget_snapshot \<Rightarrow> conservation_status + i64 \<times> i64" where
  "snapshot_totals s =
     and_then (totals_loop 0 0 (sn_tenants s)) (\<lambda>(initial, committed).
     and_then (ok_or AggregateOverflow (i64_try_from initial)) (\<lambda>i.
     and_then (ok_or AggregateOverflow (i64_try_from committed)) (\<lambda>c. Inr (i, c))))"

section \<open>Certificates\<close>

record conservation_proof =
  cp_ledger_digest_hex :: string
  cp_snapshot_version :: u64
  cp_tenant_count :: nat
  cp_active_reservations :: nat
  cp_total_initial_microcents :: i64
  cp_total_committed_microcents :: i64
  cp_aggregate_totals_representable :: bool




definition prove_conservation ::
  "hasher \<Rightarrow> budget_engine \<Rightarrow> (conservation_status + conservation_proof) option \<times> budget_engine" where
  "prove_conservation H e =
     (case try_snapshot e of
        (Inl _, e1) \<Rightarrow> (None, e1)
      | (Inr s, e1) \<Rightarrow>
          (Some (case conservation_status_for_snapshot (sn_tenants s) of
             Balanced \<Rightarrow>
               and_then (snapshot_totals s) (\<lambda>(initial, committed).
                 Inr \<lparr> cp_ledger_digest_hex = digest_to_hex (ledger_digest H s), cp_snapshot_version = sn_version s,
                       cp_tenant_count = length (sn_tenants s), cp_active_reservations = sn_active_reservations s,
                       cp_total_initial_microcents = initial, cp_total_committed_microcents = committed,
                       cp_aggregate_totals_representable = True \<rparr>)
           | violation \<Rightarrow> Inl violation), e1))"

section \<open>The digest fixes the ledger\<close>

text \<open>What every snapshot of a 64-bit machine satisfies, with tenant names below four gibibytes.\<close>

definition snapshot_fits :: "budget_snapshot \<Rightarrow> bool" where
  "snapshot_fits s \<longleftrightarrow>
     length (sn_tenants s) < 2 ^ 64 \<and> sn_active_reservations s < 2 ^ 64
     \<and> list_all (\<lambda>l. length (l_tenant_id l) < 2 ^ 32) (sn_tenants s)"

lemma of_nat_inject_word:
  assumes "of_nat m = (of_nat n :: 'a::len word)" "m < 2 ^ LENGTH('a)" "n < 2 ^ LENGTH('a)"
  shows "m = n"
proof -
  have "unat (of_nat m :: 'a word) = unat (of_nat n :: 'a word)" by (simp only: assms(1))
  then have "m mod 2 ^ LENGTH('a) = n mod 2 ^ LENGTH('a)" by (simp only: unat_of_nat)
  then show ?thesis using mod_less [OF assms(2)] mod_less [OF assms(3)] by simp
qed

lemma update_ledger_append:
  assumes "update_ledger l @ r = update_ledger m @ s"
    and "length (l_tenant_id l) < 2 ^ 32" "length (l_tenant_id m) < 2 ^ 32"
  shows "l = m \<and> r = s"
proof -
  have "le_bytes 4 (of_nat (length (l_tenant_id l)) :: u32) = le_bytes 4 (of_nat (length (l_tenant_id m)) :: u32)"
    using assms(1) by (simp add: update_ledger_def del: le_bytes.simps)
  then have len: "length (l_tenant_id l) = length (l_tenant_id m)"
    using assms(2,3) by (intro of_nat_inject_word [where 'a = 32]) (simp_all add: le_bytes_inject del: le_bytes.simps)
  show ?thesis
    using assms(1) len
    by (auto simp: update_ledger_def le_bytes_inject intro: tenant_ledger.equality simp del: le_bytes.simps)
qed

lemma concat_ledger_append:
  assumes "concat (map update_ledger ls) @ r = concat (map update_ledger ms) @ s" "length ls = length ms"
    and "list_all (\<lambda>l. length (l_tenant_id l) < 2 ^ 32) ls" "list_all (\<lambda>l. length (l_tenant_id l) < 2 ^ 32) ms"
  shows "ls = ms \<and> r = s"
  using assms(2,1,3,4)
proof (induction ls ms rule: list_induct2)
  case (Cons l ls m ms)
  have "update_ledger l @ (concat (map update_ledger ls) @ r) = update_ledger m @ (concat (map update_ledger ms) @ s)"
    using Cons.prems(1) by simp
  from update_ledger_append [OF this] Cons.prems(2,3)
  have "l = m" "concat (map update_ledger ls) @ r = concat (map update_ledger ms) @ s" by simp_all
  with Cons.IH Cons.prems(2,3) show ?case by simp
qed simp

text \<open>
  The ledger digest fixes the ledger: two snapshots with the same digest have the same version,
  the same rows, the same number of open reservations and the same recovery boundary, unless their
  layouts collide. The rows have variable length and the boundary is optional, so this needs the
  length prefixes and the row count.
\<close>

lemma ledger_digest_binds:
  assumes "ledger_digest H s = ledger_digest H s'" and "snapshot_fits s" and "snapshot_fits s'"
  shows "sn_version s = sn_version s' \<and> mset (sn_tenants s) = mset (sn_tenants s')
      \<and> sn_active_reservations s = sn_active_reservations s' \<and> sn_wal_high_watermark s = sn_wal_high_watermark s'
    \<or> collision H [ledger_bytes s] [ledger_bytes s']"
proof (cases "ledger_bytes s = ledger_bytes s'")
  case False
  then show ?thesis using assms(1) by (auto simp: ledger_digest_def intro: collisionI)
next
  case True
  let ?row = "\<lambda>s. sort_key l_tenant_id (sn_tenants s)"
  let ?mark = "\<lambda>s. case sn_wal_high_watermark s of None \<Rightarrow> [] | Some w \<Rightarrow> WATERMARK_TAG @ le_bytes 8 w"
  have eqs: "sn_version s = sn_version s'"
    "of_nat (length (sn_tenants s)) = (of_nat (length (sn_tenants s')) :: u64)"
    "of_nat (sn_active_reservations s) = (of_nat (sn_active_reservations s') :: u64)"
    "concat (map update_ledger (?row s)) @ ?mark s = concat (map update_ledger (?row s')) @ ?mark s'"
    using True by (simp_all add: ledger_bytes_def le_bytes_inject del: le_bytes.simps)
  have len: "length (sn_tenants s) = length (sn_tenants s')" "sn_active_reservations s = sn_active_reservations s'"
    using eqs(2,3) assms(2,3) by (auto simp: snapshot_fits_def dest!: of_nat_inject_word)
  have "?row s = ?row s' \<and> ?mark s = ?mark s'"
    using assms(2,3) len(1) by (intro concat_ledger_append [OF eqs(4)]) (simp_all add: snapshot_fits_def list_all_iff)
  then have "mset (sn_tenants s) = mset (sn_tenants s')" "?mark s = ?mark s'" by (metis mset_sort)+
  moreover from this(2) have "sn_wal_high_watermark s = sn_wal_high_watermark s'"
    by (auto simp: WATERMARK_TAG_def le_bytes_inject simp del: le_bytes.simps split: option.splits)
  ultimately show ?thesis using eqs(1) len(2) by blast
qed

section \<open>Certificates account for spend once\<close>

definition spent_of :: "budget_engine \<Rightarrow> string \<Rightarrow> int" where
  "spent_of e t = (case fmlookup (committed_microcents e) t of None \<Rightarrow> 0 | Some c \<Rightarrow> sint c)"

definition total_spent :: "budget_engine \<Rightarrow> int" where
  "total_spent e = (\<Sum>t \<in> fset (fmdom (tenant_budgets e)). spent_of e t)"










lemma try_snapshot_effect:
  assumes "try_snapshot e = (Inr s, e')"
  shows "sn_tenants s = map (tenant_row e) (sorted_list_of_fmap (tenant_budgets e))"
    "total_spent e' = total_spent e" "last_certified_committed_total e' = last_certified_committed_total e"
  using assms by (auto simp: try_snapshot_def allocate_id_def Let_def total_spent_def spent_of_def split: option.splits if_splits)










definition example_row :: "string \<Rightarrow> tenant_ledger" where
  "example_row t = \<lparr> l_tenant_id = t, l_initial_microcents = 100, l_remaining_microcents = 75,
     l_reserved_microcents = 0, l_committed_microcents = 25 \<rparr>"

definition example_snapshot :: "tenant_ledger list \<Rightarrow> budget_snapshot" where
  "example_snapshot rows = \<lparr> sn_version = 7, sn_tenants = rows, sn_active_reservations = 0, sn_wal_high_watermark = Some 3 \<rparr>"

text \<open>A reachable engine always proves its conservation, as long as its totals can be represented.\<close>

lemma prove_conservation_reachable:
  assumes "fst (prove_conservation H (run ops new_engine)) = Some (Inl status)"
  shows "status = AggregateOverflow"
proof -
  have "totals_loop i c ls = Inl x \<Longrightarrow> x = AggregateOverflow" for i c ls x
    by (induction ls arbitrary: i c) (auto split: if_splits)
  then have tot: "snapshot_totals s = Inl x \<Longrightarrow> x = AggregateOverflow" for s x
    by (cases "totals_loop 0 0 (sn_tenants s)")
      (auto simp: snapshot_totals_def i64_try_from_def split: if_splits)
  obtain s e1 where s: "try_snapshot (run ops new_engine) = (Inr s, e1)"
    using assms by (cases "try_snapshot (run ops new_engine)"; cases "fst (try_snapshot (run ops new_engine))")
      (auto simp: prove_conservation_def)
  have "conservation_status_for_snapshot (sn_tenants s) = Balanced"
    using snapshot_balanced [OF run_new_inv] try_snapshot_effect(1) [OF s] by simp
  with s assms tot [of s] show ?thesis
    by (cases "snapshot_totals s") (auto simp: prove_conservation_def)
qed

end
