(* ===== verification/Checkpoint.thy ===== *)
theory Checkpoint
  imports Wal_Correct
begin

text \<open>
  Signed checkpoints (\<open>src/src/checkpoint.rs\<close>): the text of a tree head, notes with their signature
  lines, the keys and their textual forms, signing by a log and cosigning by a witness.

  A \<open>&str\<close> is the list of its Unicode scalar values; \<open>utf8\<close> gives its bytes, which are what is
  hashed, signed and measured. The base64 codec, Ed25519 and SHA-256 are the parameters \<open>B\<close>, \<open>E\<close> and
  \<open>H\<close>. The explanatory texts inside the error values are left out.
\<close>

section \<open>Text\<close>

type_synonym utext = "nat list"

definition codes :: "string \<Rightarrow> utext" where
  "codes s = map of_char s"

definition utf8_char :: "nat \<Rightarrow> bytes" where
  "utf8_char c =
     (if c < 128 then [of_nat c]
      else if c < 2048 then [of_nat (192 + c div 64), of_nat (128 + c mod 64)]
      else if c < 65536 then [of_nat (224 + c div 4096), of_nat (128 + c div 64 mod 64), of_nat (128 + c mod 64)]
      else [of_nat (240 + c div 262144), of_nat (128 + c div 4096 mod 64), of_nat (128 + c div 64 mod 64),
            of_nat (128 + c mod 64)])"

definition utf8 :: "utext \<Rightarrow> bytes" where
  "utf8 s = concat (map utf8_char s)"

text \<open>\<open>char::is_control\<close> (category Cc) and \<open>char::is_whitespace\<close> (property White_Space).\<close>

definition is_control :: "nat \<Rightarrow> bool" where
  "is_control c \<longleftrightarrow> c < 32 \<or> 127 \<le> c \<and> c < 160"

definition is_whitespace :: "nat \<Rightarrow> bool" where
  "is_whitespace c \<longleftrightarrow>
     9 \<le> c \<and> c \<le> 13 \<or> 8192 \<le> c \<and> c \<le> 8202
     \<or> c \<in> {32, 133, 160, 5760, 8232, 8233, 8239, 8287, 12288}"

definition is_ascii_digit :: "nat \<Rightarrow> bool" where
  "is_ascii_digit c \<longleftrightarrow> 48 \<le> c \<and> c \<le> 57"

definition is_ascii_hexdigit :: "nat \<Rightarrow> bool" where
  "is_ascii_hexdigit c \<longleftrightarrow> is_ascii_digit c \<or> 65 \<le> c \<and> c \<le> 70 \<or> 97 \<le> c \<and> c \<le> 102"

text \<open>\<open>str::split\<close> on one character, \<open>split_once\<close>, \<open>strip_suffix\<close> and \<open>strip_prefix\<close>.\<close>

fun split_on :: "nat \<Rightarrow> utext \<Rightarrow> utext list" where
  "split_on x [] = [[]]"
| "split_on x (c # cs) =
     (if c = x then [] # split_on x cs
      else case split_on x cs of [] \<Rightarrow> [[c]] | l # ls \<Rightarrow> (c # l) # ls)"

fun split_once :: "nat \<Rightarrow> utext \<Rightarrow> (utext \<times> utext) option" where
  "split_once x [] = None"
| "split_once x (c # cs) =
     (if c = x then Some ([], cs) else map_option (\<lambda>(a, b). (c # a, b)) (split_once x cs))"

definition strip_newline :: "utext \<Rightarrow> utext option" where
  "strip_newline s = (if s \<noteq> [] \<and> last s = 10 then Some (butlast s) else None)"

fun strip_text_prefix :: "utext \<Rightarrow> utext \<Rightarrow> utext option" where
  "strip_text_prefix [] s = Some s"
| "strip_text_prefix (p # ps) [] = None"
| "strip_text_prefix (p # ps) (c # cs) = (if p = c then strip_text_prefix ps cs else None)"

text \<open>\<open>{}\<close> and \<open>str::parse\<close> on \<open>u64\<close>, the latter on digits only.\<close>

definition decimal_text :: "nat \<Rightarrow> utext" where
  "decimal_text n = map unat (decimal n)"

definition digits_value :: "utext \<Rightarrow> nat" where
  "digits_value s = foldl (\<lambda>a c. 10 * a + (c - 48)) 0 s"

definition parse_u64 :: "utext \<Rightarrow> u64 option" where
  "parse_u64 s = (if digits_value s < 2 ^ 64 then Some (of_nat (digits_value s)) else None)"

definition canonical_decimal :: "utext \<Rightarrow> bool" where
  "canonical_decimal s \<longleftrightarrow> s \<noteq> [] \<and> list_all is_ascii_digit s \<and> (s = [48] \<or> hd s \<noteq> 48)"

section \<open>Parameters\<close>

record base64 =
  b64_encode :: "bytes \<Rightarrow> utext"
  b64_decode :: "utext \<Rightarrow> bytes option"

record ed25519 =
  public_of :: "bytes \<Rightarrow> bytes"
  key_from_bytes :: "bytes \<Rightarrow> bool"
  ed_sign :: "bytes \<Rightarrow> bytes \<Rightarrow> bytes"
  verify_strict :: "bytes \<Rightarrow> bytes \<Rightarrow> bytes \<Rightarrow> bool"

section \<open>Checkpoints\<close>

definition ALG_ED25519 :: u8 where
  "ALG_ED25519 = 1"

definition ALG_COSIGNATURE_V1 :: u8 where
  "ALG_COSIGNATURE_V1 = 4"

definition MAX_NOTE_BYTES :: nat where
  "MAX_NOTE_BYTES = 64 * 1024"

definition MAX_SIGNATURES :: nat where
  "MAX_SIGNATURES = 100"

definition SIGNATURE_PREFIX :: utext where
  "SIGNATURE_PREFIX = [8212, 32]"

definition COSIGNATURE_HEADER :: utext where
  "COSIGNATURE_HEADER = codes ''cosignature/v1'' @ [10] @ codes ''time ''"

definition MAX_COSIGNATURE_TIME :: u64 where
  "MAX_COSIGNATURE_TIME = 2 ^ 63 - 1"

datatype checkpoint_error =
    BadName
  | BadKey
  | WrongAlgorithm u8
  | NoteTooLarge
  | MalformedNote
  | MalformedCheckpoint
  | TooManySignatures
  | DuplicateSignature
  | NotSigned utext
  | BadSignature utext
  | BadTimestamp u64

record checkpoint =
  ck_origin :: utext
  ck_size :: u64
  ck_root :: hash
  ck_extensions :: "utext list"

definition is_valid_line :: "utext \<Rightarrow> bool" where
  "is_valid_line line \<longleftrightarrow> line \<noteq> [] \<and> \<not> list_ex is_control line"

definition checkpoint_new :: "utext \<Rightarrow> tree_head \<Rightarrow> checkpoint_error + checkpoint" where
  "checkpoint_new origin head =
     (if \<not> is_valid_line origin then Inl MalformedCheckpoint
      else Inr \<lparr> ck_origin = origin, ck_size = of_nat (th_size head), ck_root = th_root head, ck_extensions = [] \<rparr>)"

definition with_extension :: "utext \<Rightarrow> checkpoint \<Rightarrow> checkpoint_error + checkpoint" where
  "with_extension line c =
     (if \<not> is_valid_line line then Inl MalformedCheckpoint
      else Inr (c\<lparr> ck_extensions := ck_extensions c @ [line] \<rparr>))"

definition checkpoint_head :: "checkpoint \<Rightarrow> tree_head" where
  "checkpoint_head c = \<lparr> th_size = unat (ck_size c), th_root = ck_root c \<rparr>"

definition checkpoint_body :: "base64 \<Rightarrow> checkpoint \<Rightarrow> utext" where
  "checkpoint_body B c =
     ck_origin c @ [10] @ decimal_text (unat (ck_size c)) @ [10] @ b64_encode B (hash_bytes (ck_root c)) @ [10]
     @ concat (map (\<lambda>line. line @ [10]) (ck_extensions c))"

definition checkpoint_digest :: "hasher \<Rightarrow> base64 \<Rightarrow> checkpoint \<Rightarrow> hash" where
  "checkpoint_digest H B c = H (utf8 (checkpoint_body B c))"

text \<open>A \<open>[u8; 32]\<close> from a slice.\<close>

definition to_hash :: "bytes \<Rightarrow> hash option" where
  "to_hash bs = (if length bs = 32 then Some (of_nat (le_val (rev bs))) else None)"

definition checkpoint_parse :: "base64 \<Rightarrow> utext \<Rightarrow> checkpoint_error + checkpoint" where
  "checkpoint_parse B body =
     and_then (ok_or MalformedCheckpoint (strip_newline body)) (\<lambda>t.
       case split_on 10 t of
         origin # size_text # root # extensions \<Rightarrow>
           if \<not> is_valid_line origin then Inl MalformedCheckpoint
           else if \<not> canonical_decimal size_text then Inl MalformedCheckpoint
           else
             and_then (ok_or MalformedCheckpoint (parse_u64 size_text)) (\<lambda>n.
             and_then (ok_or MalformedCheckpoint (b64_decode B root)) (\<lambda>decoded.
             and_then (ok_or MalformedCheckpoint (to_hash decoded)) (\<lambda>root_bytes.
               if b64_encode B (hash_bytes root_bytes) \<noteq> root then Inl MalformedCheckpoint
               else if \<not> list_all is_valid_line extensions then Inl MalformedCheckpoint
               else Inr \<lparr> ck_origin = origin, ck_size = n, ck_root = root_bytes, ck_extensions = extensions \<rparr>)))
       | _ \<Rightarrow> Inl MalformedCheckpoint)"

section \<open>Notes\<close>

record note_signature =
  ns_name :: utext
  ns_key_hash :: u32
  ns_signature :: bytes

record signed_note =
  sn_text :: utext
  sn_signatures :: "note_signature list"

definition is_valid_name :: "utext \<Rightarrow> bool" where
  "is_valid_name name \<longleftrightarrow> name \<noteq> [] \<and> \<not> list_ex (\<lambda>c. c = 43 \<or> is_whitespace c \<or> is_control c) name"

definition signature_line :: "base64 \<Rightarrow> note_signature \<Rightarrow> utext" where
  "signature_line B sg =
     SIGNATURE_PREFIX @ ns_name sg @ [32] @ b64_encode B (be_bytes 4 (ns_key_hash sg) @ ns_signature sg) @ [10]"

definition parse_line :: "base64 \<Rightarrow> utext \<Rightarrow> checkpoint_error + note_signature" where
  "parse_line B line =
     and_then (ok_or MalformedNote (strip_text_prefix SIGNATURE_PREFIX line)) (\<lambda>rest.
     and_then (ok_or MalformedNote (split_once 32 rest)) (\<lambda>(name, encoded).
       if \<not> is_valid_name name then Inl BadName
       else and_then (ok_or MalformedNote (b64_decode B encoded)) (\<lambda>raw.
         if length raw < 5 then Inl MalformedNote
         else Inr \<lparr> ns_name = name, ns_key_hash = of_nat (le_val (rev (take 4 raw))), ns_signature = drop 4 raw \<rparr>)))"

text \<open>\<open>rfind("\n\n")\<close>: the text up to and including the first of the two newlines, and what follows them.\<close>

fun split_last_blank :: "utext \<Rightarrow> (utext \<times> utext) option" where
  "split_last_blank [] = None"
| "split_last_blank (c # cs) =
     (case split_last_blank cs of
        Some (t, block) \<Rightarrow> Some (c # t, block)
      | None \<Rightarrow> (case cs of d # rest \<Rightarrow> if c = 10 \<and> d = 10 then Some ([10], rest) else None | [] \<Rightarrow> None))"

definition same_key :: "note_signature \<Rightarrow> note_signature \<Rightarrow> bool" where
  "same_key a b \<longleftrightarrow> ns_name a = ns_name b \<and> ns_key_hash a = ns_key_hash b"

fun parse_signatures ::
  "base64 \<Rightarrow> note_signature list \<Rightarrow> utext list \<Rightarrow> checkpoint_error + note_signature list" where
  "parse_signatures B acc [] = Inr acc"
| "parse_signatures B acc (line # lines) =
     (if length acc = MAX_SIGNATURES then Inl TooManySignatures
      else and_then (parse_line B line) (\<lambda>sg.
        if list_ex (\<lambda>s. same_key s sg) acc then Inl DuplicateSignature
        else parse_signatures B (acc @ [sg]) lines))"

definition note_parse :: "base64 \<Rightarrow> utext \<Rightarrow> checkpoint_error + signed_note" where
  "note_parse B note =
     (if length (utf8 note) > MAX_NOTE_BYTES then Inl NoteTooLarge
      else if list_ex (\<lambda>c. is_control c \<and> c \<noteq> 10) note then Inl MalformedNote
      else and_then (ok_or MalformedNote (split_last_blank note)) (\<lambda>(t, block).
        if 2 \<le> length t \<and> drop (length t - 2) t = [10, 10] then Inl MalformedNote
        else and_then (ok_or MalformedNote (strip_newline block)) (\<lambda>block.
          if block = [] then Inl MalformedNote
          else and_then (parse_signatures B [] (split_on 10 block)) (\<lambda>sgs.
            Inr \<lparr> sn_text = t, sn_signatures = sgs \<rparr>))))"

definition note_checkpoint :: "base64 \<Rightarrow> signed_note \<Rightarrow> checkpoint_error + checkpoint" where
  "note_checkpoint B n = checkpoint_parse B (sn_text n)"

definition add_signature :: "note_signature \<Rightarrow> signed_note \<Rightarrow> checkpoint_error + signed_note" where
  "add_signature sg n =
     (if list_ex (\<lambda>s. same_key s sg) (sn_signatures n) then Inl DuplicateSignature
      else if length (sn_signatures n) = MAX_SIGNATURES then Inl TooManySignatures
      else Inr (n\<lparr> sn_signatures := sn_signatures n @ [sg] \<rparr>))"

definition note_render :: "base64 \<Rightarrow> signed_note \<Rightarrow> utext" where
  "note_render B n = sn_text n @ [10] @ concat (map (signature_line B) (sn_signatures n))"

section \<open>Keys\<close>

record note_verifier =
  nv_name :: utext
  nv_algorithm :: u8
  nv_key_hash :: u32
  nv_key :: bytes

definition key_hash :: "hasher \<Rightarrow> utext \<Rightarrow> u8 \<Rightarrow> bytes \<Rightarrow> u32" where
  "key_hash H name algorithm public =
     of_nat (le_val (rev (take 4 (hash_bytes (H (utf8 name @ [10] @ [algorithm] @ public))))))"

definition verifier_new :: "hasher \<Rightarrow> utext \<Rightarrow> u8 \<Rightarrow> bytes \<Rightarrow> checkpoint_error + note_verifier" where
  "verifier_new H name algorithm key =
     (if \<not> is_valid_name name then Inl BadName
      else Inr \<lparr> nv_name = name, nv_algorithm = algorithm, nv_key_hash = key_hash H name algorithm key, nv_key = key \<rparr>)"

text \<open>\<open>splitn(3, '+')\<close> into three parts.\<close>

definition splitn3 :: "utext \<Rightarrow> (utext \<times> utext \<times> utext) option" where
  "splitn3 s =
     Option.bind (split_once 43 s) (\<lambda>(a, r). Option.bind (split_once 43 r) (\<lambda>(b, c). Some (a, b, c)))"

text \<open>\<open>u32::from_str_radix(_, 16)\<close> on eight hexadecimal digits, and \<open>{:08x}\<close>.\<close>

definition hex_value :: "nat \<Rightarrow> nat" where
  "hex_value c = (if c < 58 then c - 48 else if c < 71 then c - 55 else c - 87)"

definition parse_hex32 :: "utext \<Rightarrow> u32" where
  "parse_hex32 s = of_nat (foldl (\<lambda>a c. 16 * a + hex_value c) 0 s)"

definition hex32_text :: "u32 \<Rightarrow> utext" where
  "hex32_text w = codes (bytes_to_hex (be_bytes 4 w))"

definition verifier_parse :: "hasher \<Rightarrow> base64 \<Rightarrow> ed25519 \<Rightarrow> utext \<Rightarrow> checkpoint_error + note_verifier" where
  "verifier_parse H B E vkey =
     and_then (ok_or BadKey (splitn3 vkey)) (\<lambda>(name, hash_text, encoded).
       if length (utf8 hash_text) \<noteq> 8 \<or> \<not> list_all is_ascii_hexdigit hash_text then Inl BadKey
       else and_then (ok_or BadKey (b64_decode B encoded)) (\<lambda>raw.
         case raw of
           [] \<Rightarrow> Inl BadKey
         | algorithm # public \<Rightarrow>
             if algorithm \<noteq> ALG_ED25519 \<and> algorithm \<noteq> ALG_COSIGNATURE_V1 then Inl (WrongAlgorithm algorithm)
             else if length public \<noteq> 32 \<or> \<not> key_from_bytes E public then Inl BadKey
             else and_then (verifier_new H name algorithm public) (\<lambda>parsed.
               if parse_hex32 hash_text \<noteq> nv_key_hash parsed then Inl BadKey else Inr parsed)))"

definition to_vkey :: "base64 \<Rightarrow> note_verifier \<Rightarrow> utext" where
  "to_vkey B v = nv_name v @ [43] @ hex32_text (nv_key_hash v) @ [43] @ b64_encode B (nv_algorithm v # nv_key v)"

definition SKEY_PREFIX :: utext where
  "SKEY_PREFIX = codes ''PRIVATE+KEY+''"

definition parse_skey :: "base64 \<Rightarrow> u8 list \<Rightarrow> utext \<Rightarrow> checkpoint_error + utext \<times> bytes" where
  "parse_skey B algorithms skey =
     and_then (ok_or BadKey (strip_text_prefix SKEY_PREFIX skey)) (\<lambda>rest.
     and_then (ok_or BadKey (splitn3 rest)) (\<lambda>(name, hash_text, encoded).
       if \<not> is_valid_name name then Inl BadName
       else if length (utf8 hash_text) \<noteq> 8 \<or> \<not> list_all is_ascii_hexdigit hash_text then Inl BadKey
       else and_then (ok_or BadKey (b64_decode B encoded)) (\<lambda>raw.
         case raw of
           [] \<Rightarrow> Inl BadKey
         | algorithm # seed \<Rightarrow>
             if algorithm \<notin> set algorithms then Inl (WrongAlgorithm algorithm)
             else if length seed \<noteq> 32 then Inl BadKey
             else Inr (name, seed))))"

definition render_skey :: "base64 \<Rightarrow> utext \<Rightarrow> u8 \<Rightarrow> u32 \<Rightarrow> bytes \<Rightarrow> utext" where
  "render_skey B name algorithm h seed =
     SKEY_PREFIX @ name @ [43] @ hex32_text h @ [43] @ b64_encode B (algorithm # seed)"

text \<open>\<open>LogSigner\<close> and \<open>WitnessSigner\<close>: a verifier and the seed of its key.\<close>

record signer =
  sg_verifier :: note_verifier
  sg_seed :: bytes

definition signer_from_seed :: "hasher \<Rightarrow> ed25519 \<Rightarrow> u8 \<Rightarrow> utext \<Rightarrow> bytes \<Rightarrow> checkpoint_error + signer" where
  "signer_from_seed H E algorithm name seed =
     and_then (verifier_new H name algorithm (public_of E seed)) (\<lambda>v. Inr \<lparr> sg_verifier = v, sg_seed = seed \<rparr>)"

definition log_from_seed :: "hasher \<Rightarrow> ed25519 \<Rightarrow> utext \<Rightarrow> bytes \<Rightarrow> checkpoint_error + signer" where
  "log_from_seed H E = signer_from_seed H E ALG_ED25519"

definition witness_from_seed :: "hasher \<Rightarrow> ed25519 \<Rightarrow> utext \<Rightarrow> bytes \<Rightarrow> checkpoint_error + signer" where
  "witness_from_seed H E = signer_from_seed H E ALG_COSIGNATURE_V1"

definition log_from_skey :: "hasher \<Rightarrow> base64 \<Rightarrow> ed25519 \<Rightarrow> utext \<Rightarrow> checkpoint_error + signer" where
  "log_from_skey H B E skey =
     and_then (parse_skey B [ALG_ED25519] skey) (\<lambda>(name, seed). log_from_seed H E name seed)"

definition witness_from_skey :: "hasher \<Rightarrow> base64 \<Rightarrow> ed25519 \<Rightarrow> utext \<Rightarrow> checkpoint_error + signer" where
  "witness_from_skey H B E skey =
     and_then (parse_skey B [ALG_COSIGNATURE_V1, ALG_ED25519] skey) (\<lambda>(name, seed). witness_from_seed H E name seed)"

definition log_to_skey :: "base64 \<Rightarrow> signer \<Rightarrow> utext" where
  "log_to_skey B k = render_skey B (nv_name (sg_verifier k)) ALG_ED25519 (nv_key_hash (sg_verifier k)) (sg_seed k)"

definition witness_to_skey :: "base64 \<Rightarrow> signer \<Rightarrow> utext" where
  "witness_to_skey B k =
     render_skey B (nv_name (sg_verifier k)) ALG_COSIGNATURE_V1 (nv_key_hash (sg_verifier k)) (sg_seed k)"

section \<open>Signing and verifying\<close>

definition log_sign :: "base64 \<Rightarrow> ed25519 \<Rightarrow> signer \<Rightarrow> checkpoint \<Rightarrow> signed_note" where
  "log_sign B E k c =
     (let t = checkpoint_body B c
      in \<lparr> sn_text = t,
           sn_signatures = [\<lparr> ns_name = nv_name (sg_verifier k), ns_key_hash = nv_key_hash (sg_verifier k),
                              ns_signature = ed_sign E (sg_seed k) (utf8 t) \<rparr>] \<rparr>)"

definition cosignature_message :: "u64 \<Rightarrow> utext \<Rightarrow> checkpoint_error + utext" where
  "cosignature_message timestamp t =
     (if timestamp = 0 \<or> timestamp > MAX_COSIGNATURE_TIME then Inl (BadTimestamp timestamp)
      else if length (split_on 10 t) < 4 then Inl MalformedNote
      else Inr (COSIGNATURE_HEADER @ decimal_text (unat timestamp) @ [10] @ t))"

definition cosign :: "ed25519 \<Rightarrow> signer \<Rightarrow> utext \<Rightarrow> u64 \<Rightarrow> checkpoint_error + note_signature" where
  "cosign E k t timestamp =
     and_then (cosignature_message timestamp t) (\<lambda>message.
       Inr \<lparr> ns_name = nv_name (sg_verifier k), ns_key_hash = nv_key_hash (sg_verifier k),
             ns_signature = be_bytes 8 timestamp @ ed_sign E (sg_seed k) (utf8 message) \<rparr>)"

definition signature_from :: "note_verifier \<Rightarrow> signed_note \<Rightarrow> checkpoint_error + note_signature" where
  "signature_from key n =
     ok_or (NotSigned (nv_name key))
       (find (\<lambda>s. ns_name s = nv_name key \<and> ns_key_hash s = nv_key_hash key) (sn_signatures n))"

definition note_verify :: "ed25519 \<Rightarrow> note_verifier \<Rightarrow> signed_note \<Rightarrow> checkpoint_error + unit" where
  "note_verify E key n =
     (if nv_algorithm key \<noteq> ALG_ED25519 then Inl (WrongAlgorithm (nv_algorithm key))
      else and_then (signature_from key n) (\<lambda>sg.
        if length (ns_signature sg) \<noteq> 64 then Inl (BadSignature (nv_name key))
        else if verify_strict E (nv_key key) (utf8 (sn_text n)) (ns_signature sg) then Inr ()
        else Inl (BadSignature (nv_name key))))"

definition signed_by :: "base64 \<Rightarrow> ed25519 \<Rightarrow> note_verifier \<Rightarrow> signed_note \<Rightarrow> checkpoint_error + utext" where
  "signed_by B E key n =
     and_then (note_verify E key n) (\<lambda>_.
     and_then (signature_from key n) (\<lambda>sg. Inr (sn_text n @ [10] @ signature_line B sg)))"

definition cosignature_time :: "ed25519 \<Rightarrow> note_verifier \<Rightarrow> signed_note \<Rightarrow> checkpoint_error + u64" where
  "cosignature_time E key n =
     (if nv_algorithm key \<noteq> ALG_COSIGNATURE_V1 then Inl (WrongAlgorithm (nv_algorithm key))
      else and_then (signature_from key n) (\<lambda>sg.
        if length (ns_signature sg) \<noteq> 72 then Inl (BadSignature (nv_name key))
        else
          let timestamp = of_nat (le_val (rev (take 8 (ns_signature sg)))) in
          and_then (cosignature_message timestamp (sn_text n)) (\<lambda>message.
            if verify_strict E (nv_key key) (utf8 message) (drop 8 (ns_signature sg)) then Inr timestamp
            else Inl (BadSignature (nv_name key)))))"

end
