(* ===== verification/Checkpoint_Correct.thy ===== *)
theory Checkpoint_Correct
  imports Checkpoint
begin

text \<open>
  What checkpoints and notes guarantee: every checkpoint has exactly one text, the parser accepts
  that text and no other; a note signed by a log and cosigned by a witness survives being written
  and read back, and both signatures are then found and verified.
\<close>

section \<open>Laws of the parameters\<close>

text \<open>
  Standard base64: decoding undoes encoding, the encoding uses only its alphabet and padding, and only
  the empty input has the empty encoding.
\<close>

definition base64_char :: "nat \<Rightarrow> bool" where
  "base64_char c \<longleftrightarrow>
     65 \<le> c \<and> c \<le> 90 \<or> 97 \<le> c \<and> c \<le> 122 \<or> 48 \<le> c \<and> c \<le> 57 \<or> c = 43 \<or> c = 47 \<or> c = 61"

definition base64_ok :: "base64 \<Rightarrow> bool" where
  "base64_ok B \<longleftrightarrow>
     (\<forall>bs. b64_decode B (b64_encode B bs) = Some bs \<and> list_all base64_char (b64_encode B bs)
        \<and> (b64_encode B bs = [] \<longleftrightarrow> bs = []))"

text \<open>Ed25519: keys of 32 bytes, signatures of 64, and a signature verifies under its own key.\<close>

definition ed25519_ok :: "ed25519 \<Rightarrow> bool" where
  "ed25519_ok E \<longleftrightarrow>
     (\<forall>seed m. length (public_of E seed) = 32 \<and> key_from_bytes E (public_of E seed)
        \<and> length (ed_sign E seed m) = 64 \<and> verify_strict E (public_of E seed) m (ed_sign E seed m))"

lemma base64_okD:
  assumes "base64_ok B"
  shows "b64_decode B (b64_encode B bs) = Some bs" "x \<in> set (b64_encode B bs) \<Longrightarrow> base64_char x"
    "b64_encode B bs = [] \<longleftrightarrow> bs = []"
  using assms by (auto simp: base64_ok_def list_all_iff)

lemma ed25519_okD:
  assumes "ed25519_ok E"
  shows "length (public_of E seed) = 32" "key_from_bytes E (public_of E seed)"
    "length (ed_sign E seed m) = 64" "verify_strict E (public_of E seed) m (ed_sign E seed m)"
  using assms by (auto simp: ed25519_ok_def)

section \<open>Lines\<close>

definition lines_text :: "utext list \<Rightarrow> utext" where
  "lines_text ls = concat (map (\<lambda>l. l @ [10]) ls)"

lemma lines_text_simps [simp]: "lines_text [] = []" "lines_text (l # ls) = l @ 10 # lines_text ls"
  "lines_text (ks @ ls) = lines_text ks @ lines_text ls"
  by (simp_all add: lines_text_def)

lemma split_on_not_Nil [simp]: "split_on x s \<noteq> []"
  by (cases s) (auto split: list.split)

lemma split_on_fresh: "x \<notin> set s \<Longrightarrow> split_on x s = [s]"
  by (induction s) auto

lemma split_on_append: "x \<notin> set a \<Longrightarrow> split_on x (a @ x # b) = a # split_on x b"
  by (induction a) auto

lemma split_on_parts: "l \<in> set (split_on x s) \<Longrightarrow> x \<notin> set l"
  by (induction s arbitrary: l) (auto split: list.splits if_splits)

lemma lines_of_split: "lines_text (split_on 10 s) = s @ [10]"
  by (induction s) (auto split: list.splits)

lemma split_of_lines:
  "ls \<noteq> [] \<Longrightarrow> \<forall>l \<in> set ls. 10 \<notin> set l \<Longrightarrow> \<exists>s. lines_text ls = s @ [10] \<and> split_on 10 s = ls"
proof (induction ls rule: list_nonempty_induct)
  case (single l)
  then show ?case by (auto simp: split_on_fresh)
next
  case (cons l ls)
  then obtain s where "lines_text ls = s @ [10]" "split_on 10 s = ls" by auto
  with cons.prems show ?case by (intro exI [of _ "l @ 10 # s"]) (simp add: split_on_append)
qed

lemma strip_newline_Some [simp]: "strip_newline s = Some t \<longleftrightarrow> s = t @ [10]"
  by (cases s rule: rev_cases) (auto simp: strip_newline_def)

lemma strip_then_split:
  "(\<exists>t. body = t @ [10] \<and> split_on 10 t = ls) \<longleftrightarrow> ls \<noteq> [] \<and> (\<forall>l \<in> set ls. 10 \<notin> set l) \<and> body = lines_text ls"
proof
  assume "\<exists>t. body = t @ [10] \<and> split_on 10 t = ls"
  then obtain t where t: "body = t @ [10]" "split_on 10 t = ls" by blast
  have "10 \<notin> set l" if "l \<in> set ls" for l using split_on_parts that t(2) by blast
  then show "ls \<noteq> [] \<and> (\<forall>l \<in> set ls. 10 \<notin> set l) \<and> body = lines_text ls"
    using t lines_of_split [of t] split_on_not_Nil by metis
next
  assume "ls \<noteq> [] \<and> (\<forall>l \<in> set ls. 10 \<notin> set l) \<and> body = lines_text ls"
  then show "\<exists>t. body = t @ [10] \<and> split_on 10 t = ls" using split_of_lines [of ls] by blast
qed

section \<open>Numbers\<close>

lemma digits_value_snoc: "digits_value (s @ [c]) = 10 * digits_value s + (c - 48)"
  by (simp add: digits_value_def)

lemma decimal_text_snoc: "0 < v \<Longrightarrow> d < 10 \<Longrightarrow> decimal_text (10 * v + d) = decimal_text v @ [48 + d]"
proof -
  assume v: "0 < v" "d < 10"
  then have "unat (48 + of_nat d :: u8) = 48 + d" by (simp add: unat_word_ariths unat_of_nat)
  then show ?thesis using v by (simp add: decimal_text_def decimal.simps [of "10 * v + d"])
qed

lemma decimal_text_small: "d < 10 \<Longrightarrow> decimal_text d = [48 + d]"
  by (simp add: decimal_text_def decimal.simps [of d] unat_word_ariths unat_of_nat)

lemma decimal_text_value: "digits_value (decimal_text n) = n"
proof -
  have "foldl (\<lambda>a c. 10 * a + (c - 48)) a (map unat bs) = foldl (\<lambda>a b. 10 * a + (unat b - 48)) a bs" for a and bs :: bytes
    by (induction bs arbitrary: a) simp_all
  then show ?thesis by (simp add: digits_value_def decimal_text_def decimal_value)
qed

lemma decimal_text_canonical: "canonical_decimal (decimal_text n)"
proof (induction n rule: less_induct)
  case (less n)
  show ?case
  proof (cases "n < 10")
    case True
    then show ?thesis by (auto simp: decimal_text_small canonical_decimal_def is_ascii_digit_def)
  next
    case False
    then have n: "n = 10 * (n div 10) + n mod 10" "0 < n div 10" "n div 10 < n" by simp_all
    then have "decimal_text n = decimal_text (n div 10) @ [48 + n mod 10]" using decimal_text_snoc [of "n div 10" "n mod 10"] by simp
    moreover have "decimal_text (n div 10) \<noteq> [48]"
      using decimal_text_value [of "n div 10"] n(2) by (auto simp: digits_value_def)
    ultimately show ?thesis using less.IH [OF n(3)] by (auto simp: canonical_decimal_def is_ascii_digit_def)
  qed
qed

lemma canonical_decimal_unique: "canonical_decimal s \<Longrightarrow> decimal_text (digits_value s) = s \<and> (hd s \<noteq> 48 \<longrightarrow> 0 < digits_value s)"
proof (induction s rule: rev_induct)
  case (snoc c s)
  have c: "c = 48 + (c - 48)" "c - 48 < 10" using snoc.prems by (auto simp: canonical_decimal_def is_ascii_digit_def)
  show ?case
  proof (cases "s = []")
    case True
    then show ?thesis using c snoc.prems
      by (auto simp: digits_value_def decimal_text_small canonical_decimal_def)
  next
    case False
    then have s: "canonical_decimal s" "hd s \<noteq> 48" using snoc.prems by (auto simp: canonical_decimal_def)
    with snoc.IH have "decimal_text (digits_value s) = s" "0 < digits_value s" by auto
    then show ?thesis using c decimal_text_snoc [of "digits_value s" "c - 48"] by (simp add: digits_value_snoc)
  qed
qed (simp add: canonical_decimal_def)

lemma parse_canonical: "canonical_decimal s \<and> parse_u64 s = Some n \<longleftrightarrow> s = decimal_text (unat n)"
proof
  assume a: "canonical_decimal s \<and> parse_u64 s = Some n"
  then have "unat n = digits_value s" by (auto simp: parse_u64_def unat_of_nat split: if_splits)
  with a canonical_decimal_unique [of s] show "s = decimal_text (unat n)" by simp
next
  assume "s = decimal_text (unat n)"
  then show "canonical_decimal s \<and> parse_u64 s = Some n"
    using decimal_text_canonical [of "unat n"] unat_lt2p [of n] by (simp add: parse_u64_def decimal_text_value)
qed

lemma le_val_bound: "le_val xs < 256 ^ length xs"
proof (induction xs)
  case (Cons x xs)
  have "unat x + 256 * le_val xs < 256 * (1 + le_val xs)" using unat_lt2p [of x] by simp
  also have "\<dots> \<le> 256 * 256 ^ length xs" using Cons.IH by (intro mult_left_mono) simp_all
  finally show ?case by simp
qed simp

lemma le_bytes_le_val:
  assumes "length xs = n" "8 * n \<le> LENGTH('a)"
  shows "le_bytes n (of_nat (le_val xs) :: 'a::len word) = xs"
proof -
  have inj: "le_val xs = le_val ys \<Longrightarrow> length xs = length ys \<Longrightarrow> xs = ys" for xs ys
  proof (induction xs arbitrary: ys)
    case (Cons x xs)
    then obtain y zs where ys: "ys = y # zs" by (cases ys) auto
    have "(unat x + 256 * le_val xs) mod 256 = (unat y + 256 * le_val zs) mod 256" using Cons.prems ys by simp
    then have "unat x = unat y" using unat_lt2p [of x] unat_lt2p [of y] by simp
    with Cons ys show ?case by (simp add: unat_eq_iff)
  qed simp
  have "(256 :: nat) ^ n = 2 ^ (8 * n)" by (simp add: power_mult)
  also have "\<dots> \<le> 2 ^ LENGTH('a)" using assms(2) by (rule power_increasing) simp
  finally have "le_val xs < 2 ^ LENGTH('a)" using le_val_bound [of xs] unfolding assms(1) by (rule less_le_trans [rotated])
  then have "le_val (le_bytes n (of_nat (le_val xs) :: 'a word)) = le_val xs"
    using le_val_bound [of xs] assms(1) by (simp add: le_val_le_bytes unat_of_nat)
  then show ?thesis by (rule inj) (simp add: assms(1))
qed

lemma be_bytes_value: "length xs = n \<Longrightarrow> 8 * n \<le> LENGTH('a) \<Longrightarrow> be_bytes n (of_nat (le_val (rev xs)) :: 'a::len word) = xs"
  by (simp add: be_bytes_def le_bytes_le_val)

lemma value_be_bytes: "LENGTH('a) \<le> 8 * n \<Longrightarrow> of_nat (le_val (rev (be_bytes n w))) = w" for w :: "'a::len word"
proof -
  assume "LENGTH('a) \<le> 8 * n"
  then have "(2 :: nat) ^ LENGTH('a) \<le> 2 ^ (8 * n)" by (rule power_increasing) simp
  with unat_lt2p [of w] have "unat w < 2 ^ (8 * n)" by (rule less_le_trans)
  then have "unat w < 256 ^ n" by (simp add: power_mult)
  then show ?thesis by (simp add: be_bytes_def le_val_le_bytes)
qed

lemma to_hash_Some [simp]: "to_hash bs = Some h \<longleftrightarrow> bs = hash_bytes h"
proof
  assume "to_hash bs = Some h"
  then have "length bs = 32" "h = of_nat (le_val (rev bs))" by (auto simp: to_hash_def split: if_splits)
  then show "bs = hash_bytes h" using be_bytes_value [of bs 32, where 'a = 256] by (simp add: hash_bytes_def)
next
  assume "bs = hash_bytes h"
  then show "to_hash bs = Some h" using value_be_bytes [of 32 h] by (simp add: to_hash_def hash_bytes_def)
qed

section \<open>Checkpoints have one text\<close>

definition checkpoint_wf :: "checkpoint \<Rightarrow> bool" where
  "checkpoint_wf c \<longleftrightarrow> is_valid_line (ck_origin c) \<and> list_all is_valid_line (ck_extensions c)"

definition checkpoint_lines :: "base64 \<Rightarrow> checkpoint \<Rightarrow> utext list" where
  "checkpoint_lines B c =
     ck_origin c # decimal_text (unat (ck_size c)) # b64_encode B (hash_bytes (ck_root c)) # ck_extensions c"

lemma checkpoint_body_lines: "checkpoint_body B c = lines_text (checkpoint_lines B c)"
  by (simp add: checkpoint_body_def checkpoint_lines_def) (simp add: lines_text_def)

lemma decimal_text_digit: "x \<in> set (decimal_text n) \<Longrightarrow> is_ascii_digit x"
  using decimal_text_canonical [of n] by (auto simp: canonical_decimal_def list_all_iff)

lemma valid_line_no_newline: "is_valid_line l \<Longrightarrow> 10 \<notin> set l"
  by (auto simp: is_valid_line_def list_ex_iff is_control_def)

lemma base64_not_control: "base64_char x \<Longrightarrow> \<not> is_control x"
  by (auto simp: base64_char_def is_control_def)

lemma checkpoint_lines_control:
  assumes "base64_ok B" "checkpoint_wf c" "l \<in> set (checkpoint_lines B c)" "x \<in> set l"
  shows "\<not> is_control x"
  using assms base64_okD(2) [OF assms(1)] decimal_text_digit
  by (auto simp: checkpoint_lines_def checkpoint_wf_def is_valid_line_def list_all_iff list_ex_iff
      dest: base64_not_control) (force simp: is_ascii_digit_def is_control_def)

lemma checkpoint_lines_newline:
  assumes "base64_ok B" "checkpoint_wf c" "l \<in> set (checkpoint_lines B c)"
  shows "10 \<notin> set l"
  using checkpoint_lines_control [OF assms, of 10] by (auto simp: is_control_def)

lemma checkpoint_parse_lines:
  assumes "base64_ok B"
  shows "checkpoint_parse B body = Inr c \<longleftrightarrow>
    (\<exists>t. body = t @ [10] \<and> split_on 10 t = checkpoint_lines B c) \<and> checkpoint_wf c"
proof
  assume p: "checkpoint_parse B body = Inr c"
  then obtain t where t: "body = t @ [10]" by (auto simp: checkpoint_parse_def)
  obtain origin sz root exts where l: "split_on 10 t = origin # sz # root # exts"
    using p by (auto simp: checkpoint_parse_def t split: list.split_asm)
  obtain n h where v: "is_valid_line origin" "canonical_decimal sz" "parse_u64 sz = Some n" "list_all is_valid_line exts"
    and c: "b64_encode B (hash_bytes h) = root"
      "c = \<lparr> ck_origin = origin, ck_size = n, ck_root = h, ck_extensions = exts \<rparr>"
    using p by (auto simp: checkpoint_parse_def t l split: if_split_asm)
  have "sz = decimal_text (unat n)" using v(2,3) parse_canonical by blast
  then show "(\<exists>t. body = t @ [10] \<and> split_on 10 t = checkpoint_lines B c) \<and> checkpoint_wf c"
    using t l v c by (auto simp: checkpoint_lines_def checkpoint_wf_def)
next
  assume a: "(\<exists>t. body = t @ [10] \<and> split_on 10 t = checkpoint_lines B c) \<and> checkpoint_wf c"
  then obtain t where t: "body = t @ [10]" "split_on 10 t = checkpoint_lines B c" by blast
  have "canonical_decimal (decimal_text (unat (ck_size c)))" "parse_u64 (decimal_text (unat (ck_size c))) = Some (ck_size c)"
    using parse_canonical [of "decimal_text (unat (ck_size c))" "ck_size c"] by simp_all
  moreover have "to_hash (hash_bytes (ck_root c)) = Some (ck_root c)" by simp
  ultimately show "checkpoint_parse B body = Inr c"
    using a base64_okD(1) [OF assms]
    by (simp add: checkpoint_parse_def t checkpoint_lines_def checkpoint_wf_def del: to_hash_Some)
qed

lemma checkpoint_parse_iff:
  assumes "base64_ok B"
  shows "checkpoint_parse B t = Inr c \<longleftrightarrow> checkpoint_wf c \<and> t = checkpoint_body B c"
  unfolding checkpoint_parse_lines [OF assms] strip_then_split checkpoint_body_lines
  using checkpoint_lines_newline [OF assms, of c] by (auto simp: checkpoint_lines_def)

lemma checkpoint_parse_body: "base64_ok B \<Longrightarrow> checkpoint_wf c \<Longrightarrow> checkpoint_parse B (checkpoint_body B c) = Inr c"
  by (simp add: checkpoint_parse_iff)

text \<open>
  A checkpoint has exactly one text. The parser returns a checkpoint if and only if its lines are
  well formed and the text is the one \<open>body\<close> writes: what is written is read back unchanged, and no
  second spelling of a size, a root or a line ending is accepted, so one tree head cannot be signed
  or hashed in two ways.
\<close>

lemma checkpoint_canonical:
  assumes "base64_ok B"
  shows "checkpoint_parse B t = Inr c \<longleftrightarrow>
    is_valid_line (ck_origin c) \<and> list_all is_valid_line (ck_extensions c) \<and> t = checkpoint_body B c"
  using checkpoint_parse_iff [OF assms] by (auto simp: checkpoint_wf_def)

section \<open>Concrete codecs for the witnesses\<close>

definition nibble_base64 :: base64 where
  "nibble_base64 =
     \<lparr> b64_encode = \<lambda>bs. concat (map (\<lambda>b. [65 + unat b div 16, 65 + unat b mod 16]) bs),
       b64_decode = \<lambda>s. if even (length s)
         then Some (map (\<lambda>i. of_nat (16 * (s ! (2 * i) - 65) + (s ! (2 * i + 1) - 65))) [0..<length s div 2]) else None \<rparr>"

definition mirror_ed25519 :: ed25519 where
  "mirror_ed25519 =
     (let pad = \<lambda>bs. take 32 (bs @ replicate 32 0)
      in \<lparr> public_of = pad, key_from_bytes = \<lambda>pk. length pk = 32,
           ed_sign = \<lambda>seed m. pad seed @ pad m, verify_strict = \<lambda>pk m s. s = pk @ pad m \<rparr>)"

lemma nibble_encode_length: "length (concat (map (\<lambda>b :: u8. [f b, g b]) bs)) = 2 * length bs"
  by (induction bs) auto

lemma nibble_encode_nth:
  "i < length bs \<Longrightarrow> concat (map (\<lambda>b :: u8. [f b, g b]) bs) ! (2 * i) = f (bs ! i)
    \<and> concat (map (\<lambda>b. [f b, g b]) bs) ! (2 * i + 1) = g (bs ! i)"
proof (induction bs arbitrary: i)
  case (Cons b bs)
  then show ?case by (cases i) auto
qed simp

lemma of_nat_unat_id: "word_of_nat (unat (b :: u8)) = b"
  by simp

lemma nibble_base64_ok: "base64_ok nibble_base64"
proof -
  have "65 + unat (b :: u8) div 16 \<le> 90" "65 + unat b mod 16 \<le> 90" for b
    using unat_lt2p [of b] by (simp_all add: div_le_mono less_mult_imp_div_less)
  then have "list_all base64_char (b64_encode nibble_base64 bs)" for bs
    by (auto simp: nibble_base64_def list_all_iff base64_char_def)
  moreover have "16 * word_of_nat (unat (b :: u8) div 16) + word_of_nat (unat b mod 16) = b" for b
    by (metis mult_div_mod_eq of_nat_add of_nat_mult of_nat_numeral of_nat_unat_id)
  then have "b64_decode nibble_base64 (b64_encode nibble_base64 bs) = Some bs" for bs
    using nibble_encode_nth [of _ bs "\<lambda>b. 65 + unat b div 16" "\<lambda>b. 65 + unat b mod 16"]
    by (auto simp: nibble_base64_def nibble_encode_length intro!: nth_equalityI)
  moreover have "b64_encode nibble_base64 bs = [] \<longleftrightarrow> bs = []" for bs
    by (cases bs) (simp_all add: nibble_base64_def)
  ultimately show ?thesis by (simp add: base64_ok_def)
qed

lemma mirror_ed25519_ok: "ed25519_ok mirror_ed25519"
  by (auto simp: ed25519_ok_def mirror_ed25519_def Let_def min_def)

section \<open>Signature lines\<close>

definition signature_wf :: "note_signature \<Rightarrow> bool" where
  "signature_wf sg \<longleftrightarrow> is_valid_name (ns_name sg) \<and> ns_signature sg \<noteq> []"

definition signature_text :: "base64 \<Rightarrow> note_signature \<Rightarrow> utext" where
  "signature_text B sg =
     SIGNATURE_PREFIX @ ns_name sg @ 32 # b64_encode B (be_bytes 4 (ns_key_hash sg) @ ns_signature sg)"

lemma signature_line_text: "signature_line B sg = signature_text B sg @ [10]"
  by (simp add: signature_line_def signature_text_def)

lemma strip_text_prefix_append [simp]: "strip_text_prefix p (p @ s) = Some s"
  by (induction p) auto

lemma split_once_append: "x \<notin> set a \<Longrightarrow> split_once x (a @ x # b) = Some (a, b)"
  by (induction a) auto

lemma valid_name_chars:
  assumes "is_valid_name name" "x \<in> set name"
  shows "\<not> is_control x" "\<not> is_whitespace x" "x \<noteq> 43"
  using assms by (auto simp: is_valid_name_def list_ex_iff)

lemma parse_line_text:
  assumes "base64_ok B" "signature_wf sg"
  shows "parse_line B (signature_text B sg) = Inr sg"
proof -
  have "32 \<notin> set (ns_name sg)"
    using valid_name_chars(2) [of "ns_name sg" 32] assms(2) by (auto simp: signature_wf_def is_whitespace_def)
  then show ?thesis
    using assms(2) value_be_bytes [of 4 "ns_key_hash sg"]
    by (cases "ns_signature sg")
       (auto simp: parse_line_def signature_text_def split_once_append base64_okD(1) [OF assms(1)] signature_wf_def)
qed

lemma signature_text_control:
  assumes "base64_ok B" "signature_wf sg" "x \<in> set (signature_text B sg)"
  shows "\<not> is_control x"
  using assms(2,3) base64_okD(2) [OF assms(1)] valid_name_chars(1)
  by (auto simp: signature_text_def signature_wf_def SIGNATURE_PREFIX_def dest: base64_not_control)
     (simp_all add: is_control_def)

definition distinct_keys :: "note_signature list \<Rightarrow> bool" where
  "distinct_keys sgs \<longleftrightarrow> sorted_wrt (\<lambda>a b. \<not> same_key a b) sgs"

lemma parse_signatures_text:
  assumes "base64_ok B" "list_all signature_wf sgs" "distinct_keys (acc @ sgs)" "length (acc @ sgs) \<le> MAX_SIGNATURES"
  shows "parse_signatures B acc (map (signature_text B) sgs) = Inr (acc @ sgs)"
  using assms(2-)
proof (induction sgs arbitrary: acc)
  case (Cons sg sgs)
  have "\<not> list_ex (\<lambda>s. same_key s sg) acc"
    using Cons.prems(2) by (auto simp: distinct_keys_def sorted_wrt_append list_ex_iff)
  then show ?case
    using Cons.prems Cons.IH [of "acc @ [sg]"] parse_line_text [OF assms(1), of sg] by auto
qed simp

section \<open>Notes are read back as written\<close>

lemma split_last_blank_None:
  "split_last_blank (c # cs) = None \<longleftrightarrow> split_last_blank cs = None \<and> \<not> (c = 10 \<and> cs \<noteq> [] \<and> hd cs = 10)"
  by (cases cs) (auto split: option.splits)

lemma split_last_blank_line: "10 \<notin> set l \<Longrightarrow> split_last_blank (l @ s) = None \<longleftrightarrow> split_last_blank s = None"
  by (induction l) (auto simp: split_last_blank_None simp del: split_last_blank.simps)

lemma split_last_blank_lines:
  "\<forall>l \<in> set ls. l \<noteq> [] \<and> 10 \<notin> set l \<Longrightarrow> split_last_blank (10 # lines_text ls) = None"
proof (induction ls)
  case (Cons l ls)
  then have "hd (lines_text (l # ls)) \<noteq> 10" by (cases l) auto
  then show ?case
    using Cons by (auto simp: split_last_blank_None split_last_blank_line simp del: split_last_blank.simps)
qed (simp add: split_last_blank_None)

lemma split_last_blank_found:
  "split_last_blank (10 # s) = None \<Longrightarrow> split_last_blank (t @ 10 # 10 # s) = Some (t @ [10], s)"
  by (induction t) auto

definition note_wf :: "base64 \<Rightarrow> utext list \<Rightarrow> signed_note \<Rightarrow> bool" where
  "note_wf B ls n \<longleftrightarrow>
     sn_text n = lines_text ls \<and> ls \<noteq> [] \<and> (\<forall>l \<in> set ls. l \<noteq> [] \<and> (\<forall>x \<in> set l. \<not> is_control x))
     \<and> sn_signatures n \<noteq> [] \<and> list_all signature_wf (sn_signatures n) \<and> distinct_keys (sn_signatures n)
     \<and> length (sn_signatures n) \<le> MAX_SIGNATURES"

lemma note_render_lines: "note_render B n = sn_text n @ 10 # lines_text (map (signature_text B) (sn_signatures n))"
  by (simp add: note_render_def lines_text_def comp_def signature_line_text [abs_def])

lemma note_parse_render:
  assumes "base64_ok B" "note_wf B ls n" "length (utf8 (note_render B n)) \<le> MAX_NOTE_BYTES"
  shows "note_parse B (note_render B n) = Inr n"
proof -
  define sl where "sl = map (signature_text B) (sn_signatures n)"
  have ctl: "\<not> is_control x" if "l \<in> set sl" "x \<in> set l" for l x
    using that assms(2) signature_text_control [OF assms(1)] by (auto simp: sl_def note_wf_def list_all_iff)
  have "10 \<notin> set l" if "l \<in> set sl" for l using ctl [OF that, of 10] by (auto simp: is_control_def)
  then have sl: "sl \<noteq> []" "\<forall>l \<in> set sl. l \<noteq> [] \<and> 10 \<notin> set l" "\<forall>l \<in> set sl. \<forall>x \<in> set l. \<not> is_control x"
    using assms(2) ctl by (auto simp: sl_def note_wf_def signature_text_def SIGNATURE_PREFIX_def)
  obtain ks k where ls: "ls = ks @ [k]" using assms(2) by (cases ls rule: rev_cases) (auto simp: note_wf_def)
  have k: "k \<noteq> []" "10 \<notin> set k" using assms(2) by (auto simp: note_wf_def ls is_control_def)
  have t: "sn_text n = (lines_text ks @ k) @ [10]" using assms(2) by (simp add: note_wf_def ls)
  have r: "note_render B n = (lines_text ks @ k) @ 10 # 10 # lines_text sl"
    by (simp add: note_render_lines t sl_def)
  have c: "\<not> list_ex (\<lambda>c. is_control c \<and> c \<noteq> 10) (note_render B n)"
    using assms(2) sl(3) by (auto simp: r note_wf_def ls list_ex_iff lines_text_def)
  have b: "split_last_blank (note_render B n) = Some (sn_text n, lines_text sl)"
    using split_last_blank_found [OF split_last_blank_lines [OF sl(2)], of "lines_text ks @ k"] by (simp only: r t)
  have e: "drop (length (sn_text n) - 2) (sn_text n) \<noteq> [10, 10]"
    using k by (cases k rule: rev_cases) (auto simp: t)
  obtain blk where blk: "lines_text sl = blk @ [10]" "split_on 10 blk = sl"
    using strip_then_split [of "lines_text sl" sl] sl by blast
  have "blk \<noteq> []" using blk sl by (cases sl) (auto split: if_split_asm)
  moreover have "parse_signatures B [] sl = Inr (sn_signatures n)"
    using parse_signatures_text [OF assms(1), of "sn_signatures n" "[]"] assms(2) by (simp add: sl_def note_wf_def)
  ultimately show ?thesis using assms(3) c b e blk by (simp add: note_parse_def)
qed

text \<open>The names and keys a signer carries.\<close>

lemma signer_from_seed_Inr:
  "signer_from_seed H E a name seed = Inr k \<longleftrightarrow> is_valid_name name
    \<and> k = \<lparr> sg_verifier = \<lparr> nv_name = name, nv_algorithm = a, nv_key_hash = key_hash H name a (public_of E seed),
                            nv_key = public_of E seed \<rparr>, sg_seed = seed \<rparr>"
  by (auto simp: signer_from_seed_def verifier_new_def)

lemma length_split_on: "length (split_on x s) = Suc (count_list s x)"
  by (induction s) (auto split: list.splits)

lemma count_lines: "length ls \<le> count_list (lines_text ls) 10"
  by (induction ls) auto

lemma checkpoint_body_split: "\<not> length (split_on 10 (checkpoint_body B c)) < 4"
  using count_lines [of "checkpoint_lines B c"]
  by (simp add: length_split_on checkpoint_body_lines) (simp add: checkpoint_lines_def)

lemma checkpoint_lines_wf:
  assumes "base64_ok B" "checkpoint_wf c" "l \<in> set (checkpoint_lines B c)"
  shows "l \<noteq> []"
proof -
  have "b64_encode B (hash_bytes (ck_root c)) \<noteq> []"
    using base64_okD(3) [OF assms(1)] length_hash_bytes [of "ck_root c"] by (metis list.size(3) zero_neq_numeral)
  moreover have "[] \<noteq> decimal_text (unat (ck_size c))"
    using decimal_text_canonical [of "unat (ck_size c)"] by (auto simp: canonical_decimal_def)
  ultimately show ?thesis
    using assms(2,3) by (auto simp: checkpoint_lines_def checkpoint_wf_def list_all_iff is_valid_line_def)
qed

lemma cosigned_note_parses:
  assumes "base64_ok B" "ed25519_ok E" "is_valid_line (ck_origin c)" "list_all is_valid_line (ck_extensions c)"
    and lk: "log_from_seed H E lname lseed = Inr lk" and wk: "witness_from_seed H E wname wseed = Inr wk"
    and "0 < time" "time \<le> MAX_COSIGNATURE_TIME" "lname \<noteq> wname"
  shows "\<exists>sg n. cosign E wk (sn_text (log_sign B E lk c)) time = Inr sg
    \<and> add_signature sg (log_sign B E lk c) = Inr n
    \<and> (length (utf8 (note_render B n)) \<le> MAX_NOTE_BYTES \<longrightarrow> note_parse B (note_render B n) = Inr n)
    \<and> note_checkpoint B n = Inr c \<and> note_verify E (sg_verifier lk) n = Inr ()
    \<and> cosignature_time E (sg_verifier wk) n = Inr time"
proof -
  let ?t = "checkpoint_body B c"
  define m where "m = COSIGNATURE_HEADER @ decimal_text (unat time) @ [10] @ ?t"
  have m: "cosignature_message time ?t = Inr m"
    using assms(7,8) checkpoint_body_split [of B c] by (auto simp: cosignature_message_def m_def)
  define lsg where "lsg = \<lparr> ns_name = lname, ns_key_hash = nv_key_hash (sg_verifier lk), ns_signature = ed_sign E lseed (utf8 ?t) \<rparr>"
  define sg where "sg = \<lparr> ns_name = wname, ns_key_hash = nv_key_hash (sg_verifier wk),
    ns_signature = be_bytes 8 time @ ed_sign E wseed (utf8 m) \<rparr>"
  define n where "n = \<lparr> sn_text = ?t, sn_signatures = [lsg, sg] \<rparr>"
  note k = lk [unfolded log_from_seed_def signer_from_seed_Inr] wk [unfolded witness_from_seed_def signer_from_seed_Inr]
  have s: "log_sign B E lk c = \<lparr> sn_text = ?t, sn_signatures = [lsg] \<rparr>"
    using k by (simp add: log_sign_def lsg_def Let_def)
  have 1: "cosign E wk ?t time = Inr sg" using k by (simp add: cosign_def m sg_def)
  have 2: "add_signature sg (log_sign B E lk c) = Inr n"
    using assms(9) by (simp add: s add_signature_def n_def same_key_def lsg_def sg_def MAX_SIGNATURES_def)
  have "ed_sign E a b \<noteq> []" for a b using ed25519_okD(3) [OF assms(2), of a b] by auto
  then have "note_wf B (checkpoint_lines B c) n"
    using k assms(3,4,9) checkpoint_lines_wf [OF assms(1), of c] checkpoint_lines_control [OF assms(1), of c]
    by (auto simp: note_wf_def n_def checkpoint_body_lines checkpoint_wf_def signature_wf_def lsg_def sg_def
        distinct_keys_def same_key_def MAX_SIGNATURES_def) (simp_all add: checkpoint_lines_def)
  note 3 = note_parse_render [OF assms(1) this]
  have 4: "note_checkpoint B n = Inr c"
    using checkpoint_parse_body [OF assms(1)] assms(3,4) by (simp add: note_checkpoint_def n_def checkpoint_wf_def)
  have 5: "note_verify E (sg_verifier lk) n = Inr ()"
    using k ed25519_okD [OF assms(2)] by (simp add: note_verify_def signature_from_def n_def lsg_def)
  have 6: "cosignature_time E (sg_verifier wk) n = Inr time"
    using k ed25519_okD [OF assms(2)] assms(9) value_be_bytes [of 8 time] m
    by (simp add: cosignature_time_def signature_from_def n_def lsg_def sg_def ALG_ED25519_def ALG_COSIGNATURE_V1_def Let_def)
  show ?thesis using 1 2 3 4 5 6 by (auto simp: s)
qed

text \<open>
  C29. A checkpoint that a log signs and a witness cosigns can be published and read back. The cosigning
  succeeds for every time in range; the witness's signature joins the log's; within the size bound the
  printed note parses to the same note; its text gives back the checkpoint; and a reader holding only
  the two public keys finds and verifies both signatures, the witness's with the very time it signed.
\<close>

theorem cosigned_note_round_trip:
  assumes "base64_ok B" "ed25519_ok E" "is_valid_line (ck_origin c)" "list_all is_valid_line (ck_extensions c)"
    and lk: "log_from_seed H E lname lseed = Inr lk" and wk: "witness_from_seed H E wname wseed = Inr wk"
    and "0 < time" "time \<le> MAX_COSIGNATURE_TIME" "lname \<noteq> wname"
  shows "\<exists>sg n. cosign E wk (sn_text (log_sign B E lk c)) time = Inr sg
    \<and> add_signature sg (log_sign B E lk c) = Inr n
    \<and> (length (utf8 (note_render B n)) \<le> MAX_NOTE_BYTES \<longrightarrow> note_parse B (note_render B n) = Inr n)
    \<and> note_checkpoint B n = Inr c \<and> note_verify E (sg_verifier lk) n = Inr ()
    \<and> cosignature_time E (sg_verifier wk) n = Inr time"
  using assms by (rule cosigned_note_parses)

definition example_checkpoint :: checkpoint where
  "example_checkpoint = \<lparr> ck_origin = codes ''log.example'', ck_size = 7, ck_root = 255, ck_extensions = [codes ''x''] \<rparr>"

definition example_signer :: "u8 \<Rightarrow> string \<Rightarrow> bytes \<Rightarrow> signer" where
  "example_signer a name seed =
     \<lparr> sg_verifier = \<lparr> nv_name = codes name, nv_algorithm = a,
                       nv_key_hash = key_hash (\<lambda>_. 0) (codes name) a (public_of mirror_ed25519 seed),
                       nv_key = public_of mirror_ed25519 seed \<rparr>, sg_seed = seed \<rparr>"

lemma length_utf8: "length (utf8 s) \<le> 4 * length s"
proof (induction s)
  case (Cons c s)
  moreover have "length (utf8_char c) \<le> 4" by (simp add: utf8_char_def)
  ultimately show ?case by (simp add: utf8_def)
qed (simp add: utf8_def)

lemma length_nibble: "length (b64_encode nibble_base64 bs) = 2 * length bs"
  by (simp add: nibble_base64_def nibble_encode_length)

lemma example_cosigned_small:
  fixes c :: checkpoint
  defines "n0 \<equiv> log_sign nibble_base64 mirror_ed25519 (example_signer 1 ''l'' [1]) c"
  assumes "length (checkpoint_body nibble_base64 c) \<le> 100"
    and "cosign mirror_ed25519 (example_signer 4 ''w'' [2]) (sn_text n0) 9 = Inr sg" "add_signature sg n0 = Inr n"
  shows "length (utf8 (note_render nibble_base64 n)) \<le> MAX_NOTE_BYTES"
proof -
  have "length (sn_text n0) \<le> 100" using assms(2) by (simp add: n0_def log_sign_def Let_def)
  moreover have "length (signature_line nibble_base64 sg) \<le> 200"
    using assms(3) ed25519_okD(3) [OF mirror_ed25519_ok]
    by (auto simp: cosign_def signature_line_def length_nibble SIGNATURE_PREFIX_def example_signer_def codes_def)
  moreover have "sn_text n = sn_text n0" "sn_signatures n = sn_signatures n0 @ [sg]"
    using assms(4) by (auto simp: add_signature_def split: if_split_asm)
  moreover have "length (concat (map (signature_line nibble_base64) (sn_signatures n0))) \<le> 200"
    using ed25519_okD(3) [OF mirror_ed25519_ok]
    by (simp add: n0_def log_sign_def Let_def signature_line_def length_nibble SIGNATURE_PREFIX_def example_signer_def codes_def)
  ultimately have "length (note_render nibble_base64 n) \<le> 501" by (simp add: note_render_def)
  then show ?thesis using length_utf8 [of "note_render nibble_base64 n"] by (simp add: MAX_NOTE_BYTES_def)
qed

lemma example_body_small: "length (checkpoint_body nibble_base64 example_checkpoint) \<le> 100"
  using decimal_text_small [of 7]
  by (simp add: checkpoint_body_lines checkpoint_lines_def example_checkpoint_def codes_def length_nibble)

lemma example_keys:
  "is_valid_line (ck_origin example_checkpoint)" "list_all is_valid_line (ck_extensions example_checkpoint)"
  "log_from_seed (\<lambda>_. 0) mirror_ed25519 (codes ''l'') [1] = Inr (example_signer 1 ''l'' [1])"
  "witness_from_seed (\<lambda>_. 0) mirror_ed25519 (codes ''w'') [2] = Inr (example_signer 4 ''w'' [2])"
  "(0 :: u64) < 9" "(9 :: u64) \<le> MAX_COSIGNATURE_TIME" "codes ''l'' \<noteq> codes ''w''"
proof -
  have n: "is_valid_name (codes ''l'')" "is_valid_name (codes ''w'')"
    by (simp_all add: is_valid_name_def codes_def is_control_def is_whitespace_def)
  show "log_from_seed (\<lambda>_. 0) mirror_ed25519 (codes ''l'') [1] = Inr (example_signer 1 ''l'' [1])"
    "witness_from_seed (\<lambda>_. 0) mirror_ed25519 (codes ''w'') [2] = Inr (example_signer 4 ''w'' [2])"
    using n by (simp_all only: log_from_seed_def witness_from_seed_def signer_from_seed_Inr example_signer_def
        ALG_ED25519_def ALG_COSIGNATURE_V1_def simp_thms)
qed (simp_all add: example_checkpoint_def is_valid_line_def codes_def is_control_def MAX_COSIGNATURE_TIME_def)

theorem cosigned_note_round_trip_witness:
  "\<exists>sg n. cosign mirror_ed25519 (example_signer 4 ''w'' [2])
        (sn_text (log_sign nibble_base64 mirror_ed25519 (example_signer 1 ''l'' [1]) example_checkpoint)) 9 = Inr sg
    \<and> add_signature sg (log_sign nibble_base64 mirror_ed25519 (example_signer 1 ''l'' [1]) example_checkpoint) = Inr n
    \<and> note_parse nibble_base64 (note_render nibble_base64 n) = Inr n
    \<and> note_checkpoint nibble_base64 n = Inr example_checkpoint
    \<and> note_verify mirror_ed25519 (sg_verifier (example_signer 1 ''l'' [1])) n = Inr ()
    \<and> cosignature_time mirror_ed25519 (sg_verifier (example_signer 4 ''w'' [2])) n = Inr 9"
  using cosigned_note_round_trip [OF nibble_base64_ok mirror_ed25519_ok example_keys]
    example_cosigned_small [OF example_body_small] by meson

end
