(* ===== verification/Witness.thy ===== *)
theory Witness
  imports Checkpoint_Correct "HOL-Library.Finite_Map"
begin

text \<open>
  The witness (\<open>src/src/witness.rs\<close>): the \<open>add-checkpoint\<close> request and its text, the refusals, the two
  stores, and the handler that cosigns a checkpoint only if it extends the last one recorded.

  A store is the pair of operations of the \<open>WitnessStore\<close> trait. Its state is the world the operations
  act on: the map of heads in memory, or for a \<open>FileStore\<close> the contents of the state file together with
  the input and output faults still to come. The JSON encoding of the state file is the parameter \<open>J\<close>.
\<close>

section \<open>Requests\<close>

definition MAX_REQUEST_BYTES :: nat where
  "MAX_REQUEST_BYTES = 128 * 1024"

definition MAX_PROOF_HASHES :: nat where
  "MAX_PROOF_HASHES = 128"

record add_checkpoint_request =
  rq_old_size :: u64
  rq_proof :: "hash list"
  rq_note :: utext

text \<open>What a store may report instead of an answer.\<close>

datatype store_error = StateMissing | StateDoesNotParse | StoredRootMalformed | StateExists | StoreIo

datatype witness_error =
    MalformedRequest
  | BadCheckpoint checkpoint_error
  | UnknownLog utext
  | BadLogSignature
  | HeadConflict nat
  | Shrinking
  | BadProof
  | StoreFailed store_error
  | BadClock u64

text \<open>\<open>split_once("\n\n")\<close>: at the first blank line.\<close>

fun split_first_blank :: "utext \<Rightarrow> (utext \<times> utext) option" where
  "split_first_blank (c # d # rest) =
     (if c = 10 \<and> d = 10 then Some ([], rest)
      else map_option (\<lambda>(a, b). (c # a, b)) (split_first_blank (d # rest)))"
| "split_first_blank _ = None"

fun parse_proof :: "base64 \<Rightarrow> hash list \<Rightarrow> utext list \<Rightarrow> witness_error + hash list" where
  "parse_proof B proof [] = Inr proof"
| "parse_proof B proof (line # lines) =
     (if length proof = MAX_PROOF_HASHES then Inl MalformedRequest
      else and_then (ok_or MalformedRequest (b64_decode B line)) (\<lambda>raw.
        and_then (ok_or MalformedRequest (to_hash raw)) (\<lambda>h. parse_proof B (proof @ [h]) lines)))"

definition request_parse :: "base64 \<Rightarrow> utext \<Rightarrow> witness_error + add_checkpoint_request" where
  "request_parse B body =
     (if length (utf8 body) > MAX_REQUEST_BYTES then Inl MalformedRequest
      else and_then (ok_or MalformedRequest (split_first_blank body)) (\<lambda>(head, note).
        case split_on 10 head of
          [] \<Rightarrow> Inl MalformedRequest
        | line # lines \<Rightarrow>
            and_then (ok_or MalformedRequest (strip_text_prefix (codes ''old '') line)) (\<lambda>old.
              if \<not> canonical_decimal old then Inl MalformedRequest
              else
                and_then (ok_or MalformedRequest (parse_u64 old)) (\<lambda>old_size.
                and_then (parse_proof B [] lines) (\<lambda>proof.
                  Inr \<lparr> rq_old_size = old_size, rq_proof = proof, rq_note = note \<rparr>)))))"

definition request_render :: "base64 \<Rightarrow> add_checkpoint_request \<Rightarrow> utext" where
  "request_render B r =
     codes ''old '' @ decimal_text (unat (rq_old_size r)) @ [10]
     @ concat (map (\<lambda>h. b64_encode B (hash_bytes h) @ [10]) (rq_proof r)) @ [10] @ rq_note r"

fun http_status :: "witness_error \<Rightarrow> nat" where
  "http_status MalformedRequest = 400"
| "http_status (BadCheckpoint _) = 400"
| "http_status Shrinking = 400"
| "http_status BadLogSignature = 403"
| "http_status (UnknownLog _) = 404"
| "http_status (HeadConflict _) = 409"
| "http_status BadProof = 422"
| "http_status (StoreFailed _) = 500"
| "http_status (BadClock _) = 500"

text \<open>\<open>display\<close> is the derived \<open>Display\<close> of the errors.\<close>

definition response_body :: "(witness_error \<Rightarrow> utext) \<Rightarrow> witness_error \<Rightarrow> utext" where
  "response_body display e =
     (case e of HeadConflict latest \<Rightarrow> decimal_text latest @ [10] | other \<Rightarrow> display other @ [10])"

section \<open>Stores\<close>

record 's witness_store =
  ws_latest :: "utext \<Rightarrow> 's \<Rightarrow> (store_error + tree_head option) \<times> 's"
  ws_compare_and_swap :: "utext \<Rightarrow> tree_head option \<Rightarrow> tree_head \<Rightarrow> 's \<Rightarrow> (store_error + bool) \<times> 's"

type_synonym memory_heads = "(utext, tree_head) fmap"

definition memory_new :: memory_heads where
  "memory_new = fmempty"

definition memory_latest :: "utext \<Rightarrow> memory_heads \<Rightarrow> (store_error + tree_head option) \<times> memory_heads" where
  "memory_latest origin heads = (Inr (fmlookup heads origin), heads)"

definition memory_compare_and_swap ::
  "utext \<Rightarrow> tree_head option \<Rightarrow> tree_head \<Rightarrow> memory_heads \<Rightarrow> (store_error + bool) \<times> memory_heads" where
  "memory_compare_and_swap origin expected new heads =
     (if fmlookup heads origin \<noteq> expected then (Inr False, heads) else (Inr True, fmupd origin new heads))"

definition memory_store :: "memory_heads witness_store" where
  "memory_store = \<lparr> ws_latest = memory_latest, ws_compare_and_swap = memory_compare_and_swap \<rparr>"

section \<open>The state file\<close>

record stored_head =
  sh_size :: u64
  sh_root :: utext

record state_json =
  js_write :: "(utext, stored_head) fmap \<Rightarrow> bytes"
  js_read :: "bytes \<Rightarrow> (utext, stored_head) fmap option"

text \<open>
  How the operating system treats one operation: it succeeds, or the lock, the read, the write before
  the rename, or the directory sync after the rename fails.
\<close>

datatype io_event = IoOk | LockFailed | ReadFailed | WriteFailed | SyncFailed

record disk =
  dk_file :: "bytes option"
  dk_events :: "io_event list"

definition next_event :: "disk \<Rightarrow> io_event \<times> disk" where
  "next_event d = (case dk_events d of [] \<Rightarrow> (IoOk, d) | e # es \<Rightarrow> (e, d\<lparr> dk_events := es \<rparr>))"

definition decode_root :: "base64 \<Rightarrow> stored_head \<Rightarrow> hash option" where
  "decode_root B h = Option.bind (b64_decode B (sh_root h)) to_hash"

definition decode_heads :: "base64 \<Rightarrow> (utext, stored_head) fmap \<Rightarrow> store_error + memory_heads" where
  "decode_heads B m =
     (if fmpred (\<lambda>_ h. decode_root B h \<noteq> None) m
      then Inr (fmmap (\<lambda>h. \<lparr> th_size = unat (sh_size h), th_root = the (decode_root B h) \<rparr>) m)
      else Inl StoredRootMalformed)"

definition read_all :: "state_json \<Rightarrow> base64 \<Rightarrow> io_event \<Rightarrow> disk \<Rightarrow> store_error + memory_heads" where
  "read_all J B ev d =
     (if ev = ReadFailed then Inl StoreIo
      else case dk_file d of
        None \<Rightarrow> Inl StateMissing
      | Some raw \<Rightarrow> and_then (ok_or StateDoesNotParse (js_read J raw)) (decode_heads B))"

definition encode_head :: "base64 \<Rightarrow> tree_head \<Rightarrow> stored_head" where
  "encode_head B h = \<lparr> sh_size = of_nat (th_size h), sh_root = b64_encode B (hash_bytes (th_root h)) \<rparr>"

definition write_all ::
  "state_json \<Rightarrow> base64 \<Rightarrow> memory_heads \<Rightarrow> io_event \<Rightarrow> disk \<Rightarrow> (store_error + unit) \<times> disk" where
  "write_all J B heads ev d =
     (if ev = WriteFailed then (Inl StoreIo, d)
      else
        let d' = d\<lparr> dk_file := Some (js_write J (fmmap (encode_head B) heads)) \<rparr>
        in (if ev = SyncFailed then Inl StoreIo else Inr (), d'))"

definition file_create :: "state_json \<Rightarrow> base64 \<Rightarrow> disk \<Rightarrow> (store_error + unit) \<times> disk" where
  "file_create J B d =
     (let (ev, d) = next_event d
      in if ev = LockFailed then (Inl StoreIo, d)
         else if dk_file d \<noteq> None then (Inl StateExists, d)
         else write_all J B fmempty ev d)"

definition file_open :: "state_json \<Rightarrow> base64 \<Rightarrow> disk \<Rightarrow> (store_error + unit) \<times> disk" where
  "file_open J B d = (let (ev, d) = next_event d in (and_then (read_all J B ev d) (\<lambda>_. Inr ()), d))"

definition file_latest ::
  "state_json \<Rightarrow> base64 \<Rightarrow> utext \<Rightarrow> disk \<Rightarrow> (store_error + tree_head option) \<times> disk" where
  "file_latest J B origin d =
     (let (ev, d) = next_event d in (and_then (read_all J B ev d) (\<lambda>heads. Inr (fmlookup heads origin)), d))"

definition file_compare_and_swap ::
  "state_json \<Rightarrow> base64 \<Rightarrow> utext \<Rightarrow> tree_head option \<Rightarrow> tree_head \<Rightarrow> disk \<Rightarrow> (store_error + bool) \<times> disk" where
  "file_compare_and_swap J B origin expected new d =
     (let (ev, d) = next_event d
      in if ev = LockFailed then (Inl StoreIo, d)
         else case read_all J B ev d of
           Inl e \<Rightarrow> (Inl e, d)
         | Inr heads \<Rightarrow>
             if fmlookup heads origin \<noteq> expected then (Inr False, d)
             else case write_all J B (fmupd origin new heads) ev d of
               (Inl e, d) \<Rightarrow> (Inl e, d)
             | (Inr _, d) \<Rightarrow> (Inr True, d))"

definition file_store :: "state_json \<Rightarrow> base64 \<Rightarrow> disk witness_store" where
  "file_store J B = \<lparr> ws_latest = file_latest J B, ws_compare_and_swap = file_compare_and_swap J B \<rparr>"

section \<open>The handler\<close>

definition empty_root :: "hasher \<Rightarrow> hash" where
  "empty_root H = H []"

record witness =
  wt_signer :: signer
  wt_logs :: "(utext, note_verifier) fmap"

definition witness_new :: "signer \<Rightarrow> witness" where
  "witness_new k = \<lparr> wt_signer = k, wt_logs = fmempty \<rparr>"

definition add_log :: "utext \<Rightarrow> note_verifier \<Rightarrow> witness \<Rightarrow> witness" where
  "add_log origin key w = w\<lparr> wt_logs := fmupd origin key (wt_logs w) \<rparr>"

text \<open>The checks made before the store is consulted.\<close>

definition admit ::
  "base64 \<Rightarrow> ed25519 \<Rightarrow> witness \<Rightarrow> add_checkpoint_request \<Rightarrow> u64 \<Rightarrow> witness_error + signed_note \<times> checkpoint" where
  "admit B E w request now =
     (if now = 0 \<or> now > 2 ^ 63 - 1 then Inl (BadClock now)
      else
        and_then (map_err BadCheckpoint (note_parse B (rq_note request))) (\<lambda>note.
        and_then (map_err BadCheckpoint (note_checkpoint B note)) (\<lambda>checkpoint.
        and_then (ok_or (UnknownLog (ck_origin checkpoint)) (fmlookup (wt_logs w) (ck_origin checkpoint))) (\<lambda>key.
        and_then (map_err (\<lambda>_. BadLogSignature) (note_verify E key note)) (\<lambda>_.
          Inr (note, checkpoint))))))"

definition head_size :: "tree_head option \<Rightarrow> nat" where
  "head_size latest = (case latest of None \<Rightarrow> 0 | Some h \<Rightarrow> th_size h)"

definition head_extends :: "hasher \<Rightarrow> tree_head option \<Rightarrow> tree_head \<Rightarrow> hash list \<Rightarrow> bool" where
  "head_extends H latest new proof \<longleftrightarrow>
     (case latest of
        Some old \<Rightarrow>
          if th_size old > 0 then verify_consistency H old new proof = Inr ()
          else proof = [] \<and> (th_size new > 0 \<or> th_root new = empty_root H)
      | None \<Rightarrow> proof = [] \<and> (th_size new > 0 \<or> th_root new = empty_root H))"

definition check_extends ::
  "hasher \<Rightarrow> add_checkpoint_request \<Rightarrow> tree_head option \<Rightarrow> tree_head \<Rightarrow> witness_error + unit" where
  "check_extends H request latest new =
     (if unat (rq_old_size request) \<noteq> head_size latest then Inl (HeadConflict (head_size latest))
      else if th_size new < unat (rq_old_size request) then Inl Shrinking
      else if \<not> head_extends H latest new (rq_proof request) then Inl BadProof
      else Inr ())"

text \<open>A request that passed every check against the head it read, and is about to be recorded.\<close>

record pending =
  pd_note :: signed_note
  pd_origin :: utext
  pd_latest :: "tree_head option"
  pd_new :: tree_head
  pd_proof :: "hash list"
  pd_now :: u64

definition add_checkpoint_check ::
  "'s witness_store \<Rightarrow> hasher \<Rightarrow> base64 \<Rightarrow> ed25519 \<Rightarrow> witness \<Rightarrow> add_checkpoint_request \<Rightarrow> u64 \<Rightarrow> 's
    \<Rightarrow> (witness_error + pending) \<times> 's" where
  "add_checkpoint_check S H B E w request now s =
     (case admit B E w request now of
        Inl e \<Rightarrow> (Inl e, s)
      | Inr (note, checkpoint) \<Rightarrow>
          (case ws_latest S (ck_origin checkpoint) s of
             (Inl e, s) \<Rightarrow> (Inl (StoreFailed e), s)
           | (Inr latest, s) \<Rightarrow>
               (and_then (check_extends H request latest (checkpoint_head checkpoint)) (\<lambda>_.
                  Inr \<lparr> pd_note = note, pd_origin = ck_origin checkpoint, pd_latest = latest,
                        pd_new = checkpoint_head checkpoint, pd_proof = rq_proof request, pd_now = now \<rparr>), s)))"

definition add_checkpoint_record ::
  "'s witness_store \<Rightarrow> ed25519 \<Rightarrow> witness \<Rightarrow> pending \<Rightarrow> 's \<Rightarrow> (witness_error + note_signature) \<times> 's" where
  "add_checkpoint_record S E w p s =
     (case ws_compare_and_swap S (pd_origin p) (pd_latest p) (pd_new p) s of
        (Inl e, s) \<Rightarrow> (Inl (StoreFailed e), s)
      | (Inr False, s) \<Rightarrow>
          (case ws_latest S (pd_origin p) s of
             (Inl e, s) \<Rightarrow> (Inl (StoreFailed e), s)
           | (Inr latest, s) \<Rightarrow> (Inl (HeadConflict (head_size latest)), s))
      | (Inr True, s) \<Rightarrow> (map_err BadCheckpoint (cosign E (wt_signer w) (sn_text (pd_note p)) (pd_now p)), s))"

definition add_checkpoint ::
  "'s witness_store \<Rightarrow> hasher \<Rightarrow> base64 \<Rightarrow> ed25519 \<Rightarrow> witness \<Rightarrow> add_checkpoint_request \<Rightarrow> u64 \<Rightarrow> 's
    \<Rightarrow> (witness_error + note_signature) \<times> 's" where
  "add_checkpoint S H B E w request now s =
     (case add_checkpoint_check S H B E w request now s of
        (Inl e, s) \<Rightarrow> (Inl e, s)
      | (Inr p, s) \<Rightarrow> add_checkpoint_record S E w p s)"

text \<open>\<open>collect\<close> of results: the first error, or all the values.\<close>

fun parse_cosignature_lines :: "base64 \<Rightarrow> utext list \<Rightarrow> witness_error + note_signature list" where
  "parse_cosignature_lines B [] = Inr []"
| "parse_cosignature_lines B (line # lines) =
     and_then (map_err BadCheckpoint (parse_line B line)) (\<lambda>sg.
     and_then (parse_cosignature_lines B lines) (\<lambda>sgs. Inr (sg # sgs)))"

definition parse_cosignatures :: "base64 \<Rightarrow> utext \<Rightarrow> witness_error + note_signature list" where
  "parse_cosignatures B body =
     and_then (ok_or MalformedRequest (strip_newline body)) (\<lambda>body. parse_cosignature_lines B (split_on 10 body))"

end
