(* ===== verification/Witness_Correct.thy ===== *)
theory Witness_Correct
  imports Witness
begin

text \<open>
  The witness never forks. Several handlers, in one process or in processes that share a state file, run
  interleaved between reading the latest head and recording the new one; logs are reconfigured, reads
  and writes fail, processes crash. Whatever happens, the checkpoints cosigned for one log extend one
  another. The proof uses only the contract of a store (\<open>head_memory\<close>), which both stores satisfy.
\<close>

section \<open>Requests are read back as written\<close>

lemma split_first_blank_here: "10 \<notin> set l \<Longrightarrow> split_first_blank (l @ 10 # 10 # rest) = Some (l, rest)"
proof (induction l)
  case (Cons c l)
  then show ?case by (cases l) auto
qed simp

lemma split_first_blank_line:
  "10 \<notin> set l \<Longrightarrow> d \<noteq> 10 \<Longrightarrow>
    split_first_blank (l @ 10 # d # rest) = map_option (\<lambda>(a, b). (l @ 10 # a, b)) (split_first_blank (d # rest))"
proof (induction l)
  case (Cons c l)
  then show ?case by (cases l) (auto simp: option.map_comp comp_def case_prod_unfold)
qed simp

lemma split_first_blank_lines:
  assumes "ls \<noteq> []" "\<forall>l \<in> set ls. l \<noteq> [] \<and> 10 \<notin> set l"
  shows "\<exists>t. split_first_blank (lines_text ls @ 10 # rest) = Some (t, rest) \<and> split_on 10 t = ls"
  using assms
proof (induction ls rule: list_nonempty_induct)
  case (single l)
  then show ?case by (simp add: split_first_blank_here split_on_fresh)
next
  case (cons l ls)
  then obtain t where t: "split_first_blank (lines_text ls @ 10 # rest) = Some (t, rest)" "split_on 10 t = ls" by auto
  obtain d q where d: "lines_text ls @ 10 # rest = d # q" "d \<noteq> 10"
    using cons.hyps cons.prems by (cases ls; cases "hd ls") auto
  show ?case
    using cons.prems split_first_blank_line [of l d q] t d by (simp add: split_on_append)
qed

lemma parse_proof_lines:
  assumes "base64_ok B" "length (acc @ hs) \<le> MAX_PROOF_HASHES"
  shows "parse_proof B acc (map (\<lambda>h. b64_encode B (hash_bytes h)) hs) = Inr (acc @ hs)"
  using assms(2)
proof (induction hs arbitrary: acc)
  case (Cons h hs)
  then show ?case using Cons.IH [of "acc @ [h]"] by (simp add: base64_okD(1) [OF assms(1)])
qed simp

lemma request_parse_render:
  assumes "base64_ok B" "length (rq_proof r) \<le> MAX_PROOF_HASHES" "length (utf8 (request_render B r)) \<le> MAX_REQUEST_BYTES"
  shows "request_parse B (request_render B r) = Inr r"
proof -
  let ?old = "decimal_text (unat (rq_old_size r))" and ?e = "\<lambda>h. b64_encode B (hash_bytes h)"
  let ?ls = "(codes ''old '' @ ?old) # map ?e (rq_proof r)"
  have r: "request_render B r = lines_text ?ls @ 10 # rq_note r"
    by (simp add: request_render_def) (simp add: lines_text_def comp_def)
  have "hash_bytes h \<noteq> []" for h by (metis length_hash_bytes list.size(3) zero_neq_numeral)
  then have "?e h \<noteq> []" "10 \<notin> set (?e h)" for h
    using base64_okD(3) [OF assms(1), of "hash_bytes h"] base64_okD(2) [OF assms(1), of 10 "hash_bytes h"]
    by (auto simp: base64_char_def)
  moreover have "10 \<notin> set ?old" using decimal_text_digit [of 10] by (auto simp: is_ascii_digit_def)
  ultimately have "\<forall>l \<in> set ?ls. l \<noteq> [] \<and> 10 \<notin> set l" by (auto simp: codes_def)
  then obtain t where t: "split_first_blank (request_render B r) = Some (t, rq_note r)" "split_on 10 t = ?ls"
    using split_first_blank_lines [of ?ls "rq_note r"] by (auto simp: r)
  have "canonical_decimal ?old" "parse_u64 ?old = Some (rq_old_size r)"
    using parse_canonical [of ?old "rq_old_size r"] by simp_all
  then show ?thesis
    using assms(3) t parse_proof_lines [OF assms(1), of "[]" "rq_proof r"] assms(2) by (simp add: request_parse_def)
qed

section \<open>The contract of a store\<close>

text \<open>
  \<open>heads\<close> is what the store remembers, if it can be read. Looking up changes nothing; recording either
  changes nothing, or replaces exactly the expected head by the new one, and it answers \<open>true\<close> only in
  the second case and \<open>false\<close> only in the first.
\<close>

locale head_memory =
  fixes S :: "'s witness_store" and heads :: "'s \<Rightarrow> memory_heads option"
  assumes latest_law: "ws_latest S origin s = (a, s') \<Longrightarrow> heads s' = heads s
      \<and> (\<forall>x. a = Inr x \<longrightarrow> (\<exists>m. heads s = Some m \<and> x = fmlookup m origin))"
    and swap_law: "th_size new < 2 ^ 64 \<Longrightarrow> ws_compare_and_swap S origin expected new s = (r, s') \<Longrightarrow>
      heads s' = heads s \<and> r \<noteq> Inr True
      \<or> r \<noteq> Inr False \<and> (\<exists>m. heads s = Some m \<and> fmlookup m origin = expected \<and> heads s' = Some (fmupd origin new m))"

interpretation memory: head_memory memory_store Some
  by unfold_locales (auto simp: memory_store_def memory_latest_def memory_compare_and_swap_def split: if_split_asm)

text \<open>What the state file holds, and the law of its JSON: reading undoes writing.\<close>

definition state_json_ok :: "state_json \<Rightarrow> bool" where
  "state_json_ok J \<longleftrightarrow> (\<forall>m. js_read J (js_write J m) = Some m)"

definition file_heads :: "state_json \<Rightarrow> base64 \<Rightarrow> disk \<Rightarrow> memory_heads option" where
  "file_heads J B d = (case read_all J B IoOk d of Inr m \<Rightarrow> Some m | Inl _ \<Rightarrow> None)"

lemma next_event_file: "next_event d = (ev, d') \<Longrightarrow> dk_file d' = dk_file d"
  by (auto simp: next_event_def split: list.split_asm)

lemma read_all_heads: "read_all J B ev d = Inr m \<Longrightarrow> file_heads J B d = Some m"
  by (auto simp: read_all_def file_heads_def split: if_split_asm option.split_asm)

lemma file_heads_cong: "dk_file d' = dk_file d \<Longrightarrow> file_heads J B d' = file_heads J B d"
  by (simp add: file_heads_def read_all_def)

lemma decode_encode_head:
  assumes "base64_ok B" "th_size h < 2 ^ 64"
  shows "decode_root B (encode_head B h) = Some (th_root h)" "unat (sh_size (encode_head B h)) = th_size h"
  using assms by (simp_all add: decode_root_def encode_head_def base64_okD(1) unat_of_nat)

lemma decode_encode_heads:
  assumes "base64_ok B" "\<forall>h \<in> fmran' m. th_size h < 2 ^ 64"
  shows "decode_heads B (fmmap (encode_head B) m) = Inr m"
proof -
  have "fmlookup (fmmap (\<lambda>h. \<lparr> th_size = unat (sh_size h), th_root = the (decode_root B h) \<rparr>) (fmmap (encode_head B) m)) x
      = fmlookup m x" for x
    using assms(2) by (cases "fmlookup m x") (auto simp: decode_encode_head [OF assms(1)] fmran'I)
  then have "fmmap (\<lambda>h. \<lparr> th_size = unat (sh_size h), th_root = the (decode_root B h) \<rparr>) (fmmap (encode_head B) m) = m"
    by (intro fmap_ext)
  moreover have "fmpred (\<lambda>_ h. decode_root B h \<noteq> None) (fmmap (encode_head B) m)"
    using assms(2) by (auto simp: fmpred_iff decode_encode_head [OF assms(1)] fmran'I)
  ultimately show ?thesis by (simp only: decode_heads_def if_True)
qed

lemma fmran_fmupd: "fmran' (fmupd a b m) \<subseteq> insert b (fmran' m)"
proof
  fix x assume "x \<in> fmran' (fmupd a b m)"
  then obtain k where "fmlookup (fmupd a b m) k = Some x" by (rule fmran'E)
  then show "x \<in> insert b (fmran' m)" by (cases "k = a") (auto intro: fmran'I)
qed

lemma read_all_bounded:
  assumes "read_all J B ev d = Inr m" "h \<in> fmran' m"
  shows "th_size h < 2 ^ 64"
proof -
  obtain k where "fmlookup m k = Some h" using assms(2) by (rule fmran'E)
  moreover obtain m0 where "m = fmmap (\<lambda>h. \<lparr> th_size = unat (sh_size h), th_root = the (decode_root B h) \<rparr>) m0"
    using assms(1) by (auto simp: read_all_def decode_heads_def split: if_split_asm option.split_asm)
  ultimately obtain g where "h = \<lparr> th_size = unat (sh_size g), th_root = the (decode_root B g) \<rparr>" by auto
  then show ?thesis using unat_lt2p [of "sh_size g"] by simp
qed

lemma write_all_heads:
  assumes "state_json_ok J" "base64_ok B" "\<forall>h \<in> fmran' m. th_size h < 2 ^ 64" "write_all J B m ev d = (r, d')"
  shows "file_heads J B d' = Some m \<or> r \<noteq> Inr () \<and> d' = d"
  using assms decode_encode_heads [OF assms(2,3)]
  by (auto simp: write_all_def Let_def file_heads_def read_all_def state_json_ok_def split: if_split_asm)

lemma file_head_memory:
  assumes "state_json_ok J" "base64_ok B"
  shows "head_memory (file_store J B) (file_heads J B)"
proof
  fix origin s r s'
  assume "ws_latest (file_store J B) origin s = (r, s')"
  then obtain ev where ev: "next_event s = (ev, s')" "r = and_then (read_all J B ev s') (\<lambda>heads. Inr (fmlookup heads origin))"
    by (auto simp: file_store_def file_latest_def split: prod.split_asm)
  then have "file_heads J B s' = file_heads J B s" by (intro file_heads_cong next_event_file)
  with ev(2) read_all_heads [of J B ev s'] show "file_heads J B s' = file_heads J B s
      \<and> (\<forall>x. r = Inr x \<longrightarrow> (\<exists>m. file_heads J B s = Some m \<and> x = fmlookup m origin))"
    by auto
next
  fix new origin expected s r s'
  assume new: "th_size new < 2 ^ 64" and cas: "ws_compare_and_swap (file_store J B) origin expected new s = (r, s')"
  obtain ev d where ev: "next_event s = (ev, d)" by (cases "next_event s")
  then have d: "file_heads J B d = file_heads J B s" by (intro file_heads_cong next_event_file)
  consider (refused) "ev = LockFailed \<or> (\<exists>e. read_all J B ev d = Inl e)
      \<or> (\<exists>m. read_all J B ev d = Inr m \<and> fmlookup m origin \<noteq> expected)"
    | (swap) m where "ev \<noteq> LockFailed" "read_all J B ev d = Inr m" "fmlookup m origin = expected"
    by (cases "read_all J B ev d") auto
  then show "file_heads J B s' = file_heads J B s \<and> r \<noteq> Inr True
      \<or> r \<noteq> Inr False \<and> (\<exists>m. file_heads J B s = Some m \<and> fmlookup m origin = expected
          \<and> file_heads J B s' = Some (fmupd origin new m))"
  proof cases
    case refused
    then have "s' = d \<and> r \<noteq> Inr True"
      using cas by (elim disjE exE conjE) (auto simp: file_store_def file_compare_and_swap_def ev split: if_split_asm)
    then show ?thesis using d by simp
  next
    case (swap m)
    have "\<forall>h \<in> fmran' (fmupd origin new m). th_size h < 2 ^ 64"
      using new read_all_bounded [OF swap(2)] fmran_fmupd [of origin new m] by blast
    note w = write_all_heads [OF assms this, of ev d]
    obtain q e where q: "write_all J B (fmupd origin new m) ev d = (q, e)"
      by (cases "write_all J B (fmupd origin new m) ev d")
    have r: "s' = e" "r = (case q of Inl e \<Rightarrow> Inl e | Inr _ \<Rightarrow> Inr True)"
      using cas swap by (cases q; simp add: file_store_def file_compare_and_swap_def ev q)+
    have m: "file_heads J B s = Some m" using read_all_heads [OF swap(2)] d by simp
    have "file_heads J B e = Some (fmupd origin new m) \<or> q \<noteq> Inr () \<and> e = d" by (rule w [OF q])
    then show ?thesis
    proof (elim disjE conjE)
      assume "file_heads J B e = Some (fmupd origin new m)"
      then show ?thesis using r m swap(3) by (cases q) simp_all
    next
      assume "q \<noteq> Inr ()" "e = d"
      then show ?thesis using r d by (cases q) simp_all
    qed
  qed
qed

section \<open>Interleaved handlers\<close>

text \<open>
  A run: the store, the configuration, the requests that passed their checks and wait to be recorded,
  all requests that ever passed them, and the cosignatures issued, the newest first.
\<close>

record 's witness_run =
  wr_store :: 's
  wr_witness :: witness
  wr_pending :: "pending list"
  wr_links :: "pending list"
  wr_issued :: "(pending \<times> note_signature) list"

definition run_start :: "witness \<Rightarrow> 's \<Rightarrow> 's witness_run" where
  "run_start w s = \<lparr> wr_store = s, wr_witness = w, wr_pending = [], wr_links = [], wr_issued = [] \<rparr>"

inductive wstep :: "'s witness_store \<Rightarrow> hasher \<Rightarrow> base64 \<Rightarrow> ed25519 \<Rightarrow> 's witness_run \<Rightarrow> 's witness_run \<Rightarrow> bool"
  for S H B E where
  refuse: "add_checkpoint_check S H B E (wr_witness x) request now (wr_store x) = (Inl e, s)
    \<Longrightarrow> wstep S H B E x (x\<lparr> wr_store := s \<rparr>)"
| check: "add_checkpoint_check S H B E (wr_witness x) request now (wr_store x) = (Inr p, s)
    \<Longrightarrow> wstep S H B E x (x\<lparr> wr_store := s, wr_pending := p # wr_pending x, wr_links := p # wr_links x \<rparr>)"
| lose: "p \<in> set (wr_pending x) \<Longrightarrow> add_checkpoint_record S E (wr_witness x) p (wr_store x) = (Inl e, s)
    \<Longrightarrow> wstep S H B E x (x\<lparr> wr_store := s, wr_pending := remove1 p (wr_pending x) \<rparr>)"
| issue: "p \<in> set (wr_pending x) \<Longrightarrow> add_checkpoint_record S E (wr_witness x) p (wr_store x) = (Inr sg, s)
    \<Longrightarrow> wstep S H B E x (x\<lparr> wr_store := s, wr_pending := remove1 p (wr_pending x),
          wr_issued := (p, sg) # wr_issued x \<rparr>)"
| config: "wstep S H B E x (x\<lparr> wr_witness := add_log origin key (wr_witness x) \<rparr>)"
| crash: "wstep S H B E x (x\<lparr> wr_pending := [] \<rparr>)"

text \<open>A handler that is not interrupted is a check followed by its recording.\<close>

lemma add_checkpoint_steps:
  assumes "add_checkpoint S H B E (wr_witness x) request now (wr_store x) = (Inr sg, s)"
    "admit B E (wr_witness x) request now = Inr (nt, c)"
  shows "\<exists>p y z. wstep S H B E x y \<and> wstep S H B E y z \<and> wr_store z = s \<and> wr_witness z = wr_witness x
    \<and> wr_issued z = (p, sg) # wr_issued x \<and> pd_origin p = ck_origin c \<and> pd_note p = nt \<and> pd_now p = now"
proof -
  obtain p s1 where p: "add_checkpoint_check S H B E (wr_witness x) request now (wr_store x) = (Inr p, s1)"
    "add_checkpoint_record S E (wr_witness x) p s1 = (Inr sg, s)"
    using assms by (auto simp: add_checkpoint_def split: prod.split_asm sum.split_asm)
  define y where "y = x\<lparr> wr_store := s1, wr_pending := p # wr_pending x, wr_links := p # wr_links x \<rparr>"
  have y: "wstep S H B E x y" unfolding y_def using p(1) by (rule check)
  define z where "z = y\<lparr> wr_store := s, wr_pending := remove1 p (wr_pending y), wr_issued := (p, sg) # wr_issued y \<rparr>"
  have "wstep S H B E y z" unfolding z_def by (rule issue) (simp_all add: y_def p(2))
  moreover have "wr_store z = s" "wr_issued z = (p, sg) # wr_issued x" "wr_witness z = wr_witness x"
    by (simp_all add: z_def y_def)
  moreover have "pd_origin p = ck_origin c" "pd_note p = nt" "pd_now p = now"
    using p(1) assms(2) by (auto simp: add_checkpoint_check_def split: prod.split_asm sum.split_asm)
  ultimately show ?thesis using y by blast
qed

section \<open>Chains of heads\<close>

inductive extended :: "pending list \<Rightarrow> utext \<Rightarrow> tree_head \<Rightarrow> tree_head \<Rightarrow> bool" for L origin where
  refl: "extended L origin h h"
| link: "extended L origin h h' \<Longrightarrow> p \<in> set L \<Longrightarrow> pd_origin p = origin \<Longrightarrow> pd_latest p = Some h'
    \<Longrightarrow> extended L origin h (pd_new p)"

lemma extended_mono: "extended L origin h h' \<Longrightarrow> set L \<subseteq> set L' \<Longrightarrow> extended L' origin h h'"
  by (induction rule: extended.induct) (auto intro: extended.intros)

definition link_ok :: "hasher \<Rightarrow> pending \<Rightarrow> bool" where
  "link_ok H p \<longleftrightarrow> head_extends H (pd_latest p) (pd_new p) (pd_proof p) \<and> th_size (pd_new p) < 2 ^ 64
     \<and> head_size (pd_latest p) \<le> th_size (pd_new p)"

lemma link_ok_empty: "link_ok H p \<Longrightarrow> th_size (pd_new p) = 0 \<Longrightarrow> th_root (pd_new p) = empty_root H"
  by (auto simp: link_ok_def head_extends_def verify_consistency_def split: option.split_asm if_split_asm)

lemma extended_size:
  assumes "extended L origin h h'" "\<forall>p \<in> set L. link_ok H p"
  shows "th_size h \<le> th_size h'"
  using assms
proof (induction rule: extended.induct)
  case (link h h' p)
  then have "th_size h' \<le> th_size (pd_new p)" by (auto simp: link_ok_def head_size_def)
  with link show ?case by simp
qed simp

lemma extended_same_size:
  assumes "extended L origin h h'" "\<forall>p \<in> set L. link_ok H p" "th_size h = th_size h'"
    "th_size h = 0 \<longrightarrow> th_root h = empty_root H"
  shows "th_root h = th_root h'"
  using assms
proof (induction rule: extended.induct)
  case (link h h' p)
  have "th_size h \<le> th_size h'" using extended_size link.hyps(1) link.prems(1) by blast
  moreover have ok: "link_ok H p" using link by blast
  then have "th_size h' \<le> th_size (pd_new p)" using link.hyps(4) by (auto simp: link_ok_def head_size_def)
  ultimately have eq: "th_size h = th_size h'" "th_size h' = th_size (pd_new p)" using link.prems(2) by simp_all
  with link have h: "th_root h = th_root h'" by blast
  show ?case
  proof (cases "th_size h = 0")
    case True
    then show ?thesis using link.prems eq link_ok_empty [OF ok] by simp
  next
    case False
    then have "verify_consistency H h' (pd_new p) (pd_proof p) = Inr ()"
      using ok eq link.hyps(4) by (simp add: link_ok_def head_extends_def)
    then show ?thesis using h eq by (auto simp: verify_consistency_def split: if_split_asm)
  qed
qed simp

text \<open>The byte strings hashed while the proofs of a run were checked, and those of the prefixes of a log.\<close>

definition link_inputs :: "hasher \<Rightarrow> pending \<Rightarrow> bytes list" where
  "link_inputs H p =
     (case pd_latest p of
        None \<Rightarrow> []
      | Some old \<Rightarrow> cons_inputs H (th_size old) (th_size (pd_new p))
          (hd (full_proof old (pd_proof p))) (tl (full_proof old (pd_proof p))))"

definition prefix_inputs :: "hasher \<Rightarrow> hash list \<Rightarrow> bytes list" where
  "prefix_inputs H d = concat (map (\<lambda>n. tree_inputs H (take n d)) [0..<Suc (length d)])"

lemma prefix_inputs_whole: "set (tree_inputs H d) \<subseteq> set (prefix_inputs H d)"
  by (auto simp: prefix_inputs_def)

lemma prefix_inputs_take: "set (prefix_inputs H (take n d)) \<subseteq> set (prefix_inputs H d)"
proof
  fix x assume "x \<in> set (prefix_inputs H (take n d))"
  then obtain k where "k < Suc (length (take n d))" "x \<in> set (tree_inputs H (take k (take n d)))"
    by (simp only: prefix_inputs_def set_concat set_map set_upt UN_iff image_iff) auto
  then have "min k n < Suc (length d)" "x \<in> set (tree_inputs H (take (min k n) d))" by auto
  then show "x \<in> set (prefix_inputs H d)" by (force simp: prefix_inputs_def simp del: upt_Suc)
qed

lemma head_over_take:
  assumes "n \<le> length d" "th_size h = n" "th_root h = root_of H (take n d)"
  shows "h = head_over H (take n d)"
  using assms by (intro tree_head.equality) (simp_all add: head_over_def)

lemma extended_sound:
  assumes "extended L origin h h'" "\<forall>p \<in> set L. link_ok H p" "th_size h = 0 \<longrightarrow> th_root h = empty_root H" "h' = head_over H d"
  shows "th_root h = root_of H (take (th_size h) d) \<or> collision H (concat (map (link_inputs H) L)) (prefix_inputs H d)"
  using assms
proof (induction arbitrary: d rule: extended.induct)
  case (refl h)
  then show ?case by (simp add: head_over_def)
next
  case (link h h' p)
  have le: "th_size h \<le> th_size h'" using extended_size link.hyps(1) link.prems(1) by blast
  have ok: "link_ok H p" using link by blast
  show ?case
  proof (cases "th_size h' = 0")
    case True
    then show ?thesis using le link.prems(2) by (simp add: empty_root_def root_of.simps [of H "[]"])
  next
    case False
    then have v: "verify_consistency H h' (head_over H d) (pd_proof p) = Inr ()"
      using ok link.hyps(4) link.prems(3) by (simp add: link_ok_def head_extends_def)
    let ?ins = "link_inputs H p"
    have ins: "?ins = cons_inputs H (th_size h') (length d) (hd (full_proof h' (pd_proof p))) (tl (full_proof h' (pd_proof p)))"
      using link.hyps(4) link.prems(3) by (simp add: link_inputs_def head_over_def)
    have len: "th_size h' \<le> length d" using accepted_consistency [OF v] by simp
    consider (prefix) "th_root h' = root_of H (take (th_size h') d)" | (clash) "collision H ?ins (tree_inputs H d)"
      using accepted_consistency [OF v] unfolding ins by blast
    then show ?thesis
    proof cases
      case prefix
      have "h' = head_over H (take (th_size h') d)" using head_over_take [OF len HOL.refl prefix] .
      from link.IH [OF link.prems(1,2) this] show ?thesis
      proof
        assume "th_root h = root_of H (take (th_size h) (take (th_size h') d))"
        then show ?thesis using le by (simp add: min_absorb1)
      next
        assume "collision H (concat (map (link_inputs H) L)) (prefix_inputs H (take (th_size h') d))"
        then show ?thesis by (intro disjI2) (rule collision_mono [OF _ subset_refl prefix_inputs_take])
      qed
    next
      case clash
      moreover have "set ?ins \<subseteq> set (concat (map (link_inputs H) L))" using link.hyps(2) by auto
      ultimately show ?thesis by (intro disjI2) (rule collision_mono [OF _ _ prefix_inputs_whole])
    qed
  qed
qed

section \<open>The witness never forks\<close>

definition cosigned_ok :: "base64 \<Rightarrow> ed25519 \<Rightarrow> witness \<Rightarrow> pending \<times> note_signature \<Rightarrow> bool" where
  "cosigned_ok B E w x \<longleftrightarrow>
     cosign E (wt_signer w) (sn_text (pd_note (fst x))) (pd_now (fst x)) = Inr (snd x)
     \<and> (\<exists>c. note_checkpoint B (pd_note (fst x)) = Inr c \<and> ck_origin c = pd_origin (fst x)
          \<and> checkpoint_head c = pd_new (fst x))"

definition pending_ok :: "hasher \<Rightarrow> base64 \<Rightarrow> pending \<Rightarrow> bool" where
  "pending_ok H B p \<longleftrightarrow> link_ok H p
     \<and> (\<exists>c. note_checkpoint B (pd_note p) = Inr c \<and> ck_origin c = pd_origin p \<and> checkpoint_head c = pd_new p)"

lemma admit_checkpoint: "admit B E w request now = Inr (note, c) \<Longrightarrow> note_checkpoint B note = Inr c"
  by (auto simp: admit_def split: if_split_asm)

lemma check_pending_ok:
  assumes "add_checkpoint_check S H B E w request now s = (Inr p, s')"
  shows "pending_ok H B p \<and> (\<exists>a. ws_latest S (pd_origin p) s = (a, s'))"
proof -
  obtain nt c latest where a: "admit B E w request now = Inr (nt, c)" "ws_latest S (ck_origin c) s = (Inr latest, s')"
    "check_extends H request latest (checkpoint_head c) = Inr ()"
    and p: "p = \<lparr> pd_note = nt, pd_origin = ck_origin c, pd_latest = latest, pd_new = checkpoint_head c,
      pd_proof = rq_proof request, pd_now = now \<rparr>"
    using assms by (auto simp: add_checkpoint_check_def split: sum.split_asm prod.split_asm)
  have "link_ok H p"
    using a(3) unat_lt2p [of "ck_size c"] by (auto simp: p link_ok_def check_extends_def checkpoint_head_def split: if_split_asm)
  then show ?thesis using admit_checkpoint [OF a(1)] a(2) by (auto simp: pending_ok_def p)
qed

text \<open>
  Every issued head is extended by the remembered head of its log, and earlier issued heads are extended
  by later ones.
\<close>

definition remembered :: "memory_heads option \<Rightarrow> pending list \<Rightarrow> pending \<Rightarrow> bool" where
  "remembered hs L p \<longleftrightarrow>
     (\<exists>m c. hs = Some m \<and> fmlookup m (pd_origin p) = Some c \<and> extended L (pd_origin p) (pd_new p) c)"

definition later :: "pending list \<Rightarrow> pending \<times> note_signature \<Rightarrow> pending \<times> note_signature \<Rightarrow> bool" where
  "later L a b \<longleftrightarrow>
     (pd_origin (fst a) = pd_origin (fst b) \<longrightarrow> extended L (pd_origin (fst b)) (pd_new (fst b)) (pd_new (fst a)))"

definition run_inv :: "('s \<Rightarrow> memory_heads option) \<Rightarrow> hasher \<Rightarrow> base64 \<Rightarrow> ed25519 \<Rightarrow> 's witness_run \<Rightarrow> bool" where
  "run_inv heads H B E x \<longleftrightarrow>
     (\<forall>p \<in> set (wr_links x). pending_ok H B p) \<and> set (wr_pending x) \<subseteq> set (wr_links x)
     \<and> (\<forall>i \<in> set (wr_issued x). fst i \<in> set (wr_links x) \<and> cosigned_ok B E (wr_witness x) i
          \<and> remembered (heads (wr_store x)) (wr_links x) (fst i))
     \<and> sorted_wrt (later (wr_links x)) (wr_issued x)"

lemma run_inv_start: "run_inv heads H B E (run_start w s)"
  by (simp add: run_inv_def run_start_def)

lemma run_invD:
  assumes "run_inv heads H B E x"
  shows "p \<in> set (wr_links x) \<Longrightarrow> pending_ok H B p" "set (wr_pending x) \<subseteq> set (wr_links x)"
    "i \<in> set (wr_issued x) \<Longrightarrow> fst i \<in> set (wr_links x) \<and> cosigned_ok B E (wr_witness x) i
       \<and> remembered (heads (wr_store x)) (wr_links x) (fst i)"
    "sorted_wrt (later (wr_links x)) (wr_issued x)"
  using assms unfolding run_inv_def by blast+

lemma remembered_mono: "remembered hs L p \<Longrightarrow> set L \<subseteq> set L' \<Longrightarrow> remembered hs L' p"
  unfolding remembered_def using extended_mono by blast

lemma later_mono: "later L a b \<Longrightarrow> set L \<subseteq> set L' \<Longrightarrow> later L' a b"
  unfolding later_def using extended_mono by blast

lemma remembered_move:
  assumes "remembered (Some m) L q" "p \<in> set L" "fmlookup m (pd_origin p) = pd_latest p"
  shows "remembered (Some (fmupd (pd_origin p) (pd_new p) m)) L q"
proof (cases "pd_origin p = pd_origin q")
  case True
  then obtain c where "pd_latest p = Some c" "extended L (pd_origin p) (pd_new q) c"
    using assms(1,3) by (auto simp: remembered_def)
  then have "extended L (pd_origin p) (pd_new q) (pd_new p)" using assms(2) by (auto intro: extended.link)
  then show ?thesis using True by (simp add: remembered_def)
next
  case False
  then show ?thesis using assms(1) by (auto simp: remembered_def)
qed

lemma later_move:
  assumes "remembered (Some m) L (fst b)" "p \<in> set L" "fmlookup m (pd_origin p) = pd_latest p"
  shows "later L (p, sg) b"
  using remembered_move [OF assms] by (auto simp: remembered_def later_def)

context head_memory
begin

lemma record_moves:
  assumes "add_checkpoint_record S E w p s = (r, s')" "th_size (pd_new p) < 2 ^ 64"
  shows "heads s' = heads s \<and> (\<exists>e. r = Inl e)
    \<or> (\<exists>m. heads s = Some m \<and> fmlookup m (pd_origin p) = pd_latest p \<and> heads s' = Some (fmupd (pd_origin p) (pd_new p) m)
         \<and> (\<forall>sg. r = Inr sg \<longrightarrow> cosign E (wt_signer w) (sn_text (pd_note p)) (pd_now p) = Inr sg))"
proof -
  obtain q s1 where q: "ws_compare_and_swap S (pd_origin p) (pd_latest p) (pd_new p) s = (q, s1)" by fastforce
  note law = swap_law [OF assms(2) q]
  show ?thesis
  proof (cases "q = Inr False")
    case True
    obtain a s2 where a: "ws_latest S (pd_origin p) s1 = (a, s2)" by fastforce
    have "heads s2 = heads s1" using latest_law [OF a] by simp
    then show ?thesis using assms(1) q a law True by (cases a) (auto simp: add_checkpoint_record_def)
  next
    case False
    then consider e where "q = Inl e" | "q = Inr True" by (cases q) auto
    then show ?thesis using assms(1) q law by cases (auto simp: add_checkpoint_record_def)
  qed
qed

lemma check_heads:
  assumes "add_checkpoint_check S H B E w request now s = (r, s')"
  shows "heads s' = heads s"
proof (cases "admit B E w request now")
  case (Inr nc)
  then obtain a s1 where a: "ws_latest S (ck_origin (snd nc)) s = (a, s1)" by fastforce
  have "s' = s1" using assms Inr a by (cases a) (auto simp: add_checkpoint_check_def split: prod.split_asm)
  then show ?thesis using latest_law [OF a] by simp
qed (use assms in \<open>simp add: add_checkpoint_check_def\<close>)

lemma run_inv_step:
  assumes "wstep S H B E x y" "run_inv heads H B E x"
  shows "run_inv heads H B E y"
  using assms
proof (induction rule: wstep.induct)
  case (refuse x request now e s)
  then show ?case using check_heads [OF refuse.hyps] by (simp add: run_inv_def)
next
  case (check x request now p s)
  have sub: "set (wr_links x) \<subseteq> set (p # wr_links x)" by auto
  note x = run_invD [OF check.prems]
  have "sorted_wrt (later (p # wr_links x)) (wr_issued x)"
    using x(4) by (rule sorted_wrt_mono_rel [rotated]) (rule later_mono [OF _ sub])
  moreover have "fst i \<in> set (p # wr_links x) \<and> cosigned_ok B E (wr_witness x) i
      \<and> remembered (heads s) (p # wr_links x) (fst i)" if "i \<in> set (wr_issued x)" for i
    using x(3) [OF that] remembered_mono [OF _ sub, of "heads s" "fst i"] check_heads [OF check.hyps] by simp
  moreover have "pending_ok H B p" using check_pending_ok [OF check.hyps] by simp
  ultimately show ?case using x(1,2) unfolding run_inv_def by (simp; blast)
next
  case (lose p x e s)
  note x = run_invD [OF lose.prems]
  have p: "p \<in> set (wr_links x)" using x(2) lose.hyps(1) by blast
  then have "th_size (pd_new p) < 2 ^ 64" using x(1) by (simp add: pending_ok_def link_ok_def)
  note r = record_moves [OF lose.hyps(2) this]
  have "remembered (heads s) (wr_links x) q" if "remembered (heads (wr_store x)) (wr_links x) q" for q
    using r
  proof (elim disjE conjE exE)
    fix m assume "heads (wr_store x) = Some m" "fmlookup m (pd_origin p) = pd_latest p"
      "heads s = Some (fmupd (pd_origin p) (pd_new p) m)"
    then show ?thesis using remembered_move [OF _ p, of m q] that by simp
  qed (use that in simp)
  then show ?case using x set_remove1_subset [of p "wr_pending x"] unfolding run_inv_def by (simp; blast)
next
  case (issue p x sg s)
  note x = run_invD [OF issue.prems]
  have p: "p \<in> set (wr_links x)" using x(2) issue.hyps(1) by blast
  then have "th_size (pd_new p) < 2 ^ 64" and ok: "pending_ok H B p" using x(1) by (simp_all add: pending_ok_def link_ok_def)
  then obtain m where m: "heads (wr_store x) = Some m" "fmlookup m (pd_origin p) = pd_latest p"
    "heads s = Some (fmupd (pd_origin p) (pd_new p) m)"
    and sg: "cosign E (wt_signer (wr_witness x)) (sn_text (pd_note p)) (pd_now p) = Inr sg"
    using record_moves [OF issue.hyps(2)] by auto
  have "remembered (heads s) (wr_links x) p" by (auto simp: m remembered_def intro: extended.refl)
  moreover have "cosigned_ok B E (wr_witness x) (p, sg)" using ok sg by (simp add: cosigned_ok_def pending_ok_def)
  moreover have "later (wr_links x) (p, sg) i" "remembered (heads s) (wr_links x) (fst i)" if "i \<in> set (wr_issued x)" for i
    using x(3) [OF that] remembered_move [OF _ p m(2), of "fst i"] later_move [OF _ p m(2), of i sg] by (simp_all add: m)
  ultimately show ?case using x set_remove1_subset [of p "wr_pending x"] p unfolding run_inv_def by (simp; blast)
next
  case (config x origin key)
  then show ?case by (auto simp: run_inv_def cosigned_ok_def add_log_def)
next
  case (crash x)
  then show ?case by (simp add: run_inv_def)
qed

lemma run_inv_reach:
  assumes "(wstep S H B E)\<^sup>*\<^sup>* (run_start w s) x"
  shows "run_inv heads H B E x"
  using assms by (induction rule: rtranclp_induct) (auto intro: run_inv_start run_inv_step)

lemma never_forks:
  assumes reach: "(wstep S H B E)\<^sup>*\<^sup>* (run_start w s) x" and issued: "wr_issued x = newer @ b # older" "a \<in> set older"
    and same: "pd_origin (fst a) = pd_origin (fst b)"
  shows "th_size (pd_new (fst a)) \<le> th_size (pd_new (fst b))"
    "th_size (pd_new (fst a)) = th_size (pd_new (fst b)) \<Longrightarrow> th_root (pd_new (fst a)) = th_root (pd_new (fst b))"
    "pd_new (fst b) = head_over H d \<Longrightarrow> th_root (pd_new (fst a)) = root_of H (take (th_size (pd_new (fst a))) d)
      \<or> collision H (concat (map (link_inputs H) (wr_links x))) (prefix_inputs H d)"
proof -
  have inv: "run_inv heads H B E x" using reach by (rule run_inv_reach)
  then have ok: "\<forall>p \<in> set (wr_links x). link_ok H p" by (simp add: run_inv_def pending_ok_def)
  have "fst a \<in> set (wr_links x)" using inv issued by (auto simp: run_inv_def)
  then have empty: "th_size (pd_new (fst a)) = 0 \<longrightarrow> th_root (pd_new (fst a)) = empty_root H"
    using ok link_ok_empty by blast
  have "later (wr_links x) b a" using inv issued by (auto simp: run_inv_def sorted_wrt_append)
  then have ext: "extended (wr_links x) (pd_origin (fst a)) (pd_new (fst a)) (pd_new (fst b))"
    using same by (simp add: later_def)
  show "th_size (pd_new (fst a)) \<le> th_size (pd_new (fst b))" using ext ok by (rule extended_size)
  show "th_root (pd_new (fst a)) = th_root (pd_new (fst b))" if "th_size (pd_new (fst a)) = th_size (pd_new (fst b))"
    using extended_same_size [OF ext ok that empty] .
  show "th_root (pd_new (fst a)) = root_of H (take (th_size (pd_new (fst a))) d)
      \<or> collision H (concat (map (link_inputs H) (wr_links x))) (prefix_inputs H d)" if "pd_new (fst b) = head_over H d"
    using extended_sound [OF ext ok empty that] .
qed

lemma issued_cosigned:
  "(wstep S H B E)\<^sup>*\<^sup>* (run_start w s) x \<Longrightarrow> i \<in> set (wr_issued x) \<Longrightarrow> cosigned_ok B E (wr_witness x) i"
  using run_inv_reach by (auto simp: run_inv_def)

end

text \<open>
  C3. A witness never forks. Take any number of handlers sharing one state file, interleaved between
  reading the last head and recording the next, with logs reconfigured, processes crashing and reads,
  writes and syncs failing at will. If one cosignature for a log was issued before another, then the
  earlier tree is no larger, the two roots are equal whenever the sizes are, and if the later head is
  the head over some leaves then the earlier root is the root over the first leaves of the same log,
  unless checking the proofs hashed a byte string that collides with one of that log. Each signature
  is over the very note whose checkpoint was checked.
\<close>

theorem witness_never_forks:
  assumes "state_json_ok J" "base64_ok B"
    and "(wstep (file_store J B) H B E)\<^sup>*\<^sup>* (run_start w disk) x"
    and "wr_issued x = newer @ (p2, sg2) # older" "(p1, sg1) \<in> set older" "pd_origin p1 = pd_origin p2"
  shows "th_size (pd_new p1) \<le> th_size (pd_new p2)
    \<and> (th_size (pd_new p1) = th_size (pd_new p2) \<longrightarrow> th_root (pd_new p1) = th_root (pd_new p2))
    \<and> (\<forall>d. pd_new p2 = head_over H d \<longrightarrow>
         th_root (pd_new p1) = root_of H (take (th_size (pd_new p1)) d)
         \<or> collision H (concat (map (link_inputs H) (wr_links x))) (prefix_inputs H d))
    \<and> cosign E (wt_signer (wr_witness x)) (sn_text (pd_note p1)) (pd_now p1) = Inr sg1
    \<and> (\<exists>c. note_checkpoint B (pd_note p1) = Inr c \<and> ck_origin c = pd_origin p1 \<and> checkpoint_head c = pd_new p1)"
proof -
  note mem = file_head_memory [OF assms(1,2)]
  have "(p1, sg1) \<in> set (wr_issued x)" using assms(4,5) by simp
  then have "cosigned_ok B E (wr_witness x) (p1, sg1)" by (rule head_memory.issued_cosigned [OF mem assms(3)])
  moreover note head_memory.never_forks [OF mem assms(3,4,5), unfolded fst_conv, OF assms(6)]
  ultimately show ?thesis by (simp add: cosigned_ok_def)
qed

section \<open>A concrete witness\<close>

definition unary_json :: state_json where
  "unary_json =
     \<lparr> js_write = \<lambda>m. replicate (to_nat (fmmap (\<lambda>h. (unat (sh_size h), sh_root h)) m)) 0,
       js_read = \<lambda>bs. Some (fmmap (\<lambda>(n, r). \<lparr> sh_size = of_nat n, sh_root = r \<rparr>) (from_nat (length bs))) \<rparr>"

lemma unary_json_ok: "state_json_ok unary_json"
proof -
  have "fmmap (\<lambda>(n, r). \<lparr> sh_size = of_nat n, sh_root = r \<rparr>) (fmmap (\<lambda>h. (unat (sh_size h), sh_root h)) m) = m"
    for m :: "(utext, stored_head) fmap"
  proof (rule fmap_ext)
    show "fmlookup (fmmap (\<lambda>(n, r). \<lparr> sh_size = of_nat n, sh_root = r \<rparr>) (fmmap (\<lambda>h. (unat (sh_size h), sh_root h)) m)) x
      = fmlookup m x" for x
      by (cases "fmlookup m x") (auto intro!: stored_head.equality)
  qed
  then show ?thesis by (simp add: state_json_ok_def unary_json_def)
qed

lemma log_note_parses:
  assumes "base64_ok B" "ed25519_ok E" "checkpoint_wf c" "log_from_seed H E name seed = Inr lk"
    "length (utf8 (note_render B (log_sign B E lk c))) \<le> MAX_NOTE_BYTES"
  shows "note_parse B (note_render B (log_sign B E lk c)) = Inr (log_sign B E lk c)"
    "note_checkpoint B (log_sign B E lk c) = Inr c" "note_verify E (sg_verifier lk) (log_sign B E lk c) = Inr ()"
proof -
  note k = assms(4) [unfolded log_from_seed_def signer_from_seed_Inr]
  have "ed_sign E a b \<noteq> []" for a b using ed25519_okD(3) [OF assms(2), of a b] by auto
  then have "note_wf B (checkpoint_lines B c) (log_sign B E lk c)"
    using k checkpoint_lines_wf [OF assms(1,3)] checkpoint_lines_control [OF assms(1,3)]
    by (auto simp: note_wf_def log_sign_def Let_def checkpoint_body_lines signature_wf_def distinct_keys_def MAX_SIGNATURES_def)
       (simp_all add: checkpoint_lines_def)
  then show "note_parse B (note_render B (log_sign B E lk c)) = Inr (log_sign B E lk c)"
    using assms(1,5) note_parse_render by blast
  show "note_checkpoint B (log_sign B E lk c) = Inr c"
    using checkpoint_parse_body [OF assms(1,3)] by (simp add: note_checkpoint_def log_sign_def Let_def)
  show "note_verify E (sg_verifier lk) (log_sign B E lk c) = Inr ()"
    using k ed25519_okD [OF assms(2)] by (simp add: note_verify_def signature_from_def log_sign_def Let_def)
qed

definition example_note :: signed_note where
  "example_note = log_sign nibble_base64 mirror_ed25519 (example_signer 1 ''l'' [1]) example_checkpoint"

definition example_witness :: witness where
  "example_witness = add_log (ck_origin example_checkpoint) (sg_verifier (example_signer 1 ''l'' [1]))
     (witness_new (example_signer 4 ''w'' [2]))"

definition example_request :: "u64 \<Rightarrow> add_checkpoint_request" where
  "example_request old = \<lparr> rq_old_size = old, rq_proof = [], rq_note = note_render nibble_base64 example_note \<rparr>"

definition example_disk :: "memory_heads \<Rightarrow> disk" where
  "example_disk m = \<lparr> dk_file = Some (js_write unary_json (fmmap (encode_head nibble_base64) m)), dk_events = [] \<rparr>"

lemma example_admitted:
  "admit nibble_base64 mirror_ed25519 example_witness (example_request old) 9 = Inr (example_note, example_checkpoint)"
proof -
  have wf: "checkpoint_wf example_checkpoint" and n: "is_valid_name (codes ''l'')"
    by (simp_all add: checkpoint_wf_def example_checkpoint_def is_valid_line_def is_valid_name_def codes_def
        is_control_def is_whitespace_def)
  have k: "log_from_seed (\<lambda>_. 0) mirror_ed25519 (codes ''l'') [1] = Inr (example_signer 1 ''l'' [1])"
    using n by (simp only: log_from_seed_def signer_from_seed_Inr example_signer_def ALG_ED25519_def simp_thms)
  have "length (sn_text example_note) \<le> 100"
    using decimal_text_small [of 7]
    by (simp add: example_note_def log_sign_def Let_def checkpoint_body_lines checkpoint_lines_def example_checkpoint_def
        codes_def length_nibble)
  moreover have "length (concat (map (signature_line nibble_base64) (sn_signatures example_note))) \<le> 200"
    using ed25519_okD(3) [OF mirror_ed25519_ok]
    by (simp add: example_note_def log_sign_def Let_def signature_line_def length_nibble SIGNATURE_PREFIX_def
        example_signer_def codes_def)
  ultimately have "length (utf8 (note_render nibble_base64 example_note)) \<le> MAX_NOTE_BYTES"
    using length_utf8 [of "note_render nibble_base64 example_note"] by (simp add: note_render_def MAX_NOTE_BYTES_def)
  note p = log_note_parses [OF nibble_base64_ok mirror_ed25519_ok wf k, folded example_note_def, OF this]
  show ?thesis
    using p by (simp add: admit_def example_request_def example_witness_def add_log_def witness_new_def)
qed

lemma example_issued:
  assumes m: "\<forall>h \<in> fmran' m. th_size h < 2 ^ 64"
    and latest: "fmlookup m (ck_origin example_checkpoint) \<in> {None, Some (checkpoint_head example_checkpoint)}"
  shows "\<exists>sg. add_checkpoint (file_store unary_json nibble_base64) poly_hash nibble_base64 mirror_ed25519 example_witness
      (example_request (of_nat (head_size (fmlookup m (ck_origin example_checkpoint))))) 9 (example_disk m)
    = (Inr sg, example_disk (fmupd (ck_origin example_checkpoint) (checkpoint_head example_checkpoint) m))"
proof -
  let ?l = "fmlookup m (ck_origin example_checkpoint)" and ?h = "checkpoint_head example_checkpoint"
  have r: "read_all unary_json nibble_base64 IoOk (example_disk m) = Inr m"
    using unary_json_ok decode_encode_heads [OF nibble_base64_ok m]
    by (simp add: read_all_def example_disk_def state_json_ok_def)
  have e: "next_event (example_disk m) = (IoOk, example_disk m)" by (simp add: next_event_def example_disk_def)
  have x: "check_extends poly_hash (example_request (of_nat (head_size ?l))) ?l ?h = Inr ()"
    using latest by (auto simp: check_extends_def example_request_def head_size_def checkpoint_head_def example_checkpoint_def
        head_extends_def verify_consistency_def)
  have "\<not> length (split_on 10 (sn_text example_note)) < 4"
    using checkpoint_body_split by (simp add: example_note_def log_sign_def Let_def)
  then obtain sg where sg: "cosign mirror_ed25519 (wt_signer example_witness) (sn_text example_note) 9 = Inr sg"
    by (auto simp: cosign_def cosignature_message_def MAX_COSIGNATURE_TIME_def)
  have w: "write_all unary_json nibble_base64 (fmupd (ck_origin example_checkpoint) ?h m) IoOk (example_disk m)
      = (Inr (), example_disk (fmupd (ck_origin example_checkpoint) ?h m))"
    by (simp add: write_all_def example_disk_def)
  have "add_checkpoint (file_store unary_json nibble_base64) poly_hash nibble_base64 mirror_ed25519 example_witness
      (example_request (of_nat (head_size ?l))) 9 (example_disk m)
    = (Inr sg, example_disk (fmupd (ck_origin example_checkpoint) ?h m))"
    by (simp add: add_checkpoint_def add_checkpoint_check_def add_checkpoint_record_def example_admitted file_store_def
        file_latest_def file_compare_and_swap_def e r w x sg)
  then show ?thesis by blast
qed

theorem witness_never_forks_witness:
  "\<exists>x p1 sg1 p2 sg2. (wstep (file_store unary_json nibble_base64) poly_hash nibble_base64 mirror_ed25519)\<^sup>*\<^sup>*
        (run_start example_witness (example_disk fmempty)) x
    \<and> wr_issued x = [(p2, sg2), (p1, sg1)] \<and> pd_origin p1 = pd_origin p2
    \<and> th_size (pd_new p1) \<le> th_size (pd_new p2)
    \<and> cosign mirror_ed25519 (wt_signer (wr_witness x)) (sn_text (pd_note p1)) (pd_now p1) = Inr sg1"
proof -
  let ?o = "ck_origin example_checkpoint" and ?h = "checkpoint_head example_checkpoint"
  let ?S = "file_store unary_json nibble_base64"
  let ?step = "wstep ?S poly_hash nibble_base64 mirror_ed25519"
  define s where "s = run_start example_witness (example_disk fmempty)"
  have s: "wr_store s = example_disk fmempty" "wr_witness s = example_witness" "wr_issued s = []"
    by (simp_all add: s_def run_start_def)
  obtain sg1 where "add_checkpoint ?S poly_hash nibble_base64 mirror_ed25519 example_witness
      (example_request (of_nat (head_size (fmlookup fmempty ?o)))) 9 (example_disk fmempty) = (Inr sg1, example_disk (fmupd ?o ?h fmempty))"
    using example_issued [of fmempty] by (auto simp: fmran'_def)
  then obtain p1 y1 z1 where 1: "?step s y1" "?step y1 z1" "wr_store z1 = example_disk (fmupd ?o ?h fmempty)"
    "wr_witness z1 = example_witness" "wr_issued z1 = [(p1, sg1)]" "pd_origin p1 = ?o"
    using add_checkpoint_steps [of ?S poly_hash nibble_base64 mirror_ed25519 s] s example_admitted by metis
  have "\<forall>h \<in> fmran' (fmupd ?o ?h fmempty). th_size h < 2 ^ 64"
    using fmran_fmupd [of ?o ?h fmempty] by (auto simp: checkpoint_head_def example_checkpoint_def fmran'_def)
  from example_issued [OF this] obtain sg2 where "add_checkpoint ?S poly_hash nibble_base64 mirror_ed25519 example_witness
      (example_request (of_nat (head_size (Some ?h)))) 9 (example_disk (fmupd ?o ?h fmempty))
      = (Inr sg2, example_disk (fmupd ?o ?h (fmupd ?o ?h fmempty)))" by auto
  then obtain p2 y2 z2 where 2: "?step z1 y2" "?step y2 z2" "wr_issued z2 = [(p2, sg2), (p1, sg1)]" "pd_origin p2 = ?o"
    using add_checkpoint_steps [of ?S poly_hash nibble_base64 mirror_ed25519 z1] 1(3-5) example_admitted by metis
  have run: "?step\<^sup>*\<^sup>* (run_start example_witness (example_disk fmempty)) z2"
    using 1(1,2) 2(1,2) unfolding s_def by (meson converse_rtranclp_into_rtranclp rtranclp.rtrancl_refl)
  have eq: "pd_origin p1 = pd_origin p2" and i: "wr_issued z2 = [] @ (p2, sg2) # [(p1, sg1)]" using 1 2 by simp_all
  show ?thesis
    using witness_never_forks [OF unary_json_ok nibble_base64_ok run i _ eq, of sg1] run eq 2(3) by auto
qed

end
