(* ===== verification/Persistence.thy ===== *)
theory Persistence
  imports Wal_Correct Finance
begin

text \<open>
  Snapshot persistence and recovery (\<open>src/src/persistence.rs\<close>): atomic replacement of JSON artifacts,
  checkpoints of the engine alone and of the engine together with its log, loading with the checks
  across files, migration of legacy files, and recovery plans.

  The file system is a map from paths to contents. How the operating system treats one replacement is
  an argument: it may fail before the rename, which leaves every file as it was, or after it, which
  leaves the new contents in place; a crash leaves the files as one of the two does. \<open>serde_json\<close> is a
  codec per artifact, and the identity of files a parameter. Texts of error messages are left out.
\<close>

section \<open>Artifacts\<close>

definition MAX_PERSISTENCE_ARTIFACT_BYTES :: nat where
  "MAX_PERSISTENCE_ARTIFACT_BYTES = 16 * 1024 * 1024"

definition CHECKPOINT_MANIFEST_SCHEMA :: string where
  "CHECKPOINT_MANIFEST_SCHEMA = ''calybris.checkpoint-manifest.v1''"

record checkpoint_manifest =
  cm_schema_version :: string
  cm_snapshot_file :: string
  cm_wal_anchor_file :: string
  cm_snapshot_version :: u64
  cm_ledger_digest_hex :: string
  cm_wal_sequence :: u64
  cm_wal_hash :: string
  cm_wal_keyed :: bool

record coordinated_checkpoint =
  cc_manifest :: checkpoint_manifest
  cc_snapshot :: budget_snapshot
  cc_anchor :: wal_anchor

datatype file_error = FileInvalidInput | FileInvalidData | FileNotFound | FileOther

datatype persistence_error = PersistIo file_error | PersistJson | PersistRestore restore_error

text \<open>\<open>to_writer_pretty\<close> and \<open>from_slice\<close> of one type.\<close>

record 'a json_codec =
  jc_ser :: "'a \<Rightarrow> bytes option"
  jc_de :: "bytes \<Rightarrow> 'a option"

record codecs =
  snapshot_codec :: "budget_snapshot json_codec"
  anchor_codec :: "wal_anchor json_codec"
  manifest_codec :: "checkpoint_manifest json_codec"

type_synonym files = "(string, bytes) fmap"

datatype save_event = SaveOk | PrepareFailed | ReplaceFailed | DirectorySyncFailed

definition save_json_atomic ::
  "'a json_codec \<Rightarrow> save_event \<Rightarrow> 'a \<Rightarrow> string \<Rightarrow> files \<Rightarrow> (persistence_error + unit) \<times> files" where
  "save_json_atomic C ev v loc fs =
     (if ev = PrepareFailed then (Inl (PersistIo FileOther), fs)
      else case jc_ser C v of
        None \<Rightarrow> (Inl PersistJson, fs)
      | Some bs \<Rightarrow>
          if length bs > MAX_PERSISTENCE_ARTIFACT_BYTES then (Inl (PersistIo FileInvalidInput), fs)
          else if ev = ReplaceFailed then (Inl (PersistIo FileOther), fs)
          else (if ev = DirectorySyncFailed then Inl (PersistIo FileOther) else Inr (), fmupd loc bs fs))"

definition load_json_bounded :: "'a json_codec \<Rightarrow> string \<Rightarrow> files \<Rightarrow> persistence_error + 'a" where
  "load_json_bounded C loc fs =
     (case fmlookup fs loc of
        None \<Rightarrow> Inl (PersistIo FileNotFound)
      | Some bs \<Rightarrow>
          if length bs > MAX_PERSISTENCE_ARTIFACT_BYTES then Inl (PersistIo FileInvalidData)
          else ok_or PersistJson (jc_de C bs))"

definition save_snapshot ::
  "codecs \<Rightarrow> save_event \<Rightarrow> budget_snapshot \<Rightarrow> string \<Rightarrow> files \<Rightarrow> (persistence_error + unit) \<times> files" where
  "save_snapshot C = save_json_atomic (snapshot_codec C)"

definition save_wal_anchor ::
  "codecs \<Rightarrow> save_event \<Rightarrow> wal_anchor \<Rightarrow> string \<Rightarrow> files \<Rightarrow> (persistence_error + unit) \<times> files" where
  "save_wal_anchor C = save_json_atomic (anchor_codec C)"

definition load_wal_anchor :: "codecs \<Rightarrow> string \<Rightarrow> files \<Rightarrow> persistence_error + wal_anchor" where
  "load_wal_anchor C = load_json_bounded (anchor_codec C)"

definition load_snapshot :: "codecs \<Rightarrow> string \<Rightarrow> files \<Rightarrow> persistence_error + budget_snapshot" where
  "load_snapshot C = load_json_bounded (snapshot_codec C)"

section \<open>Migration\<close>

text \<open>
  What the operating system says of paths: \<open>canonicalize\<close> and \<open>get_file_id\<close> on existing files, and the
  canonical parent joined with the file name for a path that names no file yet.
\<close>

record path_ids =
  canonical :: "string \<Rightarrow> string"
  file_identity :: "string \<Rightarrow> nat"
  normalized :: "string \<Rightarrow> string option"

definition ensure_distinct_migration_files :: "path_ids \<Rightarrow> string \<Rightarrow> string \<Rightarrow> files \<Rightarrow> persistence_error + unit" where
  "ensure_distinct_migration_files I source destination fs =
     (if fmlookup fs source = None then Inl (PersistIo FileNotFound)
      else if fmlookup fs destination \<noteq> None then
        (if canonical I source = canonical I destination
            \<or> file_identity I (canonical I source) = file_identity I (canonical I destination)
         then Inl (PersistIo FileInvalidData) else Inr ())
      else case normalized I destination of
        None \<Rightarrow> Inl (PersistIo FileInvalidData)
      | Some d \<Rightarrow> if canonical I source = d then Inl (PersistIo FileInvalidData) else Inr ())"

definition migrate_legacy_snapshot_file ::
  "codecs \<Rightarrow> path_ids \<Rightarrow> save_event \<Rightarrow> string \<Rightarrow> string \<Rightarrow> u64 \<Rightarrow> files
    \<Rightarrow> (persistence_error + budget_snapshot) \<times> files" where
  "migrate_legacy_snapshot_file C I ev source destination trusted fs =
     (case and_then (ensure_distinct_migration_files I source destination fs) (\<lambda>_.
           and_then (load_snapshot C source fs) (\<lambda>legacy.
             map_err (\<lambda>_. PersistIo FileInvalidData) (migrate_legacy_snapshot legacy trusted))) of
        Inl e \<Rightarrow> (Inl e, fs)
      | Inr migrated \<Rightarrow>
          (case save_snapshot C ev migrated destination fs of
             (Inl e, fs) \<Rightarrow> (Inl e, fs)
           | (Inr _, fs) \<Rightarrow> (Inr migrated, fs)))"

section \<open>Checkpoints\<close>

text \<open>\<open>try_snapshot\<close> with the watermark set, validated: the common head of the three checkpoint functions.\<close>

definition take_snapshot ::
  "u64 option \<Rightarrow> budget_engine \<Rightarrow> (persistence_error + budget_snapshot) \<times> budget_engine" where
  "take_snapshot watermark e =
     (case try_snapshot e of
        (Inl _, e) \<Rightarrow> (Inl (PersistIo FileInvalidData), e)
      | (Inr s, e) \<Rightarrow>
          let s = s\<lparr> sn_wal_high_watermark := watermark \<rparr>
          in (and_then (map_err PersistRestore (validate_snapshot_for_restore s)) (\<lambda>_. Inr s), e))"

definition save_taken ::
  "codecs \<Rightarrow> save_event \<Rightarrow> string \<Rightarrow> u64 option \<Rightarrow> budget_engine \<Rightarrow> files
    \<Rightarrow> (persistence_error + budget_snapshot) \<times> budget_engine \<times> files" where
  "save_taken C ev loc watermark e fs =
     (case take_snapshot watermark e of
        (Inl err, e) \<Rightarrow> (Inl err, e, fs)
      | (Inr s, e) \<Rightarrow>
          (case save_snapshot C ev s loc fs of
             (Inl err, fs) \<Rightarrow> (Inl err, e, fs)
           | (Inr _, fs) \<Rightarrow> (Inr s, e, fs)))"

definition checkpoint_engine ::
  "codecs \<Rightarrow> save_event \<Rightarrow> string \<Rightarrow> budget_engine \<Rightarrow> files
    \<Rightarrow> (persistence_error + budget_snapshot) \<times> budget_engine \<times> files" where
  "checkpoint_engine C ev loc e fs = save_taken C ev loc None e fs"

definition checkpoint_with_wal ::
  "codecs \<Rightarrow> save_event \<Rightarrow> string \<Rightarrow> u64 \<Rightarrow> budget_engine \<Rightarrow> files
    \<Rightarrow> (persistence_error + budget_snapshot) \<times> budget_engine \<times> files" where
  "checkpoint_with_wal C ev loc sq e fs = save_taken C ev loc (Some sq) e fs"

definition decimal_string :: "nat \<Rightarrow> string" where
  "decimal_string n = map (\<lambda>b. char_of (unat b)) (decimal n)"

definition generation_file :: "string \<Rightarrow> u64 \<Rightarrow> u64 \<Rightarrow> string" where
  "generation_file stem version sq =
     stem @ ''-v'' @ decimal_string (unat version) @ ''-wal-'' @ decimal_string (unat sq) @ ''.json''"

definition join_path :: "string \<Rightarrow> string \<Rightarrow> string" where
  "join_path directory file = directory @ ''/'' @ file"

definition MANIFEST_FILE :: string where
  "MANIFEST_FILE = ''checkpoint-manifest.json''"

definition manifest_of :: "hasher \<Rightarrow> budget_snapshot \<Rightarrow> wal_anchor \<Rightarrow> checkpoint_manifest" where
  "manifest_of H s a =
     \<lparr> cm_schema_version = CHECKPOINT_MANIFEST_SCHEMA,
       cm_snapshot_file = generation_file ''snapshot'' (sn_version s) (wa_sequence a),
       cm_wal_anchor_file = generation_file ''wal-anchor'' (sn_version s) (wa_sequence a),
       cm_snapshot_version = sn_version s,
       cm_ledger_digest_hex = digest_to_hex (ledger_digest H s),
       cm_wal_sequence = wa_sequence a, cm_wal_hash = wa_last_hash a, cm_wal_keyed = wa_keyed a \<rparr>"

text \<open>The outcomes of the steps of a coordinated checkpoint that the operating system decides.\<close>

record checkpoint_events =
  ev_directory :: bool
  ev_wal_sync :: bool
  ev_snapshot :: save_event
  ev_anchor :: save_event
  ev_manifest :: save_event

definition commit_generation ::
  "hasher \<Rightarrow> codecs \<Rightarrow> checkpoint_events \<Rightarrow> string \<Rightarrow> budget_snapshot \<Rightarrow> wal_anchor \<Rightarrow> files
    \<Rightarrow> (persistence_error + coordinated_checkpoint) \<times> files" where
  "commit_generation H C ev directory s a fs =
     (let m = manifest_of H s a in
      case save_snapshot C (ev_snapshot ev) s (join_path directory (cm_snapshot_file m)) fs of
        (Inl err, fs) \<Rightarrow> (Inl err, fs)
      | (Inr _, fs) \<Rightarrow>
          (case save_wal_anchor C (ev_anchor ev) a (join_path directory (cm_wal_anchor_file m)) fs of
             (Inl err, fs) \<Rightarrow> (Inl err, fs)
           | (Inr _, fs) \<Rightarrow>
               (case save_json_atomic (manifest_codec C) (ev_manifest ev) m (join_path directory MANIFEST_FILE) fs of
                  (Inl err, fs) \<Rightarrow> (Inl err, fs)
                | (Inr _, fs) \<Rightarrow> (Inr \<lparr> cc_manifest = m, cc_snapshot = s, cc_anchor = a \<rparr>, fs))))"

definition checkpoint_coordinated ::
  "hasher \<Rightarrow> codecs \<Rightarrow> checkpoint_events \<Rightarrow> string \<Rightarrow> budget_engine \<Rightarrow> wal_writer \<Rightarrow> files
    \<Rightarrow> (persistence_error + coordinated_checkpoint) \<times> budget_engine \<times> wal_writer \<times> files" where
  "checkpoint_coordinated H C ev directory e w fs =
     (if \<not> ev_directory ev then (Inl (PersistIo FileOther), e, w, fs)
      else case wal_sync (ev_wal_sync ev) w of
        (Inl _, w) \<Rightarrow> (Inl (PersistIo FileInvalidData), e, w, fs)
      | (Inr _, w) \<Rightarrow>
          let a = writer_anchor w in
          (case take_snapshot (Some (wa_sequence a)) e of
             (Inl err, e) \<Rightarrow> (Inl err, e, w, fs)
           | (Inr s, e) \<Rightarrow> (let (r, fs) = commit_generation H C ev directory s a fs in (r, e, w, fs))))"

section \<open>Loading\<close>

text \<open>\<open>Path::components\<close> on Unix: a leading \<open>.\<close> is kept, empty and later \<open>.\<close> parts are dropped.\<close>

datatype path_component = RootDir | CurDir | ParentDir | NormalPart string

fun path_parts :: "string \<Rightarrow> string list" where
  "path_parts [] = [[]]"
| "path_parts (c # cs) =
     (if c = CHR ''/'' then [] # path_parts cs
      else case path_parts cs of [] \<Rightarrow> [[c]] | p # ps \<Rightarrow> (c # p) # ps)"

definition part_component :: "string \<Rightarrow> path_component list" where
  "part_component p =
     (if p = [] \<or> p = ''.'' then [] else if p = ''..'' then [ParentDir] else [NormalPart p])"

definition path_components :: "string \<Rightarrow> path_component list" where
  "path_components s =
     (case path_parts s of
        [] \<Rightarrow> []
      | p # ps \<Rightarrow>
          (if s = [] then [] else if p = [] then [RootDir] else if p = ''.'' then [CurDir] else part_component p)
          @ concat (map part_component ps))"

definition validate_generation_filename :: "string \<Rightarrow> persistence_error + unit" where
  "validate_generation_filename file =
     (case path_components file of
        [NormalPart _] \<Rightarrow> Inr ()
      | _ \<Rightarrow> Inl (PersistIo FileInvalidData))"

definition load_coordinated_checkpoint ::
  "hasher \<Rightarrow> codecs \<Rightarrow> string \<Rightarrow> files \<Rightarrow> persistence_error + coordinated_checkpoint" where
  "load_coordinated_checkpoint H C directory fs =
     and_then (load_json_bounded (manifest_codec C) (join_path directory MANIFEST_FILE) fs) (\<lambda>m.
       if cm_schema_version m \<noteq> CHECKPOINT_MANIFEST_SCHEMA then Inl (PersistIo FileInvalidData)
       else
         and_then (validate_generation_filename (cm_snapshot_file m)) (\<lambda>_.
         and_then (validate_generation_filename (cm_wal_anchor_file m)) (\<lambda>_.
         and_then (load_snapshot C (join_path directory (cm_snapshot_file m)) fs) (\<lambda>s.
         and_then (load_wal_anchor C (join_path directory (cm_wal_anchor_file m)) fs) (\<lambda>a.
           if sn_version s \<noteq> cm_snapshot_version m
              \<or> sn_wal_high_watermark s \<noteq> Some (cm_wal_sequence m)
              \<or> digest_to_hex (ledger_digest H s) \<noteq> cm_ledger_digest_hex m
           then Inl (PersistIo FileInvalidData)
           else
             and_then (map_err PersistRestore (validate_snapshot_for_restore s)) (\<lambda>_.
             and_then (map_err (\<lambda>_. PersistIo FileInvalidData)
                 (verify_head a (cm_wal_sequence m) (cm_wal_hash m) (cm_wal_keyed m))) (\<lambda>_.
               Inr \<lparr> cc_manifest = m, cc_snapshot = s, cc_anchor = a \<rparr>)))))))"

definition load_and_verify_coordinated_checkpoint ::
  "hasher \<Rightarrow> (bytes \<Rightarrow> hasher) \<Rightarrow> 'a serde \<Rightarrow> codecs \<Rightarrow> string \<Rightarrow> bytes \<Rightarrow> bytes option \<Rightarrow> files
    \<Rightarrow> persistence_error + coordinated_checkpoint" where
  "load_and_verify_coordinated_checkpoint H M S C directory wal_file key fs =
     and_then (load_coordinated_checkpoint H C directory fs) (\<lambda>g.
       if wa_keyed (cc_anchor g) \<noteq> (key \<noteq> None) then Inl (PersistIo FileInvalidData)
       else and_then (map_err (\<lambda>_. PersistIo FileInvalidData)
           (verify_wal_contains_anchor_inner H M S key (cc_anchor g) wal_file)) (\<lambda>_. Inr g))"

section \<open>Recovery\<close>

definition restore_engine ::
  "codecs \<Rightarrow> string \<Rightarrow> files \<Rightarrow> budget_engine \<Rightarrow> (persistence_error + budget_snapshot) \<times> budget_engine" where
  "restore_engine C loc fs e =
     (case load_snapshot C loc fs of
        Inl err \<Rightarrow> (Inl err, e)
      | Inr s \<Rightarrow>
          (case restore_from_snapshot s e of
             (Inl err, e) \<Rightarrow> (Inl (PersistRestore err), e)
           | (Inr _, e) \<Rightarrow> (Inr s, e)))"

record recovery_plan =
  rp_snapshot :: budget_snapshot
  rp_total_wal_entries :: nat
  rp_entries_to_replay :: nat
  rp_wal_high_watermark :: u64

definition count_entry :: "u64 \<Rightarrow> 'a wal_entry \<Rightarrow> nat \<times> nat \<Rightarrow> nat \<times> nat" where
  "count_entry high entry = (\<lambda>(total, replay).
     (Suc total, if we_sequence entry > high then Suc replay else replay))"

definition recovery_plan_inner ::
  "hasher \<Rightarrow> (bytes \<Rightarrow> hasher) \<Rightarrow> 'a serde \<Rightarrow> codecs \<Rightarrow> string \<Rightarrow> bytes \<Rightarrow> bytes option \<Rightarrow> wal_anchor option \<Rightarrow> files
    \<Rightarrow> persistence_error + recovery_plan" where
  "recovery_plan_inner H M S C snapshot_path wal_file key anchor fs =
     and_then (load_snapshot C snapshot_path fs) (\<lambda>s.
     and_then (map_err PersistRestore (validate_snapshot_for_restore s)) (\<lambda>_.
       let high = (case sn_wal_high_watermark s of None \<Rightarrow> 0 | Some h \<Rightarrow> h);
           (r, (total, replay)) = visit_verified_wal_inner H M S key (count_entry high) wal_file (0, 0)
       in and_then (map_err (\<lambda>_. PersistIo FileOther) r) (\<lambda>(sq, h).
            if high > sq then Inl (PersistIo FileInvalidData)
            else and_then (case anchor of
                None \<Rightarrow> Inr (sq, h)
              | Some a \<Rightarrow> map_err (\<lambda>_. PersistIo FileOther) (verify_head a sq h (key \<noteq> None))) (\<lambda>_.
              Inr \<lparr> rp_snapshot = s, rp_total_wal_entries = total, rp_entries_to_replay = replay,
                    rp_wal_high_watermark = high \<rparr>))))"

text \<open>The four entry points: with or without a key, with or without an anchor.\<close>

definition recovery_plan_plain ::
  "hasher \<Rightarrow> (bytes \<Rightarrow> hasher) \<Rightarrow> 'a serde \<Rightarrow> codecs \<Rightarrow> string \<Rightarrow> bytes \<Rightarrow> files \<Rightarrow> persistence_error + recovery_plan" where
  "recovery_plan_plain H M S C snapshot_path wal_file = recovery_plan_inner H M S C snapshot_path wal_file None None"

definition recovery_plan_keyed ::
  "hasher \<Rightarrow> (bytes \<Rightarrow> hasher) \<Rightarrow> 'a serde \<Rightarrow> codecs \<Rightarrow> string \<Rightarrow> bytes \<Rightarrow> bytes \<Rightarrow> files
    \<Rightarrow> persistence_error + recovery_plan" where
  "recovery_plan_keyed H M S C snapshot_path wal_file key =
     recovery_plan_inner H M S C snapshot_path wal_file (Some key) None"

definition recovery_plan_against_anchor ::
  "hasher \<Rightarrow> (bytes \<Rightarrow> hasher) \<Rightarrow> 'a serde \<Rightarrow> codecs \<Rightarrow> string \<Rightarrow> bytes \<Rightarrow> wal_anchor \<Rightarrow> files
    \<Rightarrow> persistence_error + recovery_plan" where
  "recovery_plan_against_anchor H M S C snapshot_path wal_file a =
     recovery_plan_inner H M S C snapshot_path wal_file None (Some a)"

definition recovery_plan_keyed_against_anchor ::
  "hasher \<Rightarrow> (bytes \<Rightarrow> hasher) \<Rightarrow> 'a serde \<Rightarrow> codecs \<Rightarrow> string \<Rightarrow> bytes \<Rightarrow> bytes \<Rightarrow> wal_anchor \<Rightarrow> files
    \<Rightarrow> persistence_error + recovery_plan" where
  "recovery_plan_keyed_against_anchor H M S C snapshot_path wal_file key a =
     recovery_plan_inner H M S C snapshot_path wal_file (Some key) (Some a)"

end
