(* ===== verification/Persistence_Correct.thy ===== *)
theory Persistence_Correct
  imports Persistence
begin

text \<open>
  What persistence guarantees. A coordinated checkpoint is atomic: however its file operations fail and
  wherever the process dies, recovery finds the last committed generation or the new one, never a
  mixture, and the log on disk contains the anchor of that generation. A recovery plan is
  produced exactly for a restorable snapshot within a verified log, and counts exactly the entries that
  lie beyond the watermark of the snapshot.
\<close>

section \<open>File names\<close>

lemma decimal_string_digits: "c \<in> set (decimal_string n) \<Longrightarrow> 48 \<le> (of_char c :: nat) \<and> (of_char c :: nat) \<le> 57"
proof -
  assume "c \<in> set (decimal_string n)"
  then obtain b where b: "b \<in> set (decimal n)" "c = char_of (unat b)" by (auto simp: decimal_string_def)
  then have "48 \<le> unat b" "unat b \<le> 57" using decimal_digits [of n] by (auto simp: list_all_iff word_le_nat_alt)
  then show ?thesis using b(2) by (simp add: of_char_of)
qed

lemma decimal_string_inject: "decimal_string m = decimal_string n \<Longrightarrow> m = n"
proof -
  assume a: "decimal_string m = decimal_string n"
  have "inj (\<lambda>b :: u8. char_of (unat b) :: char)"
  proof (rule injI)
    fix x y :: u8 assume "(char_of (unat x) :: char) = char_of (unat y)"
    then have "of_char (char_of (unat x) :: char) = (of_char (char_of (unat y) :: char) :: nat)" by simp
    then show "x = y" using unat_lt2p [of x] unat_lt2p [of y] by (simp add: of_char_of unat_eq_iff)
  qed
  then have "decimal m = decimal n" using a by (simp add: decimal_string_def inj_map_eq_map)
  then show "m = n" using decimal_value by metis
qed

lemma stop_inject: "x \<notin> set a \<Longrightarrow> x \<notin> set b \<Longrightarrow> a @ x # r = b @ x # r' \<Longrightarrow> a = b"
proof (induction a arbitrary: b)
  case Nil
  then show ?case by (cases b) auto
next
  case (Cons c a)
  then show ?case by (cases b) auto
qed

lemma generation_file_version:
  assumes "generation_file stem v q = generation_file stem v' q'"
  shows "v = v'"
proof -
  have "CHR ''-'' \<notin> set (decimal_string n)" for n using decimal_string_digits [of "CHR ''-''" n] by auto
  then have "decimal_string (unat v) = decimal_string (unat v')"
    using assms by (auto simp: generation_file_def dest: stop_inject)
  then show ?thesis using decimal_string_inject by (auto simp: unat_eq_iff [symmetric])
qed

lemma generation_file_stems: "generation_file ''snapshot'' v q \<noteq> generation_file ''wal-anchor'' v' q'"
  "generation_file ''snapshot'' v q \<noteq> MANIFEST_FILE" "generation_file ''wal-anchor'' v q \<noteq> MANIFEST_FILE"
  by (simp_all add: generation_file_def MANIFEST_FILE_def)

lemma join_path_inject [simp]: "join_path d x = join_path d y \<longleftrightarrow> x = y"
  by (simp add: join_path_def)

lemma path_parts_plain: "CHR ''/'' \<notin> set s \<Longrightarrow> path_parts s = [s]"
  by (induction s) auto

lemma generation_file_valid:
  assumes "stem \<in> {''snapshot'', ''wal-anchor''}"
  shows "validate_generation_filename (generation_file stem v q) = Inr ()"
proof -
  have d: "CHR ''/'' \<notin> set (decimal_string n)" for n using decimal_string_digits [of "CHR ''/''" n] by auto
  have "CHR ''/'' \<notin> set (generation_file stem v q)" using assms d by (auto simp: generation_file_def)
  then show ?thesis
    using assms by (auto simp: validate_generation_filename_def path_components_def path_parts_plain part_component_def)
      (auto simp: generation_file_def)
qed

section \<open>Saving and loading\<close>

definition codec_ok :: "'a json_codec \<Rightarrow> bool" where
  "codec_ok C \<longleftrightarrow> (\<forall>v bs. jc_ser C v = Some bs \<longrightarrow> jc_de C bs = Some v)"

definition codecs_ok :: "codecs \<Rightarrow> bool" where
  "codecs_ok C \<longleftrightarrow> codec_ok (snapshot_codec C) \<and> codec_ok (anchor_codec C) \<and> codec_ok (manifest_codec C)"

definition saved :: "'a json_codec \<Rightarrow> 'a \<Rightarrow> string \<Rightarrow> files \<Rightarrow> bool" where
  "saved C v loc fs \<longleftrightarrow>
     (\<exists>bs. jc_ser C v = Some bs \<and> length bs \<le> MAX_PERSISTENCE_ARTIFACT_BYTES \<and> fmlookup fs loc = Some bs)"

lemma saved_loads: "codec_ok C \<Longrightarrow> saved C v loc fs \<Longrightarrow> load_json_bounded C loc fs = Inr v"
  by (auto simp: saved_def load_json_bounded_def codec_ok_def)

lemma save_effect:
  assumes "save_json_atomic C ev v loc fs = (r, fs')"
  shows "x \<noteq> loc \<Longrightarrow> fmlookup fs' x = fmlookup fs x" "r = Inr u \<Longrightarrow> saved C v loc fs'"
    "saved C v loc fs' \<or> fs' = fs \<and> (\<exists>e. r = Inl e)"
  using assms by (auto simp: save_json_atomic_def saved_def split: if_split_asm option.split_asm)

lemma saved_cong: "fmlookup fs' loc = fmlookup fs loc \<Longrightarrow> saved C v loc fs' \<longleftrightarrow> saved C v loc fs"
  by (simp add: saved_def)

section \<open>Generations\<close>

definition generation :: "hasher \<Rightarrow> budget_snapshot \<Rightarrow> wal_anchor \<Rightarrow> coordinated_checkpoint" where
  "generation H s a = \<lparr> cc_manifest = manifest_of H s a, cc_snapshot = s, cc_anchor = a \<rparr>"

definition generation_ok :: "budget_snapshot \<Rightarrow> wal_anchor \<Rightarrow> bool" where
  "generation_ok s a \<longleftrightarrow> sn_wal_high_watermark s = Some (wa_sequence a)
     \<and> validate_snapshot_for_restore s = Inr () \<and> wa_schema_version a = WAL_ANCHOR_SCHEMA"

text \<open>The files of a generation are in place, and the manifest names them.\<close>

definition committed :: "hasher \<Rightarrow> codecs \<Rightarrow> string \<Rightarrow> budget_snapshot \<Rightarrow> wal_anchor \<Rightarrow> files \<Rightarrow> bool" where
  "committed H C dir s a fs \<longleftrightarrow> generation_ok s a
     \<and> saved (snapshot_codec C) s (join_path dir (generation_file ''snapshot'' (sn_version s) (wa_sequence a))) fs
     \<and> saved (anchor_codec C) a (join_path dir (generation_file ''wal-anchor'' (sn_version s) (wa_sequence a))) fs
     \<and> saved (manifest_codec C) (manifest_of H s a) (join_path dir MANIFEST_FILE) fs"

lemma committed_loads:
  assumes "codecs_ok C" "committed H C dir s a fs"
  shows "load_coordinated_checkpoint H C dir fs = Inr (generation H s a)"
proof -
  have "verify_head a (wa_sequence a) (wa_last_hash a) (wa_keyed a) = Inr (wa_sequence a, wa_last_hash a)"
    using assms(2) by (simp add: committed_def generation_ok_def verify_head_def validate_metadata_def)
  moreover have "load_json_bounded (manifest_codec C) (join_path dir MANIFEST_FILE) fs = Inr (manifest_of H s a)"
    "load_json_bounded (snapshot_codec C) (join_path dir (generation_file ''snapshot'' (sn_version s) (wa_sequence a))) fs = Inr s"
    "load_json_bounded (anchor_codec C) (join_path dir (generation_file ''wal-anchor'' (sn_version s) (wa_sequence a))) fs = Inr a"
    using assms by (simp_all add: saved_loads committed_def codecs_ok_def)
  ultimately show ?thesis
    using assms(2)
    by (simp add: committed_def load_coordinated_checkpoint_def load_snapshot_def load_wal_anchor_def
        manifest_of_def generation_file_valid generation_ok_def generation_def)
qed

lemma uncommitted_loads:
  "fmlookup fs (join_path dir MANIFEST_FILE) = None \<Longrightarrow> load_coordinated_checkpoint H C dir fs = Inl (PersistIo FileNotFound)"
  by (simp add: load_coordinated_checkpoint_def load_json_bounded_def)

lemma committed_mono:
  assumes "committed H C dir s a fs"
    and "fmlookup fs' (join_path dir (generation_file ''snapshot'' (sn_version s) (wa_sequence a)))
      = fmlookup fs (join_path dir (generation_file ''snapshot'' (sn_version s) (wa_sequence a)))"
    and "fmlookup fs' (join_path dir (generation_file ''wal-anchor'' (sn_version s) (wa_sequence a)))
      = fmlookup fs (join_path dir (generation_file ''wal-anchor'' (sn_version s) (wa_sequence a)))"
    and "fmlookup fs' (join_path dir MANIFEST_FILE) = fmlookup fs (join_path dir MANIFEST_FILE)"
  shows "committed H C dir s a fs'"
  using assms by (simp add: committed_def saved_def)

text \<open>
  Committing a generation leaves every file but its own three as it was, and touches the manifest only
  when the other two are in place.
\<close>

lemma commit_generation_effect:
  assumes "commit_generation H C ev dir s a fs = (r, fs')" "generation_ok s a"
  shows "(\<forall>n. n \<notin> {generation_file ''snapshot'' (sn_version s) (wa_sequence a),
            generation_file ''wal-anchor'' (sn_version s) (wa_sequence a), MANIFEST_FILE}
          \<longrightarrow> fmlookup fs' (join_path dir n) = fmlookup fs (join_path dir n))
    \<and> (committed H C dir s a fs' \<and> (\<forall>g. r = Inr g \<longrightarrow> g = generation H s a)
       \<or> fmlookup fs' (join_path dir MANIFEST_FILE) = fmlookup fs (join_path dir MANIFEST_FILE) \<and> (\<exists>e. r = Inl e))"
proof -
  let ?sn = "join_path dir (generation_file ''snapshot'' (sn_version s) (wa_sequence a))"
  let ?an = "join_path dir (generation_file ''wal-anchor'' (sn_version s) (wa_sequence a))"
  let ?mn = "join_path dir MANIFEST_FILE"
  obtain r1 fs1 where 1: "save_json_atomic (snapshot_codec C) (ev_snapshot ev) s ?sn fs = (r1, fs1)" by fastforce
  obtain r2 fs2 where 2: "save_json_atomic (anchor_codec C) (ev_anchor ev) a ?an fs1 = (r2, fs2)" by fastforce
  obtain r3 fs3 where 3: "save_json_atomic (manifest_codec C) (ev_manifest ev) (manifest_of H s a) ?mn fs2 = (r3, fs3)"
    by fastforce
  note e1 = save_effect [OF 1] and e2 = save_effect [OF 2] and e3 = save_effect [OF 3]
  have ne: "?sn \<noteq> ?an" "?sn \<noteq> ?mn" "?an \<noteq> ?mn"
    using generation_file_stems [of "sn_version s" "wa_sequence a"] by simp_all
  have eq: "commit_generation H C ev dir s a fs =
      (case r1 of Inl e \<Rightarrow> (Inl e, fs1) | Inr _ \<Rightarrow> case r2 of Inl e \<Rightarrow> (Inl e, fs2) | Inr _ \<Rightarrow>
         (case r3 of Inl e \<Rightarrow> Inl e | Inr _ \<Rightarrow> Inr (generation H s a), fs3))"
    using 1 2 3
    by (cases r1; cases r2; cases r3)
      (simp_all add: commit_generation_def Let_def save_snapshot_def save_wal_anchor_def manifest_of_def generation_def)
  show ?thesis
  proof (cases r1)
    case (Inl e)
    then have "r = Inl e" "fs' = fs1" using assms(1) eq by simp_all
    then show ?thesis using e1(1) ne by simp
  next
    case r1: (Inr u)
    show ?thesis
    proof (cases r2)
      case (Inl e)
      then have "r = Inl e" "fs' = fs2" using assms(1) eq r1 by simp_all
      then show ?thesis using e1(1) e2(1) ne by simp
    next
      case r2: (Inr u')
      then have r: "r = (case r3 of Inl e \<Rightarrow> Inl e | Inr _ \<Rightarrow> Inr (generation H s a))" "fs' = fs3"
        using assms(1) eq r1 by simp_all
      have frame: "x \<noteq> ?sn \<Longrightarrow> x \<noteq> ?an \<Longrightarrow> x \<noteq> ?mn \<Longrightarrow> fmlookup fs3 x = fmlookup fs x" for x
        using e1(1) e2(1) e3(1) by simp
      have "saved (snapshot_codec C) s ?sn fs3" "saved (anchor_codec C) a ?an fs3"
        using e1(2) [OF r1] e2(2) [OF r2] e2(1) [OF ne(1)] e3(1) [OF ne(2)] e3(1) [OF ne(3)] by (simp_all add: saved_def)
      then have "committed H C dir s a fs3" if "saved (manifest_codec C) (manifest_of H s a) ?mn fs3"
        using that assms(2) by (simp add: committed_def)
      moreover have "fmlookup fs3 ?mn = fmlookup fs ?mn" if "fs3 = fs2"
        using that e1(1) e2(1) ne by metis
      moreover have "g = generation H s a" if "r = Inr g" for g using that r by (cases r3) simp_all
      ultimately show ?thesis using e3(3) frame r by auto
    qed
  qed
qed

section \<open>A service\<close>

text \<open>
  An engine and its log, checkpointed into one directory: ledger operations and appends, checkpoints
  whose file operations fail at will, and crashes followed by recovery from the last committed
  generation and the log on disk.
\<close>

datatype 'a service_op = SBudget budget_op | SAppend 'a | SCheckpoint checkpoint_events | SRecover

record service =
  sv_engine :: budget_engine
  sv_wal :: wal_writer
  sv_files :: files

fun service_step ::
  "hasher \<Rightarrow> (bytes \<Rightarrow> hasher) \<Rightarrow> 'a serde \<Rightarrow> codecs \<Rightarrow> string \<Rightarrow> 'a service_op \<Rightarrow> service \<Rightarrow> service" where
  "service_step H M S C dir (SBudget op) v = v\<lparr> sv_engine := snd (exec_op op (sv_engine v)) \<rparr>"
| "service_step H M S C dir (SAppend d) v = v\<lparr> sv_wal := snd (wal_append H M S None d (sv_wal v)) \<rparr>"
| "service_step H M S C dir (SCheckpoint ev) v =
     (case checkpoint_coordinated H C ev dir (sv_engine v) (sv_wal v) (sv_files v) of
        (_, e, w, fs) \<Rightarrow> \<lparr> sv_engine = e, sv_wal = w, sv_files = fs \<rparr>)"
| "service_step H M S C dir SRecover v =
     v\<lparr> sv_engine := (case load_coordinated_checkpoint H C dir (sv_files v) of
            Inr g \<Rightarrow> snd (restore_from_snapshot (cc_snapshot g) new_engine)
          | Inl _ \<Rightarrow> new_engine),
        sv_wal := (case open_inner H M S (w_hmac_key (sv_wal v)) (w_file (sv_wal v)) of Inr w \<Rightarrow> w | Inl _ \<Rightarrow> sv_wal v) \<rparr>"

fun restores :: "'a service_op \<Rightarrow> bool" where
  "restores (SBudget op) = is_restore op"
| "restores _ = False"

definition service_start :: "bytes option \<Rightarrow> service" where
  "service_start key =
     \<lparr> sv_engine = new_engine,
       sv_wal = \<lparr> w_file = [], w_sequence = 0, w_last_hash = ''genesis'', w_hmac_key = key, w_poisoned = False \<rparr>,
       sv_files = fmempty \<rparr>"

text \<open>The log held by a writer, poisoned or not.\<close>

abbreviation log_holds ::
  "hasher \<Rightarrow> (bytes \<Rightarrow> hasher) \<Rightarrow> 'a serde \<Rightarrow> wal_writer \<Rightarrow> bytes wal_entry list \<Rightarrow> 'a wal_entry list \<Rightarrow> bool" where
  "log_holds H M S w \<equiv> writer_holds H M S (w\<lparr> w_poisoned := False \<rparr>)"

text \<open>An anchor taken when the log was a prefix of what it is now.\<close>

definition anchored ::
  "hasher \<Rightarrow> (bytes \<Rightarrow> hasher) \<Rightarrow> 'a serde \<Rightarrow> bytes option \<Rightarrow> wal_anchor \<Rightarrow> bytes wal_entry list \<Rightarrow> bool" where
  "anchored H M S key a es \<longleftrightarrow>
     (\<exists>w0 es0 fs0 ts0. es = es0 @ fs0 \<and> writer_holds H M S w0 es0 ts0 \<and> w_hmac_key w0 = key \<and> a = writer_anchor w0)"

lemma anchored_append: "anchored H M S key a es \<Longrightarrow> anchored H M S key a (es @ fs)"
  unfolding anchored_def by (metis append.assoc)

definition older_version :: "budget_snapshot \<Rightarrow> budget_engine \<Rightarrow> bool" where
  "older_version s e \<longleftrightarrow> (\<exists>m. sn_version s = RECOVERY_SNAPSHOT_TAG OR m \<and> unat m \<le> unat (next_id e))"

definition service_inv ::
  "hasher \<Rightarrow> (bytes \<Rightarrow> hasher) \<Rightarrow> 'a serde \<Rightarrow> codecs \<Rightarrow> string \<Rightarrow> bytes option \<Rightarrow> nat \<Rightarrow> service \<Rightarrow> bool" where
  "service_inv H M S C dir key n v \<longleftrightarrow> engine_inv (sv_engine v) \<and> w_hmac_key (sv_wal v) = key
     \<and> (\<exists>es ts. log_holds H M S (sv_wal v) es ts \<and> length es \<le> n
          \<and> (fmlookup (sv_files v) (join_path dir MANIFEST_FILE) = None
             \<or> (\<exists>s a. committed H C dir s a (sv_files v) \<and> older_version s (sv_engine v) \<and> anchored H M S key a es)))"

lemma service_invE:
  assumes "service_inv H M S C dir key n v"
  obtains es ts where "engine_inv (sv_engine v)" "w_hmac_key (sv_wal v) = key" "log_holds H M S (sv_wal v) es ts"
    "length es \<le> n" "fmlookup (sv_files v) (join_path dir MANIFEST_FILE) = None
      \<or> (\<exists>s a. committed H C dir s a (sv_files v) \<and> older_version s (sv_engine v) \<and> anchored H M S key a es)"
  using assms unfolding service_inv_def by blast

lemma next_id_mono:
  assumes inv: "engine_inv e" and "\<not> is_restore op"
  shows "unat (next_id e) \<le> unat (next_id (snd (exec_op op e)))"
proof (cases op)
  case (Reserve t v)
  show ?thesis
  proof (cases "0 < sint v")
    case pos: True
    show ?thesis
    proof (cases rule: engine_inv_cases [OF inv, of t])
      case 1
      then show ?thesis using Reserve pos by (simp add: try_reserve_def tenant_absent_def)
    next
      case (2 a b c d)
      then show ?thesis
        using Reserve engine_inv_ids(1) [OF inv] by (auto simp: try_reserve_ok [OF inv 2 pos])
    qed
  qed (use Reserve in \<open>simp add: try_reserve_def\<close>)
next
  case Snapshot
  then show ?thesis
    using engine_inv_ids(1) [OF inv] by (auto simp: try_snapshot_def allocate_id_def next_id_less_mask Let_def)
qed (use assms settle_effect(1,2) [OF inv] in \<open>auto simp: try_ensure_tenant_def top_up_tenant_def
    try_set_max_reserved_microcents_def rotate_certificate_baseline_def split: option.splits sum.splits\<close>)

lemma append_keeps:
  assumes "serde_ok S" "log_holds H M S w es ts" "Suc (length es) < 2 ^ 64"
  shows "\<exists>fs us. log_holds H M S (snd (wal_append H M S None d w)) (es @ fs) us \<and> length fs \<le> 1
    \<and> w_hmac_key (snd (wal_append H M S None d w)) = w_hmac_key w"
proof -
  have same: ?thesis if "snd (wal_append H M S None d w) = w"
    using that assms(2) by (intro exI [of _ "[]"] exI [of _ ts]) simp
  show ?thesis
  proof (cases "w_poisoned w")
    case True
    then show ?thesis by (intro same) (simp add: wal_append_def)
  next
    case False
    then have w: "w\<lparr> w_poisoned := False \<rparr> = w" by (intro wal_writer.equality) simp_all
    show ?thesis
    proof (cases "storable S d")
      case True
      then obtain j where "ser S d = Some j" "length j \<le> MAX_WAL_PAYLOAD_BYTES" by (auto simp: storable_def)
      from append_holds [OF assms(1) assms(2) [unfolded w] this assms(3)]
      obtain e t w' where a: "wal_append H M S None d w = (Inr t, w')" "writer_holds H M S w' (es @ [e]) (ts @ [t])"
        "w_hmac_key w' = w_hmac_key w" by blast
      then have "w'\<lparr> w_poisoned := False \<rparr> = w'" by (intro wal_writer.equality) (simp_all add: writer_holds_def)
      then show ?thesis using a by (intro exI [of _ "[e]"] exI [of _ "ts @ [t]"]) simp
    next
      case f: False
      then show ?thesis
        using False by (intro same) (auto simp: wal_append_def limited_ser_def storable_def split: option.splits)
    qed
  qed
qed

lemma take_snapshot_Inr:
  assumes "engine_inv e" "take_snapshot h e = (Inr s, e')"
  shows "sn_version s = RECOVERY_SNAPSHOT_TAG OR (next_id e + 1)" "next_id e' = next_id e + 1"
    "unat (next_id e + 1) = Suc (unat (next_id e))" "sn_wal_high_watermark s = h" "validate_snapshot_for_restore s = Inr ()"
    "Suc (unat (next_id e)) < 2 ^ 63"
proof -
  obtain s0 where s0: "try_snapshot e = (Inr s0, e')" "s = s0\<lparr> sn_wal_high_watermark := h \<rparr>"
    "validate_snapshot_for_restore s = Inr ()"
    using assms(2) by (auto simp: take_snapshot_def Let_def split: prod.split_asm sum.split_asm)
  then have t: "sn_version s0 = RECOVERY_SNAPSHOT_TAG OR (next_id e + 1)" "next_id e' = next_id e + 1" "unat (next_id e) < 2 ^ 63 - 1"
    by (auto simp: try_snapshot_def allocate_id_def next_id_less_mask Let_def split: if_split_asm)
  then show "sn_version s = RECOVERY_SNAPSHOT_TAG OR (next_id e + 1)" "next_id e' = next_id e + 1"
    "unat (next_id e + 1) = Suc (unat (next_id e))" "sn_wal_high_watermark s = h" "validate_snapshot_for_restore s = Inr ()"
    "Suc (unat (next_id e)) < 2 ^ 63"
    using s0 engine_inv_ids(1) [OF assms(1)] by simp_all
qed

lemma take_snapshot_engine: "snd (take_snapshot h e) = snd (try_snapshot e)"
  by (simp add: take_snapshot_def Let_def split: prod.split sum.split)

lemma older_distinct:
  assumes "older_version s e" "engine_inv e" "sn_version s' = RECOVERY_SNAPSHOT_TAG OR (next_id e + 1)"
    "unat (next_id e + 1) = Suc (unat (next_id e))" "Suc (unat (next_id e)) < 2 ^ 63"
  shows "sn_version s \<noteq> sn_version s'"
proof
  assume eq: "sn_version s = sn_version s'"
  obtain m where m: "sn_version s = RECOVERY_SNAPSHOT_TAG OR m" "unat m \<le> unat (next_id e)"
    using assms(1) by (auto simp: older_version_def)
  have "unat m < 2 ^ 63" "unat (next_id e + 1) < 2 ^ 63" using m(2) assms(4,5) by simp_all
  then have "m = next_id e + 1" using tag_or(1) [of m] tag_or(1) [of "next_id e + 1"] m(1) eq assms(3) by metis
  then show False using m(2) assms(4) by simp
qed

lemma older_mono: "older_version s e \<Longrightarrow> unat (next_id e) \<le> unat (next_id e') \<Longrightarrow> older_version s e'"
  unfolding older_version_def using le_trans by blast

lemma service_inv_weaken:
  assumes "service_inv H M S C dir key n v" "engine_inv e'" "unat (next_id (sv_engine v)) \<le> unat (next_id e')"
    and "w'\<lparr> w_poisoned := False \<rparr> = (sv_wal v)\<lparr> w_poisoned := False \<rparr>"
    and "fmlookup fs' (join_path dir MANIFEST_FILE) = fmlookup (sv_files v) (join_path dir MANIFEST_FILE)"
    and "\<And>s a. committed H C dir s a (sv_files v) \<Longrightarrow> older_version s (sv_engine v) \<Longrightarrow> committed H C dir s a fs'"
  shows "service_inv H M S C dir key n \<lparr> sv_engine = e', sv_wal = w', sv_files = fs' \<rparr>"
proof -
  obtain es ts where v: "w_hmac_key (sv_wal v) = key" "log_holds H M S (sv_wal v) es ts"
    "length es \<le> n" "fmlookup (sv_files v) (join_path dir MANIFEST_FILE) = None
      \<or> (\<exists>s a. committed H C dir s a (sv_files v) \<and> older_version s (sv_engine v) \<and> anchored H M S key a es)"
    using service_invE [OF assms(1)] by metis
  have "w_hmac_key w' = key" using assms(4) v(1) by (metis wal_writer.select_convs(4) wal_writer.surjective wal_writer.update_convs(5))
  moreover have "log_holds H M S w' es ts" using v(2) assms(4) by simp
  moreover have "fmlookup fs' (join_path dir MANIFEST_FILE) = None
      \<or> (\<exists>s a. committed H C dir s a fs' \<and> older_version s e' \<and> anchored H M S key a es)"
    using v(4) assms(5,6) older_mono [OF _ assms(3)] by metis
  ultimately show ?thesis using assms(2) v(3) unfolding service_inv_def by auto
qed

lemma wal_sync_effect:
  assumes "wal_sync ok w = (r, w')"
  shows "w'\<lparr> w_poisoned := False \<rparr> = w\<lparr> w_poisoned := False \<rparr>" "w_file w' = w_file w" "r = Inr u \<Longrightarrow> w' = w \<and> \<not> w_poisoned w"
  using assms by (auto simp: wal_sync_def split: if_split_asm)

text \<open>
  One checkpoint: it leaves the log as it is, and the directory holds the generation it held or the new one.
\<close>

lemma checkpoint_effect:
  assumes inv: "service_inv H M S C dir key n v"
    and c: "checkpoint_coordinated H C ev dir (sv_engine v) (sv_wal v) (sv_files v) = (r, e', w', fs')"
  shows "service_inv H M S C dir key n \<lparr> sv_engine = e', sv_wal = w', sv_files = fs' \<rparr>
    \<and> w_file w' = w_file (sv_wal v)
    \<and> ((\<exists>s. fst (take_snapshot (Some (w_sequence (sv_wal v))) (sv_engine v)) = Inr s
        \<and> committed H C dir s (writer_anchor (sv_wal v)) fs' \<and> (\<forall>g. r = Inr g \<longrightarrow> g = generation H s (writer_anchor (sv_wal v))))
     \<or> (\<exists>x. r = Inl x) \<and> (\<forall>s a. committed H C dir s a (sv_files v) \<and> older_version s (sv_engine v) \<longrightarrow> committed H C dir s a fs')
       \<and> fmlookup fs' (join_path dir MANIFEST_FILE) = fmlookup (sv_files v) (join_path dir MANIFEST_FILE))"
proof -
  let ?e = "sv_engine v" and ?w = "sv_wal v" and ?fs = "sv_files v"
  have e: "engine_inv ?e" using service_invE [OF inv] by blast
  have keep: "service_inv H M S C dir key n \<lparr> sv_engine = x, sv_wal = y, sv_files = ?fs \<rparr>"
    if "engine_inv x" "unat (next_id ?e) \<le> unat (next_id x)" "y\<lparr> w_poisoned := False \<rparr> = ?w\<lparr> w_poisoned := False \<rparr>" for x y
    using service_inv_weaken [OF inv that] by simp
  obtain q y where y: "wal_sync (ev_wal_sync ev) ?w = (q, y)" by fastforce
  note ys = wal_sync_effect [OF y]
  obtain t x where x: "take_snapshot (Some (w_sequence ?w)) ?e = (t, x)" by fastforce
  have xe: "engine_inv x" "unat (next_id ?e) \<le> unat (next_id x)"
    using take_snapshot_engine [of "Some (w_sequence ?w)" ?e] x try_snapshot_inv [OF e] next_id_mono [OF e, of Snapshot] by simp_all
  consider (dir) "\<not> ev_directory ev" | (sync) err where "ev_directory ev" "q = Inl err"
    | (snap) err where "ev_directory ev" "q = Inr ()" "t = Inl err" | (go) s where "ev_directory ev" "q = Inr ()" "t = Inr s"
    by (cases q; cases t) auto
  then show ?thesis
  proof cases
    case dir
    then have "e' = ?e" "w' = ?w" "fs' = ?fs" "\<exists>x. r = Inl x" using c by (auto simp: checkpoint_coordinated_def)
    then show ?thesis using keep [of ?e ?w] e by simp
  next
    case sync
    then have "e' = ?e" "w' = y" "fs' = ?fs" "\<exists>x. r = Inl x" using c y by (auto simp: checkpoint_coordinated_def)
    then show ?thesis using keep [of ?e y] e ys by simp
  next
    case snap
    then have w: "y = ?w" using ys(3) by blast
    then have "e' = x" "w' = ?w" "fs' = ?fs" "\<exists>x. r = Inl x"
      using c y x snap by (auto simp: checkpoint_coordinated_def writer_anchor_def Let_def)
    then show ?thesis using keep [of x ?w] xe by simp
  next
    case (go s)
    then have w: "y = ?w" "\<not> w_poisoned ?w" using ys(3) by blast+
    let ?a = "writer_anchor ?w"
    have g: "commit_generation H C ev dir s ?a ?fs = (r, fs')" "e' = x" "w' = ?w"
      using c y x go w by (auto simp: checkpoint_coordinated_def writer_anchor_def Let_def split: prod.split_asm)
    note t = take_snapshot_Inr [OF e, of "Some (w_sequence ?w)" s x, unfolded x go(3), OF HOL.refl]
    have "generation_ok s ?a" using t by (simp add: generation_ok_def writer_anchor_def)
    note eff = commit_generation_effect [OF g(1) this]
    show ?thesis
    proof (cases "committed H C dir s ?a fs' \<and> (\<forall>g. r = Inr g \<longrightarrow> g = generation H s ?a)")
      case True
      have "older_version s x" using t(1,2) by (auto simp: older_version_def)
      obtain es ts where v: "w_hmac_key ?w = key" "log_holds H M S ?w es ts" "length es \<le> n"
        using service_invE [OF inv] by metis
      have "?w\<lparr> w_poisoned := False \<rparr> = ?w" using w(2) by (intro wal_writer.equality) simp_all
      then have "anchored H M S key ?a es" using v unfolding anchored_def by (metis append_Nil2)
      then have "service_inv H M S C dir key n \<lparr> sv_engine = e', sv_wal = w', sv_files = fs' \<rparr>"
        using v True \<open>older_version s x\<close> xe g unfolding service_inv_def by auto
      then show ?thesis using True g x go by auto
    next
      case False
      then have r: "\<exists>x. r = Inl x" "fmlookup fs' (join_path dir MANIFEST_FILE) = fmlookup ?fs (join_path dir MANIFEST_FILE)"
        using eff by blast+
      have old: "committed H C dir s' a' fs'" if k: "committed H C dir s' a' ?fs" "older_version s' ?e" for s' a'
      proof -
        have "sn_version s' \<noteq> sn_version s" using older_distinct [OF k(2) e t(1,3,6)] .
        then have "generation_file st (sn_version s') q \<noteq> generation_file st (sn_version s) q'" for st q q'
          using generation_file_version by blast
        then have "generation_file ''snapshot'' (sn_version s') q \<notin> {generation_file ''snapshot'' (sn_version s) (wa_sequence ?a),
              generation_file ''wal-anchor'' (sn_version s) (wa_sequence ?a), MANIFEST_FILE}"
            "generation_file ''wal-anchor'' (sn_version s') q \<notin> {generation_file ''snapshot'' (sn_version s) (wa_sequence ?a),
              generation_file ''wal-anchor'' (sn_version s) (wa_sequence ?a), MANIFEST_FILE}" for q
          using generation_file_stems generation_file_stems(1) [symmetric] by simp_all
        then show ?thesis using eff by (intro committed_mono [OF k(1)] r(2)) blast+
      qed
      then show ?thesis using r g xe service_inv_weaken [OF inv xe _ r(2) old, of ?w] by auto
    qed
  qed
qed

definition run_service ::
  "hasher \<Rightarrow> (bytes \<Rightarrow> hasher) \<Rightarrow> 'a serde \<Rightarrow> codecs \<Rightarrow> string \<Rightarrow> 'a service_op list \<Rightarrow> service \<Rightarrow> service" where
  "run_service H M S C dir ops v = fold (service_step H M S C dir) ops v"

lemma service_inv_mono: "service_inv H M S C dir key n v \<Longrightarrow> n \<le> n' \<Longrightarrow> service_inv H M S C dir key n' v"
  unfolding service_inv_def using le_trans by blast

lemma committed_restores:
  assumes "committed H C dir s a fs" "older_version s e" "engine_inv e"
  shows "fst (restore_from_snapshot s new_engine) = Inr ()" "engine_inv (snd (restore_from_snapshot s new_engine))"
    "older_version s (snd (restore_from_snapshot s new_engine))"
proof -
  have v: "validate_snapshot_for_restore s = Inr ()" using assms(1) by (simp add: committed_def generation_ok_def)
  then obtain x where "allocator_from_snapshot_version (sn_version s) = Inr x" by (auto simp: validate_snapshot_for_restore_def)
  with v show ok: "fst (restore_from_snapshot s new_engine) = Inr ()" by (simp add: restore_from_snapshot_def Let_def)
  show "engine_inv (snd (restore_from_snapshot s new_engine))" by (rule restore_inv [OF engine_inv_new])
  obtain m where m: "sn_version s = RECOVERY_SNAPSHOT_TAG OR m" "unat m \<le> unat (next_id e)"
    using assms(2) by (auto simp: older_version_def)
  then have "unat m < 2 ^ 63" using assms(3) by (simp add: engine_inv_def)
  then have "next_id (snd (restore_from_snapshot s new_engine)) = m" using restore_state(7) [OF ok] tag_or(1) m(1) by simp
  with m(1) show "older_version s (snd (restore_from_snapshot s new_engine))" by (auto simp: older_version_def)
qed

lemma recover_inv:
  assumes "codecs_ok C" "service_inv H M S C dir key n v" "Suc n < 2 ^ 64"
  shows "service_inv H M S C dir key n (service_step H M S C dir SRecover v)"
proof -
  obtain es ts where v: "engine_inv (sv_engine v)" "w_hmac_key (sv_wal v) = key" "log_holds H M S (sv_wal v) es ts"
    "length es \<le> n" and m: "fmlookup (sv_files v) (join_path dir MANIFEST_FILE) = None
      \<or> (\<exists>s a. committed H C dir s a (sv_files v) \<and> older_version s (sv_engine v) \<and> anchored H M S key a es)"
    using service_invE [OF assms(2)] by metis
  have "open_inner H M S (w_hmac_key (sv_wal v)) (w_file (sv_wal v)) = Inr ((sv_wal v)\<lparr> w_poisoned := False \<rparr>)"
    using holds_reopens [OF v(3)] v(4) assms(3) by simp
  then have step: "service_step H M S C dir SRecover v = \<lparr> sv_engine = (case load_coordinated_checkpoint H C dir (sv_files v) of
            Inr g \<Rightarrow> snd (restore_from_snapshot (cc_snapshot g) new_engine) | Inl _ \<Rightarrow> new_engine),
        sv_wal = (sv_wal v)\<lparr> w_poisoned := False \<rparr>, sv_files = sv_files v \<rparr>"
    by (intro service.equality) simp_all
  from m show ?thesis
  proof (elim disjE exE conjE)
    assume none: "fmlookup (sv_files v) (join_path dir MANIFEST_FILE) = None"
    then show ?thesis
      using v engine_inv_new uncommitted_loads [OF none] unfolding step service_inv_def by auto
  next
    fix s a assume c: "committed H C dir s a (sv_files v)" "older_version s (sv_engine v)" "anchored H M S key a es"
    then show ?thesis
      using v committed_restores [OF c(1,2) v(1)] committed_loads [OF assms(1) c(1)]
      unfolding step service_inv_def by (auto simp: generation_def)
  qed
qed

lemma service_step_inv:
  assumes "serde_ok S" "codecs_ok C" "service_inv H M S C dir key n v" "Suc n < 2 ^ 64" "\<not> restores op"
  shows "service_inv H M S C dir key (Suc n) (service_step H M S C dir op v)"
proof (cases op)
  case (SBudget b)
  then have step: "service_step H M S C dir op v = \<lparr> sv_engine = snd (exec_op b (sv_engine v)), sv_wal = sv_wal v, sv_files = sv_files v \<rparr>"
    by (intro service.equality) simp_all
  have "engine_inv (sv_engine v)" using service_invE [OF assms(3)] by blast
  then have "service_inv H M S C dir key n \<lparr> sv_engine = snd (exec_op b (sv_engine v)), sv_wal = sv_wal v, sv_files = sv_files v \<rparr>"
    using SBudget assms(5) by (intro service_inv_weaken [OF assms(3)] exec_op_inv next_id_mono) simp_all
  then show ?thesis unfolding step by (rule service_inv_mono) simp
next
  case (SAppend d)
  obtain es ts where v: "engine_inv (sv_engine v)" "w_hmac_key (sv_wal v) = key" "log_holds H M S (sv_wal v) es ts"
    "length es \<le> n" and m: "fmlookup (sv_files v) (join_path dir MANIFEST_FILE) = None
      \<or> (\<exists>s a. committed H C dir s a (sv_files v) \<and> older_version s (sv_engine v) \<and> anchored H M S key a es)"
    using service_invE [OF assms(3)] by metis
  have "Suc (length es) < 2 ^ 64" using v(4) assms(4) by simp
  from append_keeps [OF assms(1) v(3) this] obtain fs us where
    "log_holds H M S (snd (wal_append H M S None d (sv_wal v))) (es @ fs) us" "length fs \<le> 1"
    "w_hmac_key (snd (wal_append H M S None d (sv_wal v))) = w_hmac_key (sv_wal v)" by blast
  moreover have "length (es @ fs) \<le> Suc n" using v(4) \<open>length fs \<le> 1\<close> by simp
  ultimately show ?thesis
    using SAppend v(1,2) m anchored_append [of H M S key _ es fs] unfolding service_inv_def by (simp; metis)
next
  case (SCheckpoint ev)
  obtain r e' w' fs' where c: "checkpoint_coordinated H C ev dir (sv_engine v) (sv_wal v) (sv_files v) = (r, e', w', fs')"
    by (cases "checkpoint_coordinated H C ev dir (sv_engine v) (sv_wal v) (sv_files v)") auto
  then have "service_inv H M S C dir key (Suc n) \<lparr> sv_engine = e', sv_wal = w', sv_files = fs' \<rparr>"
    using checkpoint_effect [OF assms(3) c] service_inv_mono by (metis le_SucI order_refl)
  then show ?thesis using SCheckpoint c by simp
next
  case SRecover
  then show ?thesis using recover_inv [OF assms(2-4)] service_inv_mono by fastforce
qed

lemma service_run_inv:
  assumes "serde_ok S" "codecs_ok C" "service_inv H M S C dir key n v" "Suc (n + length ops) < 2 ^ 64"
    "list_all (\<lambda>op. \<not> restores op) ops"
  shows "service_inv H M S C dir key (n + length ops) (run_service H M S C dir ops v)"
  using assms(3-)
proof (induction ops arbitrary: n v)
  case (Cons op ops)
  then show ?case using Cons.IH [of "Suc n"] service_step_inv [OF assms(1,2), of H M dir key n v op] by (simp add: run_service_def)
qed (simp add: run_service_def)

lemma service_start_inv: "validate_key key = Inr () \<Longrightarrow> service_inv H M S C dir key 0 (service_start key)"
  by (simp add: service_inv_def service_start_def engine_inv_new writer_holds_def ends_line_def)

text \<open>
  C7. A checkpoint is atomic against failures and crashes. After any history of ledger operations,
  appends, checkpoints that fail anywhere and crashes with recovery, take one more coordinated
  checkpoint, and let any of its steps fail, the rename included. What recovery then loads is either
  exactly what it would have loaded before or exactly the new generation, the snapshot of the ledger
  with the anchor of the log at this moment; it is the new one if the call reported success; it never
  becomes unreadable; the log on disk contains its anchor; and its snapshot restores.
\<close>

theorem checkpoint_atomic:
  assumes "serde_ok S" "codecs_ok C" "validate_key key = Inr ()"
    and "list_all (\<lambda>op. \<not> restores op) ops" "Suc (length ops) < 2 ^ 64"
    and v: "v = run_service H M S C dir ops (service_start key)"
    and c: "checkpoint_coordinated H C ev dir (sv_engine v) (sv_wal v) (sv_files v) = (r, e', w', fs')"
  shows "(load_coordinated_checkpoint H C dir fs' = load_coordinated_checkpoint H C dir (sv_files v)
       \<or> (\<exists>s. fst (take_snapshot (Some (w_sequence (sv_wal v))) (sv_engine v)) = Inr s
            \<and> load_coordinated_checkpoint H C dir fs' = Inr (generation H s (writer_anchor (sv_wal v)))))
    \<and> (\<forall>g. r = Inr g \<longrightarrow> load_coordinated_checkpoint H C dir fs' = Inr g)
    \<and> (load_coordinated_checkpoint H C dir fs' = Inl (PersistIo FileNotFound)
       \<or> (\<exists>g. load_and_verify_coordinated_checkpoint H M S C dir (w_file w') key fs' = Inr g
            \<and> load_coordinated_checkpoint H C dir fs' = Inr g
            \<and> fst (restore_from_snapshot (cc_snapshot g) new_engine) = Inr ()))"
proof -
  have "service_inv H M S C dir key (0 + length ops) v"
    unfolding v using service_run_inv [OF assms(1,2) service_start_inv [OF assms(3)] _ assms(4)] assms(5) by simp
  then have inv: "service_inv H M S C dir key (length ops) v" by simp
  note eff = checkpoint_effect [OF this c]
  obtain es ts where u: "engine_inv e'" "w_hmac_key w' = key" "log_holds H M S w' es ts" "length es \<le> length ops"
    and m: "fmlookup fs' (join_path dir MANIFEST_FILE) = None
      \<or> (\<exists>s a. committed H C dir s a fs' \<and> older_version s e' \<and> anchored H M S key a es)"
    using service_invE [OF conjunct1 [OF eff]] by (metis service.select_convs)
  from eff have 1: "(load_coordinated_checkpoint H C dir fs' = load_coordinated_checkpoint H C dir (sv_files v)
       \<or> (\<exists>s. fst (take_snapshot (Some (w_sequence (sv_wal v))) (sv_engine v)) = Inr s
            \<and> load_coordinated_checkpoint H C dir fs' = Inr (generation H s (writer_anchor (sv_wal v)))))
    \<and> (\<forall>g. r = Inr g \<longrightarrow> load_coordinated_checkpoint H C dir fs' = Inr g)"
  proof (elim conjE disjE exE)
    fix s assume "fst (take_snapshot (Some (w_sequence (sv_wal v))) (sv_engine v)) = Inr s"
      "committed H C dir s (writer_anchor (sv_wal v)) fs'" "\<forall>g. r = Inr g \<longrightarrow> g = generation H s (writer_anchor (sv_wal v))"
    then show ?thesis using committed_loads [OF assms(2)] by blast
  next
    fix x assume k: "r = Inl x" "\<forall>s a. committed H C dir s a (sv_files v) \<and> older_version s (sv_engine v) \<longrightarrow> committed H C dir s a fs'"
      "fmlookup fs' (join_path dir MANIFEST_FILE) = fmlookup (sv_files v) (join_path dir MANIFEST_FILE)"
    have "load_coordinated_checkpoint H C dir fs' = load_coordinated_checkpoint H C dir (sv_files v)"
      using service_invE [OF inv] k(2,3) committed_loads [OF assms(2)] uncommitted_loads by metis
    then show ?thesis using k(1) by simp
  qed
  have "\<exists>g. load_and_verify_coordinated_checkpoint H M S C dir (w_file w') key fs' = Inr g
      \<and> load_coordinated_checkpoint H C dir fs' = Inr g \<and> fst (restore_from_snapshot (cc_snapshot g) new_engine) = Inr ()"
    if k: "committed H C dir s a fs'" "older_version s e'" "anchored H M S key a es" for s a
  proof -
    obtain w0 es0 fs0 ts0 where w: "es = es0 @ fs0" "writer_holds H M S w0 es0 ts0" "w_hmac_key w0 = key" "a = writer_anchor w0"
      using k(3) by (auto simp: anchored_def)
    have "verify_wal_contains_anchor_inner H M S key a (w_file w') = Inr (w_sequence w', w_last_hash w')"
      using holds_contains [OF u(3) [unfolded w(1)] _ w(2)] u(2,4) w assms(5) by simp
    then show ?thesis
      using committed_loads [OF assms(2) k(1)] committed_restores(1) [OF k(1,2) u(1)] w(3,4)
      by (simp add: load_and_verify_coordinated_checkpoint_def generation_def writer_anchor_def)
  qed
  then show ?thesis using 1 m uncommitted_loads by blast
qed

text \<open>A codec that serialises one value, for a run that stores one value.\<close>

definition single_codec :: "'a \<Rightarrow> 'a json_codec" where
  "single_codec v = \<lparr> jc_ser = \<lambda>x. if x = v then Some [1] else None, jc_de = \<lambda>bs. if bs = [1] then Some v else None \<rparr>"

lemma single_codec_ok: "codec_ok (single_codec v)"
  by (simp add: codec_ok_def single_codec_def)

lemma single_codec_saves:
  "save_json_atomic (single_codec v) SaveOk v loc fs = (Inr (), fmupd loc [1] fs)"
  by (simp add: save_json_atomic_def single_codec_def MAX_PERSISTENCE_ARTIFACT_BYTES_def)

definition single_codecs :: "hasher \<Rightarrow> budget_snapshot \<Rightarrow> wal_anchor \<Rightarrow> codecs" where
  "single_codecs H s a =
     \<lparr> snapshot_codec = single_codec s, anchor_codec = single_codec a, manifest_codec = single_codec (manifest_of H s a) \<rparr>"

lemma single_codecs_ok: "codecs_ok (single_codecs H s a)"
  by (simp add: codecs_ok_def single_codecs_def single_codec_ok)

definition all_ok :: checkpoint_events where
  "all_ok = \<lparr> ev_directory = True, ev_wal_sync = True, ev_snapshot = SaveOk, ev_anchor = SaveOk, ev_manifest = SaveOk \<rparr>"

definition ensured :: budget_engine where
  "ensured = snd (exec_op (Ensure ''acme'' 100) new_engine)"

lemma ensured_snapshot: "\<exists>s e. take_snapshot (Some h) ensured = (Inr s, e)"
proof -
  have inv: "engine_inv ensured" unfolding ensured_def by (rule exec_op_inv [OF engine_inv_new])
  have e: "reservations ensured = fmempty" "next_id ensured = 1"
    by (simp_all add: ensured_def try_ensure_tenant_def new_engine_def)
  then have none: "active_reservations ensured = 0" by (simp add: active_reservations_def)
  obtain s e where s: "try_snapshot ensured = (Inr s, e)"
    using e(2) next_id_less_mask [of ensured] by (simp add: try_snapshot_def allocate_id_def Let_def)
  note sv = snapshot_validates [OF inv none s]
  have "allocator_from_snapshot_version (sn_version s) = Inr 2"
    using sv(2) tag_or [of 2] by (simp add: allocator_Inr e)
  moreover have "validate_snapshot_ledger (s\<lparr> sn_wal_high_watermark := Some h \<rparr>) = Inr ()"
    using sv(1) by (auto simp: validate_snapshot_ledger_def split: if_split_asm)
  ultimately have "take_snapshot (Some h) ensured = (Inr (s\<lparr> sn_wal_high_watermark := Some h \<rparr>), e)"
    using s by (simp add: take_snapshot_def Let_def validate_snapshot_for_restore_def)
  then show ?thesis by blast
qed

theorem checkpoint_atomic_witness:
  "\<exists>C v g e' w' fs'. codecs_ok C
    \<and> v = run_service poly_hash (\<lambda>k. poly_hash) bool_serde C ''d'' [SBudget (Ensure ''acme'' 100)] (service_start None)
    \<and> checkpoint_coordinated poly_hash C all_ok ''d'' (sv_engine v) (sv_wal v) (sv_files v) = (Inr g, e', w', fs')
    \<and> load_coordinated_checkpoint poly_hash C ''d'' fs' = Inr g
    \<and> load_and_verify_coordinated_checkpoint poly_hash (\<lambda>k. poly_hash) bool_serde C ''d'' (w_file w') None fs' = Inr g
    \<and> fst (restore_from_snapshot (cc_snapshot g) new_engine) = Inr ()"
proof -
  obtain s e where s: "take_snapshot (Some 0) ensured = (Inr s, e)" using ensured_snapshot by blast
  define a where "a = writer_anchor (sv_wal (service_start None))"
  define C where "C = single_codecs poly_hash s a"
  define v where "v = run_service poly_hash (\<lambda>k. poly_hash) bool_serde C ''d'' [SBudget (Ensure ''acme'' 100)] (service_start None)"
  have v: "sv_engine v = ensured" "sv_wal v = sv_wal (service_start None)"
    by (simp_all add: v_def run_service_def ensured_def service_start_def)
  have w: "wal_sync True (sv_wal v) = (Inr (), sv_wal v)" by (simp add: v wal_sync_def service_start_def)
  have a: "writer_anchor (sv_wal v) = a" "wa_sequence a = 0" by (simp_all add: v a_def writer_anchor_def service_start_def)
  obtain fs' where g: "commit_generation poly_hash C all_ok ''d'' s a (sv_files v) = (Inr (generation poly_hash s a), fs')"
    by (simp add: commit_generation_def Let_def C_def single_codecs_def all_ok_def save_snapshot_def save_wal_anchor_def
        single_codec_saves generation_def)
  have c: "checkpoint_coordinated poly_hash C all_ok ''d'' (sv_engine v) (sv_wal v) (sv_files v)
      = (Inr (generation poly_hash s a), e, sv_wal v, fs')"
    using w s g by (simp add: checkpoint_coordinated_def all_ok_def a v(1) Let_def)
  have C: "codecs_ok C" unfolding C_def by (rule single_codecs_ok)
  have k: "validate_key None = Inr ()" by (simp add: validate_key_def)
  have "load_coordinated_checkpoint poly_hash C ''d'' fs' = Inr (generation poly_hash s a)
      \<and> (load_coordinated_checkpoint poly_hash C ''d'' fs' = Inl (PersistIo FileNotFound)
       \<or> (\<exists>g. load_and_verify_coordinated_checkpoint poly_hash (\<lambda>k. poly_hash) bool_serde C ''d'' (w_file (sv_wal v)) None fs' = Inr g
            \<and> load_coordinated_checkpoint poly_hash C ''d'' fs' = Inr g
            \<and> fst (restore_from_snapshot (cc_snapshot g) new_engine) = Inr ()))"
    using checkpoint_atomic [OF bool_serde_ok C k _ _ v_def c] by auto
  then have "load_coordinated_checkpoint poly_hash C ''d'' fs' = Inr (generation poly_hash s a)"
    "load_and_verify_coordinated_checkpoint poly_hash (\<lambda>k. poly_hash) bool_serde C ''d'' (w_file (sv_wal v)) None fs'
      = Inr (generation poly_hash s a)"
    "fst (restore_from_snapshot (cc_snapshot (generation poly_hash s a)) new_engine) = Inr ()" by auto
  then show ?thesis using C c v_def by blast
qed

section \<open>Recovery plans\<close>

text \<open>Both parses of a line read the same sequence number.\<close>

definition same_numbers :: "'a serde \<Rightarrow> bool" where
  "same_numbers S \<longleftrightarrow>
     (\<forall>line t e. de S line = Some t \<longrightarrow> de_raw S line = Some e \<longrightarrow> we_sequence t = we_sequence e)"

lemma read_wal_numbers:
  assumes "same_numbers S" "read_wal (raw_serde S) f = Inr es" "read_wal S f = Inr ts"
  shows "map we_sequence ts = map we_sequence es"
  using assms(2,3)
proof (induction "length f" arbitrary: f es ts rule: less_induct)
  case less
  have raw: "de (raw_serde S) = de_raw S" by (simp add: raw_serde_def)
  note rd = read_wal.simps [of S f] read_wal.simps [of "raw_serde S" f, unfolded raw]
  show ?case
  proof (cases "f = []")
    case True
    then show ?thesis using less.prems by (simp add: rd)
  next
    case False
    then obtain line rest where l: "read_bounded_line f = Inr (line, rest)"
      using less.prems by (auto simp: rd split: sum.split_asm)
    have small: "length rest < length f"
      using l read_until_newline_progress [OF False]
      by (auto simp: read_bounded_line_def case_prod_unfold Let_def split: if_split_asm)
    show ?thesis
    proof (cases "list_all is_ascii_whitespace line")
      case True
      then show ?thesis using less.hyps [OF small] less.prems False l by (simp add: rd)
    next
      case f: False
      obtain e es' where e: "de_raw S line = Some e" "read_wal (raw_serde S) rest = Inr es'" "es = e # es'"
        using less.prems(1) False l f by (auto simp: rd split: option.split_asm)
      obtain t ts' where t: "de S line = Some t" "read_wal S rest = Inr ts'" "ts = t # ts'"
        using less.prems(2) False l f by (auto simp: rd split: option.split_asm)
      show ?thesis using less.hyps [OF small e(2) t(2)] e t assms(1) by (auto simp: same_numbers_def)
    qed
  qed
qed

lemma chain_numbers: "chain_from G n h es \<Longrightarrow> map (\<lambda>e. unat (we_sequence e)) es = [Suc n..<Suc (n + length es)]"
proof (induction es arbitrary: n h)
  case (Cons e es)
  then have "chain_from G (Suc n) (entry_hash e) es" unfolding chain_from.simps by blast
  then have "map (\<lambda>e. unat (we_sequence e)) es = [Suc (Suc n)..<Suc (Suc n + length es)]" by (rule Cons.IH)
  then show ?case using Cons.prems by (simp add: upt_conv_Cons del: upt_Suc)
qed simp

lemma count_entries:
  "fold (count_entry high) ts (m, k) = (m + length ts, k + length (filter (\<lambda>e. we_sequence e > high) ts))"
  by (induction ts arbitrary: m k) (simp_all add: count_entry_def)

lemma beyond_count: "length (filter (\<lambda>n. h < n) [Suc 0..<Suc m]) = m - h"
  by (induction m) (auto simp: Suc_diff_le)

lemma visit_inner_Inr:
  "visit_verified_wal_inner H M S key visit file s = (Inr r, s') \<longleftrightarrow>
     validate_chain_inner H M S key file = Inr r \<and> (\<exists>ts. read_wal S file = Inr ts \<and> s' = fold visit ts s)"
  by (cases "validate_key key")
    (auto simp: visit_verified_wal_inner_def validate_chain_inner_def validate_chain_reader_def visit_loop_Inr)

text \<open>The typed entries of a log that verifies are numbered from 1 up to its head.\<close>

lemma verified_numbers:
  assumes "same_numbers S" "validate_chain_inner H M S key file = Inr (sq, h)" "read_wal S file = Inr ts"
  shows "map (\<lambda>e. unat (we_sequence e)) ts = [1..<Suc (length ts)]" "unat sq = length ts" "sq = of_nat (length ts)"
proof -
  obtain es where es: "read_wal (raw_serde S) file = Inr es" "chain_from (wal_hasher H M key) 0 ''genesis'' es" "sq = last_seq 0 es"
    using assms(2) unfolding validate_chain_Inr by blast
  have eq: "map we_sequence ts = map we_sequence es" by (rule read_wal_numbers [OF assms(1) es(1) assms(3)])
  then have len: "length ts = length es" using map_eq_imp_length_eq by blast
  have "map (\<lambda>e. unat (we_sequence e)) ts = map unat (map we_sequence ts)" by simp
  also have "\<dots> = map (\<lambda>e. unat (we_sequence e)) es" unfolding eq by simp
  also have "\<dots> = [1..<Suc (length ts)]" using chain_numbers [OF es(2)] len by simp
  finally show "map (\<lambda>e. unat (we_sequence e)) ts = [1..<Suc (length ts)]" .
  show sq: "unat sq = length ts" using chain_from_last_seq [OF es(2), of 0] es(3) len by (cases "es = []") simp_all
  then show "sq = of_nat (length ts)" by (simp flip: sq)
qed

text \<open>The visitor of the recovery plan counts the entries behind the watermark.\<close>

lemma count_beyond:
  assumes "map (\<lambda>e. unat (we_sequence e)) ts = [1..<Suc (length ts)]"
  shows "fold (count_entry high) ts (0, 0) = (length ts, length (drop (unat high) ts))"
proof -
  have "length (filter (\<lambda>e. we_sequence e > high) ts)
      = length (filter (\<lambda>n. unat high < n) (map (\<lambda>e. unat (we_sequence e)) ts))"
    by (simp add: filter_map comp_def word_less_nat_alt)
  also have "\<dots> = length ts - unat high" unfolding assms using beyond_count by simp
  finally show ?thesis by (simp add: count_entries)
qed

lemma recovery_plan_Inr:
  "recovery_plan_inner H M S C loc file key anchor fs = Inr plan \<longleftrightarrow>
     (\<exists>sq h ts. load_snapshot C loc fs = Inr (rp_snapshot plan) \<and> validate_snapshot_for_restore (rp_snapshot plan) = Inr ()
        \<and> validate_chain_inner H M S key file = Inr (sq, h) \<and> read_wal S file = Inr ts
        \<and> (\<forall>a. anchor = Some a \<longrightarrow> (\<exists>x. verify_head a sq h (key \<noteq> None) = Inr x))
        \<and> rp_wal_high_watermark plan = (case sn_wal_high_watermark (rp_snapshot plan) of None \<Rightarrow> 0 | Some w \<Rightarrow> w)
        \<and> rp_wal_high_watermark plan \<le> sq
        \<and> (rp_total_wal_entries plan, rp_entries_to_replay plan) = fold (count_entry (rp_wal_high_watermark plan)) ts (0, 0))"
proof (cases "load_snapshot C loc fs")
  case (Inr s)
  define high where "high = (case sn_wal_high_watermark s of None \<Rightarrow> 0 | Some w \<Rightarrow> w)"
  obtain r total replay where vis: "visit_verified_wal_inner H M S key (count_entry high) file (0, 0) = (r, (total, replay))"
    by (metis surj_pair)
  have v: "r = Inr x \<and> (total, replay) = y \<longleftrightarrow> validate_chain_inner H M S key file = Inr x
      \<and> (\<exists>ts. read_wal S file = Inr ts \<and> y = fold (count_entry high) ts (0, 0))" for x y
    by (simp flip: visit_inner_Inr add: vis)
  have "recovery_plan_inner H M S C loc file key anchor fs = Inr plan \<longleftrightarrow>
      validate_snapshot_for_restore s = Inr () \<and> rp_snapshot plan = s \<and> rp_wal_high_watermark plan = high
      \<and> (\<exists>sq h. (r = Inr (sq, h) \<and> (total, replay) = (rp_total_wal_entries plan, rp_entries_to_replay plan)) \<and> high \<le> sq
        \<and> (\<forall>a. anchor = Some a \<longrightarrow> (\<exists>x. verify_head a sq h (key \<noteq> None) = Inr x)))"
    using vis unfolding high_def
    by (cases plan; cases anchor; cases r; cases "sn_wal_high_watermark s")
      (auto simp: recovery_plan_inner_def Inr not_less split: if_split_asm)
  then show ?thesis unfolding v by (auto simp: Inr high_def)
qed (simp add: recovery_plan_inner_def)

text \<open>
  C19. A recovery plan is exact. A plan is produced exactly when the snapshot loads and passes the
  checks of a restore, the log verifies as a whole and reads back, the anchor, if one is given, accepts
  its head, and the watermark of the snapshot (0 if it has none) lies within the log. The plan then
  holds that snapshot and that watermark, the number of entries of the log, and as entries to replay
  exactly those behind the watermark of the snapshot: the entries are numbered from 1 up to the head,
  and dropping as many as the watermark says leaves those numbered above it.
\<close>

theorem recovery_plan_exact:
  assumes "same_numbers S"
  shows "recovery_plan_inner H M S C loc file key anchor fs = Inr plan \<longleftrightarrow>
    (\<exists>ts head high. load_snapshot C loc fs = Inr (rp_snapshot plan) \<and> validate_snapshot_for_restore (rp_snapshot plan) = Inr ()
      \<and> validate_chain_inner H M S key file = Inr (of_nat (length ts), head) \<and> read_wal S file = Inr ts
      \<and> map (\<lambda>e. unat (we_sequence e)) ts = [1..<Suc (length ts)]
      \<and> (\<forall>a. anchor = Some a \<longrightarrow> verify_head a (of_nat (length ts)) head (key \<noteq> None) = Inr (of_nat (length ts), head))
      \<and> high = (case sn_wal_high_watermark (rp_snapshot plan) of None \<Rightarrow> 0 | Some w \<Rightarrow> w)
      \<and> rp_wal_high_watermark plan = high \<and> unat high \<le> length ts
      \<and> rp_total_wal_entries plan = length ts \<and> rp_entries_to_replay plan = length (drop (unat high) ts))"
    (is "?L \<longleftrightarrow> ?R")
proof
  assume ?L
  then obtain sq h ts where p: "load_snapshot C loc fs = Inr (rp_snapshot plan)" "validate_snapshot_for_restore (rp_snapshot plan) = Inr ()"
    "validate_chain_inner H M S key file = Inr (sq, h)" "read_wal S file = Inr ts"
    "\<And>a. anchor = Some a \<Longrightarrow> \<exists>x. verify_head a sq h (key \<noteq> None) = Inr x"
    "rp_wal_high_watermark plan = (case sn_wal_high_watermark (rp_snapshot plan) of None \<Rightarrow> 0 | Some w \<Rightarrow> w)"
    "rp_wal_high_watermark plan \<le> sq"
    "(rp_total_wal_entries plan, rp_entries_to_replay plan) = fold (count_entry (rp_wal_high_watermark plan)) ts (0, 0)"
    unfolding recovery_plan_Inr by blast
  note n = verified_numbers [OF assms p(3,4)]
  have "verify_head a sq h (key \<noteq> None) = Inr (sq, h)" if "anchor = Some a" for a
    using p(5) [OF that] by (cases "validate_metadata a (key \<noteq> None)") (auto simp: verify_head_def split: if_split_asm)
  moreover have "unat (rp_wal_high_watermark plan) \<le> length ts" using p(7) n(2) by (simp add: word_le_nat_alt)
  moreover have "rp_total_wal_entries plan = length ts" "rp_entries_to_replay plan = length (drop (unat (rp_wal_high_watermark plan)) ts)"
    using p(8) count_beyond [OF n(1)] by simp_all
  ultimately show ?R using p(1-4,6) n(1,3) by blast
next
  assume ?R
  then obtain ts head high where p: "load_snapshot C loc fs = Inr (rp_snapshot plan)" "validate_snapshot_for_restore (rp_snapshot plan) = Inr ()"
    "validate_chain_inner H M S key file = Inr (of_nat (length ts), head)" "read_wal S file = Inr ts"
    "map (\<lambda>e. unat (we_sequence e)) ts = [1..<Suc (length ts)]"
    "\<forall>a. anchor = Some a \<longrightarrow> verify_head a (of_nat (length ts)) head (key \<noteq> None) = Inr (of_nat (length ts), head)"
    "high = (case sn_wal_high_watermark (rp_snapshot plan) of None \<Rightarrow> 0 | Some w \<Rightarrow> w)" "unat high \<le> length ts"
    "rp_total_wal_entries plan = length ts" "rp_entries_to_replay plan = length (drop (unat high) ts)"
    "rp_wal_high_watermark plan = high"
    by (elim exE conjE) (rule that)
  have "rp_wal_high_watermark plan \<le> of_nat (length ts)"
    using p(8,11) verified_numbers(2) [OF assms p(3,4)] by (simp add: word_le_nat_alt)
  moreover have "(rp_total_wal_entries plan, rp_entries_to_replay plan) = fold (count_entry (rp_wal_high_watermark plan)) ts (0, 0)"
    using p(9-11) count_beyond [OF p(5)] by simp
  moreover have "rp_wal_high_watermark plan = (case sn_wal_high_watermark (rp_snapshot plan) of None \<Rightarrow> 0 | Some w \<Rightarrow> w)"
    using p(7,11) by simp
  ultimately show ?L unfolding recovery_plan_Inr using p(1-4,6) by blast
qed

theorem recovery_plan_exact_witness:
  "\<exists>C (w :: wal_writer) plan. recovery_plan_inner poly_hash (\<lambda>k. poly_hash) bool_serde C ''s'' (w_file w) None None (fmupd ''s'' [1] fmempty) = Inr plan
    \<and> sn_wal_high_watermark (rp_snapshot plan) = Some 1 \<and> rp_wal_high_watermark plan = 1
    \<and> (\<exists>t u. read_wal bool_serde (w_file w) = Inr [t, u]) \<and> rp_total_wal_entries plan = 2 \<and> rp_entries_to_replay plan = 1"
proof -
  obtain s e where s: "take_snapshot (Some 1) ensured = (Inr s, e)" using ensured_snapshot by blast
  have inv: "engine_inv ensured" unfolding ensured_def by (rule exec_op_inv [OF engine_inv_new])
  note st = take_snapshot_Inr(4,5) [OF inv s]
  let ?w0 = "sv_wal (service_start None)" and ?M = "\<lambda>k :: bytes. poly_hash"
  obtain j where j: "ser bool_serde True = Some j" "length j \<le> MAX_WAL_PAYLOAD_BYTES"
    using storable_bool [of True] by (auto simp: storable_def)
  note app = append_holds [OF bool_serde_ok _ j, of poly_hash ?M]
  have "writer_holds poly_hash ?M bool_serde ?w0 [] []"
    by (simp add: service_start_def writer_holds_def ends_line_def validate_key_def)
  from app [OF this] obtain x t v where v: "writer_holds poly_hash ?M bool_serde v [x] [t]" "w_hmac_key v = None"
    by (auto simp: service_start_def)
  from app [OF v(1)] obtain y u w where w: "writer_holds poly_hash ?M bool_serde w [x, y] [t, u]" "w_hmac_key w = None"
    using v(2) by auto
  have same: "same_numbers bool_serde" by (auto simp: same_numbers_def bool_serde_def)
  have r: "read_wal bool_serde (w_file w) = Inr [t, u]" using w(1) by (simp add: writer_holds_def)
  have c: "validate_chain_inner poly_hash ?M bool_serde None (w_file w) = Inr (w_sequence w, w_last_hash w)"
    using holds_validates [OF w(1)] w(2) by simp
  note n = verified_numbers [OF same c r]
  define C where "C = single_codecs poly_hash s (writer_anchor w)"
  have ld: "load_snapshot C ''s'' (fmupd ''s'' [1] fmempty) = Inr s"
    by (simp add: C_def load_snapshot_def single_codecs_def load_json_bounded_def single_codec_def MAX_PERSISTENCE_ARTIFACT_BYTES_def)
  define plan where "plan = \<lparr> rp_snapshot = s, rp_total_wal_entries = 2, rp_entries_to_replay = 1, rp_wal_high_watermark = 1 \<rparr>"
  have "recovery_plan_inner poly_hash ?M bool_serde C ''s'' (w_file w) None None (fmupd ''s'' [1] fmempty) = Inr plan"
    unfolding recovery_plan_exact [OF same]
    using ld st r c n by (intro exI [of _ "[t, u]"] exI [of _ "w_last_hash w"] exI [of _ 1] conjI) (simp_all add: plan_def)
  then show ?thesis using st r
    by (intro exI [of _ C] exI [of _ w] exI [of _ plan] conjI) (simp_all add: plan_def)
qed

end
