(* ===== verification/Setup.thy ===== *)
theory Setup
  imports Prescribe_Correct Budget_Inv
begin

text \<open>
  Configuration and builders (\<open>src/src/config.rs\<close>, \<open>src/src/builder.rs\<close>): the tuning knobs of an
  engine with their validation, and the three builders of requests, models and policies. The
  lemmas show what every sequence of builder calls produces: in every field the value given last, and
  a request or a policy that meets the invariants of the kernel, or the error of the first check that fails.
\<close>

section \<open>Configuration\<close>

record engine_config =
  ec_latency_penalty_microunits_per_ms :: u64
  ec_hard_risk_limit_bps :: u16
  ec_minimum_confidence_bps :: u16
  ec_risk_penalty_multiplier_bps :: u16
  ec_default_exposure_cap_microcents :: i64
  ec_wal_sync_on_append :: bool
  ec_max_catalog_size :: nat

definition config_default :: engine_config where
  "config_default = \<lparr> ec_latency_penalty_microunits_per_ms = 2, ec_hard_risk_limit_bps = 9600,
     ec_minimum_confidence_bps = 5500, ec_risk_penalty_multiplier_bps = 3500,
     ec_default_exposure_cap_microcents = 0, ec_wal_sync_on_append = False, ec_max_catalog_size = 1024 \<rparr>"

datatype config_error =
    ConfigOutOfRange string u16 u16
  | ZeroCatalogSize
  | NegativeExposureCap

definition config_new :: engine_config where
  "config_new = config_default"

definition latency_penalty :: "u64 \<Rightarrow> engine_config \<Rightarrow> engine_config" where
  "latency_penalty microunits c = c\<lparr> ec_latency_penalty_microunits_per_ms := microunits \<rparr>"

definition hard_risk_limit :: "u16 \<Rightarrow> engine_config \<Rightarrow> engine_config" where
  "hard_risk_limit bps c = c\<lparr> ec_hard_risk_limit_bps := bps \<rparr>"

definition minimum_confidence :: "u16 \<Rightarrow> engine_config \<Rightarrow> engine_config" where
  "minimum_confidence bps c = c\<lparr> ec_minimum_confidence_bps := bps \<rparr>"

definition risk_penalty_multiplier :: "u16 \<Rightarrow> engine_config \<Rightarrow> engine_config" where
  "risk_penalty_multiplier bps c = c\<lparr> ec_risk_penalty_multiplier_bps := bps \<rparr>"

definition default_exposure_cap :: "i64 \<Rightarrow> engine_config \<Rightarrow> engine_config" where
  "default_exposure_cap microcents c = c\<lparr> ec_default_exposure_cap_microcents := microcents \<rparr>"

definition wal_sync_on_append :: "bool \<Rightarrow> engine_config \<Rightarrow> engine_config" where
  "wal_sync_on_append sync c = c\<lparr> ec_wal_sync_on_append := sync \<rparr>"

definition max_catalog_size :: "nat \<Rightarrow> engine_config \<Rightarrow> engine_config" where
  "max_catalog_size n c = c\<lparr> ec_max_catalog_size := n \<rparr>"

definition validate_config :: "engine_config \<Rightarrow> config_error + unit" where
  "validate_config c =
     (if ec_hard_risk_limit_bps c > MAX_BPS
        then Inl (ConfigOutOfRange ''hard_risk_limit_bps'' (ec_hard_risk_limit_bps c) MAX_BPS)
      else if ec_minimum_confidence_bps c > MAX_BPS
        then Inl (ConfigOutOfRange ''minimum_confidence_bps'' (ec_minimum_confidence_bps c) MAX_BPS)
      else if ec_risk_penalty_multiplier_bps c > MAX_RISK_PENALTY_MULTIPLIER_BPS
        then Inl (ConfigOutOfRange ''risk_penalty_multiplier_bps'' (ec_risk_penalty_multiplier_bps c)
               MAX_RISK_PENALTY_MULTIPLIER_BPS)
      else if ec_max_catalog_size c = 0 then Inl ZeroCatalogSize
      else if sint (ec_default_exposure_cap_microcents c) < 0 then Inl NegativeExposureCap
      else Inr ())"

text \<open>\<open>EngineConfig::ensure_tenant\<close>.\<close>

definition config_ensure_tenant :: "engine_config \<Rightarrow> string \<Rightarrow> i64 \<Rightarrow> budget_engine \<Rightarrow> budget_engine" where
  "config_ensure_tenant c t initial e =
     (let e = ensure_tenant t initial e
      in if sint (ec_default_exposure_cap_microcents c) > 0
         then set_max_reserved_microcents t (ec_default_exposure_cap_microcents c) e else e)"

section \<open>Requests\<close>

text \<open>\<open>InputBuilder\<close> wraps the request it builds.\<close>

definition input_builder :: "u64 \<Rightarrow> u32 \<Rightarrow> kernel_input" where
  "input_builder sq mid = \<lparr> request_sequence = sq, requested_model_id = mid, input_tokens = 0,
     output_tokens = 0, business_value_microunits = 0, budget_limit_microunits = - 1,
     risk_bps = 0, confidence_bps = ucast BASIS_POINTS, minimum_quality_bps = 0, max_p95_latency_ms = 0,
     required_capabilities = 0, allowed_provider_mask = ALL_PROVIDERS, required_region_mask = 0 \<rparr>"

definition ib_tokens :: "u32 \<Rightarrow> u32 \<Rightarrow> kernel_input \<Rightarrow> kernel_input" where
  "ib_tokens inp out i = i\<lparr> input_tokens := inp, output_tokens := out \<rparr>"

definition ib_business_value :: "i64 \<Rightarrow> kernel_input \<Rightarrow> kernel_input" where
  "ib_business_value microunits i = i\<lparr> business_value_microunits := microunits \<rparr>"

definition ib_budget_limit :: "u64 \<Rightarrow> kernel_input \<Rightarrow> kernel_input" where
  "ib_budget_limit microunits i = i\<lparr> budget_limit_microunits := microunits \<rparr>"

definition ib_risk :: "u16 \<Rightarrow> u16 \<Rightarrow> kernel_input \<Rightarrow> kernel_input" where
  "ib_risk risk confidence i = i\<lparr> risk_bps := risk, confidence_bps := confidence \<rparr>"

definition ib_minimum_quality :: "u16 \<Rightarrow> kernel_input \<Rightarrow> kernel_input" where
  "ib_minimum_quality bps i = i\<lparr> minimum_quality_bps := bps \<rparr>"

definition ib_max_latency :: "u32 \<Rightarrow> kernel_input \<Rightarrow> kernel_input" where
  "ib_max_latency ms i = i\<lparr> max_p95_latency_ms := ms \<rparr>"

definition ib_capabilities :: "u64 \<Rightarrow> kernel_input \<Rightarrow> kernel_input" where
  "ib_capabilities bits i = i\<lparr> required_capabilities := bits \<rparr>"

definition ib_providers :: "u64 \<Rightarrow> kernel_input \<Rightarrow> kernel_input" where
  "ib_providers bits i = i\<lparr> allowed_provider_mask := bits \<rparr>"

definition ib_regions :: "u64 \<Rightarrow> kernel_input \<Rightarrow> kernel_input" where
  "ib_regions bits i = i\<lparr> required_region_mask := bits \<rparr>"

definition try_build_input :: "kernel_input \<Rightarrow> input_error + kernel_input" where
  "try_build_input i = and_then (validate_input i) (\<lambda>_. Inr i)"

text \<open>\<open>build\<close> panics where \<open>try_build\<close> refuses: \<open>None\<close> is the panic.\<close>

definition build_input :: "kernel_input \<Rightarrow> kernel_input option" where
  "build_input i = (case try_build_input i of Inl _ \<Rightarrow> None | Inr i \<Rightarrow> Some i)"

section \<open>Models\<close>

definition model_builder :: "u32 \<Rightarrow> u16 \<Rightarrow> kernel_model" where
  "model_builder mid pid = \<lparr> model_id = mid, provider_id = pid, quality_bps = 8000,
     risk_ceiling_bps = 9500, enabled = 1, p95_latency_ms = 200, capabilities = 0,
     region_mask = ALL_REGIONS, input_cost_microunits_per_million_tokens = 0,
     output_cost_microunits_per_million_tokens = 0 \<rparr>"

definition mb_quality :: "u16 \<Rightarrow> kernel_model \<Rightarrow> kernel_model" where
  "mb_quality bps m = m\<lparr> quality_bps := bps \<rparr>"

definition mb_risk_ceiling :: "u16 \<Rightarrow> kernel_model \<Rightarrow> kernel_model" where
  "mb_risk_ceiling bps m = m\<lparr> risk_ceiling_bps := bps \<rparr>"

definition mb_enabled :: "bool \<Rightarrow> kernel_model \<Rightarrow> kernel_model" where
  "mb_enabled yes m = m\<lparr> enabled := of_bool yes \<rparr>"

definition mb_latency :: "u32 \<Rightarrow> kernel_model \<Rightarrow> kernel_model" where
  "mb_latency ms m = m\<lparr> p95_latency_ms := ms \<rparr>"

definition mb_capabilities :: "u64 \<Rightarrow> kernel_model \<Rightarrow> kernel_model" where
  "mb_capabilities bits m = m\<lparr> capabilities := bits \<rparr>"

definition mb_regions :: "u64 \<Rightarrow> kernel_model \<Rightarrow> kernel_model" where
  "mb_regions bits m = m\<lparr> region_mask := bits \<rparr>"

definition mb_cost :: "u64 \<Rightarrow> u64 \<Rightarrow> kernel_model \<Rightarrow> kernel_model" where
  "mb_cost inp out m = m\<lparr> input_cost_microunits_per_million_tokens := inp,
     output_cost_microunits_per_million_tokens := out \<rparr>"

definition build_model :: "kernel_model \<Rightarrow> kernel_model" where
  "build_model m = m"

section \<open>Policies\<close>

datatype build_error =
    BuildConfig config_error
  | BuildPolicy policy_error
  | BuildCatalogTooLarge nat nat

datatype trusted_build_error =
    TrustedConfig config_error
  | TrustedCatalogTooLarge nat nat
  | TrustedTrust trust_policy_error

record policy_builder =
  pb_config :: engine_config
  pb_policy_epoch :: u64
  pb_catalog_epoch :: u64
  pb_models :: "kernel_model list"

definition policy_builder_new :: "engine_config \<Rightarrow> policy_builder" where
  "policy_builder_new c = \<lparr> pb_config = c, pb_policy_epoch = 1, pb_catalog_epoch = 1, pb_models = [] \<rparr>"

definition pb_epochs :: "u64 \<Rightarrow> u64 \<Rightarrow> policy_builder \<Rightarrow> policy_builder" where
  "pb_epochs policy catalog b = b\<lparr> pb_policy_epoch := policy, pb_catalog_epoch := catalog \<rparr>"

definition pb_model :: "kernel_model \<Rightarrow> policy_builder \<Rightarrow> policy_builder" where
  "pb_model m b = b\<lparr> pb_models := pb_models b @ [m] \<rparr>"

definition pb_add_models :: "kernel_model list \<Rightarrow> policy_builder \<Rightarrow> policy_builder" where
  "pb_add_models ms b = b\<lparr> pb_models := pb_models b @ ms \<rparr>"

definition build_trusted :: "policy_builder \<Rightarrow> trusted_build_error + policy_snapshot" where
  "build_trusted b =
     and_then (map_err TrustedConfig (validate_config (pb_config b))) (\<lambda>_.
       if length (pb_models b) > ec_max_catalog_size (pb_config b)
       then Inl (TrustedCatalogTooLarge (length (pb_models b)) (ec_max_catalog_size (pb_config b)))
       else map_err TrustedTrust
         (try_new_trusted (pb_policy_epoch b) (pb_catalog_epoch b) (ec_hard_risk_limit_bps (pb_config b))
            (ec_minimum_confidence_bps (pb_config b)) (ec_risk_penalty_multiplier_bps (pb_config b))
            (ec_latency_penalty_microunits_per_ms (pb_config b)) (pb_models b)))"

fun build_error_of :: "trusted_build_error \<Rightarrow> build_error" where
  "build_error_of (TrustedConfig e) = BuildConfig e"
| "build_error_of (TrustedCatalogTooLarge n mx) = BuildCatalogTooLarge n mx"
| "build_error_of (TrustedTrust (PolicyErr e)) = BuildPolicy e"
| "build_error_of (TrustedTrust (CatalogTooLarge n mx)) = BuildCatalogTooLarge n mx"
| "build_error_of (TrustedTrust ReservedModelId) = BuildPolicy (DuplicateModelId 0)"
| "build_error_of (TrustedTrust (InvalidEnabledFlag _ value)) =
     BuildPolicy (OutOfRangeBps ''model.enabled'' (ucast value) 1)"

definition build_policy :: "policy_builder \<Rightarrow> build_error + policy_snapshot" where
  "build_policy b = map_err build_error_of (build_trusted b)"

section \<open>Calls of the builders\<close>

datatype input_call =
    TokensCall u32 u32
  | BusinessValueCall i64
  | BudgetLimitCall u64
  | RiskCall u16 u16
  | MinimumQualityCall u16
  | MaxLatencyCall u32
  | InputCapabilitiesCall u64
  | ProvidersCall u64
  | InputRegionsCall u64

fun do_input_call :: "input_call \<Rightarrow> kernel_input \<Rightarrow> kernel_input" where
  "do_input_call (TokensCall a b) = ib_tokens a b"
| "do_input_call (BusinessValueCall v) = ib_business_value v"
| "do_input_call (BudgetLimitCall v) = ib_budget_limit v"
| "do_input_call (RiskCall r c) = ib_risk r c"
| "do_input_call (MinimumQualityCall q) = ib_minimum_quality q"
| "do_input_call (MaxLatencyCall ms) = ib_max_latency ms"
| "do_input_call (InputCapabilitiesCall m) = ib_capabilities m"
| "do_input_call (ProvidersCall m) = ib_providers m"
| "do_input_call (InputRegionsCall m) = ib_regions m"

datatype model_call =
    QualityCall u16
  | RiskCeilingCall u16
  | EnabledCall bool
  | LatencyCall u32
  | CapabilitiesCall u64
  | RegionsCall u64
  | CostCall u64 u64

fun do_model_call :: "model_call \<Rightarrow> kernel_model \<Rightarrow> kernel_model" where
  "do_model_call (QualityCall v) = mb_quality v"
| "do_model_call (RiskCeilingCall v) = mb_risk_ceiling v"
| "do_model_call (EnabledCall v) = mb_enabled v"
| "do_model_call (LatencyCall v) = mb_latency v"
| "do_model_call (CapabilitiesCall v) = mb_capabilities v"
| "do_model_call (RegionsCall v) = mb_regions v"
| "do_model_call (CostCall a b) = mb_cost a b"

datatype policy_call =
    EpochsCall u64 u64
  | ModelCall kernel_model
  | ModelsCall "kernel_model list"

fun do_policy_call :: "policy_call \<Rightarrow> policy_builder \<Rightarrow> policy_builder" where
  "do_policy_call (EpochsCall p c) = pb_epochs p c"
| "do_policy_call (ModelCall m) = pb_model m"
| "do_policy_call (ModelsCall ms) = pb_add_models ms"

fun models_given :: "policy_call \<Rightarrow> kernel_model list" where
  "models_given (ModelCall m) = [m]"
| "models_given (ModelsCall ms) = ms"
| "models_given _ = []"

text \<open>The value given last by a kind of call, or the default when there is none.\<close>

definition last_given :: "('c \<Rightarrow> 'a option) \<Rightarrow> 'a \<Rightarrow> 'c list \<Rightarrow> 'a" where
  "last_given given d calls = last (d # List.map_filter given calls)"

lemma last_given_simps [simp]:
  "last_given given d [] = d"
  "last_given given d (x # xs) = last_given given (case given x of None \<Rightarrow> d | Some v \<Rightarrow> v) xs"
  by (simp_all add: last_given_def map_filter_simps split: option.split)

fun epochs_given :: "policy_call \<Rightarrow> (u64 \<times> u64) option" where
  "epochs_given (EpochsCall p c) = Some (p, c)"
| "epochs_given _ = None"

fun tokens_given :: "input_call \<Rightarrow> (u32 \<times> u32) option" where
  "tokens_given (TokensCall a b) = Some (a, b)"
| "tokens_given _ = None"

fun value_given :: "input_call \<Rightarrow> i64 option" where
  "value_given (BusinessValueCall v) = Some v"
| "value_given _ = None"

fun budget_given :: "input_call \<Rightarrow> u64 option" where
  "budget_given (BudgetLimitCall v) = Some v"
| "budget_given _ = None"

fun risk_given :: "input_call \<Rightarrow> (u16 \<times> u16) option" where
  "risk_given (RiskCall r c) = Some (r, c)"
| "risk_given _ = None"

fun minimum_quality_given :: "input_call \<Rightarrow> u16 option" where
  "minimum_quality_given (MinimumQualityCall q) = Some q"
| "minimum_quality_given _ = None"

fun max_latency_given :: "input_call \<Rightarrow> u32 option" where
  "max_latency_given (MaxLatencyCall ms) = Some ms"
| "max_latency_given _ = None"

fun required_given :: "input_call \<Rightarrow> u64 option" where
  "required_given (InputCapabilitiesCall m) = Some m"
| "required_given _ = None"

fun providers_given :: "input_call \<Rightarrow> u64 option" where
  "providers_given (ProvidersCall m) = Some m"
| "providers_given _ = None"

fun required_regions_given :: "input_call \<Rightarrow> u64 option" where
  "required_regions_given (InputRegionsCall m) = Some m"
| "required_regions_given _ = None"

fun quality_given :: "model_call \<Rightarrow> u16 option" where
  "quality_given (QualityCall v) = Some v"
| "quality_given _ = None"

fun risk_ceiling_given :: "model_call \<Rightarrow> u16 option" where
  "risk_ceiling_given (RiskCeilingCall v) = Some v"
| "risk_ceiling_given _ = None"

fun enabled_given :: "model_call \<Rightarrow> bool option" where
  "enabled_given (EnabledCall v) = Some v"
| "enabled_given _ = None"

fun latency_given :: "model_call \<Rightarrow> u32 option" where
  "latency_given (LatencyCall v) = Some v"
| "latency_given _ = None"

fun capabilities_given :: "model_call \<Rightarrow> u64 option" where
  "capabilities_given (CapabilitiesCall v) = Some v"
| "capabilities_given _ = None"

fun regions_given :: "model_call \<Rightarrow> u64 option" where
  "regions_given (RegionsCall v) = Some v"
| "regions_given _ = None"

fun cost_given :: "model_call \<Rightarrow> (u64 \<times> u64) option" where
  "cost_given (CostCall a b) = Some (a, b)"
| "cost_given _ = None"

lemma policy_calls:
  "fold do_policy_call calls b = \<lparr> pb_config = pb_config b,
     pb_policy_epoch = fst (last_given epochs_given (pb_policy_epoch b, pb_catalog_epoch b) calls),
     pb_catalog_epoch = snd (last_given epochs_given (pb_policy_epoch b, pb_catalog_epoch b) calls),
     pb_models = pb_models b @ concat (map models_given calls) \<rparr>"
proof (induction calls arbitrary: b)
  case (Cons x xs)
  show ?case by (cases x) (simp_all add: Cons.IH pb_epochs_def pb_model_def pb_add_models_def)
qed simp

lemma input_calls:
  "fold do_input_call calls i = \<lparr> request_sequence = request_sequence i, requested_model_id = requested_model_id i,
     input_tokens = fst (last_given tokens_given (input_tokens i, output_tokens i) calls),
     output_tokens = snd (last_given tokens_given (input_tokens i, output_tokens i) calls),
     business_value_microunits = last_given value_given (business_value_microunits i) calls,
     budget_limit_microunits = last_given budget_given (budget_limit_microunits i) calls,
     risk_bps = fst (last_given risk_given (risk_bps i, confidence_bps i) calls),
     confidence_bps = snd (last_given risk_given (risk_bps i, confidence_bps i) calls),
     minimum_quality_bps = last_given minimum_quality_given (minimum_quality_bps i) calls,
     max_p95_latency_ms = last_given max_latency_given (max_p95_latency_ms i) calls,
     required_capabilities = last_given required_given (required_capabilities i) calls,
     allowed_provider_mask = last_given providers_given (allowed_provider_mask i) calls,
     required_region_mask = last_given required_regions_given (required_region_mask i) calls \<rparr>"
proof (induction calls arbitrary: i)
  case (Cons x xs)
  show ?case
    by (cases x) (simp_all add: Cons.IH ib_tokens_def ib_business_value_def ib_budget_limit_def ib_risk_def ib_minimum_quality_def
        ib_max_latency_def ib_capabilities_def ib_providers_def ib_regions_def)
qed simp

lemma model_calls:
  "fold do_model_call calls m = \<lparr> model_id = model_id m, provider_id = provider_id m,
     quality_bps = last_given quality_given (quality_bps m) calls,
     risk_ceiling_bps = last_given risk_ceiling_given (risk_ceiling_bps m) calls,
     enabled = last_given (map_option of_bool \<circ> enabled_given) (enabled m) calls,
     p95_latency_ms = last_given latency_given (p95_latency_ms m) calls,
     capabilities = last_given capabilities_given (capabilities m) calls,
     region_mask = last_given regions_given (region_mask m) calls,
     input_cost_microunits_per_million_tokens =
       fst (last_given cost_given (input_cost_microunits_per_million_tokens m, output_cost_microunits_per_million_tokens m) calls),
     output_cost_microunits_per_million_tokens =
       snd (last_given cost_given (input_cost_microunits_per_million_tokens m, output_cost_microunits_per_million_tokens m) calls) \<rparr>"
proof (induction calls arbitrary: m)
  case (Cons x xs)
  show ?case
    by (cases x) (simp_all add: Cons.IH mb_quality_def mb_risk_ceiling_def mb_enabled_def mb_latency_def
        mb_capabilities_def mb_regions_def mb_cost_def)
qed simp

lemma last_given_of_bool: "last_given (map_option of_bool \<circ> g) (of_bool d) calls = of_bool (last_given g d calls)"
proof (induction calls arbitrary: d)
  case (Cons x xs)
  show ?case using Cons.IH by (cases "g x") (simp_all del: of_bool_eq_iff)
qed simp

section \<open>What building guarantees\<close>

definition config_valid :: "engine_config \<Rightarrow> bool" where
  "config_valid c \<longleftrightarrow> unat (ec_hard_risk_limit_bps c) \<le> 10000 \<and> unat (ec_minimum_confidence_bps c) \<le> 10000
     \<and> unat (ec_risk_penalty_multiplier_bps c) \<le> 50000 \<and> 0 < ec_max_catalog_size c
     \<and> 0 \<le> sint (ec_default_exposure_cap_microcents c)"

lemma validate_config_Inr: "validate_config c = Inr () \<longleftrightarrow> config_valid c"
  by (auto simp: validate_config_def config_valid_def MAX_BPS_def MAX_RISK_PENALTY_MULTIPLIER_BPS_def
      word_less_nat_alt not_less)

definition input_valid :: "kernel_input \<Rightarrow> bool" where
  "input_valid i \<longleftrightarrow> unat (risk_bps i) \<le> 10000 \<and> unat (confidence_bps i) \<le> 10000
     \<and> unat (minimum_quality_bps i) \<le> 10000"

lemma try_build_input_Inr: "try_build_input i = Inr j \<longleftrightarrow> j = i \<and> input_valid i"
  by (auto simp: try_build_input_def validate_input_def input_valid_def MAX_BPS_def word_less_nat_alt not_less)

lemma build_policy_Inr: "build_policy b = Inr p \<longleftrightarrow> build_trusted b = Inr p"
  by (cases "build_trusted b") (simp_all add: build_policy_def)

lemma build_trusted_Inr:
  "build_trusted b = Inr p \<longleftrightarrow>
     config_valid (pb_config b) \<and> length (pb_models b) \<le> ec_max_catalog_size (pb_config b)
     \<and> try_new_trusted (pb_policy_epoch b) (pb_catalog_epoch b) (ec_hard_risk_limit_bps (pb_config b))
            (ec_minimum_confidence_bps (pb_config b)) (ec_risk_penalty_multiplier_bps (pb_config b))
            (ec_latency_penalty_microunits_per_ms (pb_config b)) (pb_models b) = Inr p"
proof (cases "validate_config (pb_config b)")
  case (Inl e)
  then have "\<not> config_valid (pb_config b)" by (simp flip: validate_config_Inr)
  with Inl show ?thesis by (simp add: build_trusted_def)
next
  case (Inr u)
  then have "config_valid (pb_config b)" by (simp flip: validate_config_Inr)
  moreover have "map_err TrustedTrust r = Inr p \<longleftrightarrow> r = Inr p" for r by (cases r) simp_all
  ultimately show ?thesis using Inr by (auto simp: build_trusted_def not_less)
qed

lemma config_ensure_tenant_inv: "engine_inv e \<Longrightarrow> engine_inv (config_ensure_tenant c t initial e)"
  by (simp add: config_ensure_tenant_def Let_def ensure_tenant_def set_max_reserved_microcents_def
      ensure_tenant_inv set_max_reserved_inv)

lemma build_policy_Inl:
  "build_policy b = Inl e \<longleftrightarrow> (\<exists>t. build_trusted b = Inl t \<and> e = build_error_of t)"
  by (cases "build_trusted b") (auto simp: build_policy_def)

text \<open>The first model of a catalog whose flag is not canonical.\<close>

definition first_bad_flag :: "kernel_model \<Rightarrow> kernel_model list \<Rightarrow> bool" where
  "first_bad_flag m ms \<longleftrightarrow> (\<exists>xs ys. ms = xs @ m # ys \<and> enabled m > 1 \<and> (\<forall>x \<in> set xs. enabled x \<le> 1))"

lemma find_bad_flag: "List.find (\<lambda>m. enabled m > 1) ms = Some m \<longleftrightarrow> first_bad_flag m ms"
proof (induction ms)
  case (Cons x xs)
  show ?case
  proof (cases "enabled x > 1")
    case True
    have "first_bad_flag m (x # xs) \<longleftrightarrow> m = x"
      unfolding first_bad_flag_def using True by (auto simp: Cons_eq_append_conv)
    then show ?thesis using True by auto
  next
    case False
    then show ?thesis using Cons.IH
      by (auto simp: first_bad_flag_def Cons_eq_append_conv not_less) (metis append_Cons set_ConsD)
  qed
qed (simp add: first_bad_flag_def)

text \<open>Every refusal of a build, with its error.\<close>

lemma build_policy_refused:
  fixes c ms pe ce
  defines "p \<equiv> new_unchecked pe ce (ec_hard_risk_limit_bps c) (ec_minimum_confidence_bps c)
      (ec_risk_penalty_multiplier_bps c) (ec_latency_penalty_microunits_per_ms c) (sort_key model_id ms)"
  shows "build_policy \<lparr> pb_config = c, pb_policy_epoch = pe, pb_catalog_epoch = ce, pb_models = ms \<rparr> = Inl e \<longleftrightarrow>
     (\<exists>x. validate_config c = Inl x \<and> e = BuildConfig x)
     \<or> config_valid c \<and>
       (length ms > ec_max_catalog_size c \<and> e = BuildCatalogTooLarge (length ms) (ec_max_catalog_size c)
        \<or> length ms \<le> ec_max_catalog_size c \<and>
          (length ms > 65535 \<and> e = BuildCatalogTooLarge (length ms) 65535
           \<or> length ms \<le> 65535 \<and>
             ((\<exists>m \<in> set ms. model_id m = 0) \<and> e = BuildPolicy (DuplicateModelId 0)
              \<or> (\<forall>m \<in> set ms. model_id m \<noteq> 0) \<and>
                ((\<exists>m. first_bad_flag m ms \<and> e = BuildPolicy (OutOfRangeBps ''model.enabled'' (ucast (enabled m)) 1))
                 \<or> (\<forall>m \<in> set ms. enabled m \<le> 1) \<and> (\<exists>x. validate_policy p = Inl x \<and> e = BuildPolicy x)))))"
proof -
  consider x where "validate_config c = Inl x" "\<not> config_valid c" | "config_valid c" "validate_config c = Inr ()"
    using validate_config_Inr [of c] by (cases "validate_config c") auto
  then show ?thesis
  proof cases
    case 1
    then show ?thesis by (auto simp: build_policy_Inl build_trusted_def)
  next
    case 2
    show ?thesis
    proof (cases "List.find (\<lambda>m. enabled m > 1) ms")
      case None
      then have n: "\<forall>m \<in> set ms. enabled m \<le> 1" by (simp add: find_enabled_None)
      then have "\<not> first_bad_flag m ms" for m using None find_bad_flag [of ms m] by simp
      then show ?thesis using 2 None n
        by (cases "validate_policy p") (auto simp: build_policy_Inl build_trusted_def try_new_trusted_def Let_def
            p_def [symmetric] list_ex_iff MAX_CATALOG_MODELS_def)
    next
      case (Some m)
      then have "first_bad_flag x ms \<longleftrightarrow> x = m" for x using find_bad_flag [of ms x] by auto
      moreover have "\<not> (\<forall>m \<in> set ms. enabled m \<le> 1)" using Some find_enabled_None [of ms] by simp
      ultimately show ?thesis using 2 Some
        by (auto simp: build_policy_Inl build_trusted_def try_new_trusted_def list_ex_iff MAX_CATALOG_MODELS_def)
    qed
  qed
qed

lemma built_policy:
  assumes "build_policy \<lparr> pb_config = c, pb_policy_epoch = pe, pb_catalog_epoch = ce, pb_models = ms \<rparr> = Inr p"
  shows "p = new_unchecked pe ce (ec_hard_risk_limit_bps c) (ec_minimum_confidence_bps c)
      (ec_risk_penalty_multiplier_bps c) (ec_latency_penalty_microunits_per_ms c) (sort_key model_id ms)"
    "policy_wf p" "policy_valid p" "mset (ps_models p) = mset ms" "sorted_wrt (<) (map model_id (ps_models p))"
    "is_executable (prescribe p i) \<Longrightarrow> \<exists>m \<in> set ms. justified_selection p i (prescribe p i) m"
proof -
  have t: "try_new_trusted pe ce (ec_hard_risk_limit_bps c) (ec_minimum_confidence_bps c) (ec_risk_penalty_multiplier_bps c)
      (ec_latency_penalty_microunits_per_ms c) ms = Inr p"
    using assms by (simp add: build_policy_Inr build_trusted_Inr)
  then show "p = new_unchecked pe ce (ec_hard_risk_limit_bps c) (ec_minimum_confidence_bps c)
      (ec_risk_penalty_multiplier_bps c) (ec_latency_penalty_microunits_per_ms c) (sort_key model_id ms)" "policy_valid p"
    unfolding try_new_trusted_Inr by blast+
  note canon = try_new_trusted_canonical [OF refl t]
  show wf: "policy_wf p" and eq: "mset (ps_models p) = mset ms"
    and "sorted_wrt (<) (map model_id (ps_models p))" using canon by blast+
  assume "is_executable (prescribe p i)"
  then show "\<exists>m \<in> set ms. justified_selection p i (prescribe p i) m"
    using decision_justified [OF wf] mset_eq_setD [OF eq] by simp
qed

text \<open>
  C40. The builders build exactly what they were given, and it is well typed. Whatever calls are made
  on a policy builder, a policy comes out exactly if the configuration is valid and the models given fit
  the catalog, have distinct non-zero identifiers and canonical flags, are valid one by one and one of
  them is enabled. Both ways of building give the same policy: the epochs given last (1 and 1 if none
  were), the four limits of the configuration, and all models given, sorted by identifier, with the
  maxima over them. It satisfies the invariants of the kernel, and a decision made under it to execute
  names one of the models given and is justified by it. A refused build reports the first of these
  reasons: the error of the configuration, the limit of the catalog that is exceeded, a reserved
  identifier as a duplicate of 0, the first flag that is not canonical as a value out of range, or the
  error of the policy. Requests and models carry in every field the value given last, or the default;
  requests come out exactly if their basis points are in range, and unchanged.
\<close>

theorem builders_well_typed:
  fixes calls :: "policy_call list" and icalls :: "input_call list" and mcalls :: "model_call list"
    and c :: engine_config and sq :: u64 and mid :: u32 and pid :: u16
  defines "ms \<equiv> concat (map models_given calls)"
    and "b \<equiv> fold do_policy_call calls (policy_builder_new c)"
    and "i \<equiv> fold do_input_call icalls (input_builder sq mid)"
    and "policy \<equiv> new_unchecked (fst (last_given epochs_given (1, 1) calls)) (snd (last_given epochs_given (1, 1) calls))
        (ec_hard_risk_limit_bps c) (ec_minimum_confidence_bps c) (ec_risk_penalty_multiplier_bps c)
        (ec_latency_penalty_microunits_per_ms c) (sort_key model_id (concat (map models_given calls)))"
  shows "((\<exists>p. build_policy b = Inr p) \<longleftrightarrow>
        config_valid c \<and> length ms \<le> min (ec_max_catalog_size c) 65535 \<and> distinct (map model_id ms)
        \<and> (\<forall>m \<in> set ms. model_id m \<noteq> 0 \<and> enabled m \<le> 1 \<and> model_valid m) \<and> (\<exists>m \<in> set ms. enabled m = 1))
    \<and> (\<forall>p. build_policy b = Inr p \<longrightarrow> build_trusted b = Inr p
        \<and> p = policy \<and> policy_wf p \<and> policy_valid p \<and> mset (ps_models p) = mset ms
        \<and> sorted_wrt (<) (map model_id (ps_models p))
        \<and> ps_policy_epoch p = fst (last_given epochs_given (1, 1) calls)
        \<and> ps_catalog_epoch p = snd (last_given epochs_given (1, 1) calls)
        \<and> ps_hard_risk_limit_bps p = ec_hard_risk_limit_bps c
        \<and> ps_minimum_confidence_bps p = ec_minimum_confidence_bps c
        \<and> ps_risk_penalty_multiplier_bps p = ec_risk_penalty_multiplier_bps c
        \<and> ps_latency_penalty_microunits_per_ms p = ec_latency_penalty_microunits_per_ms c
        \<and> (is_executable (prescribe p i) \<longrightarrow> (\<exists>m \<in> set ms. justified_selection p i (prescribe p i) m)))
    \<and> (\<forall>p. build_trusted b = Inr p \<longrightarrow> build_policy b = Inr p)
    \<and> (\<forall>e. build_policy b = Inl e \<longleftrightarrow>
        (\<exists>x. validate_config c = Inl x \<and> e = BuildConfig x)
        \<or> config_valid c \<and>
          (length ms > ec_max_catalog_size c \<and> e = BuildCatalogTooLarge (length ms) (ec_max_catalog_size c)
           \<or> length ms \<le> ec_max_catalog_size c \<and>
             (length ms > 65535 \<and> e = BuildCatalogTooLarge (length ms) 65535
              \<or> length ms \<le> 65535 \<and>
                ((\<exists>m \<in> set ms. model_id m = 0) \<and> e = BuildPolicy (DuplicateModelId 0)
                 \<or> (\<forall>m \<in> set ms. model_id m \<noteq> 0) \<and>
                   ((\<exists>m. first_bad_flag m ms \<and> e = BuildPolicy (OutOfRangeBps ''model.enabled'' (ucast (enabled m)) 1))
                    \<or> (\<forall>m \<in> set ms. enabled m \<le> 1) \<and> (\<exists>x. validate_policy policy = Inl x \<and> e = BuildPolicy x))))))
    \<and> i = \<lparr> request_sequence = sq, requested_model_id = mid,
        input_tokens = fst (last_given tokens_given (0, 0) icalls), output_tokens = snd (last_given tokens_given (0, 0) icalls),
        business_value_microunits = last_given value_given 0 icalls,
        budget_limit_microunits = last_given budget_given (- 1) icalls,
        risk_bps = fst (last_given risk_given (0, 10000) icalls), confidence_bps = snd (last_given risk_given (0, 10000) icalls),
        minimum_quality_bps = last_given minimum_quality_given 0 icalls, max_p95_latency_ms = last_given max_latency_given 0 icalls,
        required_capabilities = last_given required_given 0 icalls,
        allowed_provider_mask = last_given providers_given ALL_PROVIDERS icalls,
        required_region_mask = last_given required_regions_given 0 icalls \<rparr>
    \<and> (\<forall>j. try_build_input i = Inr j \<longleftrightarrow> j = i \<and> input_valid i)
    \<and> build_input i = (if input_valid i then Some i else None)
    \<and> build_model (fold do_model_call mcalls (model_builder mid pid)) = \<lparr> model_id = mid, provider_id = pid,
        quality_bps = last_given quality_given 8000 mcalls, risk_ceiling_bps = last_given risk_ceiling_given 9500 mcalls,
        enabled = of_bool (last_given enabled_given True mcalls), p95_latency_ms = last_given latency_given 200 mcalls,
        capabilities = last_given capabilities_given 0 mcalls, region_mask = last_given regions_given ALL_REGIONS mcalls,
        input_cost_microunits_per_million_tokens = fst (last_given cost_given (0, 0) mcalls),
        output_cost_microunits_per_million_tokens = snd (last_given cost_given (0, 0) mcalls) \<rparr>"
proof (intro conjI allI)
  have b: "b = \<lparr> pb_config = c, pb_policy_epoch = fst (last_given epochs_given (1, 1) calls),
      pb_catalog_epoch = snd (last_given epochs_given (1, 1) calls), pb_models = ms \<rparr>"
    by (simp add: b_def ms_def policy_calls policy_builder_new_def)
  show "(\<exists>p. build_policy b = Inr p) \<longleftrightarrow>
        config_valid c \<and> length ms \<le> min (ec_max_catalog_size c) 65535 \<and> distinct (map model_id ms)
        \<and> (\<forall>m \<in> set ms. model_id m \<noteq> 0 \<and> enabled m \<le> 1 \<and> model_valid m) \<and> (\<exists>m \<in> set ms. enabled m = 1)"
    unfolding build_policy_Inr build_trusted_Inr by (auto simp: b trusted_accepts_iff config_valid_def)
  show "build_trusted b = Inr p \<longrightarrow> build_policy b = Inr p" for p by (simp add: build_policy_Inr)
  show "try_build_input i = Inr j \<longleftrightarrow> j = i \<and> input_valid i" for j by (rule try_build_input_Inr)
  show "build_input i = (if input_valid i then Some i else None)"
    using try_build_input_Inr [of i] by (cases "try_build_input i") (auto simp: build_input_def)
  show "build_policy b = Inr p \<longrightarrow> build_trusted b = Inr p
        \<and> p = policy \<and> policy_wf p \<and> policy_valid p \<and> mset (ps_models p) = mset ms
        \<and> sorted_wrt (<) (map model_id (ps_models p))
        \<and> ps_policy_epoch p = fst (last_given epochs_given (1, 1) calls)
        \<and> ps_catalog_epoch p = snd (last_given epochs_given (1, 1) calls)
        \<and> ps_hard_risk_limit_bps p = ec_hard_risk_limit_bps c
        \<and> ps_minimum_confidence_bps p = ec_minimum_confidence_bps c
        \<and> ps_risk_penalty_multiplier_bps p = ec_risk_penalty_multiplier_bps c
        \<and> ps_latency_penalty_microunits_per_ms p = ec_latency_penalty_microunits_per_ms c
        \<and> (is_executable (prescribe p i) \<longrightarrow> (\<exists>m \<in> set ms. justified_selection p i (prescribe p i) m))" for p
  proof
    assume p: "build_policy b = Inr p"
    note q = built_policy [OF p [unfolded b]]
    have "p = policy" using q(1) by (simp add: policy_def ms_def)
    moreover have "ps_policy_epoch p = fst (last_given epochs_given (1, 1) calls)"
      "ps_catalog_epoch p = snd (last_given epochs_given (1, 1) calls)"
      "ps_hard_risk_limit_bps p = ec_hard_risk_limit_bps c"
      "ps_minimum_confidence_bps p = ec_minimum_confidence_bps c"
      "ps_risk_penalty_multiplier_bps p = ec_risk_penalty_multiplier_bps c"
      "ps_latency_penalty_microunits_per_ms p = ec_latency_penalty_microunits_per_ms c"
      unfolding q(1) by (simp_all add: new_unchecked_def)
    ultimately show "build_trusted b = Inr p
        \<and> p = policy \<and> policy_wf p \<and> policy_valid p \<and> mset (ps_models p) = mset ms
        \<and> sorted_wrt (<) (map model_id (ps_models p))
        \<and> ps_policy_epoch p = fst (last_given epochs_given (1, 1) calls)
        \<and> ps_catalog_epoch p = snd (last_given epochs_given (1, 1) calls)
        \<and> ps_hard_risk_limit_bps p = ec_hard_risk_limit_bps c
        \<and> ps_minimum_confidence_bps p = ec_minimum_confidence_bps c
        \<and> ps_risk_penalty_multiplier_bps p = ec_risk_penalty_multiplier_bps c
        \<and> ps_latency_penalty_microunits_per_ms p = ec_latency_penalty_microunits_per_ms c
        \<and> (is_executable (prescribe p i) \<longrightarrow> (\<exists>m \<in> set ms. justified_selection p i (prescribe p i) m))"
      using p q(2-6) by (simp add: build_policy_Inr)
  qed
  show "build_policy b = Inl e \<longleftrightarrow>
        (\<exists>x. validate_config c = Inl x \<and> e = BuildConfig x)
        \<or> config_valid c \<and>
          (length ms > ec_max_catalog_size c \<and> e = BuildCatalogTooLarge (length ms) (ec_max_catalog_size c)
           \<or> length ms \<le> ec_max_catalog_size c \<and>
             (length ms > 65535 \<and> e = BuildCatalogTooLarge (length ms) 65535
              \<or> length ms \<le> 65535 \<and>
                ((\<exists>m \<in> set ms. model_id m = 0) \<and> e = BuildPolicy (DuplicateModelId 0)
                 \<or> (\<forall>m \<in> set ms. model_id m \<noteq> 0) \<and>
                   ((\<exists>m. first_bad_flag m ms \<and> e = BuildPolicy (OutOfRangeBps ''model.enabled'' (ucast (enabled m)) 1))
                    \<or> (\<forall>m \<in> set ms. enabled m \<le> 1) \<and> (\<exists>x. validate_policy policy = Inl x \<and> e = BuildPolicy x)))))" for e
    unfolding b policy_def ms_def [symmetric] by (rule build_policy_refused)
qed (simp_all add: i_def input_calls input_builder_def BASIS_POINTS_def build_model_def model_calls model_builder_def
    last_given_of_bool [of _ True, simplified])

definition example_calls :: "policy_call list" where
  "example_calls = [EpochsCall 1 1, ModelCall (mb_cost 250 1000 (mb_quality 9000 (model_builder 1 0))),
     ModelsCall [mb_cost 25 125 (mb_quality 7000 (model_builder 2 1))], EpochsCall 3 4]"

theorem builders_well_typed_witness:
  "\<exists>p. build_policy (fold do_policy_call example_calls (policy_builder_new config_new)) = Inr p
     \<and> ps_policy_epoch p = 3 \<and> ps_catalog_epoch p = 4 \<and> length (ps_models p) = 2
     \<and> input_tokens (fold do_input_call [TokensCall 5 6, RiskCall 1 2] (input_builder 1 1)) = 5"
proof -
  note typed = builders_well_typed [of example_calls config_new "[TokensCall 5 6, RiskCall 1 2]" 1 1 "[]" 0]
  let ?b = "fold do_policy_call example_calls (policy_builder_new config_new)"
  have ms: "concat (map models_given example_calls)
      = [mb_cost 250 1000 (mb_quality 9000 (model_builder 1 0)), mb_cost 25 125 (mb_quality 7000 (model_builder 2 1))]"
    by (simp add: example_calls_def)
  have "\<exists>p. build_policy ?b = Inr p"
    using typed [THEN conjunct1] unfolding ms
    by (simp add: config_valid_def config_new_def config_default_def mb_cost_def mb_quality_def model_builder_def
        model_valid_def word_le_nat_alt)
  then obtain p where p: "build_policy ?b = Inr p" by blast
  have e: "last_given epochs_given (1, 1) example_calls = (3, 4)" by (simp add: example_calls_def)
  from typed [THEN conjunct2, THEN conjunct1, rule_format, OF p, unfolded e fst_conv snd_conv]
  have "ps_policy_epoch p = 3" "ps_catalog_epoch p = 4"
    and "mset (ps_models p) = mset (concat (map models_given example_calls))" by blast+
  moreover from this(3) have "length (ps_models p) = 2" using ms by (metis length_Cons list.size(3) numeral_2_eq_2 size_mset)
  moreover have "input_tokens (fold do_input_call [TokensCall 5 6, RiskCall 1 2] (input_builder 1 1)) = 5"
    by (subst typed [THEN conjunct2, THEN conjunct2, THEN conjunct2, THEN conjunct2, THEN conjunct1]) simp
  ultimately show ?thesis using p by blast
qed

end
