(* ===== verification/Provenance.thy ===== *)
theory Provenance
  imports Verify
begin

text \<open>
  Signed policies and decision certificates (\<open>src/src/provenance.rs\<close>, \<open>src/src/certificate.rs\<close>).
  Ed25519 is a parameter; a verifying key is its 32 bytes. Texts of error messages are left out.

  A certificate verifies exactly if it is the one \<open>issue_certificate\<close> returns for the disclosed
  policy, request and decision with the same anchors, and a signature over a policy verifies.
\<close>

section \<open>Signed policies\<close>

definition POLICY_SIGNATURE_CONTEXT :: bytes where
  "POLICY_SIGNATURE_CONTEXT = ascii ''calysig1'' @ [0]"

record signature_scheme =
  ss_public :: "bytes \<Rightarrow> bytes"
  ss_key_ok :: "bytes \<Rightarrow> bool"
  ss_sign :: "bytes \<Rightarrow> bytes \<Rightarrow> bytes"
  ss_verify :: "bytes \<Rightarrow> bytes \<Rightarrow> bytes \<Rightarrow> bool"

record signed_policy =
  sp_policy_digest_hex :: string
  sp_signer_id :: string
  sp_signed_at_epoch_ms :: u64
  sp_public_key_hex :: string
  sp_signature_hex :: string

datatype provenance_error =
    PolicyDigestMismatch string string
  | MalformedField string
  | PolicyBadSignature
  | PolicyUntrustedKey

definition signing_message :: "bytes \<Rightarrow> u64 \<Rightarrow> string \<Rightarrow> bytes" where
  "signing_message digest signed_at signer_id =
     POLICY_SIGNATURE_CONTEXT @ digest @ le_bytes 8 signed_at @ ascii signer_id"

definition hex_nibble :: "u8 \<Rightarrow> u8 option" where
  "hex_nibble byte =
     (if 48 \<le> byte \<and> byte \<le> 57 then Some (byte - 48)
      else if 97 \<le> byte \<and> byte \<le> 102 then Some (byte - 97 + 10) else None)"

fun hex_pairs :: "bytes \<Rightarrow> bytes option" where
  "hex_pairs (a # b # rest) =
     Option.bind (hex_nibble a) (\<lambda>high. Option.bind (hex_nibble b) (\<lambda>low.
       Option.bind (hex_pairs rest) (\<lambda>out. Some ((push_bit 4 high OR low) # out))))"
| "hex_pairs _ = Some []"

definition provenance_parse_hex :: "nat \<Rightarrow> string \<Rightarrow> string \<Rightarrow> provenance_error + bytes" where
  "provenance_parse_hex n field hex =
     (if length hex \<noteq> n * 2 then Inl (MalformedField field)
      else ok_or (MalformedField field) (hex_pairs (ascii hex)))"

definition sign_policy :: "hasher \<Rightarrow> signature_scheme \<Rightarrow> policy_snapshot \<Rightarrow> bytes \<Rightarrow> string \<Rightarrow> u64 \<Rightarrow> signed_policy" where
  "sign_policy H E p seed signer_id signed_at =
     (let digest = hash_bytes (policy_digest H p);
          message = signing_message digest signed_at signer_id
      in \<lparr> sp_policy_digest_hex = bytes_to_hex digest, sp_signer_id = signer_id,
           sp_signed_at_epoch_ms = signed_at, sp_public_key_hex = bytes_to_hex (ss_public E seed),
           sp_signature_hex = bytes_to_hex (ss_sign E seed message) \<rparr>)"

definition verify_signed_policy ::
  "hasher \<Rightarrow> signature_scheme \<Rightarrow> policy_snapshot \<Rightarrow> signed_policy \<Rightarrow> provenance_error + unit" where
  "verify_signed_policy H E p s =
     (let digest = hash_bytes (policy_digest H p); actual_hex = bytes_to_hex digest in
      if sp_policy_digest_hex s \<noteq> actual_hex
      then Inl (PolicyDigestMismatch (sp_policy_digest_hex s) actual_hex)
      else and_then (provenance_parse_hex 32 ''public_key_hex'' (sp_public_key_hex s)) (\<lambda>key.
        if \<not> ss_key_ok E key then Inl (MalformedField ''public_key_hex'')
        else and_then (provenance_parse_hex 64 ''signature_hex'' (sp_signature_hex s)) (\<lambda>sg.
          if ss_verify E key (signing_message digest (sp_signed_at_epoch_ms s) (sp_signer_id s)) sg
          then Inr () else Inl PolicyBadSignature)))"

definition verify_signed_policy_with_key ::
  "hasher \<Rightarrow> signature_scheme \<Rightarrow> policy_snapshot \<Rightarrow> signed_policy \<Rightarrow> bytes \<Rightarrow> provenance_error + unit" where
  "verify_signed_policy_with_key H E p s trusted =
     (if sp_public_key_hex s \<noteq> bytes_to_hex trusted then Inl PolicyUntrustedKey else verify_signed_policy H E p s)"

section \<open>Certificates\<close>

definition CERTIFICATE_SCHEMA :: string where
  "CERTIFICATE_SCHEMA = ''calybris-certificate-v1''"

record certificate_state =
  cs_step :: u64
  cs_state_digest_before_hex :: string
  cs_state_digest_after_hex :: string

record certificate_wal =
  cw_sequence :: u64
  cw_entry_hash :: string

record certificate_signature =
  cg_signer_id :: string
  cg_signed_at_epoch_ms :: u64
  cg_public_key_hex :: string
  cg_signature_hex :: string

record decision_certificate =
  dc_schema_version :: string
  dc_policy_epoch :: u64
  dc_catalog_epoch :: u64
  dc_policy_digest_hex :: string
  dc_input_digest_hex :: string
  dc_decision_digest_hex :: string
  dc_replay_valid :: bool
  dc_state :: "certificate_state option"
  dc_wal :: "certificate_wal option"
  dc_signature :: "certificate_signature option"

record certificate_anchors =
  ca_state :: "certificate_state option"
  ca_wal :: "certificate_wal option"
  ca_signature :: "certificate_signature option"

definition issue_certificate ::
  "hasher \<Rightarrow> policy_snapshot \<Rightarrow> kernel_input \<Rightarrow> kernel_decision \<Rightarrow> certificate_anchors
    \<Rightarrow> verify_result + decision_certificate" where
  "issue_certificate H p i d anchors =
     (case verify_decision H p i d of
        Valid \<Rightarrow>
          Inr \<lparr> dc_schema_version = CERTIFICATE_SCHEMA, dc_policy_epoch = d_policy_epoch d,
                dc_catalog_epoch = d_catalog_epoch d,
                dc_policy_digest_hex = digest_to_hex (policy_digest H p),
                dc_input_digest_hex = digest_to_hex (input_digest H i),
                dc_decision_digest_hex = digest_to_hex (decision_digest H d), dc_replay_valid = True,
                dc_state = ca_state anchors, dc_wal = ca_wal anchors, dc_signature = ca_signature anchors \<rparr>
      | error \<Rightarrow> Inl error)"

datatype certificate_error =
    CertUnknownSchema string
  | CertPolicyDigestMismatch
  | CertInputDigestMismatch
  | CertDecisionDigestMismatch
  | CertReplayInvalid
  | CertReplayFlagFalse

definition verify_certificate ::
  "hasher \<Rightarrow> decision_certificate \<Rightarrow> policy_snapshot \<Rightarrow> kernel_input \<Rightarrow> kernel_decision
    \<Rightarrow> certificate_error + unit" where
  "verify_certificate H c p i d =
     (if dc_schema_version c \<noteq> CERTIFICATE_SCHEMA then Inl (CertUnknownSchema (dc_schema_version c))
      else if \<not> dc_replay_valid c then Inl CertReplayFlagFalse
      else if dc_policy_epoch c \<noteq> d_policy_epoch d \<or> dc_catalog_epoch c \<noteq> d_catalog_epoch d
        then Inl CertReplayInvalid
      else if dc_policy_digest_hex c \<noteq> digest_to_hex (policy_digest H p) then Inl CertPolicyDigestMismatch
      else if dc_input_digest_hex c \<noteq> digest_to_hex (input_digest H i) then Inl CertInputDigestMismatch
      else if dc_decision_digest_hex c \<noteq> digest_to_hex (decision_digest H d) then Inl CertDecisionDigestMismatch
      else if verify_decision H p i d \<noteq> Valid then Inl CertReplayInvalid
      else Inr ())"

datatype certificate_scoped_error =
    ScopedCertificate certificate_error
  | ScopedStateAnchorMismatch
  | ScopedWalAnchorMismatch

definition verify_certificate_scoped ::
  "hasher \<Rightarrow> decision_certificate \<Rightarrow> policy_snapshot \<Rightarrow> kernel_input \<Rightarrow> kernel_decision
    \<Rightarrow> certificate_state option \<Rightarrow> certificate_wal option \<Rightarrow> certificate_scoped_error + unit" where
  "verify_certificate_scoped H c p i d expected_state expected_wal =
     and_then (map_err ScopedCertificate (verify_certificate H c p i d)) (\<lambda>_.
       if dc_state c \<noteq> expected_state then Inl ScopedStateAnchorMismatch
       else if dc_wal c \<noteq> expected_wal then Inl ScopedWalAnchorMismatch
       else Inr ())"

definition verify_certificate_signature ::
  "hasher \<Rightarrow> signature_scheme \<Rightarrow> decision_certificate \<Rightarrow> policy_snapshot \<Rightarrow> bytes option
    \<Rightarrow> provenance_error + unit" where
  "verify_certificate_signature H E c p trusted =
     (case dc_signature c of
        None \<Rightarrow> Inl PolicyBadSignature
      | Some sg \<Rightarrow>
          let s = \<lparr> sp_policy_digest_hex = dc_policy_digest_hex c, sp_signer_id = cg_signer_id sg,
                    sp_signed_at_epoch_ms = cg_signed_at_epoch_ms sg, sp_public_key_hex = cg_public_key_hex sg,
                    sp_signature_hex = cg_signature_hex sg \<rparr>
          in (case trusted of
                Some key \<Rightarrow> verify_signed_policy_with_key H E p s key
              | None \<Rightarrow> verify_signed_policy H E p s))"

definition from_signed_policy :: "signed_policy \<Rightarrow> certificate_signature" where
  "from_signed_policy s = \<lparr> cg_signer_id = sp_signer_id s, cg_signed_at_epoch_ms = sp_signed_at_epoch_ms s,
     cg_public_key_hex = sp_public_key_hex s, cg_signature_hex = sp_signature_hex s \<rparr>"

section \<open>Hexadecimal fields\<close>

lemma hex_nibble_digit [simp]: "n < 16 \<Longrightarrow> hex_nibble (of_nat (of_char (hex_digit n))) = Some (of_nat n)"
  by (drule nibble_cases) (auto simp: hex_digit_byte hex_nibble_def)

lemma hex_pairs_hex [simp]: "hex_pairs (ascii (bytes_to_hex bs)) = Some bs"
proof (induction bs)
  case Nil
  then show ?case by (simp add: bytes_to_hex_def)
next
  case (Cons b bs)
  then show ?case by (simp add: bytes_to_hex_Cons byte_of_nibbles)
qed

lemma provenance_parse_hex_hex [simp]:
  "length bs = n \<Longrightarrow> provenance_parse_hex n field (bytes_to_hex bs) = Inr bs"
  by (simp add: provenance_parse_hex_def)

text \<open>Lower case only, so a field has one spelling: what parses is the hexadecimal of what it parses to.\<close>

lemma hex_nibble_Some:
  assumes "hex_nibble byte = Some v"
  obtains n where "n < 16" "v = of_nat n" "byte = of_nat (of_char (hex_digit n))"
proof (rule that [of "unat v"])
  have "unat byte \<in> {48..57} \<and> v = byte - 48 \<or> unat byte \<in> {97..102} \<and> v = byte - 87"
    using assms by (auto simp: hex_nibble_def word_le_nat_alt split: if_splits)
  moreover have "unat (byte - 48) = unat byte - 48" if "48 \<le> unat byte"
    using that by (simp add: unat_sub word_le_nat_alt)
  moreover have "unat (byte - 87) = unat byte - 87" if "97 \<le> unat byte"
    using that by (simp add: unat_sub word_le_nat_alt)
  ultimately show v: "unat v < 16" and "byte = of_nat (of_char (hex_digit (unat v)))"
    by (auto simp: hex_digit_byte)
qed simp

lemma hex_of_nibbles:
  assumes "m < 16" "n < 16"
  shows "bytes_to_hex ((push_bit 4 (of_nat m) OR of_nat n) # out) = hex_digit m # hex_digit n # bytes_to_hex out"
proof -
  define b :: u8 where "b = of_nat (16 * m + n)"
  have b: "unat b = 16 * m + n" 
    unfolding b_def using assms by (simp add: unat_of_nat take_bit_eq_mod del: of_nat_add of_nat_mult)
  then have "push_bit 4 (of_nat m) OR of_nat n = b" using assms byte_of_nibbles [of b] by simp
  then show ?thesis using assms b by (simp add: bytes_to_hex_Cons)
qed

lemma hex_pairs_Some:
  assumes "hex_pairs xs = Some bs" "even (length xs)"
  shows "xs = ascii (bytes_to_hex bs)"
  using assms
proof (induction xs arbitrary: bs rule: hex_pairs.induct)
  case (1 a b rest)
  then obtain hi lo out where p: "hex_nibble a = Some hi" "hex_nibble b = Some lo" "hex_pairs rest = Some out"
    "bs = (push_bit 4 hi OR lo) # out" by (auto simp: bind_eq_Some_conv)
  then have "rest = ascii (bytes_to_hex out)" using 1 by simp
  moreover obtain m where m: "m < 16" "hi = of_nat m" "a = of_nat (of_char (hex_digit m))" using p(1) by (rule hex_nibble_Some)
  moreover obtain n where n: "n < 16" "lo = of_nat n" "b = of_nat (of_char (hex_digit n))" using p(2) by (rule hex_nibble_Some)
  ultimately show ?case using p(4) by (simp add: hex_of_nibbles)
qed (auto simp: bytes_to_hex_def)

lemma provenance_parse_hex_Inr:
  "provenance_parse_hex n field hex = Inr bs \<longleftrightarrow> hex = bytes_to_hex bs \<and> length bs = n"
proof
  assume a: "provenance_parse_hex n field hex = Inr bs"
  then have "length hex = n * 2" "hex_pairs (ascii hex) = Some bs"
    by (auto simp: provenance_parse_hex_def split: if_splits option.splits)
  then have "hex = bytes_to_hex bs" using hex_pairs_Some [of "ascii hex" bs] by simp
  with a show "hex = bytes_to_hex bs \<and> length bs = n"
    by (auto simp: provenance_parse_hex_def split: if_splits)
qed auto

lemma bytes_to_hex_inject [simp]: "bytes_to_hex a = bytes_to_hex b \<longleftrightarrow> a = b"
  by (metis hex_pairs_hex option.inject)

section \<open>What verification accepts\<close>

text \<open>The signature of a policy verifies, under the key of its signer.\<close>

definition scheme_ok :: "signature_scheme \<Rightarrow> bool" where
  "scheme_ok E \<longleftrightarrow> (\<forall>seed. length (ss_public E seed) = 32 \<and> ss_key_ok E (ss_public E seed)
     \<and> (\<forall>m. length (ss_sign E seed m) = 64 \<and> ss_verify E (ss_public E seed) m (ss_sign E seed m)))"

lemma scheme_okD:
  assumes "scheme_ok E"
  shows "length (ss_public E seed) = 32" "ss_key_ok E (ss_public E seed)" "length (ss_sign E seed m) = 64"
    "ss_verify E (ss_public E seed) m (ss_sign E seed m)"
  using assms by (auto simp: scheme_ok_def)

lemma sign_policy_verifies:
  assumes "scheme_ok E"
  shows "verify_signed_policy_with_key H E p (sign_policy H E p seed who at) (ss_public E seed) = Inr ()"
  using scheme_okD [OF assms]
  by (simp add: verify_signed_policy_with_key_def verify_signed_policy_def sign_policy_def Let_def)

lemma signing_message_inject:
  assumes "length a = length b"
  shows "signing_message a t w = signing_message b t' w' \<longleftrightarrow> a = b \<and> t = t' \<and> w = w'"
  using assms by (auto simp: signing_message_def le_bytes_inject simp del: le_bytes.simps)

text \<open>
  A certificate is accepted, with its state and log anchors, exactly if it is the certificate
  \<open>issue_certificate\<close> returns for the disclosed policy, request and decision and for the expected
  anchors; so the decision is the one the kernel makes, every digest and epoch is the recomputed
  one, and no field but the signature can be changed without refusal.
\<close>

lemma certificate_accepted_iff_issued:
  "verify_certificate_scoped H c p i d st w = Inr () \<longleftrightarrow>
     issue_certificate H p i d \<lparr> ca_state = st, ca_wal = w, ca_signature = dc_signature c \<rparr> = Inr c
     \<and> d = prescribe p i"
proof (cases "d = prescribe p i")
  case True
  then have v: "verify_decision H p i d = Valid" by (auto simp: verify_decision_Valid)
  have "issue_certificate H p i d \<lparr> ca_state = st, ca_wal = w, ca_signature = dc_signature c \<rparr> = Inr c \<longleftrightarrow>
      c = \<lparr> dc_schema_version = CERTIFICATE_SCHEMA, dc_policy_epoch = d_policy_epoch d,
                dc_catalog_epoch = d_catalog_epoch d,
                dc_policy_digest_hex = digest_to_hex (policy_digest H p),
                dc_input_digest_hex = digest_to_hex (input_digest H i),
                dc_decision_digest_hex = digest_to_hex (decision_digest H d), dc_replay_valid = True,
                dc_state = st, dc_wal = w, dc_signature = dc_signature c \<rparr>"
    by (auto simp: issue_certificate_def v)
  also have "\<dots> \<longleftrightarrow> verify_certificate_scoped H c p i d st w = Inr ()"
    by (cases c) (auto simp: verify_certificate_scoped_def verify_certificate_def v)
  finally show ?thesis using True by simp
next
  case False
  then have "verify_decision H p i d \<noteq> Valid" by (auto simp: verify_decision_Valid)
  then have "verify_certificate_scoped H c p i d st w \<noteq> Inr ()"
    by (auto simp: verify_certificate_scoped_def verify_certificate_def)
  then show ?thesis using False by simp
qed

end
