(* ===== verification/Receipt.thy ===== *)
theory Receipt
  imports Provenance
begin

text \<open>
  Decision receipts (\<open>src/src/receipt.rs\<close>): a replay-verified decision bound to its position in the
  state trajectory and in the log by one digest over all claims, which is signed.

  A receipt verifies exactly if it is the one \<open>issue_receipt\<close> returns; the digest fixes every claim
  up to a collision; and with a key that signs nothing but receipts, a receipt whose signature is
  accepted is one that was signed.
\<close>

section \<open>Receipts\<close>

definition RECEIPT_SCHEMA :: string where
  "RECEIPT_SCHEMA = ''calybris.receipt.v1''"

definition RECEIPT_DIGEST_TAG :: bytes where
  "RECEIPT_DIGEST_TAG = ascii ''calyrcp1'' @ [0]"

definition RECEIPT_SIGNATURE_CONTEXT :: bytes where
  "RECEIPT_SIGNATURE_CONTEXT = ascii ''calyrcs1'' @ [0]"

record receipt_state =
  rs_step :: u64
  rs_state_digest_before_hex :: string
  rs_state_digest_after_hex :: string

record receipt_wal =
  rw_sequence :: u64
  rw_entry_hash :: string

record receipt_anchors =
  ra_state :: "receipt_state option"
  ra_wal :: "receipt_wal option"

record receipt_signature =
  rg_signer_id :: string
  rg_signed_at_epoch_ms :: u64
  rg_public_key_hex :: string
  rg_signature_hex :: string

record decision_receipt =
  dr_schema_version :: string
  dr_policy_epoch :: u64
  dr_catalog_epoch :: u64
  dr_policy_digest_hex :: string
  dr_input_digest_hex :: string
  dr_decision_digest_hex :: string
  dr_replay_valid :: bool
  dr_state :: "receipt_state option"
  dr_wal :: "receipt_wal option"
  dr_claims_digest_hex :: string
  dr_signature :: "receipt_signature option"

datatype receipt_error =
    ReceiptUnknownSchema string
  | ReceiptReplayFlagFalse
  | ReceiptPolicyDigestMismatch
  | ReceiptInputDigestMismatch
  | ReceiptDecisionDigestMismatch
  | ReceiptReplayInvalid
  | ReceiptMalformed string
  | ReceiptClaimsDigestMismatch
  | ReceiptMissingSignature
  | ReceiptBadSignature
  | ReceiptUntrustedKey
  | ReceiptWalAnchorMismatch
  | ReceiptStateAnchorMismatch

definition receipt_parse_hex :: "nat \<Rightarrow> string \<Rightarrow> string \<Rightarrow> receipt_error + bytes" where
  "receipt_parse_hex n field hex =
     (if length hex \<noteq> n * 2 then Inl (ReceiptMalformed field)
      else ok_or (ReceiptMalformed field) (hex_pairs (ascii hex)))"

section \<open>The claims digest\<close>

text \<open>What the two helpers feed to the hasher; \<open>u64::try_from\<close> on a length cannot fail on the supported targets.\<close>

definition hash_optional_state :: "receipt_state option \<Rightarrow> receipt_error + bytes" where
  "hash_optional_state st =
     (case st of
        Some s \<Rightarrow>
          if rs_step s = 0 then Inl (ReceiptMalformed ''state.step'')
          else and_then (receipt_parse_hex 32 ''state_digest_before_hex'' (rs_state_digest_before_hex s)) (\<lambda>before.
            and_then (receipt_parse_hex 32 ''state_digest_after_hex'' (rs_state_digest_after_hex s)) (\<lambda>after.
              Inr ([1] @ le_bytes 8 (rs_step s) @ before @ after)))
      | None \<Rightarrow> Inr [0])"

definition hash_optional_wal :: "receipt_wal option \<Rightarrow> receipt_error + bytes" where
  "hash_optional_wal w =
     (case w of
        Some w \<Rightarrow>
          if rw_sequence w = 0 then Inl (ReceiptMalformed ''wal.sequence'')
          else and_then (receipt_parse_hex 32 ''wal.entry_hash'' (rw_entry_hash w)) (\<lambda>h.
            Inr ([1] @ le_bytes 8 (rw_sequence w) @ h))
      | None \<Rightarrow> Inr [0])"

definition claims_bytes :: "decision_receipt \<Rightarrow> receipt_error + bytes" where
  "claims_bytes r =
     and_then (receipt_parse_hex 32 ''policy_digest_hex'' (dr_policy_digest_hex r)) (\<lambda>policy.
     and_then (receipt_parse_hex 32 ''input_digest_hex'' (dr_input_digest_hex r)) (\<lambda>input.
     and_then (receipt_parse_hex 32 ''decision_digest_hex'' (dr_decision_digest_hex r)) (\<lambda>decision.
     and_then (hash_optional_state (dr_state r)) (\<lambda>state.
     and_then (hash_optional_wal (dr_wal r)) (\<lambda>wal.
       Inr (RECEIPT_DIGEST_TAG @ le_bytes 8 (of_nat (length (dr_schema_version r)) :: u64) @ ascii (dr_schema_version r)
         @ le_bytes 8 (dr_policy_epoch r) @ le_bytes 8 (dr_catalog_epoch r)
         @ policy @ input @ decision @ [of_bool (dr_replay_valid r)] @ state @ wal))))))"

definition receipt_claims_digest :: "hasher \<Rightarrow> decision_receipt \<Rightarrow> receipt_error + hash" where
  "receipt_claims_digest H r = and_then (claims_bytes r) (\<lambda>bs. Inr (H bs))"

section \<open>Issuing and verifying\<close>

definition issue_receipt ::
  "hasher \<Rightarrow> policy_snapshot \<Rightarrow> kernel_input \<Rightarrow> kernel_decision \<Rightarrow> receipt_anchors
    \<Rightarrow> receipt_error + decision_receipt" where
  "issue_receipt H p i d anchors =
     (if verify_decision H p i d \<noteq> Valid then Inl ReceiptReplayInvalid
      else
        let r = \<lparr> dr_schema_version = RECEIPT_SCHEMA, dr_policy_epoch = d_policy_epoch d,
                  dr_catalog_epoch = d_catalog_epoch d,
                  dr_policy_digest_hex = digest_to_hex (policy_digest H p),
                  dr_input_digest_hex = digest_to_hex (input_digest H i),
                  dr_decision_digest_hex = digest_to_hex (decision_digest H d), dr_replay_valid = True,
                  dr_state = ra_state anchors, dr_wal = ra_wal anchors, dr_claims_digest_hex = [],
                  dr_signature = None \<rparr>
        in and_then (receipt_claims_digest H r) (\<lambda>claims.
             Inr (r\<lparr> dr_claims_digest_hex := digest_to_hex claims \<rparr>)))"

definition verify_receipt ::
  "hasher \<Rightarrow> decision_receipt \<Rightarrow> policy_snapshot \<Rightarrow> kernel_input \<Rightarrow> kernel_decision \<Rightarrow> receipt_error + unit" where
  "verify_receipt H r p i d =
     (if dr_schema_version r \<noteq> RECEIPT_SCHEMA then Inl (ReceiptUnknownSchema (dr_schema_version r))
      else if \<not> dr_replay_valid r then Inl ReceiptReplayFlagFalse
      else if dr_policy_epoch r \<noteq> d_policy_epoch d \<or> dr_catalog_epoch r \<noteq> d_catalog_epoch d
        then Inl ReceiptReplayInvalid
      else if dr_policy_digest_hex r \<noteq> digest_to_hex (policy_digest H p) then Inl ReceiptPolicyDigestMismatch
      else if dr_input_digest_hex r \<noteq> digest_to_hex (input_digest H i) then Inl ReceiptInputDigestMismatch
      else if dr_decision_digest_hex r \<noteq> digest_to_hex (decision_digest H d) then Inl ReceiptDecisionDigestMismatch
      else if verify_decision H p i d \<noteq> Valid then Inl ReceiptReplayInvalid
      else and_then (receipt_claims_digest H r) (\<lambda>claims.
        if dr_claims_digest_hex r \<noteq> digest_to_hex claims then Inl ReceiptClaimsDigestMismatch else Inr ()))"

definition verify_receipt_wal :: "decision_receipt \<Rightarrow> u64 \<Rightarrow> string \<Rightarrow> receipt_error + unit" where
  "verify_receipt_wal r sq entry_hash =
     (case dr_wal r of
        Some w \<Rightarrow> if rw_sequence w = sq \<and> rw_entry_hash w = entry_hash then Inr () else Inl ReceiptWalAnchorMismatch
      | None \<Rightarrow> Inl ReceiptWalAnchorMismatch)"

definition verify_receipt_state :: "decision_receipt \<Rightarrow> u64 \<Rightarrow> string \<Rightarrow> string \<Rightarrow> receipt_error + unit" where
  "verify_receipt_state r step before after =
     (case dr_state r of
        Some s \<Rightarrow>
          if rs_step s = step \<and> rs_state_digest_before_hex s = before \<and> rs_state_digest_after_hex s = after
          then Inr () else Inl ReceiptStateAnchorMismatch
      | None \<Rightarrow> Inl ReceiptStateAnchorMismatch)"

definition receipt_signing_message :: "bytes \<Rightarrow> u64 \<Rightarrow> string \<Rightarrow> bytes" where
  "receipt_signing_message claims signed_at signer_id =
     RECEIPT_SIGNATURE_CONTEXT @ claims @ le_bytes 8 signed_at @ ascii signer_id"

definition sign_receipt ::
  "hasher \<Rightarrow> signature_scheme \<Rightarrow> bytes \<Rightarrow> string \<Rightarrow> u64 \<Rightarrow> decision_receipt \<Rightarrow> receipt_error + decision_receipt" where
  "sign_receipt H E seed signer_id signed_at r =
     and_then (receipt_claims_digest H r) (\<lambda>claims.
       if dr_claims_digest_hex r \<noteq> digest_to_hex claims then Inl ReceiptClaimsDigestMismatch
       else
         let message = receipt_signing_message (hash_bytes claims) signed_at signer_id
         in Inr (r\<lparr> dr_signature := Some
              \<lparr> rg_signer_id = signer_id, rg_signed_at_epoch_ms = signed_at,
                rg_public_key_hex = bytes_to_hex (ss_public E seed),
                rg_signature_hex = bytes_to_hex (ss_sign E seed message) \<rparr> \<rparr>))"

definition verify_receipt_signature ::
  "hasher \<Rightarrow> signature_scheme \<Rightarrow> bytes option \<Rightarrow> decision_receipt \<Rightarrow> receipt_error + unit" where
  "verify_receipt_signature H E trusted r =
     and_then (ok_or ReceiptMissingSignature (dr_signature r)) (\<lambda>sg.
     and_then (receipt_claims_digest H r) (\<lambda>claims.
       if dr_claims_digest_hex r \<noteq> digest_to_hex claims then Inl ReceiptClaimsDigestMismatch
       else and_then (receipt_parse_hex 32 ''signature.public_key_hex'' (rg_public_key_hex sg)) (\<lambda>key.
         if \<not> ss_key_ok E key then Inl (ReceiptMalformed ''signature.public_key_hex'')
         else if trusted \<noteq> None \<and> trusted \<noteq> Some key then Inl ReceiptUntrustedKey
         else and_then (receipt_parse_hex 64 ''signature.signature_hex'' (rg_signature_hex sg)) (\<lambda>sig.
           if ss_verify E key
                (receipt_signing_message (hash_bytes claims) (rg_signed_at_epoch_ms sg) (rg_signer_id sg)) sig
           then Inr () else Inl ReceiptBadSignature))))"

definition verify_receipt_full ::
  "hasher \<Rightarrow> signature_scheme \<Rightarrow> decision_receipt \<Rightarrow> policy_snapshot \<Rightarrow> kernel_input \<Rightarrow> kernel_decision
    \<Rightarrow> bytes \<Rightarrow> receipt_state \<Rightarrow> receipt_wal \<Rightarrow> receipt_error + unit" where
  "verify_receipt_full H E r p i d trusted st w =
     and_then (verify_receipt H r p i d) (\<lambda>_.
     and_then (verify_receipt_signature H E (Some trusted) r) (\<lambda>_.
     and_then (verify_receipt_state r (rs_step st) (rs_state_digest_before_hex st) (rs_state_digest_after_hex st)) (\<lambda>_.
       verify_receipt_wal r (rw_sequence w) (rw_entry_hash w))))"

section \<open>The digest fixes the claims\<close>

lemma receipt_parse_hex_Inr:
  "receipt_parse_hex n field hex = Inr bs \<longleftrightarrow> hex = bytes_to_hex bs \<and> length bs = n"
proof -
  have "receipt_parse_hex n field hex = Inr bs \<longleftrightarrow> provenance_parse_hex n field hex = Inr bs"
    by (auto simp: receipt_parse_hex_def provenance_parse_hex_def split: option.splits)
  then show ?thesis by (simp add: provenance_parse_hex_Inr)
qed

lemma hash_optional_state_Inr:
  "hash_optional_state st = Inr bs \<longleftrightarrow>
     (case st of None \<Rightarrow> bs = [0]
      | Some s \<Rightarrow> rs_step s \<noteq> 0 \<and> (\<exists>a b. length a = 32 \<and> length b = 32 \<and> rs_state_digest_before_hex s = bytes_to_hex a
          \<and> rs_state_digest_after_hex s = bytes_to_hex b \<and> bs = 1 # le_bytes 8 (rs_step s) @ a @ b))"
  by (cases st) (auto simp: hash_optional_state_def receipt_parse_hex_Inr simp del: le_bytes.simps)

lemma hash_optional_wal_Inr:
  "hash_optional_wal w = Inr bs \<longleftrightarrow>
     (case w of None \<Rightarrow> bs = [0]
      | Some w \<Rightarrow> rw_sequence w \<noteq> 0 \<and> (\<exists>h. length h = 32 \<and> rw_entry_hash w = bytes_to_hex h
          \<and> bs = 1 # le_bytes 8 (rw_sequence w) @ h))"
  by (cases w) (auto simp: hash_optional_wal_def receipt_parse_hex_Inr simp del: le_bytes.simps)

lemma hash_optional_state_append:
  assumes "hash_optional_state s = Inr a" "hash_optional_state t = Inr b" "a @ x = b @ y"
  shows "s = t \<and> x = y"
  using assms
  by (cases s; cases t) (auto simp: hash_optional_state_Inr le_bytes_inject intro: receipt_state.equality simp del: le_bytes.simps)

lemma hash_optional_wal_eq:
  assumes "hash_optional_wal s = Inr a" "hash_optional_wal t = Inr a"
  shows "s = t"
  using assms
  by (cases s; cases t) (auto simp: hash_optional_wal_Inr le_bytes_inject intro: receipt_wal.equality simp del: le_bytes.simps)

text \<open>The receipt without its own digest and signature.\<close>

definition claims_of :: "decision_receipt \<Rightarrow> decision_receipt" where
  "claims_of r = r\<lparr> dr_claims_digest_hex := [], dr_signature := None \<rparr>"

lemma claims_bytes_Inr:
  "claims_bytes r = Inr bs \<longleftrightarrow>
     (\<exists>p i d s w. dr_policy_digest_hex r = bytes_to_hex p \<and> length p = 32
        \<and> dr_input_digest_hex r = bytes_to_hex i \<and> length i = 32
        \<and> dr_decision_digest_hex r = bytes_to_hex d \<and> length d = 32
        \<and> hash_optional_state (dr_state r) = Inr s \<and> hash_optional_wal (dr_wal r) = Inr w
        \<and> bs = RECEIPT_DIGEST_TAG @ le_bytes 8 (of_nat (length (dr_schema_version r)) :: u64) @ ascii (dr_schema_version r)
            @ le_bytes 8 (dr_policy_epoch r) @ le_bytes 8 (dr_catalog_epoch r)
            @ p @ i @ d @ of_bool (dr_replay_valid r) # s @ w)"
  by (auto simp: claims_bytes_def receipt_parse_hex_Inr simp del: le_bytes.simps)

lemma append_eq_prefix: "length a = length b \<Longrightarrow> a @ x = b @ y \<longleftrightarrow> a = b \<and> x = y"
  by simp

lemma le8_inject: "le_bytes 8 a = le_bytes 8 b \<longleftrightarrow> a = b" for a b :: u64
  by (simp add: le_bytes_inject del: le_bytes.simps)

lemma claims_bytes_inject:
  assumes "claims_bytes r = Inr bs" "claims_bytes q = Inr bs"
    and "length (dr_schema_version r) < 2 ^ 64" "length (dr_schema_version q) < 2 ^ 64"
  shows "claims_of r = claims_of q"
proof -
  obtain p i d s w where r: "dr_policy_digest_hex r = bytes_to_hex p" "length p = 32"
    "dr_input_digest_hex r = bytes_to_hex i" "length i = 32"
    "dr_decision_digest_hex r = bytes_to_hex d" "length d = 32"
    "hash_optional_state (dr_state r) = Inr s" "hash_optional_wal (dr_wal r) = Inr w"
    "bs = RECEIPT_DIGEST_TAG @ le_bytes 8 (of_nat (length (dr_schema_version r)) :: u64) @ ascii (dr_schema_version r)
            @ le_bytes 8 (dr_policy_epoch r) @ le_bytes 8 (dr_catalog_epoch r)
            @ p @ i @ d @ of_bool (dr_replay_valid r) # s @ w"
    using assms(1) unfolding claims_bytes_Inr by blast
  obtain p' i' d' s' w' where q: "dr_policy_digest_hex q = bytes_to_hex p'" "length p' = 32"
    "dr_input_digest_hex q = bytes_to_hex i'" "length i' = 32"
    "dr_decision_digest_hex q = bytes_to_hex d'" "length d' = 32"
    "hash_optional_state (dr_state q) = Inr s'" "hash_optional_wal (dr_wal q) = Inr w'"
    "bs = RECEIPT_DIGEST_TAG @ le_bytes 8 (of_nat (length (dr_schema_version q)) :: u64) @ ascii (dr_schema_version q)
            @ le_bytes 8 (dr_policy_epoch q) @ le_bytes 8 (dr_catalog_epoch q)
            @ p' @ i' @ d' @ of_bool (dr_replay_valid q) # s' @ w'"
    using assms(2) unfolding claims_bytes_Inr by blast
  note split = append_eq_prefix le8_inject
  have "le_bytes 8 (of_nat (length (dr_schema_version r)) :: u64) @ ascii (dr_schema_version r)
            @ le_bytes 8 (dr_policy_epoch r) @ le_bytes 8 (dr_catalog_epoch r)
            @ p @ i @ d @ of_bool (dr_replay_valid r) # s @ w
      = le_bytes 8 (of_nat (length (dr_schema_version q)) :: u64) @ ascii (dr_schema_version q)
            @ le_bytes 8 (dr_policy_epoch q) @ le_bytes 8 (dr_catalog_epoch q)
            @ p' @ i' @ d' @ of_bool (dr_replay_valid q) # s' @ w'"
    using trans [OF r(9) [symmetric] q(9)] by (simp only: same_append_eq)
  then have n: "(of_nat (length (dr_schema_version r)) :: u64) = of_nat (length (dr_schema_version q))"
    and rest: "ascii (dr_schema_version r) @ le_bytes 8 (dr_policy_epoch r) @ le_bytes 8 (dr_catalog_epoch r)
            @ p @ i @ d @ of_bool (dr_replay_valid r) # s @ w
      = ascii (dr_schema_version q) @ le_bytes 8 (dr_policy_epoch q) @ le_bytes 8 (dr_catalog_epoch q)
            @ p' @ i' @ d' @ of_bool (dr_replay_valid q) # s' @ w'"
    by (simp_all only: split length_le_bytes)
  have "length (dr_schema_version r) = length (dr_schema_version q)"
    using n assms(3,4) by (simp add: word_of_nat_eq_iff take_bit_nat_eq_self)
  with rest r(2,4,6) q(2,4,6) have eq: "dr_schema_version r = dr_schema_version q \<and> dr_policy_epoch r = dr_policy_epoch q
      \<and> dr_catalog_epoch r = dr_catalog_epoch q \<and> p = p' \<and> i = i' \<and> d = d'
      \<and> (of_bool (dr_replay_valid r) :: u8) = of_bool (dr_replay_valid q) \<and> s @ w = s' @ w'"
    by (simp only: split length_le_bytes length_ascii ascii_inject list.inject)
  then have flag: "dr_replay_valid r = dr_replay_valid q" by (simp add: of_bool_eq_iff)
  from eq have st: "dr_state r = dr_state q" "w = w'"
    using hash_optional_state_append [OF r(7) q(7), of w w'] by simp_all
  then have "dr_wal r = dr_wal q" using hash_optional_wal_eq [OF r(8)] q(8) by simp
  then show ?thesis using eq flag st(1) r(1,3,5) q(1,3,5)
    by (intro decision_receipt.equality) (simp_all add: claims_of_def)
qed

section \<open>What verification accepts\<close>

lemma claims_digest_cong: "claims_of r = claims_of q \<Longrightarrow> receipt_claims_digest H r = receipt_claims_digest H q"
  by (cases r; cases q) (simp add: claims_of_def receipt_claims_digest_def claims_bytes_def)

lemma receipt_claims_digest_Inr: "receipt_claims_digest H r = Inr h \<longleftrightarrow> (\<exists>bs. claims_bytes r = Inr bs \<and> h = H bs)"
  by (auto simp: receipt_claims_digest_def)

text \<open>
  A receipt is accepted exactly if it is the receipt \<open>issue_receipt\<close> returns for the disclosed
  policy, request and decision with its own anchors, up to the signature; so no claim of it can be
  changed without refusal, and the decision is the one the kernel makes.
\<close>

lemma receipt_accepted_iff_issued:
  "verify_receipt H r p i d = Inr () \<longleftrightarrow>
     issue_receipt H p i d \<lparr> ra_state = dr_state r, ra_wal = dr_wal r \<rparr> = Inr (r\<lparr> dr_signature := None \<rparr>)
     \<and> d = prescribe p i"
proof (cases "d = prescribe p i")
  case True
  then have v: "verify_decision H p i d = Valid" by (auto simp: verify_decision_Valid)
  define r0 where "r0 = \<lparr> dr_schema_version = RECEIPT_SCHEMA, dr_policy_epoch = d_policy_epoch d,
      dr_catalog_epoch = d_catalog_epoch d, dr_policy_digest_hex = digest_to_hex (policy_digest H p),
      dr_input_digest_hex = digest_to_hex (input_digest H i),
      dr_decision_digest_hex = digest_to_hex (decision_digest H d), dr_replay_valid = True,
      dr_state = dr_state r, dr_wal = dr_wal r, dr_claims_digest_hex = [], dr_signature = None \<rparr>"
  have "issue_receipt H p i d \<lparr> ra_state = dr_state r, ra_wal = dr_wal r \<rparr> = Inr (r\<lparr> dr_signature := None \<rparr>) \<longleftrightarrow>
      (\<exists>h. receipt_claims_digest H r0 = Inr h \<and> r\<lparr> dr_signature := None \<rparr> = r0\<lparr> dr_claims_digest_hex := digest_to_hex h \<rparr>)"
    by (auto simp: issue_receipt_def v Let_def r0_def)
  also have "\<dots> \<longleftrightarrow> claims_of r = r0 \<and> (\<exists>h. receipt_claims_digest H r = Inr h \<and> dr_claims_digest_hex r = digest_to_hex h)"
  proof -
    have "claims_of r = r0" if "r\<lparr> dr_signature := None \<rparr> = r0\<lparr> dr_claims_digest_hex := x \<rparr>" for x
      using arg_cong [OF that, of claims_of] by (cases r) (simp add: claims_of_def r0_def)
    moreover have "receipt_claims_digest H r0 = receipt_claims_digest H r" if "claims_of r = r0"
      using that by (intro claims_digest_cong) (auto simp: claims_of_def)
    moreover have "r\<lparr> dr_signature := None \<rparr> = r0\<lparr> dr_claims_digest_hex := x \<rparr> \<longleftrightarrow> dr_claims_digest_hex r = x"
      if "claims_of r = r0" for x
      using that by (cases r) (auto simp: claims_of_def)
    ultimately show ?thesis by metis
  qed
  also have "\<dots> \<longleftrightarrow> verify_receipt H r p i d = Inr ()"
    by (cases r) (auto simp: verify_receipt_def v claims_of_def r0_def)
  finally show ?thesis using True by simp
next
  case False
  then show ?thesis by (auto simp: verify_receipt_def verify_decision_Valid split: if_splits)
qed

lemma receipt_signing_message_inject:
  "receipt_signing_message (hash_bytes g) t v = receipt_signing_message (hash_bytes h) t' v'
    \<longleftrightarrow> g = h \<and> t = t' \<and> v = v'"
  by (auto simp: receipt_signing_message_def le8_inject simp del: le_bytes.simps)

lemma verify_receipt_signature_Inr:
  "verify_receipt_signature H E trusted r = Inr () \<longleftrightarrow>
     (\<exists>sg h key sig. dr_signature r = Some sg \<and> receipt_claims_digest H r = Inr h
        \<and> dr_claims_digest_hex r = digest_to_hex h \<and> rg_public_key_hex sg = bytes_to_hex key \<and> length key = 32
        \<and> ss_key_ok E key \<and> (trusted = None \<or> trusted = Some key)
        \<and> rg_signature_hex sg = bytes_to_hex sig \<and> length sig = 64
        \<and> ss_verify E key (receipt_signing_message (hash_bytes h) (rg_signed_at_epoch_ms sg) (rg_signer_id sg)) sig)"
  by (cases "dr_signature r") (auto simp: verify_receipt_signature_def receipt_parse_hex_Inr split: if_splits)

lemma verify_anchors_Inr:
  "verify_receipt_state r (rs_step st) (rs_state_digest_before_hex st) (rs_state_digest_after_hex st) = Inr ()
    \<longleftrightarrow> dr_state r = Some st"
  "verify_receipt_wal r (rw_sequence w) (rw_entry_hash w) = Inr () \<longleftrightarrow> dr_wal r = Some w"
  by (auto simp: verify_receipt_state_def verify_receipt_wal_def split: option.splits if_splits
      intro: receipt_state.equality receipt_wal.equality)

text \<open>
  The message \<open>sign_receipt\<close> hands to Ed25519, read off a scheme whose signature is the message itself,
  and what is assumed of a key in the next theorem: it verifies nothing but the messages of a list of
  calls of \<open>sign_receipt\<close>, each with its receipt, signer identity and time.
\<close>

definition message_signed ::
  "hasher \<Rightarrow> signature_scheme \<Rightarrow> bytes \<Rightarrow> decision_receipt \<Rightarrow> string \<Rightarrow> u64 \<Rightarrow> bytes \<Rightarrow> bool" where
  "message_signed H E seed q who at m \<longleftrightarrow>
     (\<exists>s sg. sign_receipt H (E\<lparr> ss_sign := \<lambda>_ m. m \<rparr>) seed who at q = Inr s \<and> dr_signature s = Some sg
        \<and> rg_signature_hex sg = bytes_to_hex m)"

definition only_signs ::
  "hasher \<Rightarrow> signature_scheme \<Rightarrow> bytes \<Rightarrow> (decision_receipt \<times> string \<times> u64) list \<Rightarrow> bool" where
  "only_signs H E seed signings \<longleftrightarrow>
     (\<forall>m sig. ss_verify E (ss_public E seed) m sig \<longrightarrow>
        (\<exists>(q, who, at) \<in> set signings. message_signed H E seed q who at m))"

lemma sign_receipt_Inr:
  "sign_receipt H E seed who at q = Inr s \<longleftrightarrow>
     (\<exists>h. receipt_claims_digest H q = Inr h \<and> dr_claims_digest_hex q = digest_to_hex h
        \<and> s = q\<lparr> dr_signature := Some \<lparr> rg_signer_id = who, rg_signed_at_epoch_ms = at,
             rg_public_key_hex = bytes_to_hex (ss_public E seed),
             rg_signature_hex = bytes_to_hex (ss_sign E seed (receipt_signing_message (hash_bytes h) at who)) \<rparr> \<rparr>)"
  by (auto simp: sign_receipt_def Let_def split: if_splits)

lemma message_signed_iff:
  "message_signed H E seed q who at m \<longleftrightarrow>
     (\<exists>h. receipt_claims_digest H q = Inr h \<and> dr_claims_digest_hex q = digest_to_hex h
        \<and> m = receipt_signing_message (hash_bytes h) at who)"
  by (auto simp: message_signed_def sign_receipt_Inr)

text \<open>
  C10. A receipt whose signature is accepted was signed. If the key of a seed verifies nothing but what
  \<open>sign_receipt\<close> signed with that seed, then a receipt whose signature is accepted under this key agrees
  with the outcome of one of those calls: in the signer, the time, the stated key and the claims digest
  always, and in every claim unless the hashed layouts of the claims collide.
\<close>

theorem accepted_receipt_was_signed:
  assumes "verify_receipt_signature H E (Some (ss_public E seed)) r = Inr ()" "only_signs H E seed signings"
    and "length (dr_schema_version r) < 2 ^ 64" "\<forall>(q, who, at) \<in> set signings. length (dr_schema_version q) < 2 ^ 64"
  shows "\<exists>(q, who, at) \<in> set signings. \<exists>s sg tg. sign_receipt H E seed who at q = Inr s \<and> claims_of s = claims_of q
    \<and> dr_signature r = Some sg \<and> dr_signature s = Some tg
    \<and> rg_signer_id sg = rg_signer_id tg \<and> rg_signed_at_epoch_ms sg = rg_signed_at_epoch_ms tg
    \<and> rg_public_key_hex sg = rg_public_key_hex tg \<and> dr_claims_digest_hex r = dr_claims_digest_hex s
    \<and> (claims_of r = claims_of s
       \<or> (\<exists>a b. claims_bytes r = Inr a \<and> claims_bytes s = Inr b \<and> collision H [a] [b]))"
proof -
  obtain sg h sb where sg: "dr_signature r = Some sg" "receipt_claims_digest H r = Inr h" "dr_claims_digest_hex r = digest_to_hex h"
    "rg_public_key_hex sg = bytes_to_hex (ss_public E seed)"
    "ss_verify E (ss_public E seed) (receipt_signing_message (hash_bytes h) (rg_signed_at_epoch_ms sg) (rg_signer_id sg)) sb"
    using assms(1) unfolding verify_receipt_signature_Inr by blast
  obtain q who at where q: "(q, who, at) \<in> set signings"
    "message_signed H E seed q who at (receipt_signing_message (hash_bytes h) (rg_signed_at_epoch_ms sg) (rg_signer_id sg))"
    using assms(2) sg(5) unfolding only_signs_def by fastforce
  then have g: "receipt_claims_digest H q = Inr h" "dr_claims_digest_hex q = digest_to_hex h"
    "rg_signed_at_epoch_ms sg = at" "rg_signer_id sg = who"
    by (auto simp: message_signed_iff receipt_signing_message_inject)
  define tg where "tg = \<lparr> rg_signer_id = who, rg_signed_at_epoch_ms = at, rg_public_key_hex = bytes_to_hex (ss_public E seed),
      rg_signature_hex = bytes_to_hex (ss_sign E seed (receipt_signing_message (hash_bytes h) at who)) \<rparr>"
  define s where "s = q\<lparr> dr_signature := Some tg \<rparr>"
  have s: "sign_receipt H E seed who at q = Inr s" using g by (simp add: sign_receipt_Inr s_def tg_def)
  have c: "claims_of s = claims_of q" by (simp add: s_def claims_of_def)
  then have "receipt_claims_digest H s = Inr h" using claims_digest_cong g(1) by metis
  then obtain a b where ab: "claims_bytes r = Inr a" "claims_bytes s = Inr b" "H a = H b"
    using sg(2) by (auto simp: receipt_claims_digest_Inr)
  have "length (dr_schema_version s) < 2 ^ 64" using assms(4) q(1) by (fastforce simp: s_def)
  then have "claims_of r = claims_of s \<or> collision H [a] [b]"
    using claims_bytes_inject [of r a s] ab assms(3) by (cases "a = b") (auto simp: collision_def)
  then have "\<exists>s sg tg. sign_receipt H E seed who at q = Inr s \<and> claims_of s = claims_of q
    \<and> dr_signature r = Some sg \<and> dr_signature s = Some tg
    \<and> rg_signer_id sg = rg_signer_id tg \<and> rg_signed_at_epoch_ms sg = rg_signed_at_epoch_ms tg
    \<and> rg_public_key_hex sg = rg_public_key_hex tg \<and> dr_claims_digest_hex r = dr_claims_digest_hex s
    \<and> (claims_of r = claims_of s
       \<or> (\<exists>a b. claims_bytes r = Inr a \<and> claims_bytes s = Inr b \<and> collision H [a] [b]))"
    using s c sg g ab by (intro exI [of _ s] exI [of _ sg] exI [of _ tg]) (auto simp: s_def tg_def)
  then show ?thesis using q(1) by blast
qed

text \<open>The anchors a receipt can carry: positive positions and lower-case digests.\<close>

definition anchors_ok :: "receipt_state \<Rightarrow> receipt_wal \<Rightarrow> bool" where
  "anchors_ok st w \<longleftrightarrow> rs_step st \<noteq> 0 \<and> rw_sequence w \<noteq> 0
     \<and> list_all canonical_digest [rs_state_digest_before_hex st, rs_state_digest_after_hex st, rw_entry_hash w]"

lemma lower_hex_nibble: "is_lower_hex a \<Longrightarrow> \<exists>v. hex_nibble a = Some v"
  by (cases "48 \<le> a \<and> a \<le> 57") (auto simp: is_lower_hex_def hex_nibble_def)

lemma canonical_digest_hex: "canonical_digest s \<longleftrightarrow> (\<exists>bs. length bs = 32 \<and> s = bytes_to_hex bs)"
proof
  assume c: "canonical_digest s"
  have "\<exists>bs. hex_pairs xs = Some bs" if "list_all is_lower_hex xs" for xs
    using that
  proof (induction xs rule: hex_pairs.induct)
    case (1 a b rest)
    obtain u v where "hex_nibble a = Some u" "hex_nibble b = Some v"
      using "1.prems" lower_hex_nibble [of a] lower_hex_nibble [of b] by auto
    moreover from this obtain bs where "hex_pairs rest = Some bs" using 1 by auto
    ultimately show ?case by simp
  qed simp_all
  then obtain bs where bs: "hex_pairs (ascii s) = Some bs" using c by (auto simp: canonical_digest_def)
  then have "receipt_parse_hex 32 [] s = Inr bs" using c by (simp add: receipt_parse_hex_def canonical_digest_def)
  then show "\<exists>bs. length bs = 32 \<and> s = bytes_to_hex bs" by (auto simp: receipt_parse_hex_Inr)
next
  assume "\<exists>bs. length bs = 32 \<and> s = bytes_to_hex bs"
  moreover have "list_all is_lower_hex (ascii (bytes_to_hex bs))" for bs
    by (induction bs) (simp_all add: bytes_to_hex_Cons is_lower_hex_digit, simp add: bytes_to_hex_def)
  ultimately show "canonical_digest s" by (auto simp: canonical_digest_def)
qed

lemma issued_verifies:
  assumes "issue_receipt H p i d anchors = Inr r"
  shows "verify_receipt H r p i d = Inr ()"
proof -
  obtain r0 h where r: "receipt_claims_digest H r0 = Inr h" "r = r0\<lparr> dr_claims_digest_hex := digest_to_hex h \<rparr>"
    "r0 = \<lparr> dr_schema_version = RECEIPT_SCHEMA, dr_policy_epoch = d_policy_epoch d,
       dr_catalog_epoch = d_catalog_epoch d, dr_policy_digest_hex = digest_to_hex (policy_digest H p),
       dr_input_digest_hex = digest_to_hex (input_digest H i),
       dr_decision_digest_hex = digest_to_hex (decision_digest H d), dr_replay_valid = True,
       dr_state = ra_state anchors, dr_wal = ra_wal anchors, dr_claims_digest_hex = [], dr_signature = None \<rparr>"
    and v: "verify_decision H p i d = Valid"
    using assms by (auto simp: issue_receipt_def Let_def split: if_splits)
  have "claims_of r = claims_of r0" by (simp add: r(2) claims_of_def)
  then have "receipt_claims_digest H r = Inr h" using claims_digest_cong r(1) by metis
  then show ?thesis using v by (simp add: verify_receipt_def r(2,3))
qed

lemma issue_receipt_Inr:
  assumes "anchors_ok st w"
  shows "\<exists>r. issue_receipt H p i (prescribe p i) \<lparr> ra_state = Some st, ra_wal = Some w \<rparr> = Inr r
    \<and> dr_state r = Some st \<and> dr_wal r = Some w \<and> dr_signature r = None"
proof -
  have "\<exists>bs. hash_optional_state (Some st) = Inr bs" "\<exists>bs. hash_optional_wal (Some w) = Inr bs"
    using assms by (auto simp: anchors_ok_def canonical_digest_hex hash_optional_state_Inr hash_optional_wal_Inr
        simp del: le_bytes.simps)
  then show ?thesis
    by (auto simp: issue_receipt_def verify_decision_Valid Let_def receipt_claims_digest_def claims_bytes_def
        receipt_parse_hex_def digest_to_hex_def)
qed

lemma signed_verifies:
  assumes "scheme_ok E"
    and r: "issue_receipt H p i (prescribe p i) \<lparr> ra_state = Some st, ra_wal = Some w \<rparr> = Inr r"
  shows "\<exists>q. sign_receipt H E seed who at r = Inr q
    \<and> verify_receipt_full H E q p i (prescribe p i) (ss_public E seed) st w = Inr ()"
proof -
  have an: "dr_state r = Some st" "dr_wal r = Some w"
    using r by (auto simp: issue_receipt_def Let_def split: if_splits)
  have v: "verify_receipt H r p i (prescribe p i) = Inr ()" using r by (rule issued_verifies)
  then obtain h where h: "receipt_claims_digest H r = Inr h" "dr_claims_digest_hex r = digest_to_hex h"
    by (auto simp: verify_receipt_def split: if_splits)
  define q where "q = r\<lparr> dr_signature := Some \<lparr> rg_signer_id = who, rg_signed_at_epoch_ms = at,
      rg_public_key_hex = bytes_to_hex (ss_public E seed),
      rg_signature_hex = bytes_to_hex (ss_sign E seed (receipt_signing_message (hash_bytes h) at who)) \<rparr> \<rparr>"
  have "claims_of q = claims_of r" by (simp add: q_def claims_of_def)
  then have qh: "receipt_claims_digest H q = Inr h" using claims_digest_cong h(1) by metis
  have "sign_receipt H E seed who at r = Inr q" using h by (simp add: sign_receipt_def q_def Let_def)
  moreover have "verify_receipt H q p i (prescribe p i) = Inr ()"
    using v h qh by (simp add: verify_receipt_def q_def split: if_splits)
  moreover have "verify_receipt_signature H E (Some (ss_public E seed)) q = Inr ()"
    using qh h(2) scheme_okD [OF assms(1)] unfolding verify_receipt_signature_Inr by (simp add: q_def)
  moreover have "dr_state q = Some st" "dr_wal q = Some w" using an by (simp_all add: q_def)
  ultimately show ?thesis by (auto simp: verify_receipt_full_def verify_anchors_Inr)
qed

text \<open>
  C22. Receipts work end to end: for the decision the kernel makes and well-formed anchors a receipt
  is issued, it can be signed under any identity and time, and what comes out passes the complete
  check against the same policy, request, decision, key and anchors.
\<close>

theorem receipt_end_to_end:
  assumes "scheme_ok E" "anchors_ok st w"
  shows "\<exists>r q. issue_receipt H p i (prescribe p i) \<lparr> ra_state = Some st, ra_wal = Some w \<rparr> = Inr r
    \<and> sign_receipt H E seed who at r = Inr q
    \<and> verify_receipt_full H E q p i (prescribe p i) (ss_public E seed) st w = Inr ()"
  using issue_receipt_Inr [OF assms(2), of H p i] signed_verifies [OF assms(1), of H p i st w] by blast

section \<open>Instances\<close>

text \<open>A scheme whose signature is the padded start of the message, and one key that verifies one message only.\<close>

definition padded :: "nat \<Rightarrow> bytes \<Rightarrow> bytes" where
  "padded n bs = take n (bs @ replicate n 0)"

definition mirror_scheme :: signature_scheme where
  "mirror_scheme = \<lparr> ss_public = padded 32, ss_key_ok = (\<lambda>_. True), ss_sign = (\<lambda>seed. padded 64),
     ss_verify = (\<lambda>key m sig. sig = padded 64 m) \<rparr>"

lemma mirror_scheme_ok: "scheme_ok mirror_scheme"
  by (auto simp: scheme_ok_def mirror_scheme_def padded_def min_def)

definition single_scheme :: "bytes \<Rightarrow> signature_scheme" where
  "single_scheme m0 = mirror_scheme\<lparr> ss_verify := \<lambda>key m sig. m = m0 \<and> sig = padded 64 m \<rparr>"

definition example_state_anchor :: receipt_state where
  "example_state_anchor = \<lparr> rs_step = 1, rs_state_digest_before_hex = digest_to_hex 0, rs_state_digest_after_hex = digest_to_hex 1 \<rparr>"

definition example_wal_anchor :: receipt_wal where
  "example_wal_anchor = \<lparr> rw_sequence = 1, rw_entry_hash = digest_to_hex 2 \<rparr>"

lemma example_anchors_ok: "anchors_ok example_state_anchor example_wal_anchor"
  by (simp add: anchors_ok_def example_state_anchor_def example_wal_anchor_def)

theorem receipt_end_to_end_witness:
  "scheme_ok mirror_scheme \<and> anchors_ok example_state_anchor example_wal_anchor
   \<and> (\<exists>r q. issue_receipt (\<lambda>bs. of_nat (length bs)) example_policy example_input (prescribe example_policy example_input)
          \<lparr> ra_state = Some example_state_anchor, ra_wal = Some example_wal_anchor \<rparr> = Inr r
        \<and> sign_receipt (\<lambda>bs. of_nat (length bs)) mirror_scheme [7] ''ops'' 9 r = Inr q
        \<and> verify_receipt_full (\<lambda>bs. of_nat (length bs)) mirror_scheme q example_policy example_input
            (prescribe example_policy example_input) (ss_public mirror_scheme [7]) example_state_anchor example_wal_anchor = Inr ())"
  using receipt_end_to_end [OF mirror_scheme_ok example_anchors_ok] mirror_scheme_ok example_anchors_ok by blast

theorem accepted_receipt_was_signed_witness:
  "\<exists>r q m0. verify_receipt_signature (\<lambda>bs. of_nat (length bs)) (single_scheme m0) (Some (ss_public (single_scheme m0) [7])) q = Inr ()
    \<and> only_signs (\<lambda>bs. of_nat (length bs)) (single_scheme m0) [7] [(r, ''ops'', 9)]
    \<and> (\<exists>s sg. sign_receipt (\<lambda>bs. of_nat (length bs)) (single_scheme m0) [7] ''ops'' 9 r = Inr s
        \<and> dr_signature q = Some sg \<and> dr_claims_digest_hex q = dr_claims_digest_hex s
        \<and> (claims_of q = claims_of s
           \<or> (\<exists>a b. claims_bytes q = Inr a \<and> claims_bytes s = Inr b \<and> collision (\<lambda>bs. of_nat (length bs)) [a] [b])))"
proof -
  let ?H = "\<lambda>bs. of_nat (length bs) :: hash"
  obtain r where r: "issue_receipt ?H example_policy example_input (prescribe example_policy example_input)
      \<lparr> ra_state = Some example_state_anchor, ra_wal = Some example_wal_anchor \<rparr> = Inr r"
    using issue_receipt_Inr [OF example_anchors_ok] by blast
  from issued_verifies [OF this] obtain h where h: "receipt_claims_digest ?H r = Inr h" "dr_claims_digest_hex r = digest_to_hex h"
    and schema: "dr_schema_version r = RECEIPT_SCHEMA"
    by (auto simp: verify_receipt_def split: if_splits)
  define m0 where "m0 = receipt_signing_message (hash_bytes h) 9 ''ops''"
  let ?E = "single_scheme m0"
  obtain q where s: "sign_receipt ?H ?E [7] ''ops'' 9 r = Inr q" using h by (simp add: sign_receipt_Inr)
  then have q: "dr_signature q = Some \<lparr> rg_signer_id = ''ops'', rg_signed_at_epoch_ms = 9,
      rg_public_key_hex = bytes_to_hex (ss_public ?E [7]), rg_signature_hex = bytes_to_hex (ss_sign ?E [7] m0) \<rparr>"
    "claims_of q = claims_of r" "dr_claims_digest_hex q = digest_to_hex h" "dr_schema_version q = RECEIPT_SCHEMA"
    using h schema by (auto simp: sign_receipt_Inr m0_def claims_of_def)
  then have "receipt_claims_digest ?H q = Inr h" using claims_digest_cong h(1) by metis
  then have v: "verify_receipt_signature ?H ?E (Some (ss_public ?E [7])) q = Inr ()"
    using q scheme_okD(1,3) [OF mirror_scheme_ok] unfolding verify_receipt_signature_Inr
    by (simp add: single_scheme_def m0_def) (simp add: mirror_scheme_def)
  have only: "only_signs ?H ?E [7] [(r, ''ops'', 9)]"
    using h by (simp add: only_signs_def message_signed_iff) (simp add: single_scheme_def m0_def)
  have len: "length (dr_schema_version q) < 2 ^ 64" "\<forall>(q, who, at) \<in> set [(r, ''ops'', 9)]. length (dr_schema_version q) < 2 ^ 64"
    using q(4) schema by (simp_all add: RECEIPT_SCHEMA_def)
  show ?thesis using accepted_receipt_was_signed [OF v only len] v only
    by (intro exI [of _ r] exI [of _ q] exI [of _ m0]) (simp; blast)
qed

end
