(* ===== verification/Auditing.thy ===== *)
theory Auditing
  imports Witness_Correct
begin

text \<open>
  The auditor (\<open>src/src/audit.rs\<close>): witness quorums, one party's view of a log, evidence of split
  views, inclusion of records, and what a revoked key may still have signed.
\<close>

section \<open>Errors\<close>

datatype audit_error =
    AuditCheckpoint checkpoint_error
  | AuditMerkle merkle_error
  | BadPolicy string
  | QuorumNotMet nat nat
  | WrongOrigin utext utext
  | AuditShrinking
  | Inconsistent
  | Stale
  | CosignedInTheFuture utext u64 u64
  | NoCheckpoint
  | TimeUnproven
  | SignatureUndated
  | SignedAfterRevocation u64 u64
  | BitcoinNeedsHeight
  | AnchoredAfterRevocation u64 u64

section \<open>Quorums\<close>

record witness_policy =
  wp_witnesses :: "note_verifier list"
  wp_threshold :: nat

definition same_witness :: "note_verifier \<Rightarrow> note_verifier \<Rightarrow> bool" where
  "same_witness a b \<longleftrightarrow> nv_key a = nv_key b \<or> nv_name a = nv_name b \<and> nv_key_hash a = nv_key_hash b"

fun listed_twice :: "note_verifier list \<Rightarrow> note_verifier list \<Rightarrow> bool" where
  "listed_twice seen [] = False"
| "listed_twice seen (w # ws) = (list_ex (\<lambda>v. same_witness v w) seen \<or> listed_twice (seen @ [w]) ws)"

definition witness_policy_new :: "note_verifier list \<Rightarrow> nat \<Rightarrow> audit_error + witness_policy" where
  "witness_policy_new ws threshold =
     (if threshold = 0 then Inl (BadPolicy ''threshold must be at least one'')
      else if threshold > length ws then Inl (BadPolicy ''threshold exceeds the number of witnesses'')
      else if list_ex (\<lambda>w. nv_algorithm w \<noteq> ALG_COSIGNATURE_V1) ws
        then Inl (BadPolicy ''witness keys must be cosignature/v1 keys'')
      else if listed_twice [] ws then Inl (BadPolicy ''a witness is listed twice'')
      else Inr \<lparr> wp_witnesses = ws, wp_threshold = threshold \<rparr>)"

record cosigned =
  co_witness :: utext
  co_time :: u64

definition cosignatures :: "ed25519 \<Rightarrow> witness_policy \<Rightarrow> signed_note \<Rightarrow> cosigned list" where
  "cosignatures E P n =
     List.map_filter (\<lambda>w. case cosignature_time E w n of
         Inl _ \<Rightarrow> None
       | Inr time \<Rightarrow> Some \<lparr> co_witness = nv_name w, co_time = time \<rparr>) (wp_witnesses P)"

record witnessed =
  wd_note :: signed_note
  wd_checkpoint :: checkpoint
  wd_cosigned :: "cosigned list"
  wd_threshold :: nat

definition seen_by :: "witnessed \<Rightarrow> u64" where
  "seen_by w = co_time (wd_cosigned w ! (wd_threshold w - 1))"

definition fresh_as_of :: "witnessed \<Rightarrow> u64" where
  "fresh_as_of w = co_time (wd_cosigned w ! (length (wd_cosigned w) - wd_threshold w))"

definition DEFAULT_MAX_CLOCK_SKEW :: u64 where
  "DEFAULT_MAX_CLOCK_SKEW = 300"

definition in_time :: "u64 option \<Rightarrow> cosigned \<Rightarrow> bool" where
  "in_time latest c = (case latest of None \<Rightarrow> True | Some l \<Rightarrow> co_time c \<le> l)"

definition verify_quorum ::
  "base64 \<Rightarrow> ed25519 \<Rightarrow> utext \<Rightarrow> note_verifier \<Rightarrow> witness_policy \<Rightarrow> u64 option \<Rightarrow> audit_error + witnessed" where
  "verify_quorum B E note log P latest =
     and_then (map_err AuditCheckpoint (note_parse B note)) (\<lambda>n.
     and_then (map_err AuditCheckpoint (note_verify E log n)) (\<lambda>_.
     and_then (map_err AuditCheckpoint (note_checkpoint B n)) (\<lambda>c.
       let (cs, ahead) = partition (in_time latest) (cosignatures E P n) in
       if length cs < wp_threshold P then
         (case (ahead, latest) of
            (a # as, Some l) \<Rightarrow>
              let first = arg_min_list co_time (a # as)
              in Inl (CosignedInTheFuture (co_witness first) (co_time first) l)
          | _ \<Rightarrow> Inl (QuorumNotMet (length cs) (wp_threshold P)))
       else Inr \<lparr> wd_note = n, wd_checkpoint = c, wd_cosigned = sort_key co_time cs,
                  wd_threshold = wp_threshold P \<rparr>)))"

definition verify_checkpoint ::
  "base64 \<Rightarrow> ed25519 \<Rightarrow> utext \<Rightarrow> note_verifier \<Rightarrow> witness_policy \<Rightarrow> audit_error + witnessed" where
  "verify_checkpoint B E note log P = verify_quorum B E note log P None"

definition verify_checkpoint_at ::
  "base64 \<Rightarrow> ed25519 \<Rightarrow> utext \<Rightarrow> note_verifier \<Rightarrow> witness_policy \<Rightarrow> u64 \<Rightarrow> u64 \<Rightarrow> audit_error + witnessed" where
  "verify_checkpoint_at B E note log P now max_skew =
     verify_quorum B E note log P (Some (saturating_add now max_skew))"

section \<open>Split views\<close>

record split_view =
  sv_first :: signed_note
  sv_second :: signed_note

definition split_view_verify :: "base64 \<Rightarrow> ed25519 \<Rightarrow> note_verifier \<Rightarrow> split_view \<Rightarrow> audit_error + unit" where
  "split_view_verify B E log s =
     and_then (map_err AuditCheckpoint (note_verify E log (sv_first s))) (\<lambda>_.
     and_then (map_err AuditCheckpoint (note_verify E log (sv_second s))) (\<lambda>_.
     and_then (map_err AuditCheckpoint (note_checkpoint B (sv_first s))) (\<lambda>a.
     and_then (map_err AuditCheckpoint (note_checkpoint B (sv_second s))) (\<lambda>b.
       if ck_origin a = ck_origin b \<and> ck_size a = ck_size b \<and> ck_root a \<noteq> ck_root b then Inr ()
       else Inl Inconsistent))))"

datatype comparison = SameHistory | SplitHistory split_view

section \<open>Evidence of time\<close>

datatype time_source = Witnesses | Rfc3161 | Bitcoin u64

fun is_clock :: "time_source \<Rightarrow> bool" where
  "is_clock (Bitcoin _) = False"
| "is_clock _ = True"

datatype covers = Content | Signature

record time_evidence =
  te_source :: time_source
  te_time :: u64
  te_covers :: covers

definition evidence_witnesses :: "u64 \<Rightarrow> time_evidence" where
  "evidence_witnesses time = \<lparr> te_source = Witnesses, te_time = time, te_covers = Signature \<rparr>"

definition evidence_rfc3161 :: "u64 \<Rightarrow> covers \<Rightarrow> time_evidence" where
  "evidence_rfc3161 time covers = \<lparr> te_source = Rfc3161, te_time = time, te_covers = covers \<rparr>"

definition evidence_bitcoin :: "u64 \<Rightarrow> u64 \<Rightarrow> covers \<Rightarrow> time_evidence" where
  "evidence_bitcoin height block_time covers =
     \<lparr> te_source = Bitcoin height, te_time = block_time, te_covers = covers \<rparr>"

text \<open>\<open>Iterator::min\<close>.\<close>

fun min_option :: "u64 list \<Rightarrow> u64 option" where
  "min_option [] = None"
| "min_option (x # xs) = Some (fold min xs x)"

definition existed_by :: "time_evidence list \<Rightarrow> u64 option" where
  "existed_by es = min_option (map te_time (filter (\<lambda>e. is_clock (te_source e)) es))"

definition evidence_signed_by :: "time_evidence list \<Rightarrow> u64 option" where
  "evidence_signed_by es =
     min_option (map te_time (filter (\<lambda>e. is_clock (te_source e) \<and> te_covers e = Signature) es))"

definition bitcoin_height_of :: "time_evidence \<Rightarrow> u64 option" where
  "bitcoin_height_of e = (case te_source e of Bitcoin height \<Rightarrow> Some height | _ \<Rightarrow> None)"

definition anchored_by :: "time_evidence list \<Rightarrow> u64 option" where
  "anchored_by es =
     min_option (List.map_filter bitcoin_height_of (filter (\<lambda>e. te_covers e = Signature) es))"

datatype key_status = Active | Revoked u64 "u64 option"

definition revoked_at :: "u64 \<Rightarrow> key_status" where
  "revoked_at at = Revoked at None"

definition key_accepts :: "key_status \<Rightarrow> time_evidence list \<Rightarrow> audit_error + unit" where
  "key_accepts status es =
     (case status of
        Active \<Rightarrow> Inr ()
      | Revoked at bitcoin_height \<Rightarrow>
          if \<not> list_ex (\<lambda>e. te_covers e = Signature) es
          then Inl (if es = [] then TimeUnproven else SignatureUndated)
          else
            let clock = evidence_signed_by es; anchor = anchored_by es in
            if (case clock of Some t \<Rightarrow> t < at | None \<Rightarrow> False) then Inr ()
            else if (case (anchor, bitcoin_height) of (Some height, Some limit) \<Rightarrow> height \<le> limit | _ \<Rightarrow> False)
            then Inr ()
            else Inl (case (clock, anchor, bitcoin_height) of
                (Some t, _, _) \<Rightarrow> SignedAfterRevocation t at
              | (None, Some height, Some limit) \<Rightarrow> AnchoredAfterRevocation height limit
              | (None, Some _, None) \<Rightarrow> BitcoinNeedsHeight
              | (None, None, _) \<Rightarrow> TimeUnproven))"

section \<open>One party's view\<close>

record record_proof =
  rp_index :: u64
  rp_tree_size :: u64
  rp_seen_by :: u64

record auditor =
  au_log :: note_verifier
  au_origin :: utext
  au_policy :: witness_policy
  au_max_age :: "u64 option"
  au_max_skew :: u64
  au_latest :: "witnessed option"

definition auditor_new :: "utext \<Rightarrow> note_verifier \<Rightarrow> witness_policy \<Rightarrow> auditor" where
  "auditor_new origin log P =
     \<lparr> au_log = log, au_origin = origin, au_policy = P, au_max_age = None,
       au_max_skew = DEFAULT_MAX_CLOCK_SKEW, au_latest = None \<rparr>"

definition with_max_age :: "u64 \<Rightarrow> auditor \<Rightarrow> auditor" where
  "with_max_age seconds a = a\<lparr> au_max_age := Some seconds \<rparr>"

definition with_max_clock_skew :: "u64 \<Rightarrow> auditor \<Rightarrow> auditor" where
  "with_max_clock_skew seconds a = a\<lparr> au_max_skew := seconds \<rparr>"

definition saturating_sub :: "u64 \<Rightarrow> u64 \<Rightarrow> u64" where
  "saturating_sub a b = (if a < b then 0 else a - b)"

definition auditor_check :: "base64 \<Rightarrow> ed25519 \<Rightarrow> auditor \<Rightarrow> utext \<Rightarrow> u64 \<Rightarrow> audit_error + witnessed" where
  "auditor_check B E a note now =
     and_then (verify_checkpoint_at B E note (au_log a) (au_policy a) now (au_max_skew a)) (\<lambda>w.
       if ck_origin (wd_checkpoint w) \<noteq> au_origin a
       then Inl (WrongOrigin (ck_origin (wd_checkpoint w)) (au_origin a))
       else case au_max_age a of
           Some mx \<Rightarrow> if saturating_sub now (fresh_as_of w) > mx then Inl Stale else Inr w
         | None \<Rightarrow> Inr w)"

definition auditor_advance ::
  "hasher \<Rightarrow> base64 \<Rightarrow> ed25519 \<Rightarrow> utext \<Rightarrow> hash list \<Rightarrow> u64 \<Rightarrow> auditor \<Rightarrow> (audit_error + witnessed) \<times> auditor" where
  "auditor_advance H B E note proof now a =
     (case auditor_check B E a note now of
        Inl e \<Rightarrow> (Inl e, a)
      | Inr next_view \<Rightarrow>
          (case au_latest a of
             None \<Rightarrow> (Inr next_view, a\<lparr> au_latest := Some next_view \<rparr>)
           | Some prev \<Rightarrow>
               let old = checkpoint_head (wd_checkpoint prev); new = checkpoint_head (wd_checkpoint next_view) in
               if th_size new < th_size old then (Inl AuditShrinking, a)
               else if th_size new = th_size old \<and> th_root new \<noteq> th_root old then (Inl Inconsistent, a)
               else if th_size old > 0 \<and> verify_consistency H old new proof \<noteq> Inr () then (Inl Inconsistent, a)
               else (Inr next_view, a\<lparr> au_latest := Some next_view \<rparr>)))"

definition auditor_compare ::
  "hasher \<Rightarrow> base64 \<Rightarrow> ed25519 \<Rightarrow> auditor \<Rightarrow> utext \<Rightarrow> hash list \<Rightarrow> audit_error + comparison" where
  "auditor_compare H B E a note proof =
     and_then (ok_or NoCheckpoint (au_latest a)) (\<lambda>ours.
     and_then (map_err AuditCheckpoint (note_parse B note)) (\<lambda>theirs.
     and_then (map_err AuditCheckpoint (note_verify E (au_log a) theirs)) (\<lambda>_.
     and_then (map_err AuditCheckpoint (note_checkpoint B theirs)) (\<lambda>c.
       if ck_origin c \<noteq> au_origin a then Inl (WrongOrigin (ck_origin c) (au_origin a))
       else
         let x = checkpoint_head (wd_checkpoint ours); y = checkpoint_head c in
         if th_size x = th_size y then
           Inr (if th_root x = th_root y then SameHistory
                else SplitHistory \<lparr> sv_first = wd_note ours, sv_second = theirs \<rparr>)
         else
           let (small, large) = (if th_size x < th_size y then (x, y) else (y, x)) in
           if th_size small = 0 \<or> verify_consistency H small large proof = Inr () then Inr SameHistory
           else Inl Inconsistent))))"

definition verify_record ::
  "hasher \<Rightarrow> auditor \<Rightarrow> u64 \<Rightarrow> hash \<Rightarrow> hash list \<Rightarrow> audit_error + record_proof" where
  "verify_record H a index leaf proof =
     and_then (ok_or NoCheckpoint (au_latest a)) (\<lambda>w.
     and_then (map_err AuditMerkle
         (verify_inclusion H (checkpoint_head (wd_checkpoint w)) (unat index) leaf proof)) (\<lambda>_.
       Inr \<lparr> rp_index = index, rp_tree_size = ck_size (wd_checkpoint w), rp_seen_by = seen_by w \<rparr>))"

end
