(* ===== verification/Audit_Correct.thy ===== *)
theory Audit_Correct
  imports Auditing
begin

text \<open>
  What an auditor may conclude (\<open>Auditing\<close>): two checkpoints that clear a majority policy lie on one
  history unless too many witnesses are dishonest, the view of an auditor is one history and records
  stay in it, a reported split view convinces everyone else, and a revoked key counts exactly where
  independent evidence dates its signature before the revocation.
\<close>

section \<open>Policies and quorums\<close>

lemma listed_twice_distinct:
  "\<not> listed_twice seen ws \<Longrightarrow> distinct (map nv_key ws) \<and> nv_key ` set ws \<inter> nv_key ` set seen = {}"
proof (induction ws arbitrary: seen)
  case (Cons w ws)
  have "\<not> listed_twice (seen @ [w]) ws" using Cons.prems by simp
  note rest = Cons.IH [OF this]
  have "nv_key w \<notin> nv_key ` set seen"
    using Cons.prems by (auto simp: list_ex_iff same_witness_def)
  then show ?case using rest by auto
qed simp

lemma witness_policy_new_Inr:
  assumes "witness_policy_new ws t = Inr P"
  shows "wp_witnesses P = ws" "wp_threshold P = t" "0 < t" "t \<le> length ws" "distinct (map nv_key ws)"
  using assms listed_twice_distinct [of "[]" ws] by (auto simp: witness_policy_new_def split: if_splits)

text \<open>The witnesses of a policy whose cosignature on a note is counted.\<close>

definition counts :: "ed25519 \<Rightarrow> u64 option \<Rightarrow> signed_note \<Rightarrow> note_verifier \<Rightarrow> bool" where
  "counts E latest n w \<longleftrightarrow>
     (case cosignature_time E w n of
        Inl _ \<Rightarrow> False
      | Inr time \<Rightarrow> (case latest of None \<Rightarrow> True | Some l \<Rightarrow> time \<le> l))"

lemma counted_length:
  "length (filter (in_time latest) (cosignatures E P n)) = length (filter (counts E latest n) (wp_witnesses P))"
proof -
  have "length (filter (in_time latest) (List.map_filter (\<lambda>w. case cosignature_time E w n of
         Inl _ \<Rightarrow> None
       | Inr time \<Rightarrow> Some \<lparr> co_witness = nv_name w, co_time = time \<rparr>) ws)) = length (filter (counts E latest n) ws)" for ws
    by (induction ws) (auto simp: List.map_filter_simps counts_def in_time_def split: sum.splits option.splits)
  then show ?thesis by (simp add: cosignatures_def)
qed

lemma verify_quorum_Inr:
  "verify_quorum B E note log P latest = Inr W \<longleftrightarrow>
     (\<exists>n c. note_parse B note = Inr n \<and> note_verify E log n = Inr () \<and> note_checkpoint B n = Inr c
        \<and> wp_threshold P \<le> length (filter (counts E latest n) (wp_witnesses P))
        \<and> W = \<lparr> wd_note = n, wd_checkpoint = c,
                wd_cosigned = sort_key co_time (filter (in_time latest) (cosignatures E P n)),
                wd_threshold = wp_threshold P \<rparr>)"
proof -
  have "(case (ahead, latest) of
            (a # as, Some l) \<Rightarrow>
              let first = arg_min_list co_time (a # as)
              in Inl (CosignedInTheFuture (co_witness first) (co_time first) l)
          | _ \<Rightarrow> Inl (QuorumNotMet x y)) \<noteq> Inr W" for ahead :: "cosigned list" and x y and W :: witnessed
    by (cases ahead; cases latest) (simp_all add: Let_def)
  then show ?thesis
    by (auto simp: verify_quorum_def partition_filter_conv counted_length not_less)
qed

lemma quorum_card:
  assumes "distinct (map nv_key ws)" "t \<le> length (filter P ws)"
  shows "t \<le> card {w \<in> set ws. P w}"
  using assms distinct_card [of "filter P ws"] by (simp add: distinct_map)

lemma three_sets_meet:
  assumes "finite A" "X \<subseteq> A" "Y \<subseteq> A" "Z \<subseteq> A" "2 * card A < card X + card Y + card Z"
  shows "X \<inter> Y \<inter> Z \<noteq> {}"
proof
  assume e: "X \<inter> Y \<inter> Z = {}"
  have fin: "finite X" "finite Y" "finite Z" using assms(1-4) by (auto intro: finite_subset)
  have "card X + card Y = card (X \<union> Y) + card (X \<inter> Y)" using fin by (intro card_Un_Int)
  moreover have "card (X \<union> Y) \<le> card A" using assms by (intro card_mono) auto
  moreover have "card (X \<inter> Y) + card Z = card (X \<inter> Y \<union> Z)" using fin e by (subst card_Un_disjoint) auto
  moreover have "card (X \<inter> Y \<union> Z) \<le> card A" using assms by (intro card_mono) auto
  ultimately show False using assms(5) by simp
qed

section \<open>One history\<close>

text \<open>What a cosignature that verifies says, and that its message determines the note.\<close>

lemma cosignature_time_Inr:
  assumes "cosignature_time E w n = Inr time"
  shows "\<exists>m sg. cosignature_message time (sn_text n) = Inr m \<and> verify_strict E (nv_key w) (utf8 m) sg"
  using assms by (auto simp: cosignature_time_def Let_def split: if_splits)

lemma cosignature_message_inject:
  assumes "cosignature_message a t = Inr m" "cosignature_message b u = Inr m"
  shows "t = u"
proof -
  have digits: "10 \<notin> set (decimal_text n)" for n
    using decimal_text_canonical [of n] by (auto simp: canonical_decimal_def list_all_iff is_ascii_digit_def)
  have "decimal_text (unat a) @ 10 # t = decimal_text (unat b) @ 10 # u"
    using assms by (auto simp: cosignature_message_def split: if_splits)
  from arg_cong [OF this, of "split_once 10"] show ?thesis by (simp add: split_once_append [OF digits])
qed

text \<open>
  One head lies on the history of a later one: it is no larger, equal if the sizes are, and over the
  first leaves of whatever log the later head is over, unless one of the given byte strings collides
  with one of that log.
\<close>

definition same_history :: "hasher \<Rightarrow> bytes list \<Rightarrow> tree_head \<Rightarrow> tree_head \<Rightarrow> bool" where
  "same_history H inputs h h' \<longleftrightarrow>
     th_size h \<le> th_size h' \<and> (th_size h = th_size h' \<longrightarrow> th_root h = th_root h')
     \<and> (\<forall>d. h' = head_over H d \<longrightarrow>
          th_root h = root_of H (take (th_size h) d) \<or> collision H inputs (prefix_inputs H d))"

lemma same_history_refl: "same_history H inputs h h"
  by (auto simp: same_history_def head_over_def)

abbreviation witness_steps :: "state_json \<Rightarrow> hasher \<Rightarrow> base64 \<Rightarrow> ed25519 \<Rightarrow> witness \<Rightarrow> disk \<Rightarrow> disk witness_run \<Rightarrow> bool" where
  "witness_steps J H B E w s x \<equiv> (wstep (file_store J B) H B E)\<^sup>*\<^sup>* (run_start w s) x"

definition run_inputs :: "hasher \<Rightarrow> 's witness_run \<Rightarrow> bytes list" where
  "run_inputs H x = concat (map (link_inputs H) (wr_links x))"

lemma issued_same_history:
  assumes "state_json_ok J" "base64_ok B" "witness_steps J H B E w s x"
    and "(p, sp) \<in> set (wr_issued x)" "(q, sq) \<in> set (wr_issued x)" "pd_origin p = pd_origin q"
  shows "same_history H (run_inputs H x) (pd_new p) (pd_new q) \<or> same_history H (run_inputs H x) (pd_new q) (pd_new p)"
proof -
  note forks = head_memory.never_forks [OF file_head_memory [OF assms(1,2)] assms(3)]
  have older: "same_history H (run_inputs H x) (pd_new (fst a)) (pd_new (fst b))"
    if "wr_issued x = newer @ b # older" "a \<in> set older" "pd_origin (fst a) = pd_origin (fst b)" for newer a b older
    unfolding same_history_def run_inputs_def using forks(1,2) [OF that] forks(3) [OF that] by blast
  obtain newer older where i: "wr_issued x = newer @ (p, sp) # older" using assms(4) by (meson split_list)
  consider "(q, sq) = (p, sp)" | "(q, sq) \<in> set older" | "(q, sq) \<in> set newer" using assms(5) i by auto
  then show ?thesis
  proof cases
    case 1
    then show ?thesis using same_history_refl by simp
  next
    case 2
    from older [OF i this] show ?thesis using assms(6) by simp
  next
    case 3
    then obtain n1 n2 where "newer = n1 @ (q, sq) # n2" by (meson split_list)
    then have "wr_issued x = n1 @ (q, sq) # (n2 @ (p, sp) # older)" using i by simp
    from older [OF this, of "(p, sp)"] show ?thesis using assms(6) by simp
  qed
qed

text \<open>
  An honest witness: its key verifies nothing but the messages of cosignatures issued in a run of
  the witness.
\<close>

definition honest_witness ::
  "state_json \<Rightarrow> hasher \<Rightarrow> base64 \<Rightarrow> ed25519 \<Rightarrow> note_verifier \<Rightarrow> disk witness_run \<Rightarrow> bool" where
  "honest_witness J H B E v x \<longleftrightarrow>
     (\<exists>w s. witness_steps J H B E w s x)
     \<and> (\<forall>m sg. verify_strict E (nv_key v) (utf8 m) sg \<longrightarrow>
          (\<exists>(p, sp) \<in> set (wr_issued x). cosignature_message (pd_now p) (sn_text (pd_note p)) = Inr m))"

lemma honest_cosigned:
  assumes "state_json_ok J" "base64_ok B" "honest_witness J H B E v x"
    and "counts E latest n v" "note_checkpoint B n = Inr c"
  shows "\<exists>(p, sp) \<in> set (wr_issued x). pd_origin p = ck_origin c \<and> pd_new p = checkpoint_head c"
proof -
  obtain time where t: "cosignature_time E v n = Inr time" using assms(4) by (auto simp: counts_def split: sum.splits)
  then obtain m sg where m: "cosignature_message time (sn_text n) = Inr m" "verify_strict E (nv_key v) (utf8 m) sg"
    using cosignature_time_Inr by blast
  obtain w s where reach: "witness_steps J H B E w s x" using assms(3) by (auto simp: honest_witness_def)
  obtain p sp where p: "(p, sp) \<in> set (wr_issued x)" "cosignature_message (pd_now p) (sn_text (pd_note p)) = Inr m"
    using assms(3) m(2) unfolding honest_witness_def by fastforce
  have "sn_text (pd_note p) = sn_text n" using cosignature_message_inject [OF p(2) m(1)] .
  then have "note_checkpoint B (pd_note p) = Inr c" using assms(5) by (simp add: note_checkpoint_def)
  moreover have "cosigned_ok B E (wr_witness x) (p, sp)"
    by (rule head_memory.issued_cosigned [OF file_head_memory [OF assms(1,2)] reach p(1)])
  ultimately show ?thesis using p(1) by (auto simp: cosigned_ok_def intro!: bexI [of _ "(p, sp)"])
qed

text \<open>
  C4. A quorum leaves room for one history. Two checkpoints of a log, shown to two parties at any
  times, both signed by the log and both cosigned by a threshold of a witness policy, lie on one
  history: if more than half of the witnesses must cosign, counted without the dishonest ones. Then
  some honest witness cosigned both, and as it never forks, one of the two trees extends the other,
  unless checking its proofs hashed a byte string that collides with one of the log.
\<close>

theorem quorum_one_history:
  assumes "state_json_ok J" "base64_ok B" "witness_policy_new ws t = Inr P"
    and q1: "verify_quorum B E note1 log1 P latest1 = Inr W1"
    and q2: "verify_quorum B E note2 log2 P latest2 = Inr W2"
    and "ck_origin (wd_checkpoint W1) = ck_origin (wd_checkpoint W2)"
    and honest: "G \<subseteq> set ws" "\<forall>v \<in> G. honest_witness J H B E v (runs v)"
    and majority: "length ws + (length ws - card G) < 2 * t"
  shows "\<exists>v \<in> G.
      same_history H (run_inputs H (runs v)) (checkpoint_head (wd_checkpoint W1)) (checkpoint_head (wd_checkpoint W2))
    \<or> same_history H (run_inputs H (runs v)) (checkpoint_head (wd_checkpoint W2)) (checkpoint_head (wd_checkpoint W1))"
proof -
  note P = witness_policy_new_Inr [OF assms(3)]
  obtain n1 where n1: "note_checkpoint B n1 = Inr (wd_checkpoint W1)" "t \<le> length (filter (counts E latest1 n1) ws)"
    using q1 P(1,2) unfolding verify_quorum_Inr by fastforce
  obtain n2 where n2: "note_checkpoint B n2 = Inr (wd_checkpoint W2)" "t \<le> length (filter (counts E latest2 n2) ws)"
    using q2 P(1,2) unfolding verify_quorum_Inr by fastforce
  have n: "card (set ws) = length ws" using P(5) by (simp add: distinct_map distinct_card)
  have "card G \<le> length ws" using card_mono [OF _ honest(1)] n by simp
  then have "2 * card (set ws) < card {w \<in> set ws. counts E latest1 n1 w} + card {w \<in> set ws. counts E latest2 n2 w} + card G"
    using quorum_card [OF P(5) n1(2)] quorum_card [OF P(5) n2(2)] majority n by simp
  then obtain v where v: "v \<in> G" "counts E latest1 n1 v" "counts E latest2 n2 v"
    using three_sets_meet [of "set ws" "{w \<in> set ws. counts E latest1 n1 w}" "{w \<in> set ws. counts E latest2 n2 w}" G]
      honest(1) by auto
  then have h: "honest_witness J H B E v (runs v)" using honest(2) by blast
  then obtain w s where reach: "witness_steps J H B E w s (runs v)" by (auto simp: honest_witness_def)
  obtain p sp where p: "(p, sp) \<in> set (wr_issued (runs v))" "pd_origin p = ck_origin (wd_checkpoint W1)"
    "pd_new p = checkpoint_head (wd_checkpoint W1)"
    using honest_cosigned [OF assms(1,2) h v(2) n1(1)] by blast
  obtain q sq where q: "(q, sq) \<in> set (wr_issued (runs v))" "pd_origin q = ck_origin (wd_checkpoint W2)"
    "pd_new q = checkpoint_head (wd_checkpoint W2)"
    using honest_cosigned [OF assms(1,2) h v(3) n2(1)] by blast
  show ?thesis using issued_same_history [OF assms(1,2) reach p(1) q(1)] p q assms(6) v(1) by auto
qed

section \<open>The view of an auditor\<close>

lemma same_history_trans:
  assumes "same_history H xs h h'" "same_history H ys h' h''"
  shows "same_history H (xs @ ys) h h''"
  unfolding same_history_def
proof (intro conjI allI impI)
  note a = assms(1) [unfolded same_history_def] and b = assms(2) [unfolded same_history_def]
  show "th_size h \<le> th_size h''" using a b by simp
  show "th_root h = th_root h''" if "th_size h = th_size h''" using a b that by simp
  fix d
  assume d: "h'' = head_over H d"
  then have le: "th_size h' \<le> length d" using b by (simp add: head_over_def)
  consider (prefix) "th_root h' = root_of H (take (th_size h') d)" | (clash) "collision H ys (prefix_inputs H d)"
    using b d by blast
  then show "th_root h = root_of H (take (th_size h) d) \<or> collision H (xs @ ys) (prefix_inputs H d)"
  proof cases
    case prefix
    then have "h' = head_over H (take (th_size h') d)" using head_over_take [OF le HOL.refl] by blast
    then have "th_root h = root_of H (take (th_size h) (take (th_size h') d))
        \<or> collision H xs (prefix_inputs H (take (th_size h') d))" using a by blast
    then show ?thesis
    proof
      assume "th_root h = root_of H (take (th_size h) (take (th_size h') d))"
      then show ?thesis using a by (simp add: min_absorb1)
    next
      assume "collision H xs (prefix_inputs H (take (th_size h') d))"
      from collision_mono [OF this _ prefix_inputs_take] show ?thesis by simp
    qed
  next
    case clash
    from collision_mono [OF this _ subset_refl] show ?thesis by simp
  qed
qed

definition proof_inputs :: "hasher \<Rightarrow> tree_head \<Rightarrow> tree_head \<Rightarrow> hash list \<Rightarrow> bytes list" where
  "proof_inputs H old new ps =
     cons_inputs H (th_size old) (th_size new) (hd (full_proof old ps)) (tl (full_proof old ps))"

lemma consistent_same_history:
  assumes "verify_consistency H old new ps = Inr ()"
  shows "same_history H (proof_inputs H old new ps) old new"
  unfolding same_history_def
proof (intro conjI allI impI)
  show "th_size old \<le> th_size new" using assms by (auto simp: verify_consistency_def split: if_splits)
  show "th_root old = th_root new" if "th_size old = th_size new"
    using assms that by (auto simp: verify_consistency_def split: if_splits)
  fix d
  assume d: "new = head_over H d"
  have "th_size new = length d" by (simp add: d head_over_def)
  then have "th_root old = root_of H (take (th_size old) d) \<or> collision H (proof_inputs H old new ps) (tree_inputs H d)"
    using accepted_consistency [OF assms [unfolded d]] by (simp add: proof_inputs_def)
  then show "th_root old = root_of H (take (th_size old) d) \<or> collision H (proof_inputs H old new ps) (prefix_inputs H d)"
    using collision_mono [OF _ subset_refl prefix_inputs_whole] by blast
qed

type_synonym advance_call = "utext \<times> hash list \<times> u64"

definition advance_call :: "hasher \<Rightarrow> base64 \<Rightarrow> ed25519 \<Rightarrow> advance_call \<Rightarrow> auditor \<Rightarrow> auditor" where
  "advance_call H B E c a = (case c of (nt, ps, now) \<Rightarrow> snd (auditor_advance H B E nt ps now a))"

definition head_of :: "auditor \<Rightarrow> tree_head option" where
  "head_of a = map_option (\<lambda>w. checkpoint_head (wd_checkpoint w)) (au_latest a)"

text \<open>The byte strings hashed while the consistency proofs of a sequence of calls were checked.\<close>

fun view_inputs :: "hasher \<Rightarrow> base64 \<Rightarrow> ed25519 \<Rightarrow> advance_call list \<Rightarrow> auditor \<Rightarrow> bytes list" where
  "view_inputs H B E [] a = []"
| "view_inputs H B E (c # cs) a =
     (case (head_of a, head_of (advance_call H B E c a)) of
        (Some old, Some new) \<Rightarrow> proof_inputs H old new (fst (snd c))
      | _ \<Rightarrow> []) @ view_inputs H B E cs (advance_call H B E c a)"

lemma advance_step:
  assumes "head_of a = Some old" "0 < th_size old"
  shows "\<exists>new. head_of (advance_call H B E c a) = Some new \<and> same_history H (proof_inputs H old new (fst (snd c))) old new"
proof -
  obtain nt ps now where c: "c = (nt, ps, now)" by (cases c) auto
  obtain prev where prev: "au_latest a = Some prev" "old = checkpoint_head (wd_checkpoint prev)"
    using assms(1) by (auto simp: head_of_def)
  show ?thesis
  proof (cases "auditor_check B E a nt now")
    case (Inl e)
    then show ?thesis using assms(1) same_history_refl
      by (auto simp: advance_call_def c auditor_advance_def)
  next
    case (Inr w)
    let ?new = "checkpoint_head (wd_checkpoint w)"
    show ?thesis
    proof (cases "verify_consistency H old ?new ps = Inr () \<and> \<not> th_size ?new < th_size old
        \<and> \<not> (th_size ?new = th_size old \<and> th_root ?new \<noteq> th_root old)")
      case True
      then have "head_of (advance_call H B E c a) = Some ?new"
        using Inr prev by (simp add: advance_call_def c auditor_advance_def Let_def head_of_def)
      then show ?thesis using consistent_same_history True by (auto simp: c)
    next
      case False
      then have "advance_call H B E c a = a"
        using Inr prev assms(2) by (auto simp: advance_call_def c auditor_advance_def Let_def)
      then show ?thesis using assms(1) same_history_refl by auto
    qed
  qed
qed

lemma advance_history:
  assumes "head_of a = Some old" "0 < th_size old"
  shows "\<exists>new. head_of (fold (advance_call H B E) cs a) = Some new \<and> same_history H (view_inputs H B E cs a) old new"
  using assms
proof (induction cs arbitrary: a old)
  case Nil
  then show ?case using same_history_refl by auto
next
  case (Cons c cs)
  obtain mid where mid: "head_of (advance_call H B E c a) = Some mid" "same_history H (proof_inputs H old mid (fst (snd c))) old mid"
    using advance_step [OF Cons.prems] by blast
  then have "0 < th_size mid" using Cons.prems(2) by (simp add: same_history_def)
  from Cons.IH [OF mid(1) this] obtain new where "head_of (fold (advance_call H B E) cs (advance_call H B E c a)) = Some new"
    "same_history H (view_inputs H B E cs (advance_call H B E c a)) mid new" by blast
  then show ?case using same_history_trans [OF mid(2)] Cons.prems(1) mid(1) by auto
qed

text \<open>
  C15. A record once verified stays in the log. After an auditor checked that a record is at an index,
  let it process any further checkpoints, accepted or refused. If the latest one it then holds is the
  head over some leaves, the record is the leaf at that index, unless checking the proofs hashed a
  byte string that collides with one of that log.
\<close>

theorem audited_record_stays:
  assumes "verify_record H a index leaf ps = Inr r" "head_of a = Some old"
    and "head_of (fold (advance_call H B E) calls a) = Some (head_over H d)"
  shows "unat index < length d
    \<and> (d ! unat index = leaf
       \<or> collision H (path_inputs H (unat index) (th_size old) leaf ps @ view_inputs H B E calls a) (prefix_inputs H d))"
proof -
  have v: "verify_inclusion H old (unat index) leaf ps = Inr ()"
    using assms(1,2) by (auto simp: verify_record_def head_of_def)
  then have idx: "unat index < th_size old" by (simp add: verify_inclusion_Inr)
  then have h: "same_history H (view_inputs H B E calls a) old (head_over H d)"
    using advance_history [OF assms(2), of H B E calls] assms(3) by auto
  then have le: "th_size old \<le> length d" by (simp add: same_history_def head_over_def)
  define pre where "pre = take (th_size old) d"
  consider (prefix) "th_root old = root_of H pre" | (clash) "collision H (view_inputs H B E calls a) (prefix_inputs H d)"
    using h by (auto simp: same_history_def pre_def)
  then show ?thesis
  proof cases
    case prefix
    then have old: "old = head_over H pre" using head_over_take [OF le HOL.refl] unfolding pre_def by blast
    have len: "length pre = th_size old" using le by (simp add: pre_def)
    have sub: "set (tree_inputs H pre) \<subseteq> set (prefix_inputs H d)"
      using prefix_inputs_whole [of H pre] prefix_inputs_take [of H "th_size old" d] by (simp add: pre_def)
    have "leaf = pre ! unat index
        \<or> collision H (path_inputs H (unat index) (length pre) leaf ps) (tree_inputs H pre)"
      using v fold_path_sound [of "unat index" pre H leaf ps] unfolding old
      by (simp add: verify_inclusion_Inr head_over_def)
    then show ?thesis
    proof
      assume "leaf = pre ! unat index"
      then show ?thesis using idx le by (simp add: pre_def)
    next
      assume "collision H (path_inputs H (unat index) (length pre) leaf ps) (tree_inputs H pre)"
      from collision_mono [OF this _ sub] show ?thesis using idx le len by simp
    qed
  next
    case clash
    from collision_mono [OF this _ subset_refl] show ?thesis using idx le by simp
  qed
qed

section \<open>Split views\<close>

text \<open>The auditors a caller can come to hold.\<close>

inductive audits :: "hasher \<Rightarrow> base64 \<Rightarrow> ed25519 \<Rightarrow> auditor \<Rightarrow> bool" for H B E where
  new: "audits H B E (auditor_new origin log P)"
| age: "audits H B E a \<Longrightarrow> audits H B E (with_max_age seconds a)"
| skew: "audits H B E a \<Longrightarrow> audits H B E (with_max_clock_skew seconds a)"
| advance: "audits H B E a \<Longrightarrow> audits H B E (snd (auditor_advance H B E nt ps now a))"

lemma advance_cases:
  "snd (auditor_advance H B E nt ps now a) = a
    \<or> (\<exists>v. auditor_check B E a nt now = Inr v \<and> snd (auditor_advance H B E nt ps now a) = a\<lparr> au_latest := Some v \<rparr>)"
  by (cases "auditor_check B E a nt now"; cases "au_latest a") (simp_all add: auditor_advance_def Let_def)

lemma audits_latest:
  assumes "audits H B E a" "au_latest a = Some w"
  shows "note_verify E (au_log a) (wd_note w) = Inr () \<and> note_checkpoint B (wd_note w) = Inr (wd_checkpoint w)
    \<and> ck_origin (wd_checkpoint w) = au_origin a"
  using assms
proof (induction arbitrary: w rule: audits.induct)
  case (advance a nt ps now)
  consider "snd (auditor_advance H B E nt ps now a) = a"
    | v where "auditor_check B E a nt now = Inr v" "snd (auditor_advance H B E nt ps now a) = a\<lparr> au_latest := Some v \<rparr>"
    using advance_cases by metis
  then show ?case
  proof cases
    case 1
    then show ?thesis using advance by simp
  next
    case 2
    then have w: "auditor_check B E a nt now = Inr w" using advance.prems by simp
    then have "verify_quorum B E nt (au_log a) (au_policy a) (Some (saturating_add now (au_max_skew a))) = Inr w"
      "ck_origin (wd_checkpoint w) = au_origin a"
      by (auto simp: auditor_check_def verify_checkpoint_at_def split: if_splits option.splits)
    then show ?thesis using 2(2) unfolding verify_quorum_Inr by auto
  qed
qed (auto simp: auditor_new_def with_max_age_def with_max_clock_skew_def)

text \<open>
  C20. A split view is transferable proof. Whenever an auditor compares its view with a checkpoint
  another party was shown and reports a split view, the evidence it hands out passes the independent
  check with nothing but the log's key: the log signed two checkpoints of the same size with
  different roots, one of them the auditor's latest and the other the note it was given.
\<close>

theorem split_view_transferable:
  assumes "audits H B E a" "auditor_compare H B E a nt ps = Inr (SplitHistory s)"
  shows "split_view_verify B E (au_log a) s = Inr ()
    \<and> (\<exists>w c1 c2. au_latest a = Some w \<and> sv_first s = wd_note w \<and> note_parse B nt = Inr (sv_second s)
        \<and> note_checkpoint B (sv_first s) = Inr c1 \<and> note_checkpoint B (sv_second s) = Inr c2
        \<and> ck_origin c1 = au_origin a \<and> ck_origin c2 = au_origin a
        \<and> ck_size c1 = ck_size c2 \<and> ck_root c1 \<noteq> ck_root c2)"
proof -
  obtain w n c where w: "au_latest a = Some w" "note_parse B nt = Inr n" "note_verify E (au_log a) n = Inr ()"
    "note_checkpoint B n = Inr c" "ck_origin c = au_origin a"
    "th_size (checkpoint_head (wd_checkpoint w)) = th_size (checkpoint_head c)"
    "th_root (checkpoint_head (wd_checkpoint w)) \<noteq> th_root (checkpoint_head c)"
    "s = \<lparr> sv_first = wd_note w, sv_second = n \<rparr>"
    using assms(2) by (auto simp: auditor_compare_def Let_def split: option.splits if_splits)
  have "ck_size (wd_checkpoint w) = ck_size c" "ck_root (wd_checkpoint w) \<noteq> ck_root c"
    using w(6,7) by (simp_all add: checkpoint_head_def unat_eq_iff)
  moreover note audits_latest [OF assms(1) w(1)]
  ultimately show ?thesis using w by (simp add: split_view_verify_def)
qed

section \<open>Time\<close>

lemma min_option_less: "(case min_option xs of Some t \<Rightarrow> P t | None \<Rightarrow> False) \<longleftrightarrow> (\<exists>t \<in> set xs. P t)"
  if "\<And>s t. s \<le> t \<Longrightarrow> P t \<Longrightarrow> P s"
proof -
  have "fold min ys y \<in> insert y (set ys) \<and> (\<forall>z \<in> insert y (set ys). fold min ys y \<le> z)" for ys and y :: u64
  proof (induction ys arbitrary: y)
    case (Cons x ys)
    from Cons.IH [of "min x y"] show ?case by (auto simp: min_def split: if_splits)
  qed simp
  note least = this
  show ?thesis
  proof (cases xs)
    case (Cons x ys)
    have "P (fold min ys x)" if "t \<in> insert x (set ys)" "P t" for t
      using least [of ys x] that \<open>\<And>s t. s \<le> t \<Longrightarrow> P t \<Longrightarrow> P s\<close> by blast
    moreover have "fold min ys x \<in> insert x (set ys)" using least [of ys x] by blast
    ultimately show ?thesis using Cons by auto
  qed simp
qed

text \<open>Evidence that dates a signature before a revocation.\<close>

definition predates :: "u64 \<Rightarrow> u64 option \<Rightarrow> time_evidence \<Rightarrow> bool" where
  "predates at bitcoin_height e \<longleftrightarrow> te_covers e = Signature
     \<and> (case te_source e of
          Bitcoin height \<Rightarrow> (case bitcoin_height of Some limit \<Rightarrow> height \<le> limit | None \<Rightarrow> False)
        | _ \<Rightarrow> te_time e < at)"

text \<open>
  C21. A revoked key counts exactly where independent evidence says so: what it signed is accepted if
  and only if some piece of evidence covers the signature and dates it before the revocation, by a
  clock with an earlier time or by a Bitcoin block no higher than the recorded height. Evidence over
  the content alone and the time a miner wrote into a block make no difference, and more evidence
  never turns acceptance into refusal.
\<close>

theorem revoked_key_accepts_iff:
  "key_accepts (Revoked at bitcoin_height) es = Inr () \<longleftrightarrow> list_ex (predates at bitcoin_height) es"
proof -
  have clock: "(case evidence_signed_by es of Some t \<Rightarrow> t < at | None \<Rightarrow> False) \<longleftrightarrow>
      (\<exists>e \<in> set es. is_clock (te_source e) \<and> te_covers e = Signature \<and> te_time e < at)"
    using min_option_less [of "\<lambda>t. t < at"] by (auto simp: evidence_signed_by_def)
  have anchor: "(case (anchored_by es, bitcoin_height) of (Some height, Some limit) \<Rightarrow> height \<le> limit | _ \<Rightarrow> False) \<longleftrightarrow>
      (\<exists>e \<in> set es. te_covers e = Signature \<and> (\<exists>h limit. te_source e = Bitcoin h \<and> bitcoin_height = Some limit \<and> h \<le> limit))"
  proof (cases bitcoin_height)
    case (Some limit)
    have "set (List.map_filter bitcoin_height_of (filter (\<lambda>e. te_covers e = Signature) es))
        = {h. \<exists>e \<in> set es. te_covers e = Signature \<and> te_source e = Bitcoin h}"
      by (auto simp: List.map_filter_def bitcoin_height_of_def split: time_source.splits) force
    then have "(case anchored_by es of Some h \<Rightarrow> h \<le> limit | None \<Rightarrow> False) \<longleftrightarrow>
        (\<exists>h. (\<exists>e \<in> set es. te_covers e = Signature \<and> te_source e = Bitcoin h) \<and> h \<le> limit)"
      using min_option_less [of "\<lambda>h. h \<le> limit"] by (auto simp: anchored_by_def)
    then show ?thesis using Some by (auto split: option.splits)
  qed (simp split: option.splits)
  have "predates at bitcoin_height e \<longleftrightarrow> is_clock (te_source e) \<and> te_covers e = Signature \<and> te_time e < at
      \<or> te_covers e = Signature \<and> (\<exists>h limit. te_source e = Bitcoin h \<and> bitcoin_height = Some limit \<and> h \<le> limit)" for e
    by (cases "te_source e"; cases bitcoin_height) (auto simp: predates_def)
  then have "list_ex (predates at bitcoin_height) es \<longleftrightarrow>
      (case evidence_signed_by es of Some t \<Rightarrow> t < at | None \<Rightarrow> False)
      \<or> (case (anchored_by es, bitcoin_height) of (Some height, Some limit) \<Rightarrow> height \<le> limit | _ \<Rightarrow> False)"
    unfolding clock anchor list_ex_iff by blast
  moreover have "list_ex (\<lambda>e. te_covers e = Signature) es" if "list_ex (predates at bitcoin_height) es"
    using that by (auto simp: list_ex_iff predates_def)
  ultimately show ?thesis by (auto simp: key_accepts_def Let_def)
qed

text \<open>The witnesses whose counted cosignature carries a time with a property.\<close>

definition cosigned_when :: "ed25519 \<Rightarrow> u64 option \<Rightarrow> signed_note \<Rightarrow> (u64 \<Rightarrow> bool) \<Rightarrow> note_verifier list \<Rightarrow> note_verifier set" where
  "cosigned_when E latest n Q ws =
     {w \<in> set ws. counts E latest n w \<and> (\<exists>time. cosignature_time E w n = Inr time \<and> Q time)}"

lemma cosigned_when_length:
  assumes "distinct ws" "wp_witnesses P = ws"
  shows "card (cosigned_when E latest n Q ws)
    = length (filter (\<lambda>c. Q (co_time c)) (sort_key co_time (filter (in_time latest) (cosignatures E P n))))"
proof -
  let ?R = "\<lambda>w. counts E latest n w \<and> (\<exists>time. cosignature_time E w n = Inr time \<and> Q time)"
  have "length (filter (\<lambda>c. in_time latest c \<and> Q (co_time c)) (List.map_filter (\<lambda>w. case cosignature_time E w n of
         Inl _ \<Rightarrow> None
       | Inr time \<Rightarrow> Some \<lparr> co_witness = nv_name w, co_time = time \<rparr>) vs)) = length (filter ?R vs)" for vs
    by (induction vs) (auto simp: List.map_filter_simps counts_def in_time_def split: sum.splits option.splits)
  then have "length (filter (\<lambda>c. Q (co_time c)) (filter (in_time latest) (cosignatures E P n))) = length (filter ?R ws)"
    by (simp add: cosignatures_def assms(2) conj_commute)
  moreover have "length (filter (\<lambda>c. Q (co_time c)) (sort_key co_time cs)) = length (filter (\<lambda>c. Q (co_time c)) cs)" for cs :: "cosigned list"
    by (simp add: filter_sort)
  moreover have "card (cosigned_when E latest n Q ws) = length (filter ?R ws)"
    using assms(1) distinct_card [of "filter ?R ws"] by (simp add: cosigned_when_def)
  ultimately show ?thesis by (simp only:)
qed

lemma sorted_filter_bounds:
  assumes "sorted (map f xs)" "k < length xs"
  shows "k < length (filter (\<lambda>x. f x \<le> f (xs ! k)) xs)" "length (filter (\<lambda>x. f x < f (xs ! k)) xs) \<le> k"
    "length xs - k \<le> length (filter (\<lambda>x. f (xs ! k) \<le> f x) xs)"
    "length (filter (\<lambda>x. f (xs ! k) < f x) xs) < length xs - k"
proof -
  have mono: "f (xs ! i) \<le> f (xs ! j)" if "i \<le> j" "j < length xs" for i j
    using sorted_nth_mono [OF assms(1), of i j] that by simp
  have below: "{..k} \<subseteq> {i. i < length xs \<and> f (xs ! i) \<le> f (xs ! k)}" using mono assms(2) by auto
  have "card {..k} \<le> card {i. i < length xs \<and> f (xs ! i) \<le> f (xs ! k)}" by (rule card_mono [OF _ below]) simp
  then show "k < length (filter (\<lambda>x. f x \<le> f (xs ! k)) xs)" by (simp add: length_filter_conv_card)
  have "i < k" if "i < length xs" "f (xs ! i) < f (xs ! k)" for i
    using mono [of k i] that by (meson leD leI)
  then have strict: "{i. i < length xs \<and> f (xs ! i) < f (xs ! k)} \<subseteq> {..<k}" by auto
  have "card {i. i < length xs \<and> f (xs ! i) < f (xs ! k)} \<le> card {..<k}" by (rule card_mono [OF _ strict]) simp
  then show "length (filter (\<lambda>x. f x < f (xs ! k)) xs) \<le> k" by (simp add: length_filter_conv_card)
  have above: "{k..<length xs} \<subseteq> {i. i < length xs \<and> f (xs ! k) \<le> f (xs ! i)}" using mono by auto
  have "card {k..<length xs} \<le> card {i. i < length xs \<and> f (xs ! k) \<le> f (xs ! i)}" by (rule card_mono [OF _ above]) simp
  then show "length xs - k \<le> length (filter (\<lambda>x. f (xs ! k) \<le> f x) xs)" by (simp add: length_filter_conv_card)
  have "Suc k \<le> i" if "i < length xs" "f (xs ! k) < f (xs ! i)" for i
    using mono [of i k] that assms(2) by (meson leD not_less_eq_eq)
  then have "{i. i < length xs \<and> f (xs ! k) < f (xs ! i)} \<subseteq> {Suc k..<length xs}" by auto
  then have "card {i. i < length xs \<and> f (xs ! k) < f (xs ! i)} \<le> card {Suc k..<length xs}" by (rule card_mono [rotated]) simp
  then show "length (filter (\<lambda>x. f (xs ! k) < f x) xs) < length xs - k"
    using assms(2) by (simp add: length_filter_conv_card)
qed

text \<open>
  The times an auditor reports are those of the quorum: at least the threshold of distinct
  witnesses cosigned by \<open>seen_by\<close> and fewer than the threshold before it; at least the threshold
  cosigned at \<open>fresh_as_of\<close> or later and fewer than the threshold after it. Cosignatures dated beyond
  the allowed clock skew are not among them.
\<close>

lemma quorum_times:
  assumes "witness_policy_new ws t = Inr P" "verify_quorum B E nt log P latest = Inr W"
  shows "t \<le> card (cosigned_when E latest (wd_note W) (\<lambda>time. time \<le> seen_by W) ws)
    \<and> card (cosigned_when E latest (wd_note W) (\<lambda>time. time < seen_by W) ws) < t
    \<and> t \<le> card (cosigned_when E latest (wd_note W) (\<lambda>time. fresh_as_of W \<le> time) ws)
    \<and> card (cosigned_when E latest (wd_note W) (\<lambda>time. fresh_as_of W < time) ws) < t"
proof -
  note P = witness_policy_new_Inr [OF assms(1)]
  have d: "distinct ws" using P(5) by (simp add: distinct_map)
  obtain n where n: "wd_note W = n" "wd_threshold W = t"
    "wd_cosigned W = sort_key co_time (filter (in_time latest) (cosignatures E P n))"
    "t \<le> length (filter (counts E latest n) ws)"
    using assms(2) P(1,2) unfolding verify_quorum_Inr by fastforce
  let ?cs = "wd_cosigned W"
  have len: "t \<le> length ?cs" using n(4) P(1) by (simp add: n(3) counted_length)
  note count = cosigned_when_length [OF d P(1), of E latest n, folded n(3)]
  have sorted: "sorted (map co_time ?cs)" by (simp add: n(3))
  have k: "t - 1 < length ?cs" "length ?cs - t < length ?cs" using len P(3) by linarith+
  note seen = sorted_filter_bounds(1,2) [OF sorted k(1)] and fresh = sorted_filter_bounds(3,4) [OF sorted k(2)]
  have rest: "length ?cs - (length ?cs - t) = t" using len by simp
  show ?thesis unfolding n(1) count
    using seen fresh P(3) unfolding seen_by_def fresh_as_of_def n(2) rest by linarith
qed

section \<open>Instances\<close>

abbreviation log_key :: note_verifier where
  "log_key \<equiv> sg_verifier (example_signer 1 ''l'' [1])"

abbreviation witness_key :: note_verifier where
  "witness_key \<equiv> sg_verifier (example_signer 4 ''w'' [2])"

definition example_witness_policy :: witness_policy where
  "example_witness_policy = \<lparr> wp_witnesses = [witness_key], wp_threshold = 1 \<rparr>"

lemma example_witness_policy: "witness_policy_new [witness_key] 1 = Inr example_witness_policy"
  by (simp add: witness_policy_new_def example_witness_policy_def example_signer_def ALG_COSIGNATURE_V1_def)

definition tiny_checkpoint :: "hash \<Rightarrow> checkpoint" where
  "tiny_checkpoint r = example_checkpoint\<lparr> ck_size := 1, ck_root := r \<rparr>"

lemma tiny_body_small: "length (checkpoint_body nibble_base64 (tiny_checkpoint r)) \<le> 100"
  using decimal_text_small [of 1]
  by (simp add: checkpoint_body_lines checkpoint_lines_def tiny_checkpoint_def example_checkpoint_def codes_def length_nibble)

lemma example_quorum:
  assumes "ck_origin c = ck_origin example_checkpoint" "ck_extensions c = ck_extensions example_checkpoint"
    and "length (checkpoint_body nibble_base64 c) \<le> 100"
  obtains n where "note_parse nibble_base64 (note_render nibble_base64 n) = Inr n" "note_checkpoint nibble_base64 n = Inr c"
    "note_verify mirror_ed25519 log_key n = Inr ()" "cosignature_time mirror_ed25519 witness_key n = Inr 9"
    "sn_text n = checkpoint_body nibble_base64 c"
proof -
  have v: "is_valid_line (ck_origin c)" "list_all is_valid_line (ck_extensions c)"
    using example_keys(1,2) assms(1,2) by simp_all
  obtain sg n where n: "cosign mirror_ed25519 (example_signer 4 ''w'' [2])
      (sn_text (log_sign nibble_base64 mirror_ed25519 (example_signer 1 ''l'' [1]) c)) 9 = Inr sg"
    "add_signature sg (log_sign nibble_base64 mirror_ed25519 (example_signer 1 ''l'' [1]) c) = Inr n"
    "length (utf8 (note_render nibble_base64 n)) \<le> MAX_NOTE_BYTES \<longrightarrow>
      note_parse nibble_base64 (note_render nibble_base64 n) = Inr n"
    "note_checkpoint nibble_base64 n = Inr c" "note_verify mirror_ed25519 log_key n = Inr ()"
    "cosignature_time mirror_ed25519 witness_key n = Inr 9"
    using cosigned_note_parses [OF nibble_base64_ok mirror_ed25519_ok v example_keys(3-7)] by blast
  have "sn_text n = checkpoint_body nibble_base64 c"
    using n(2) by (auto simp: add_signature_def log_sign_def Let_def split: if_split_asm)
  then show ?thesis using that n example_cosigned_small [OF assms(3) n(1,2)] by blast
qed

lemma example_view:
  obtains n W where "note_parse nibble_base64 (note_render nibble_base64 n) = Inr n"
    "note_checkpoint nibble_base64 n = Inr (tiny_checkpoint r)" "note_verify mirror_ed25519 log_key n = Inr ()"
    "verify_quorum nibble_base64 mirror_ed25519 (note_render nibble_base64 n) log_key example_witness_policy (Some 309) = Inr W"
    "wd_note W = n" "wd_checkpoint W = tiny_checkpoint r"
proof -
  obtain n where n: "note_parse nibble_base64 (note_render nibble_base64 n) = Inr n"
    "note_checkpoint nibble_base64 n = Inr (tiny_checkpoint r)" "note_verify mirror_ed25519 log_key n = Inr ()"
    "cosignature_time mirror_ed25519 witness_key n = Inr 9"
    using example_quorum [of "tiny_checkpoint r"] tiny_body_small by (auto simp: tiny_checkpoint_def)
  let ?W = "\<lparr> wd_note = n, wd_checkpoint = tiny_checkpoint r,
     wd_cosigned = sort_key co_time (filter (in_time (Some 309)) (cosignatures mirror_ed25519 example_witness_policy n)),
     wd_threshold = wp_threshold example_witness_policy \<rparr>"
  have "verify_quorum nibble_base64 mirror_ed25519 (note_render nibble_base64 n) log_key example_witness_policy (Some 309) = Inr ?W"
    unfolding verify_quorum_Inr using n by (simp add: counts_def example_witness_policy_def)
  with n show ?thesis using that by fastforce
qed

definition example_auditor :: auditor where
  "example_auditor = auditor_new (ck_origin example_checkpoint) log_key example_witness_policy"

lemma example_advanced:
  obtains n W where "note_parse nibble_base64 (note_render nibble_base64 n) = Inr n"
    "auditor_advance H nibble_base64 mirror_ed25519 (note_render nibble_base64 n) [] 9 example_auditor
      = (Inr W, example_auditor\<lparr> au_latest := Some W \<rparr>)"
    "wd_note W = n" "wd_checkpoint W = tiny_checkpoint r"
proof -
  obtain n W where n: "note_parse nibble_base64 (note_render nibble_base64 n) = Inr n"
    "verify_quorum nibble_base64 mirror_ed25519 (note_render nibble_base64 n) log_key example_witness_policy (Some 309) = Inr W"
    "wd_note W = n" "wd_checkpoint W = tiny_checkpoint r" by (rule example_view [of r])
  have "auditor_check nibble_base64 mirror_ed25519 example_auditor (note_render nibble_base64 n) 9 = Inr W"
    using n by (simp add: auditor_check_def verify_checkpoint_at_def example_auditor_def auditor_new_def
        DEFAULT_MAX_CLOCK_SKEW_def saturating_add_def tiny_checkpoint_def)
  then show ?thesis using that n by (simp add: auditor_advance_def example_auditor_def auditor_new_def)
qed

theorem audited_record_stays_witness:
  "\<exists>a r. verify_record poly_hash a 0 5 [] = Inr r \<and> head_of a = Some (head_over poly_hash [5])
    \<and> head_of (fold (advance_call poly_hash nibble_base64 mirror_ed25519) [([], [], 10)] a) = Some (head_over poly_hash [5])
    \<and> ([5] ! unat (0 :: u64) = (5 :: hash)
       \<or> collision poly_hash (path_inputs poly_hash (unat (0 :: u64)) (th_size (head_over poly_hash [5])) 5 []
            @ view_inputs poly_hash nibble_base64 mirror_ed25519 [([], [], 10)] a) (prefix_inputs poly_hash [5]))"
proof -
  obtain W :: witnessed where W: "wd_checkpoint W = tiny_checkpoint 5" by (rule example_advanced [of poly_hash 5])
  define a where "a = example_auditor\<lparr> au_latest := Some W \<rparr>"
  have "checkpoint_head (tiny_checkpoint 5) = head_over poly_hash [5]"
    by (simp add: checkpoint_head_def tiny_checkpoint_def head_over_def root_of_small)
  then have h: "head_of a = Some (head_over poly_hash [5])" by (simp add: a_def head_of_def W)
  have "auditor_check nibble_base64 mirror_ed25519 a [] 10 = Inl (AuditCheckpoint MalformedNote)"
    by (simp add: auditor_check_def verify_checkpoint_at_def verify_quorum_def note_parse_def utf8_def)
  then have c: "head_of (fold (advance_call poly_hash nibble_base64 mirror_ed25519) [([], [], 10)] a) = Some (head_over poly_hash [5])"
    using h by (simp add: advance_call_def auditor_advance_def)
  have "verify_inclusion poly_hash (head_over poly_hash [5]) 0 5 [] = Inr ()"
    by (simp add: verify_inclusion_def head_over_def root_of_small)
  then obtain r where r: "verify_record poly_hash a 0 5 [] = Inr r"
    using h by (auto simp: verify_record_def head_of_def)
  show ?thesis using audited_record_stays [OF r h c] r h c by auto
qed

theorem split_view_transferable_witness:
  "\<exists>a nt s. audits poly_hash nibble_base64 mirror_ed25519 a
    \<and> auditor_compare poly_hash nibble_base64 mirror_ed25519 a nt [] = Inr (SplitHistory s)
    \<and> split_view_verify nibble_base64 mirror_ed25519 (au_log a) s = Inr ()"
proof -
  obtain n W where w: "auditor_advance poly_hash nibble_base64 mirror_ed25519 (note_render nibble_base64 n) [] 9 example_auditor
      = (Inr W, example_auditor\<lparr> au_latest := Some W \<rparr>)" "wd_checkpoint W = tiny_checkpoint 5"
    by (rule example_advanced [of poly_hash 5])
  define a where "a = example_auditor\<lparr> au_latest := Some W \<rparr>"
  have a: "audits poly_hash nibble_base64 mirror_ed25519 a"
  proof -
    have "audits poly_hash nibble_base64 mirror_ed25519 example_auditor" unfolding example_auditor_def by (rule audits.new)
    from audits.advance [OF this, of "note_render nibble_base64 n" "[]" 9] show ?thesis by (simp add: w(1) a_def)
  qed
  obtain m where m: "note_parse nibble_base64 (note_render nibble_base64 m) = Inr m"
    "note_checkpoint nibble_base64 m = Inr (tiny_checkpoint 6)" "note_verify mirror_ed25519 log_key m = Inr ()"
    by (rule example_view [of 6])
  have c: "auditor_compare poly_hash nibble_base64 mirror_ed25519 a (note_render nibble_base64 m) []
      = Inr (SplitHistory \<lparr> sv_first = wd_note W, sv_second = m \<rparr>)"
    using m w(2) by (simp add: auditor_compare_def a_def example_auditor_def auditor_new_def tiny_checkpoint_def
        checkpoint_head_def)
  show ?thesis using split_view_transferable [OF a c] a c by blast
qed

text \<open>Keys of which the witness's verifies one message only, in plain ASCII.\<close>

definition sole_message :: utext where
  "sole_message = COSIGNATURE_HEADER @ decimal_text 9 @ [10] @ sn_text example_note"

definition sole_ed25519 :: ed25519 where
  "sole_ed25519 = mirror_ed25519\<lparr> verify_strict := \<lambda>pk m sg. verify_strict mirror_ed25519 pk m sg
     \<and> (pk = nv_key witness_key \<longrightarrow> m = utf8 sole_message) \<rparr>"

lemma utf8_ascii: "list_all (\<lambda>b. b < 128) (utf8 m) \<Longrightarrow> m = map unat (utf8 m)"
proof (induction m)
  case (Cons c m)
  have "128 \<le> (of_nat (128 + c mod 64) :: u8)"
    by (simp add: word_le_nat_alt unat_of_nat take_bit_eq_mod del: of_nat_add)
  then have "\<not> (of_nat (128 + c mod 64) :: u8) < 128" by simp
  with Cons.prems have c: "c < 128" by (auto simp: utf8_def utf8_char_def simp del: of_nat_add split: if_splits)
  then have "unat (of_nat c :: u8) = c" by (simp add: unat_of_nat take_bit_eq_mod)
  with c Cons show ?case by (simp add: utf8_def utf8_char_def)
qed (simp add: utf8_def)

lemma utf8_of_ascii: "list_all (\<lambda>c. c < 128) m \<Longrightarrow> list_all (\<lambda>b. b < 128) (utf8 m)"
  by (induction m) (auto simp: utf8_def utf8_char_def word_less_nat_alt unat_of_nat take_bit_eq_mod)

lemma utf8_ascii_inject:
  assumes "utf8 m = utf8 a" "list_all (\<lambda>c. c < 128) a"
  shows "m = a"
proof -
  have "list_all (\<lambda>b. b < 128) (utf8 a)" using assms(2) by (rule utf8_of_ascii)
  then show ?thesis using utf8_ascii [of m] utf8_ascii [of a] assms(1) by simp
qed

lemma sole_message_ascii: "list_all (\<lambda>c. c < 128) sole_message"
proof -
  have "unat b div 16 < 63" "unat b mod 16 < 63" for b :: u8
    using unat_lt2p [of b] by (simp_all add: less_mult_imp_div_less)
  then have "list_all (\<lambda>c. c < 128) (b64_encode nibble_base64 bs)" for bs
    by (auto simp: nibble_base64_def list_all_iff)
  then show ?thesis
    using decimal_text_small [of 7] decimal_text_small [of 9]
    by (simp add: sole_message_def COSIGNATURE_HEADER_def codes_def example_note_def log_sign_def Let_def
        checkpoint_body_def example_checkpoint_def)
qed

lemma sole_message: "cosignature_message 9 (sn_text example_note) = Inr sole_message"
  using checkpoint_body_split
  by (simp add: cosignature_message_def sole_message_def MAX_COSIGNATURE_TIME_def example_note_def log_sign_def Let_def)

lemma keys_differ: "nv_key log_key \<noteq> nv_key witness_key"
  by (simp add: example_signer_def mirror_ed25519_def Let_def)

lemma sole_note_verify: "note_verify sole_ed25519 log_key n = note_verify mirror_ed25519 log_key n"
  using keys_differ by (simp add: note_verify_def sole_ed25519_def cong: if_cong)

lemma sole_admitted:
  "admit nibble_base64 sole_ed25519 example_witness (example_request old) 9 = Inr (example_note, example_checkpoint)"
  using example_admitted [of old]
  by (auto simp: admit_def example_witness_def add_log_def witness_new_def sole_note_verify split: if_splits)

lemma sole_add_checkpoint:
  "add_checkpoint S H nibble_base64 sole_ed25519 example_witness (example_request old) 9 s
    = add_checkpoint S H nibble_base64 mirror_ed25519 example_witness (example_request old) 9 s"
proof -
  have "cosign sole_ed25519 = cosign mirror_ed25519" by (simp add: cosign_def [abs_def] sole_ed25519_def)
  then have "add_checkpoint_record S sole_ed25519 = add_checkpoint_record S mirror_ed25519"
    unfolding add_checkpoint_record_def [abs_def] by (elim ssubst) (rule HOL.refl)
  then show ?thesis
    unfolding add_checkpoint_def add_checkpoint_check_def sole_admitted example_admitted by (elim ssubst) (rule HOL.refl)
qed

lemma sole_honest: "\<exists>x. honest_witness unary_json poly_hash nibble_base64 sole_ed25519 witness_key x"
proof -
  let ?S = "file_store unary_json nibble_base64" and ?s = "run_start example_witness (example_disk fmempty)"
  have s: "wr_store ?s = example_disk fmempty" "wr_witness ?s = example_witness" "wr_issued ?s = []"
    by (simp_all add: run_start_def)
  obtain sg d where "add_checkpoint ?S poly_hash nibble_base64 sole_ed25519 example_witness
      (example_request (of_nat (head_size (fmlookup fmempty (ck_origin example_checkpoint))))) 9 (example_disk fmempty) = (Inr sg, d)"
    using example_issued [of fmempty] unfolding sole_add_checkpoint by (auto simp: fmran'_def)
  then obtain p y z where z: "wstep ?S poly_hash nibble_base64 sole_ed25519 ?s y" "wstep ?S poly_hash nibble_base64 sole_ed25519 y z"
    "wr_issued z = [(p, sg)]" "pd_note p = example_note" "pd_now p = 9"
    using add_checkpoint_steps [of ?S poly_hash nibble_base64 sole_ed25519 ?s] s sole_admitted by metis
  have "witness_steps unary_json poly_hash nibble_base64 sole_ed25519 example_witness (example_disk fmempty) z"
    using z(1,2) by (meson converse_rtranclp_into_rtranclp rtranclp.rtrancl_refl)
  moreover have "\<exists>(p, sp) \<in> set (wr_issued z). cosignature_message (pd_now p) (sn_text (pd_note p)) = Inr m"
    if "verify_strict sole_ed25519 (nv_key witness_key) (utf8 m) sg" for m sg
    using that utf8_ascii_inject [OF _ sole_message_ascii, of m] z(3-5) sole_message by (simp add: sole_ed25519_def)
  ultimately show ?thesis unfolding honest_witness_def by blast
qed

theorem quorum_one_history_witness:
  "\<exists>nt W x. verify_quorum nibble_base64 sole_ed25519 nt log_key example_witness_policy None = Inr W
    \<and> honest_witness unary_json poly_hash nibble_base64 sole_ed25519 witness_key x
    \<and> same_history poly_hash (run_inputs poly_hash x) (checkpoint_head (wd_checkpoint W)) (checkpoint_head (wd_checkpoint W))"
proof -
  obtain n where n: "note_parse nibble_base64 (note_render nibble_base64 n) = Inr n"
    "note_checkpoint nibble_base64 n = Inr example_checkpoint" "note_verify mirror_ed25519 log_key n = Inr ()"
    "cosignature_time mirror_ed25519 witness_key n = Inr 9" "sn_text n = checkpoint_body nibble_base64 example_checkpoint"
    using example_quorum [OF HOL.refl HOL.refl example_body_small] by metis
  have "sn_text n = sn_text example_note" using n(5) by (simp add: example_note_def log_sign_def Let_def)
  then have m: "cosignature_message 9 (sn_text n) = Inr sole_message" by (simp add: sole_message)
  obtain a where a: "nv_algorithm witness_key = ALG_COSIGNATURE_V1" "signature_from witness_key n = Inr a"
    "length (ns_signature a) = 72" "(of_nat (le_val (rev (take 8 (ns_signature a)))) :: u64) = 9"
    "verify_strict mirror_ed25519 (nv_key witness_key) (utf8 sole_message) (drop 8 (ns_signature a))"
    using n(4) m by (auto simp: cosignature_time_def Let_def split: if_splits)
  have "cosignature_time sole_ed25519 witness_key n = Inr 9"
    using a m by (simp add: cosignature_time_def Let_def sole_ed25519_def cong: if_cong)
  then obtain W where W: "verify_quorum nibble_base64 sole_ed25519 (note_render nibble_base64 n) log_key example_witness_policy None = Inr W"
    using n(1-3) by (auto simp: verify_quorum_Inr counts_def example_witness_policy_def sole_note_verify)
  obtain x where x: "honest_witness unary_json poly_hash nibble_base64 sole_ed25519 witness_key x" using sole_honest by blast
  have "\<forall>v \<in> {witness_key}. honest_witness unary_json poly_hash nibble_base64 sole_ed25519 v x" using x by simp
  from quorum_one_history [OF unary_json_ok nibble_base64_ok example_witness_policy W W HOL.refl _ this]
  show ?thesis using W x by auto
qed

end
