(* ===== verification/Ots.thy ===== *)
theory Ots
  imports Checkpoint "HOL-Library.List_Lexorder" "HOL-Library.Product_Lexorder"
begin

text \<open>
  OpenTimestamps proofs (\<open>src/src/ots.rs\<close>): the tree of hash operations and attestations, its binary
  format, merging, the calendar workflow, and the check against a Bitcoin block header.

  A \<open>Reader\<close> is the list of the bytes not yet read. SHA-256 is the parameter \<open>H\<close> and RIPEMD-160 the
  parameter \<open>R\<close>. A mutable reference to a node inside the tree is the function applied to that node.
\<close>

section \<open>Constants and data\<close>

definition MAGIC :: bytes where
  "MAGIC = [0] @ ascii ''OpenTimestamps'' @ [0, 0] @ ascii ''Proof'' @ [0]
     @ [0xbf, 0x89, 0xe2, 0xe8, 0x84, 0xe8, 0x92, 0x94]"

definition MAJOR_VERSION :: u8 where "MAJOR_VERSION = 1"
definition TAG_ATTESTATION :: u8 where "TAG_ATTESTATION = 0x00"
definition TAG_FORK :: u8 where "TAG_FORK = 0xff"
definition TAG_SHA1 :: u8 where "TAG_SHA1 = 0x02"
definition TAG_RIPEMD160 :: u8 where "TAG_RIPEMD160 = 0x03"
definition TAG_SHA256 :: u8 where "TAG_SHA256 = 0x08"
definition TAG_KECCAK256 :: u8 where "TAG_KECCAK256 = 0x67"
definition TAG_APPEND :: u8 where "TAG_APPEND = 0xf0"
definition TAG_PREPEND :: u8 where "TAG_PREPEND = 0xf1"
definition TAG_REVERSE :: u8 where "TAG_REVERSE = 0xf2"
definition TAG_HEXLIFY :: u8 where "TAG_HEXLIFY = 0xf3"

definition PENDING :: bytes where
  "PENDING = [0x83, 0xdf, 0xe3, 0x0d, 0x2e, 0xf9, 0x0c, 0x8e]"

definition BITCOIN :: bytes where
  "BITCOIN = [0x05, 0x88, 0x96, 0x0d, 0x73, 0xd7, 0x19, 0x01]"

definition MAX_MSG :: nat where "MAX_MSG = 4096"
definition MAX_PAYLOAD :: nat where "MAX_PAYLOAD = 8192"
definition MAX_URI :: nat where "MAX_URI = 1000"
definition MAX_DEPTH :: nat where "MAX_DEPTH = 256"
definition MAX_PROOF_BYTES :: nat where "MAX_PROOF_BYTES = 64 * 1024"
definition MIN_TARGET_ZERO_BITS :: nat where "MIN_TARGET_ZERO_BITS = 64"

datatype ots_error =
    Malformed string
  | WrongDigest
  | NotInBlock
  | BadProofOfWork
  | InsufficientWork
  | NotOnChain
  | CalendarNotAllowed bytes

datatype op =
    Sha1
  | Ripemd160
  | Sha256
  | Keccak256
  | Append bytes
  | Prepend bytes
  | Reverse
  | Hexlify

datatype attestation =
    Pending (uri: bytes)
  | Bitcoin (height: u64)
  | Unknown (unknown_tag: bytes) (payload: bytes)

datatype timestamp = Timestamp (ts_msg: bytes) (ts_attestations: "attestation list") (ts_ops: "(op \<times> timestamp) list")

section \<open>Operations on the message\<close>

fun op_tag :: "op \<Rightarrow> u8" where
  "op_tag Sha1 = TAG_SHA1"
| "op_tag Ripemd160 = TAG_RIPEMD160"
| "op_tag Sha256 = TAG_SHA256"
| "op_tag Keccak256 = TAG_KECCAK256"
| "op_tag (Append a) = TAG_APPEND"
| "op_tag (Prepend a) = TAG_PREPEND"
| "op_tag Reverse = TAG_REVERSE"
| "op_tag Hexlify = TAG_HEXLIFY"

definition op_sort_key :: "op \<Rightarrow> u8 \<times> bytes" where
  "op_sort_key op = (case op of Append a \<Rightarrow> (op_tag op, a) | Prepend a \<Rightarrow> (op_tag op, a) | _ \<Rightarrow> (op_tag op, []))"

definition evaluated :: "op \<Rightarrow> bool" where
  "evaluated op \<longleftrightarrow> op \<noteq> Sha1 \<and> op \<noteq> Keccak256"

definition apply_op :: "hasher \<Rightarrow> (bytes \<Rightarrow> bytes) \<Rightarrow> op \<Rightarrow> bytes \<Rightarrow> bytes option" where
  "apply_op H R op msg =
     (let out = (case op of
          Sha256 \<Rightarrow> Some (hash_bytes (H msg))
        | Ripemd160 \<Rightarrow> Some (R msg)
        | Append a \<Rightarrow> Some (msg @ a)
        | Prepend a \<Rightarrow> Some (a @ msg)
        | Reverse \<Rightarrow> Some (rev msg)
        | Hexlify \<Rightarrow> Some (ascii (bytes_to_hex msg))
        | Sha1 \<Rightarrow> None
        | Keccak256 \<Rightarrow> None)
      in case out of None \<Rightarrow> None | Some out \<Rightarrow> if length out \<le> MAX_MSG then Some out else None)"

fun attestation_sort_key :: "attestation \<Rightarrow> bytes \<times> bytes" where
  "attestation_sort_key (Pending u) = (PENDING, u)"
| "attestation_sort_key (Bitcoin h) = (BITCOIN, be_bytes 8 h)"
| "attestation_sort_key (Unknown tag p) = (tag, p)"

section \<open>Reading and writing primitives\<close>

definition end_of_proof :: ots_error where
  "end_of_proof = Malformed ''unexpected end of proof''"

fun read_byte :: "bytes \<Rightarrow> ots_error + u8 \<times> bytes" where
  "read_byte [] = Inl end_of_proof"
| "read_byte (b # bs) = Inr (b, bs)"

definition read_take :: "nat \<Rightarrow> bytes \<Rightarrow> ots_error + bytes \<times> bytes" where
  "read_take n bs = (if n \<le> length bs then Inr (take n bs, drop n bs) else Inl end_of_proof)"

fun varuint_loop :: "nat list \<Rightarrow> u64 \<Rightarrow> bytes \<Rightarrow> ots_error + u64 \<times> bytes" where
  "varuint_loop [] val bs = Inl (Malformed ''varuint overflows u64'')"
| "varuint_loop (shift # shifts) val bs =
     and_then (read_byte bs) (\<lambda>(b, bs).
       let part = (ucast (b AND 0x7f) :: u64) in
       if shift = 63 \<and> part > 1 then Inl (Malformed ''varuint overflows u64'')
       else
         let val = val OR push_bit shift part in
         if b AND 0x80 = 0 then Inr (val, bs) else varuint_loop shifts val bs)"

definition varuint :: "bytes \<Rightarrow> ots_error + u64 \<times> bytes" where
  "varuint bs = varuint_loop (map (\<lambda>i. 7 * i) [0..<10]) 0 bs"

definition varbytes :: "nat \<Rightarrow> bytes \<Rightarrow> ots_error + bytes \<times> bytes" where
  "varbytes limit bs =
     and_then (varuint bs) (\<lambda>(len, bs).
       if unat len \<le> limit then read_take (unat len) bs else Inl (Malformed ''length over the limit''))"

lemma unat_drop_7: "unat (drop_bit 7 v) = unat v div 128" for v :: u64
  using unat_lt2p [of v] by (simp only: unsigned_drop_bit_eq) (simp add: drop_bit_eq_div take_bit_eq_mod)

function write_varuint :: "u64 \<Rightarrow> bytes" where
  "write_varuint v =
     (let b = (ucast (v AND 0x7f) :: u8); v = drop_bit 7 v in
      if v = 0 then [b] else (b OR 0x80) # write_varuint v)"
  by auto
termination
proof (relation "measure unat", simp, clarsimp)
  fix v :: u64
  assume "drop_bit 7 v \<noteq> 0"
  then have "unat v div 128 \<noteq> 0" by (metis unat_eq_zero unat_drop_7)
  then show "unat (drop_bit 7 v) < unat v" by (simp add: unat_drop_7)
qed

declare write_varuint.simps [simp del]

definition write_varbytes :: "bytes \<Rightarrow> bytes" where
  "write_varbytes b = write_varuint (of_nat (length b)) @ b"

definition uri_byte :: "u8 \<Rightarrow> bool" where
  "uri_byte c \<longleftrightarrow> 48 \<le> c \<and> c \<le> 57 \<or> 65 \<le> c \<and> c \<le> 90 \<or> 97 \<le> c \<and> c \<le> 122 \<or> c \<in> set (ascii ''-._/:'')"

definition valid_uri :: "bytes \<Rightarrow> bool" where
  "valid_uri u \<longleftrightarrow> length u \<le> MAX_URI \<and> list_all uri_byte u"

text \<open>\<open>String::from_utf8\<close> accepts exactly well-formed UTF-8 (Unicode, table 3-7).\<close>

definition continuation :: "u8 \<Rightarrow> bool" where
  "continuation b \<longleftrightarrow> 0x80 \<le> b \<and> b \<le> 0xbf"

fun utf8_valid :: "bytes \<Rightarrow> bool" where
  "utf8_valid [] = True"
| "utf8_valid (b # bs) =
     (if b < 0x80 then utf8_valid bs
      else case bs of
        [] \<Rightarrow> False
      | c # bs1 \<Rightarrow>
          if 0xc2 \<le> b \<and> b \<le> 0xdf then continuation c \<and> utf8_valid bs1
          else case bs1 of
            [] \<Rightarrow> False
          | d # bs2 \<Rightarrow>
              if 0xe0 \<le> b \<and> b \<le> 0xef
              then (if b = 0xe0 then 0xa0 \<le> c else 0x80 \<le> c) \<and> (if b = 0xed then c \<le> 0x9f else c \<le> 0xbf)
                \<and> continuation d \<and> utf8_valid bs2
              else case bs2 of
                [] \<Rightarrow> False
              | e # bs3 \<Rightarrow>
                  0xf0 \<le> b \<and> b \<le> 0xf4 \<and> (if b = 0xf0 then 0x90 \<le> c else 0x80 \<le> c)
                  \<and> (if b = 0xf4 then c \<le> 0x8f else c \<le> 0xbf) \<and> continuation d \<and> continuation e \<and> utf8_valid bs3)"

section \<open>Attestations\<close>

definition read_attestation :: "bytes \<Rightarrow> ots_error + attestation \<times> bytes" where
  "read_attestation bs =
     and_then (read_take 8 bs) (\<lambda>(tag, bs).
     and_then (varbytes MAX_PAYLOAD bs) (\<lambda>(payload, bs).
     and_then
       (if tag = PENDING then
          and_then (varbytes MAX_URI payload) (\<lambda>(u, inner).
            if \<not> utf8_valid u then Inl (Malformed ''calendar URI is not UTF-8'')
            else if \<not> valid_uri u then Inl (Malformed ''calendar URI has a disallowed character'')
            else Inr (Pending u, inner))
        else if tag = BITCOIN then and_then (varuint payload) (\<lambda>(h, inner). Inr (Bitcoin h, inner))
        else Inr (Unknown tag payload, []))
       (\<lambda>(att, inner).
          if inner \<noteq> [] then Inl (Malformed ''attestation payload has trailing bytes'') else Inr (att, bs))))"

fun write_attestation :: "attestation \<Rightarrow> bytes" where
  "write_attestation (Pending u) = PENDING @ write_varbytes (write_varbytes u)"
| "write_attestation (Bitcoin h) = BITCOIN @ write_varbytes (write_varuint h)"
| "write_attestation (Unknown tag p) = tag @ write_varbytes p"

section \<open>The tree\<close>

definition timestamp_new :: "bytes \<Rightarrow> timestamp" where
  "timestamp_new msg = Timestamp msg [] []"

definition add_attestation :: "attestation \<Rightarrow> timestamp \<Rightarrow> timestamp" where
  "add_attestation att t =
     (if att \<in> set (ts_attestations t) then t
      else Timestamp (ts_msg t) (ts_attestations t @ [att]) (ts_ops t))"

definition canonicalize :: "timestamp \<Rightarrow> timestamp" where
  "canonicalize t =
     Timestamp (ts_msg t) (sort_key attestation_sort_key (ts_attestations t))
       (sort_key (\<lambda>(op, _). op_sort_key op) (ts_ops t))"

text \<open>\<open>iter_mut().find\<close> on the operation: the first entry changes.\<close>

fun update_first :: "op \<Rightarrow> (timestamp \<Rightarrow> timestamp) \<Rightarrow> (op \<times> timestamp) list \<Rightarrow> (op \<times> timestamp) list" where
  "update_first op f [] = []"
| "update_first op f ((o', t) # ops) = (if o' = op then (o', f t) # ops else (o', t) # update_first op f ops)"

definition insert_op :: "(timestamp \<Rightarrow> timestamp) \<Rightarrow> op \<Rightarrow> timestamp \<Rightarrow> timestamp \<Rightarrow> timestamp" where
  "insert_op join op child t =
     canonicalize (Timestamp (ts_msg t) (ts_attestations t)
       (if op \<in> fst ` set (ts_ops t) then update_first op join (ts_ops t) else ts_ops t @ [(op, child)]))"

fun merge :: "timestamp \<Rightarrow> timestamp \<Rightarrow> timestamp" and merge_ops :: "timestamp \<Rightarrow> (op \<times> timestamp) list \<Rightarrow> timestamp" where
  "merge t (Timestamp m atts ops) = canonicalize (merge_ops (fold add_attestation atts t) ops)"
| "merge_ops t [] = t"
| "merge_ops t ((op, child) # ops) = merge_ops (insert_op (\<lambda>existing. merge existing child) op child t) ops"

definition add_op :: "op \<Rightarrow> timestamp \<Rightarrow> timestamp \<Rightarrow> timestamp" where
  "add_op op child t = insert_op (\<lambda>existing. merge existing child) op child t"

section \<open>Reading a tree\<close>

definition read_op :: "u8 \<Rightarrow> bytes \<Rightarrow> ots_error + op \<times> bytes" where
  "read_op tag bs =
     (if tag = TAG_SHA1 then Inr (Sha1, bs)
      else if tag = TAG_RIPEMD160 then Inr (Ripemd160, bs)
      else if tag = TAG_SHA256 then Inr (Sha256, bs)
      else if tag = TAG_KECCAK256 then Inr (Keccak256, bs)
      else if tag = TAG_REVERSE then Inr (Reverse, bs)
      else if tag = TAG_HEXLIFY then Inr (Hexlify, bs)
      else if tag = TAG_APPEND \<or> tag = TAG_PREPEND then
        and_then (varbytes MAX_MSG bs) (\<lambda>(arg, bs).
          if arg = [] then Inl (Malformed ''empty append or prepend'')
          else Inr (if tag = TAG_APPEND then Append arg else Prepend arg, bs))
      else Inl (Malformed ''unknown operation tag''))"

definition next_msg :: "hasher \<Rightarrow> (bytes \<Rightarrow> bytes) \<Rightarrow> op \<Rightarrow> bytes \<Rightarrow> ots_error + bytes" where
  "next_msg H R op msg =
     (if evaluated op then ok_or (Malformed ''operation result exceeds the limit'') (apply_op H R op msg) else Inr [])"

lemma and_then_cong [fundef_cong]:
  "r = r' \<Longrightarrow> (\<And>a. r' = Inr a \<Longrightarrow> f a = f' a) \<Longrightarrow> and_then r f = and_then r' f'"
  by (cases r') auto

text \<open>The loop of \<open>Timestamp::read\<close>; \<open>depth\<close> is not 0 when it runs.\<close>

function read_loop :: "hasher \<Rightarrow> (bytes \<Rightarrow> bytes) \<Rightarrow> nat \<Rightarrow> timestamp \<Rightarrow> bytes \<Rightarrow> ots_error + timestamp \<times> bytes" where
  "read_loop H R depth node bs =
     and_then (read_byte bs) (\<lambda>(tag0, bs0).
     and_then (if tag0 = TAG_FORK then read_byte bs0 else Inr (tag0, bs0)) (\<lambda>(tag, bs1).
     and_then
       (if tag = TAG_ATTESTATION then
          and_then (read_attestation bs1) (\<lambda>(att, bs2). Inr (add_attestation att node, bs2))
        else
          and_then (read_op tag bs1) (\<lambda>(op, bs2).
          and_then (next_msg H R op (ts_msg node)) (\<lambda>msg.
          and_then
            (if depth - 1 = 0 then Inl (Malformed ''proof nests too deeply'')
             else read_loop H R (depth - 1) (timestamp_new msg) bs2)
            (\<lambda>(child, bs3). Inr (add_op op child node, bs3)))))
       (\<lambda>(node, bs3).
          if tag0 = TAG_FORK then read_loop H R depth node bs3 else Inr (canonicalize node, bs3))))"
  by pat_completeness auto

lemma read_take_shorter: "read_take n bs = Inr (a, bs') \<Longrightarrow> length bs' \<le> length bs"
  by (auto simp: read_take_def split: if_splits)

lemma read_byte_shorter: "read_byte bs = Inr (a, bs') \<Longrightarrow> length bs' < length bs"
  by (cases bs) auto

lemma varuint_loop_shorter: "varuint_loop ss v bs = Inr (a, bs') \<Longrightarrow> length bs' < length bs"
  by (induction ss v bs rule: varuint_loop.induct)
    (fastforce simp: Let_def dest: read_byte_shorter split: if_splits)+

lemma varbytes_shorter: "varbytes n bs = Inr (a, bs') \<Longrightarrow> length bs' < length bs"
  by (auto simp: varbytes_def varuint_def dest!: varuint_loop_shorter read_take_shorter split: if_splits)

lemma read_attestation_shorter: "read_attestation bs = Inr (a, bs') \<Longrightarrow> length bs' < length bs"
  by (auto simp: read_attestation_def dest!: varbytes_shorter read_take_shorter split: if_splits)

lemma read_op_shorter: "read_op tag bs = Inr (a, bs') \<Longrightarrow> length bs' \<le> length bs"
  by (auto simp: read_op_def dest!: varbytes_shorter split: if_splits)

lemma read_item_shorter:
  assumes "(if tag = TAG_ATTESTATION then
          and_then (read_attestation bs1) (\<lambda>(att, bs2). Inr (add_attestation att node, bs2))
        else
          and_then (read_op tag bs1) (\<lambda>(op, bs2).
          and_then (next_msg H R op (ts_msg node)) (\<lambda>msg.
          and_then
            (if depth - 1 = 0 then Inl (Malformed ''proof nests too deeply'')
             else read_loop H R (depth - 1) (timestamp_new msg) bs2)
            (\<lambda>(child, bs3). Inr (add_op op child node, bs3))))) = Inr (node', bs3)"
    and "\<And>op bs2 msg child. tag \<noteq> TAG_ATTESTATION \<Longrightarrow> read_op tag bs1 = Inr (op, bs2) \<Longrightarrow>
        next_msg H R op (ts_msg node) = Inr msg \<Longrightarrow> depth - 1 \<noteq> 0 \<Longrightarrow>
        read_loop H R (depth - 1) (timestamp_new msg) bs2 = Inr (child, bs3) \<Longrightarrow> length bs3 < length bs2"
  shows "length bs3 \<le> length bs1"
proof (cases "tag = TAG_ATTESTATION")
  case True
  then show ?thesis using assms(1) by (auto dest: read_attestation_shorter)
next
  case False
  then obtain op bs2 msg child where "read_op tag bs1 = Inr (op, bs2)" "next_msg H R op (ts_msg node) = Inr msg"
    "depth - 1 \<noteq> 0" "read_loop H R (depth - 1) (timestamp_new msg) bs2 = Inr (child, bs3)"
    using assms(1) by (auto split: if_splits)
  then show ?thesis using assms(2) [OF False] read_op_shorter [of tag bs1 op bs2] by fastforce
qed

lemma read_tags_shorter:
  "read_byte bs = Inr (tag0, bs0) \<Longrightarrow>
    (if tag0 = TAG_FORK then read_byte bs0 else Inr (tag0, bs0)) = Inr (tag, bs1) \<Longrightarrow> length bs1 < length bs"
  by (auto dest!: read_byte_shorter split: if_splits)

lemma read_loop_shorter:
  "read_loop_dom (H, R, depth, node, bs) \<Longrightarrow> read_loop H R depth node bs = Inr (t, bs') \<Longrightarrow> length bs' < length bs"
proof (induction arbitrary: t bs' rule: read_loop.pinduct)
  case (1 H R depth node bs)
  obtain tag0 bs0 tag bs1 node' bs3 where t0: "read_byte bs = Inr (tag0, bs0)"
    and t1: "(if tag0 = TAG_FORK then read_byte bs0 else Inr (tag0, bs0)) = Inr (tag, bs1)"
    and mid: "(if tag = TAG_ATTESTATION then
          and_then (read_attestation bs1) (\<lambda>(att, bs2). Inr (add_attestation att node, bs2))
        else
          and_then (read_op tag bs1) (\<lambda>(op, bs2).
          and_then (next_msg H R op (ts_msg node)) (\<lambda>msg.
          and_then
            (if depth - 1 = 0 then Inl (Malformed ''proof nests too deeply'')
             else read_loop H R (depth - 1) (timestamp_new msg) bs2)
            (\<lambda>(child, bs3). Inr (add_op op child node, bs3))))) = Inr (node', bs3)"
    and rest: "(if tag0 = TAG_FORK then read_loop H R depth node' bs3 else Inr (canonicalize node', bs3)) = Inr (t, bs')"
    using "1.prems" unfolding read_loop.psimps [OF "1.hyps"] by (auto simp del: read_byte.simps)
  have l: "length bs3 < length bs"
    using read_item_shorter [OF mid] "1.IH"(1) [OF t0 HOL.refl t1 HOL.refl _ _ HOL.refl] read_tags_shorter [OF t0 t1] by fastforce
  show ?case
    using l rest "1.IH"(2) [OF t0 HOL.refl t1 HOL.refl mid HOL.refl] by (auto split: if_splits)
qed

termination read_loop
proof (relation "measures [\<lambda>(H, R, depth, node, bs). depth, \<lambda>(H, R, depth, node, bs). length bs]", goal_cases)
  case (3 H R depth node bs a x y aa xa ya ab xaa yb)
  have "length yb \<le> length ya"
    using read_item_shorter [OF 3(5) [folded 3(6)]] read_loop_shorter [OF 3(8) [OF _ _ HOL.refl]] by blast
  moreover have "length ya < length bs" using 3 read_tags_shorter [of bs x y xa ya] by auto
  ultimately show ?case by simp
qed auto

declare read_loop.simps [simp del]

definition read_timestamp :: "hasher \<Rightarrow> (bytes \<Rightarrow> bytes) \<Rightarrow> nat \<Rightarrow> bytes \<Rightarrow> bytes \<Rightarrow> ots_error + timestamp \<times> bytes" where
  "read_timestamp H R depth msg bs =
     (if depth = 0 then Inl (Malformed ''proof nests too deeply'') else read_loop H R depth (timestamp_new msg) bs)"

definition deserialize :: "hasher \<Rightarrow> (bytes \<Rightarrow> bytes) \<Rightarrow> bytes \<Rightarrow> bytes \<Rightarrow> ots_error + timestamp" where
  "deserialize H R bs msg =
     (if length bs > MAX_PROOF_BYTES then Inl (Malformed ''proof is too large'')
      else
        and_then (read_timestamp H R MAX_DEPTH msg bs) (\<lambda>(t, rest).
          if rest \<noteq> [] then Inl (Malformed ''trailing bytes after the proof'') else Inr t))"

section \<open>Growing and writing a tree\<close>

text \<open>\<open>Timestamp::op\<close> gives a reference to the child; \<open>f\<close> is what its caller does with it.\<close>

definition timestamp_op ::
  "hasher \<Rightarrow> (bytes \<Rightarrow> bytes) \<Rightarrow> op \<Rightarrow> (timestamp \<Rightarrow> timestamp \<times> 'a) \<Rightarrow> timestamp \<Rightarrow> timestamp \<times> 'a option" where
  "timestamp_op H R op f t =
     (let t = (if op \<in> fst ` set (ts_ops t) then t
               else canonicalize (Timestamp (ts_msg t) (ts_attestations t)
                 (ts_ops t @ [(op, timestamp_new (case apply_op H R op (ts_msg t) of None \<Rightarrow> [] | Some m \<Rightarrow> m))])))
      in (Timestamp (ts_msg t) (ts_attestations t) (update_first op (\<lambda>c. fst (f c)) (ts_ops t)),
          map_option (\<lambda>c. snd (f c)) (map_of (ts_ops t) op)))"

text \<open>Entry \<open>i\<close> of \<open>total\<close>, counted from 1, is announced by a fork tag when \<open>i < total\<close>.\<close>

definition forked :: "bytes list \<Rightarrow> bytes" where
  "forked entries =
     (let total = length entries in
      concat (map (\<lambda>(i, e). (if i < total then [TAG_FORK] else []) @ e) (zip [1..<Suc total] entries)))"

definition op_argument :: "op \<Rightarrow> bytes" where
  "op_argument op = (case op of Append a \<Rightarrow> write_varbytes a | Prepend a \<Rightarrow> write_varbytes a | _ \<Rightarrow> [])"

lemma size_child: "(op, c) \<in> set ops \<Longrightarrow> size c < size (Timestamp m atts ops)"
  by (induction ops) auto

function write_timestamp :: "timestamp \<Rightarrow> bytes" where
  "write_timestamp (Timestamp m atts ops) =
     forked (map (\<lambda>a. TAG_ATTESTATION # write_attestation a) (sort_key attestation_sort_key atts)
       @ map (\<lambda>(op, child). op_tag op # op_argument op @ write_timestamp child)
           (sort_key (\<lambda>(op, _). op_sort_key op) ops))"
  by pat_completeness auto
termination
  by (relation "measure size") (auto dest: size_child simp del: timestamp.size)

function attestations_of :: "timestamp \<Rightarrow> (bytes \<times> attestation) list" where
  "attestations_of (Timestamp m atts ops) =
     map (\<lambda>a. (m, a)) atts @ concat (map (\<lambda>(op, child). if evaluated op then attestations_of child else []) ops)"
  by pat_completeness auto
termination
  by (relation "measure size") (auto dest: size_child simp del: timestamp.size)

fun find_mut :: "bytes \<Rightarrow> (timestamp \<Rightarrow> timestamp) \<Rightarrow> timestamp \<Rightarrow> timestamp option"
  and find_map_ops :: "bytes \<Rightarrow> (timestamp \<Rightarrow> timestamp) \<Rightarrow> (op \<times> timestamp) list \<Rightarrow> (op \<times> timestamp) list option" where
  "find_mut msg f (Timestamp m atts ops) =
     (if m = msg then Some (f (Timestamp m atts ops)) else map_option (Timestamp m atts) (find_map_ops msg f ops))"
| "find_map_ops msg f [] = None"
| "find_map_ops msg f ((op, c) # ops) =
     (case find_mut msg f c of
        Some c' \<Rightarrow> Some ((op, c') # ops)
      | None \<Rightarrow> map_option (\<lambda>ops'. (op, c) # ops') (find_map_ops msg f ops))"

section \<open>Detached timestamps\<close>

type_synonym detached_timestamp = timestamp

definition detached_new :: "bytes \<Rightarrow> detached_timestamp" where
  "detached_new digest = timestamp_new digest"

definition detached_parse :: "hasher \<Rightarrow> (bytes \<Rightarrow> bytes) \<Rightarrow> bytes \<Rightarrow> ots_error + detached_timestamp" where
  "detached_parse H R bs =
     (if length bs > MAX_PROOF_BYTES then Inl (Malformed ''proof is too large'')
      else if take (length MAGIC) bs \<noteq> MAGIC then Inl (Malformed ''not an OpenTimestamps proof'')
      else
        and_then (varuint (drop (length MAGIC) bs)) (\<lambda>(version, bs).
        if version \<noteq> ucast MAJOR_VERSION then Inl (Malformed ''unsupported major version'')
        else and_then (read_byte bs) (\<lambda>(tag, bs).
        if tag \<noteq> TAG_SHA256 then Inl (Malformed ''only SHA-256 file digests are supported'')
        else and_then (read_take 32 bs) (\<lambda>(digest, bs).
        and_then (read_timestamp H R MAX_DEPTH digest bs) (\<lambda>(t, rest).
        if rest \<noteq> [] then Inl (Malformed ''trailing bytes after the proof'') else Inr t)))))"

definition detached_serialize :: "detached_timestamp \<Rightarrow> bytes" where
  "detached_serialize d = MAGIC @ [MAJOR_VERSION, TAG_SHA256] @ ts_msg d @ write_timestamp d"

text \<open>\<open>try_into().expect("32 bytes")\<close>: a panic is \<open>None\<close>.\<close>

definition expect_32 :: "bytes \<Rightarrow> bytes option" where
  "expect_32 m = (if length m = 32 then Some m else None)"

definition detached_digest :: "detached_timestamp \<Rightarrow> bytes option" where
  "detached_digest d = expect_32 (ts_msg d)"

definition prepare_submission ::
  "hasher \<Rightarrow> (bytes \<Rightarrow> bytes) \<Rightarrow> bytes \<Rightarrow> detached_timestamp \<Rightarrow> bytes option \<times> detached_timestamp" where
  "prepare_submission H R nonce d =
     (let (d', m) = timestamp_op H R (Append nonce) (timestamp_op H R Sha256 (\<lambda>c. (c, ts_msg c))) d
      in (case m of Some (Some m) \<Rightarrow> expect_32 m | _ \<Rightarrow> None, d'))"

definition merge_calendar_response ::
  "hasher \<Rightarrow> (bytes \<Rightarrow> bytes) \<Rightarrow> bytes \<Rightarrow> bytes \<Rightarrow> detached_timestamp \<Rightarrow> (ots_error + unit) \<times> detached_timestamp" where
  "merge_calendar_response H R commitment body d =
     (case deserialize H R body commitment of
        Inl e \<Rightarrow> (Inl e, d)
      | Inr upgrade \<Rightarrow>
          (case find_mut commitment (\<lambda>n. merge n upgrade) d of
             None \<Rightarrow> (Inl (Malformed ''the commitment is not part of this proof''), d)
           | Some d' \<Rightarrow> (Inr (), d')))"

fun pending_uri :: "bytes \<times> attestation \<Rightarrow> (bytes \<times> bytes) option" where
  "pending_uri (msg, Pending u) = Some (msg, u)"
| "pending_uri (msg, _) = None"

definition detached_pending :: "detached_timestamp \<Rightarrow> (bytes \<times> bytes) list" where
  "detached_pending d = List.map_filter pending_uri (attestations_of d)"

fun bitcoin_height :: "bytes \<times> attestation \<Rightarrow> u64 option" where
  "bitcoin_height (msg, Bitcoin h) = Some h"
| "bitcoin_height (msg, _) = None"

datatype ots_status = StatusPending "bytes list" | StatusAnchored "u64 list"

definition detached_status :: "detached_timestamp \<Rightarrow> ots_status" where
  "detached_status d =
     (let heights = List.map_filter bitcoin_height (attestations_of d) in
      if heights = [] then StatusPending (remdups_adj (sort (map snd (detached_pending d))))
      else StatusAnchored (remdups_adj (sort heights)))"

section \<open>Block headers\<close>

record bitcoin_header =
  bh_height :: u64
  bh_block_hash :: string
  bh_block_time :: u64

record bitcoin_confirmed =
  bc_height :: u64
  bc_block_hash :: string
  bc_block_time :: u64

text \<open>\<open>str::trim\<close> and \<open>eq_ignore_ascii_case\<close>.\<close>

definition trim_text :: "utext \<Rightarrow> utext" where
  "trim_text s = rev (dropWhile is_whitespace (rev (dropWhile is_whitespace s)))"

definition ascii_lower :: "nat \<Rightarrow> nat" where
  "ascii_lower c = (if 65 \<le> c \<and> c \<le> 90 then c + 32 else c)"

definition header_confirm :: "bitcoin_header \<Rightarrow> utext \<Rightarrow> ots_error + bitcoin_confirmed" where
  "header_confirm b trusted_block_hash =
     (if map ascii_lower (trim_text trusted_block_hash) = map ascii_lower (codes (bh_block_hash b))
      then Inr \<lparr> bc_height = bh_height b, bc_block_hash = bh_block_hash b, bc_block_time = bh_block_time b \<rparr>
      else Inl NotOnChain)"

definition target_of :: "u32 \<Rightarrow> bytes option" where
  "target_of bits =
     (let exponent = unat (drop_bit 24 bits); mantissa = bits AND 0xffffff in
      if mantissa AND 0x800000 \<noteq> 0 \<or> mantissa = 0 \<or> \<not> (3 \<le> exponent \<and> exponent \<le> 32) then None
      else
        let target = replicate 32 0; m = be_bytes 4 mantissa; start = 32 - exponent in
        Some (take start target @ drop 1 m @ drop (start + 3) target))"

text \<open>\<open>u8::leading_zeros\<close>.\<close>

definition leading_zeros :: "u8 \<Rightarrow> nat" where
  "leading_zeros b = length (takeWhile (\<lambda>i. \<not> bit b i) (rev [0..<8]))"

fun leading_zero_bits :: "bytes \<Rightarrow> nat" where
  "leading_zero_bits [] = 0"
| "leading_zero_bits (b # bs) = (if b = 0 then 8 + leading_zero_bits bs else leading_zeros b)"

definition slice :: "nat \<Rightarrow> nat \<Rightarrow> bytes \<Rightarrow> bytes" where
  "slice i j bs = take (j - i) (drop i bs)"

definition u32_le :: "bytes \<Rightarrow> u32" where
  "u32_le bs = of_nat (le_val bs)"

definition verify_bitcoin :: "hasher \<Rightarrow> detached_timestamp \<Rightarrow> u64 \<Rightarrow> bytes \<Rightarrow> ots_error + bitcoin_header" where
  "verify_bitcoin H d h header =
     (let merkle_root = slice 36 68 header in
      if \<not> list_ex (\<lambda>(msg, a). a = Bitcoin h \<and> msg = merkle_root) (attestations_of d) then Inl NotInBlock
      else
        and_then (ok_or BadProofOfWork (target_of (u32_le (slice 72 76 header)))) (\<lambda>target.
          if leading_zero_bits target < MIN_TARGET_ZERO_BITS then Inl InsufficientWork
          else
            let be = rev (hash_bytes (H (hash_bytes (H header)))) in
            if be > target then Inl BadProofOfWork
            else Inr \<lparr> bh_height = h, bh_block_hash = bytes_to_hex be,
                       bh_block_time = ucast (u32_le (slice 68 72 header)) \<rparr>))"

section \<open>Calendars\<close>

definition DEFAULT_CALENDARS :: "bytes list" where
  "DEFAULT_CALENDARS = map ascii [''https://a.pool.opentimestamps.org'', ''https://b.pool.opentimestamps.org'',
     ''https://a.pool.eternitywall.com'', ''https://ots.btc.catallaxy.com'']"

definition DEFAULT_UPGRADE_ALLOWLIST :: "bytes list" where
  "DEFAULT_UPGRADE_ALLOWLIST = map ascii [''https://*.calendar.opentimestamps.org'',
     ''https://*.calendar.eternitywall.com'', ''https://*.calendar.catallaxy.com'']"

definition byte_prefix :: "bytes \<Rightarrow> bytes \<Rightarrow> bytes option" where
  "byte_prefix p s = (if take (length p) s = p then Some (drop (length p) s) else None)"

definition trim_slashes :: "bytes \<Rightarrow> bytes" where
  "trim_slashes s = rev (dropWhile (\<lambda>b. b = 47) (rev s))"

definition calendar_submit_path :: "bytes \<Rightarrow> bytes" where
  "calendar_submit_path calendar = trim_slashes calendar @ ascii ''/digest''"

definition url_matches :: "bytes \<Rightarrow> bytes \<Rightarrow> bool" where
  "url_matches pattern u =
     (case (byte_prefix (ascii ''https://'') pattern, byte_prefix (ascii ''https://'') u) of
        (Some p, Some u) \<Rightarrow>
          let host = (if u \<noteq> [] \<and> last u = 47 then butlast u else u) in
          if host = [] \<or> 47 \<in> set host \<or> 58 \<in> set host then False
          else (case byte_prefix (ascii ''*'') p of
              Some suffix \<Rightarrow> length host > length suffix \<and> drop (length host - length suffix) host = suffix
            | None \<Rightarrow> host = p)
      | _ \<Rightarrow> False)"

definition calendar_upgrade_path :: "bytes \<Rightarrow> bytes \<Rightarrow> bytes list \<Rightarrow> ots_error + bytes" where
  "calendar_upgrade_path u commitment allowed =
     (if \<not> valid_uri u \<or> \<not> list_ex (\<lambda>p. url_matches p u) allowed then Inl (CalendarNotAllowed u)
      else Inr (trim_slashes u @ ascii ''/timestamp/'' @ ascii (bytes_to_hex commitment)))"

end
