(* ===== verification/Ots_Correct.thy ===== *)
theory Ots_Correct
  imports Ots
begin

text \<open>
  What an OpenTimestamps proof shows (\<open>Ots\<close>). Reading and writing are inverse on canonical trees, and
  reading always yields a canonical tree no longer than its input; merging is the union of the
  attestations; every attestation that counts is reached from the digest by evaluated operations; a
  header is accepted only with the work it claims; and an upgrade is only ever asked of an allowed host.
\<close>

section \<open>Numbers\<close>

lemma write_varuint_nonempty [simp]: "write_varuint v \<noteq> []"
  by (subst write_varuint.simps) (simp add: Let_def)

lemma and_7f: "x AND 0x7f = take_bit 7 x" for x :: "'a::len word"
  by (simp add: take_bit_eq_mask mask_eq_exp_minus_1)

lemma or_80: "x OR 0x80 = set_bit 7 x" for x :: "'a::len word"
  by (simp add: set_bit_eq_or)

lemma and_80: "x AND 0x80 = 0 \<longleftrightarrow> \<not> bit x 7" for x :: "'a::len word"
  using and_exp_eq_0_iff_not_bit [of x 7] by simp

lemma low_bits:
  fixes v :: u64
  defines "b \<equiv> (ucast (v AND 0x7f) :: u8)"
  shows "ucast (b AND 0x7f) = take_bit 7 v" "ucast ((b OR 0x80) AND 0x7f) = take_bit 7 v"
    "b AND 0x80 = 0" "(b OR 0x80) AND 0x80 \<noteq> 0"
  unfolding b_def and_7f or_80 and_80
  by (auto intro!: bit_eqI simp: bit_simps)

lemma varuint_loop_write:
  assumes "k < 10" "acc = take_bit (7 * k) w" "v = drop_bit (7 * k) w"
  shows "varuint_loop (map (\<lambda>i. 7 * i) [k..<10]) acc (write_varuint v @ rest) = Inr (w, rest)"
  using assms
proof (induction v arbitrary: k acc rule: write_varuint.induct)
  case (1 v)
  have l: "map (\<lambda>i. 7 * i) [k..<10] = 7 * k # map (\<lambda>i. 7 * i) [Suc k..<10]"
    using "1.prems"(1) by (simp add: upt_conv_Cons)
  have top: "\<not> 1 < (take_bit 7 v)" if "7 * k = 63"
  proof -
    have "v = v AND 1" unfolding "1.prems"(3) that by (rule bit_eqI) (auto simp: bit_simps dest: bit_imp_le_length)
    then have "v = 0 \<or> v = 1" by (metis and_one_eq mod_2_eq_odd of_bool_def)
    then show ?thesis by auto
  qed
  have acc: "acc OR push_bit (7 * k) (take_bit 7 v) = take_bit (7 * Suc k) w"
    unfolding "1.prems" by (rule bit_eqI) (auto simp: bit_simps)
  show ?case
  proof (cases "drop_bit 7 v = 0")
    case True
    have "take_bit (7 * Suc k) w = w"
    proof (rule bit_eqI)
      fix n
      have "\<not> bit w n" if "7 * Suc k \<le> n"
      proof -
        have "\<not> bit (drop_bit 7 v) (n - 7 * Suc k)" using True by simp
        then show ?thesis using that unfolding "1.prems" by (simp add: bit_simps)
      qed
      then show "bit (take_bit (7 * Suc k) w) n = bit w n" by (cases "7 * Suc k \<le> n") (auto simp: bit_simps)
    qed
    then show ?thesis using True top acc
      by (subst write_varuint.simps) (auto simp: l Let_def low_bits simp del: upt_Suc)
  next
    case False
    have "Suc k < 10"
    proof (rule ccontr)
      assume "\<not> Suc k < 10"
      then have "k = 9" using "1.prems"(1) by simp
      then have "drop_bit 7 v = 0" unfolding "1.prems" by (intro bit_eqI) (auto simp: bit_simps dest: bit_imp_le_length)
      with False show False by simp
    qed
    moreover have "drop_bit 7 v = drop_bit (7 * Suc k) w" unfolding "1.prems" by simp
    ultimately have "varuint_loop (map (\<lambda>i. 7 * i) [Suc k..<10]) (take_bit (7 * Suc k) w) (write_varuint (drop_bit 7 v) @ rest) = Inr (w, rest)"
      by (intro "1.IH" [OF HOL.refl HOL.refl False] HOL.refl)
    then show ?thesis using False top acc
      by (subst write_varuint.simps) (auto simp: l Let_def low_bits simp del: upt_Suc)
  qed
qed

lemma varuint_write [simp]: "varuint (write_varuint v @ rest) = Inr (v, rest)"
  unfolding varuint_def by (rule varuint_loop_write) simp_all

lemma length_write_varuint: "unat v < 128 ^ Suc k \<Longrightarrow> length (write_varuint v) \<le> Suc k"
proof (induction k arbitrary: v)
  case 0
  then have "drop_bit 7 v = 0" by (simp add: unat_eq_zero [symmetric] unat_drop_7)
  then show ?case by (subst write_varuint.simps) (simp add: Let_def)
next
  case (Suc k)
  then have "unat (drop_bit 7 v) < 128 ^ Suc k" by (simp add: unat_drop_7 less_mult_imp_div_less mult.commute)
  from Suc.IH [OF this] show ?case by (subst write_varuint.simps) (simp add: Let_def)
qed

lemma varuint_loop_canonical:
  assumes "varuint_loop (map (\<lambda>i. 7 * i) [k..<10]) acc bs = Inr (v, bs')" "take_bit (7 * k) acc = acc" "k \<le> 10"
  shows "\<exists>j. length bs = length bs' + Suc j \<and> take_bit (7 * (k + Suc j)) v = v"
  using assms
proof (induction "10 - k" arbitrary: k acc bs)
  case (Suc n)
  then have l: "map (\<lambda>i. 7 * i) [k..<10] = 7 * k # map (\<lambda>i. 7 * i) [Suc k..<10]"
    by (simp add: upt_conv_Cons)
  from Suc.prems(1) obtain b bs0 where b: "bs = b # bs0" unfolding l by (cases bs) auto
  define val where "val = acc OR push_bit (7 * k) (ucast (b AND 0x7f))"
  have "take_bit (7 * Suc k) (take_bit (7 * k) acc OR push_bit (7 * k) (ucast (take_bit 7 b)))
      = take_bit (7 * k) acc OR push_bit (7 * k) (ucast (take_bit 7 b))"
    by (rule bit_eqI) (auto simp: bit_simps)
  then have val: "take_bit (7 * Suc k) val = val" unfolding val_def and_7f Suc.prems(2) .
  consider "v = val" "bs' = bs0" | "varuint_loop (map (\<lambda>i. 7 * i) [Suc k..<10]) val bs0 = Inr (v, bs')"
    using Suc.prems(1) unfolding l b list.map varuint_loop.simps read_byte.simps and_then.simps prod.case Let_def val_def [symmetric]
    by (metis Inl_Inr_False prod.inject sum.inject(2))
  then show ?case
  proof cases
    case 1
    then show ?thesis using val b by (intro exI [of _ 0]) simp
  next
    case 2
    have "n = 10 - Suc k" "Suc k \<le> 10" using Suc.hyps(2) Suc.prems(3) by auto
    from Suc.hyps(1) [OF this(1) 2 val this(2)] obtain j
      where "length bs0 = length bs' + Suc j" "take_bit (7 * (Suc k + Suc j)) v = v" by blast
    then show ?thesis using b by (intro exI [of _ "Suc j"]) simp
  qed
qed simp

lemma varuint_canonical: "varuint bs = Inr (v, bs') \<Longrightarrow> length (write_varuint v) + length bs' \<le> length bs"
proof -
  assume "varuint bs = Inr (v, bs')"
  then obtain j where j: "length bs = length bs' + Suc j" "take_bit (7 * Suc j) v = v"
    using varuint_loop_canonical [of 0 0 bs v bs'] unfolding varuint_def by auto
  have "unat v = take_bit (7 * Suc j) (unat v)" using j(2) by (metis unsigned_take_bit_eq)
  then have "unat v < 2 ^ (7 * Suc j)" by (metis take_bit_nat_less_exp)
  also have "(2 :: nat) ^ (7 * Suc j) = 128 ^ Suc j" by (simp only: power_mult) simp
  finally have "unat v < 128 ^ Suc j" .
  from length_write_varuint [OF this] show ?thesis using j(1) by simp
qed

lemma length_write_varuint_mono: "unat v \<le> unat w \<Longrightarrow> length (write_varuint v) \<le> length (write_varuint w)"
proof (induction w arbitrary: v rule: write_varuint.induct)
  case (1 w)
  show ?case
  proof (cases "drop_bit 7 v = 0")
    case True
    then show ?thesis by (subst write_varuint.simps) (simp add: Let_def Suc_le_eq)
  next
    case False
    have le: "unat (drop_bit 7 v) \<le> unat (drop_bit 7 w)" using "1.prems" by (simp add: unat_drop_7 div_le_mono)
    with False have "drop_bit 7 w \<noteq> 0" by (metis le_zero_eq unat_eq_zero)
    with "1.IH" [OF HOL.refl HOL.refl this le] False show ?thesis
      by (subst write_varuint.simps, subst (2) write_varuint.simps) (simp add: Let_def)
  qed
qed

section \<open>Attestations\<close>

lemma unat_length: "length b < 2 ^ 64 \<Longrightarrow> unat (of_nat (length b) :: u64) = length b"
  by (simp add: unat_of_nat take_bit_eq_mod)

lemma varbytes_write: "length b \<le> limit \<Longrightarrow> limit < 2 ^ 64 \<Longrightarrow> varbytes limit (write_varbytes b @ rest) = Inr (b, rest)"
  using unat_length [of b] by (simp add: varbytes_def write_varbytes_def read_take_def del: and_then_Inr)

lemma varbytes_canonical:
  assumes "varbytes limit bs = Inr (b, bs')"
  shows "length b \<le> limit" "length (write_varbytes b) + length bs' \<le> length bs"
proof -
  obtain len bs1 where v: "varuint bs = Inr (len, bs1)" "unat len \<le> limit" "unat len \<le> length bs1" "b = take (unat len) bs1"
    "bs' = drop (unat len) bs1"
    using assms by (auto simp: varbytes_def read_take_def split: if_splits)
  then have l: "length b = unat len" by simp
  then show "length b \<le> limit" using v by simp
  have "(of_nat (length b) :: u64) = len" using l by simp
  then show "length (write_varbytes b) + length bs' \<le> length bs"
    using varuint_canonical [OF v(1)] v l by (simp add: write_varbytes_def)
qed

lemma varbytes_shape: "varbytes limit bs = Inr (b, bs') \<Longrightarrow> length b \<le> limit \<and> length (write_varbytes b) + length bs' \<le> length bs"
  using varbytes_canonical by blast

definition att_ok :: "attestation \<Rightarrow> bool" where
  "att_ok a \<longleftrightarrow> (case a of
       Pending u \<Rightarrow> valid_uri u
     | Bitcoin h \<Rightarrow> True
     | Unknown tag p \<Rightarrow> length tag = 8 \<and> tag \<noteq> PENDING \<and> tag \<noteq> BITCOIN \<and> length p \<le> MAX_PAYLOAD)"

lemma valid_uri_utf8: "valid_uri u \<Longrightarrow> utf8_valid u"
proof -
  have "b < 0x80" if "uri_byte b" for b
    using that by (auto simp: uri_byte_def ascii_def word_less_nat_alt word_le_nat_alt)
  then have "list_all uri_byte u \<Longrightarrow> utf8_valid u"
    by (induction u) auto
  then show "valid_uri u \<Longrightarrow> utf8_valid u" by (simp add: valid_uri_def)
qed

lemma length_varuint_10: "length (write_varuint v) \<le> 10"
  using length_write_varuint [of v 9] unat_lt2p [of v] by simp

lemma read_write_attestation: "att_ok a \<Longrightarrow> read_attestation (write_attestation a @ rest) = Inr (a, rest)"
proof (cases a)
  case (Pending u)
  assume "att_ok a"
  then have u: "valid_uri u" by (simp add: att_ok_def Pending)
  then have "length (write_varbytes u) \<le> MAX_PAYLOAD" "length u \<le> MAX_URI"
    using length_varuint_10 [of "of_nat (length u)"]
    by (auto simp: write_varbytes_def valid_uri_def MAX_URI_def MAX_PAYLOAD_def)
  then show ?thesis using u valid_uri_utf8 [OF u] varbytes_write [of u MAX_URI "[]"]
    by (simp add: Pending read_attestation_def read_take_def PENDING_def varbytes_write MAX_PAYLOAD_def MAX_URI_def
        del: and_then_Inr)
next
  case (Bitcoin h)
  then show ?thesis using length_varuint_10 [of h] varuint_write [of h "[]"]
    by (simp add: Bitcoin read_attestation_def read_take_def PENDING_def BITCOIN_def varbytes_write MAX_PAYLOAD_def
        del: and_then_Inr varuint_write)
next
  case (Unknown tag p)
  assume "att_ok a"
  then show ?thesis
    by (simp add: Unknown att_ok_def read_attestation_def read_take_def varbytes_write MAX_PAYLOAD_def del: and_then_Inr)
qed

lemma read_attestation_canonical:
  assumes "read_attestation bs = Inr (a, bs')"
  shows "att_ok a" "length (write_attestation a) + length bs' \<le> length bs"
proof -
  obtain tag bs1 p where t: "read_take 8 bs = Inr (tag, bs1)" "varbytes MAX_PAYLOAD bs1 = Inr (p, bs')"
    and a: "if tag = PENDING then \<exists>u. varbytes MAX_URI p = Inr (u, []) \<and> valid_uri u \<and> a = Pending u
      else if tag = BITCOIN then \<exists>h. varuint p = Inr (h, []) \<and> a = Bitcoin h else a = Unknown tag p"
    using assms by (auto simp: read_attestation_def split: if_splits)
  have l: "length tag = 8" "length bs = 8 + length bs1" using t(1) by (auto simp: read_take_def split: if_splits)
  note v = varbytes_canonical [OF t(2)]
  have shrink: "length (write_varbytes q) + length bs' \<le> length bs1" if "length q \<le> length p" for q
  proof -
    have "length p < 2 ^ 64" using v(1) by (simp add: MAX_PAYLOAD_def)
    then have "length (write_varuint (of_nat (length q))) \<le> length (write_varuint (of_nat (length p)))"
      using that unat_length [of q] unat_length [of p] by (intro length_write_varuint_mono) simp
    then show ?thesis using v(2) that by (simp add: write_varbytes_def)
  qed
  show "att_ok a" using a l v(1) by (auto simp: att_ok_def split: if_splits)
  show "length (write_attestation a) + length bs' \<le> length bs"
    using a l shrink v by (auto dest!: varbytes_canonical varuint_canonical simp: PENDING_def BITCOIN_def split: if_splits)
qed

section \<open>Operations\<close>

definition op_ok :: "op \<Rightarrow> bool" where
  "op_ok op \<longleftrightarrow> (case op of Append a \<Rightarrow> a \<noteq> [] \<and> length a \<le> MAX_MSG | Prepend a \<Rightarrow> a \<noteq> [] \<and> length a \<le> MAX_MSG | _ \<Rightarrow> True)"

lemmas tag_defs = TAG_ATTESTATION_def TAG_FORK_def TAG_SHA1_def TAG_RIPEMD160_def TAG_SHA256_def TAG_KECCAK256_def
  TAG_APPEND_def TAG_PREPEND_def TAG_REVERSE_def TAG_HEXLIFY_def

lemma op_tag_not_special [simp]: "op_tag op \<noteq> TAG_FORK" "op_tag op \<noteq> TAG_ATTESTATION"
  by (cases op; simp add: tag_defs)+

lemma fork_not_attestation [simp]: "TAG_ATTESTATION \<noteq> TAG_FORK" "TAG_FORK \<noteq> TAG_ATTESTATION"
  by (simp_all add: tag_defs)

lemma read_write_op: "op_ok op \<Longrightarrow> read_op (op_tag op) (op_argument op @ rest) = Inr (op, rest)"
  by (cases op)
    (simp_all add: read_op_def op_argument_def op_ok_def tag_defs varbytes_write MAX_MSG_def del: and_then_Inr)

lemma read_op_canonical:
  assumes "read_op tag bs = Inr (op, bs')"
  shows "op_ok op" "tag = op_tag op" "length (op_argument op) + length bs' \<le> length bs"
  using assms
  by (auto simp: read_op_def op_ok_def op_argument_def dest!: varbytes_shape split: if_splits)

lemma op_sort_key_inject: "op_sort_key a = op_sort_key b \<longleftrightarrow> a = b"
  by (cases a; cases b) (simp_all add: op_sort_key_def tag_defs)

lemma attestation_sort_key_inject: "att_ok a \<Longrightarrow> att_ok b \<Longrightarrow> attestation_sort_key a = attestation_sort_key b \<longleftrightarrow> a = b"
  by (cases a; cases b) (auto simp: att_ok_def PENDING_def BITCOIN_def be_bytes_inject)

section \<open>Canonical trees\<close>

lemma sort_key_id: "sorted (map f xs) \<Longrightarrow> sort_key f xs = xs"
  by (induction xs) (auto simp: insort_is_Cons)

abbreviation op_key :: "op \<times> timestamp \<Rightarrow> u8 \<times> bytes" where
  "op_key x \<equiv> (case x of (op, _) \<Rightarrow> op_sort_key op)"

text \<open>Every node of the tree satisfies \<open>P\<close>.\<close>

function every_node :: "(timestamp \<Rightarrow> bool) \<Rightarrow> timestamp \<Rightarrow> bool" where
  "every_node P (Timestamp m atts ops) \<longleftrightarrow> P (Timestamp m atts ops) \<and> list_all (\<lambda>x. every_node P (snd x)) ops"
  by pat_completeness auto
termination
  by (relation "measure (\<lambda>(P, t). size t)") (auto dest: size_child simp del: timestamp.size)

lemma every_node_iff: "every_node P t \<longleftrightarrow> P t \<and> (\<forall>(op, c) \<in> set (ts_ops t). every_node P c)"
  by (cases t) (auto simp: list_all_iff)

definition items_ok :: "hasher \<Rightarrow> (bytes \<Rightarrow> bytes) \<Rightarrow> timestamp \<Rightarrow> bool" where
  "items_ok H R t \<longleftrightarrow> distinct (ts_attestations t) \<and> list_all att_ok (ts_attestations t) \<and> distinct (map fst (ts_ops t))
     \<and> (\<forall>(op, c) \<in> set (ts_ops t). op_ok op \<and> next_msg H R op (ts_msg t) = Inr (ts_msg c))"

definition in_order :: "timestamp \<Rightarrow> bool" where
  "in_order t \<longleftrightarrow> sorted (map attestation_sort_key (ts_attestations t)) \<and> sorted (map op_key (ts_ops t))"

definition good :: "hasher \<Rightarrow> (bytes \<Rightarrow> bytes) \<Rightarrow> timestamp \<Rightarrow> bool" where
  "good H R = every_node (\<lambda>t. items_ok H R t \<and> in_order t)"

definition good_below :: "hasher \<Rightarrow> (bytes \<Rightarrow> bytes) \<Rightarrow> timestamp \<Rightarrow> bool" where
  "good_below H R t \<longleftrightarrow> items_ok H R t \<and> (\<forall>(op, c) \<in> set (ts_ops t). good H R c)"

lemma good_iff: "good H R t \<longleftrightarrow> good_below H R t \<and> in_order t"
  unfolding good_def good_below_def by (subst every_node_iff) auto

lemma canonicalize_sel [simp]:
  "ts_msg (canonicalize t) = ts_msg t" "set (ts_attestations (canonicalize t)) = set (ts_attestations t)"
  "mset (ts_attestations (canonicalize t)) = mset (ts_attestations t)" "mset (ts_ops (canonicalize t)) = mset (ts_ops t)"
  "set (ts_ops (canonicalize t)) = set (ts_ops t)"
  by (simp_all add: canonicalize_def)

lemma canonicalize_in_order [simp]: "in_order (canonicalize t)"
  by (simp add: in_order_def canonicalize_def)

lemma canonicalize_id: "in_order t \<Longrightarrow> canonicalize t = t"
  by (cases t) (simp add: in_order_def canonicalize_def sort_key_id)

lemma distinct_mset_fst: "mset xs = mset ys \<Longrightarrow> distinct (map fst xs) = distinct (map fst ys)"
  by (metis mset_map mset_eq_imp_distinct_iff)

lemma items_ok_canonicalize [simp]: "items_ok H R (canonicalize t) = items_ok H R t"
  using distinct_mset_fst [of "ts_ops (canonicalize t)" "ts_ops t"]
    mset_eq_imp_distinct_iff [of "ts_attestations (canonicalize t)" "ts_attestations t"]
  by (auto simp: items_ok_def list_all_iff)

lemma good_canonicalize: "good_below H R t \<Longrightarrow> good H R (canonicalize t)"
  unfolding good_iff by (simp add: good_below_def)

lemma add_attestation_sel [simp]:
  "ts_msg (add_attestation a t) = ts_msg t" "ts_ops (add_attestation a t) = ts_ops t"
  "set (ts_attestations (add_attestation a t)) = insert a (set (ts_attestations t))"
  by (auto simp: add_attestation_def)

lemma good_below_add_attestation: "good_below H R t \<Longrightarrow> att_ok a \<Longrightarrow> good_below H R (add_attestation a t)"
  by (auto simp: good_below_def items_ok_def add_attestation_def)

lemma fold_add_attestation [simp]:
  "ts_msg (fold add_attestation as t) = ts_msg t" "ts_ops (fold add_attestation as t) = ts_ops t"
  "set (ts_attestations (fold add_attestation as t)) = set as \<union> set (ts_attestations t)"
  by (induction as arbitrary: t) auto

lemma good_below_fold: "good_below H R t \<Longrightarrow> list_all att_ok as \<Longrightarrow> good_below H R (fold add_attestation as t)"
  by (induction as arbitrary: t) (auto simp: good_below_add_attestation)

section \<open>Inserting and merging\<close>

lemma update_first_split: "op \<notin> fst ` set xs \<Longrightarrow> update_first op f (xs @ (op, e) # ys) = xs @ (op, f e) # ys"
  by (induction xs) auto

lemma insert_op_sel [simp]:
  "ts_msg (insert_op f op c t) = ts_msg t" "mset (ts_attestations (insert_op f op c t)) = mset (ts_attestations t)"
  "set (ts_attestations (insert_op f op c t)) = set (ts_attestations t)" "in_order (insert_op f op c t)"
  by (simp_all add: insert_op_def)

lemma insert_op_cases:
  obtains (new) "op \<notin> fst ` set (ts_ops t)" "mset (ts_ops (insert_op f op c t)) = add_mset (op, c) (mset (ts_ops t))"
  | (old) e others where "mset (ts_ops t) = add_mset (op, e) others" "mset (ts_ops (insert_op f op c t)) = add_mset (op, f e) others"
proof (cases "op \<in> fst ` set (ts_ops t)")
  case True
  then obtain x xs ys where "ts_ops t = xs @ x # ys" "fst x = op" "\<forall>y \<in> set xs. fst y \<noteq> op"
    using split_list_first_prop [of "ts_ops t" "\<lambda>x. fst x = op"] by blast
  then have "ts_ops t = xs @ (op, snd x) # ys" "op \<notin> fst ` set xs" by (auto simp: image_iff)
  then show ?thesis using True update_first_split [of op xs f "snd x" ys]
    by (intro old [of "snd x" "mset (xs @ ys)"]) (simp_all add: insert_op_def)
next
  case False
  then show ?thesis by (intro new) (simp_all add: insert_op_def)
qed

definition keys_once :: "('k \<times> 'v) multiset \<Rightarrow> bool" where
  "keys_once X \<longleftrightarrow> (\<forall>k. count (image_mset fst X) k \<le> 1)"

lemma distinct_keys: "distinct (map fst xs) \<longleftrightarrow> keys_once (mset xs)"
proof
  assume "keys_once (mset xs)"
  then have "count (mset (map fst xs)) k \<le> 1" for k by (simp add: keys_once_def)
  moreover have "1 \<le> count (mset (map fst xs)) k" if "k \<in> set (map fst xs)" for k
    using that count_greater_eq_one_iff [of "mset (map fst xs)" k] by (simp only: set_mset_mset)
  ultimately show "distinct (map fst xs)"
    unfolding distinct_count_atmost_1 by (metis count_mset_0_iff le_antisym)
qed (auto simp: keys_once_def distinct_count_atmost_1 simp flip: mset_map)

lemma keys_once_add: "keys_once (add_mset (k, v) X) \<longleftrightarrow> k \<notin> fst ` set_mset X \<and> keys_once X"
proof -
  obtain xs where "X = mset xs" by (metis ex_mset)
  then show ?thesis using distinct_keys [of "(k, v) # xs"] distinct_keys [of xs] by simp
qed

text \<open>What \<open>items_ok\<close> and \<open>good_below\<close> ask of the operations, on their multiset.\<close>

definition ops_ok :: "hasher \<Rightarrow> (bytes \<Rightarrow> bytes) \<Rightarrow> bytes \<Rightarrow> (op \<times> timestamp) multiset \<Rightarrow> bool" where
  "ops_ok H R m X \<longleftrightarrow> (\<forall>(op, c) \<in># X. op_ok op \<and> next_msg H R op m = Inr (ts_msg c) \<and> good H R c)"

lemma good_below_iff:
  "good_below H R t \<longleftrightarrow> distinct (ts_attestations t) \<and> list_all att_ok (ts_attestations t)
     \<and> keys_once (mset (ts_ops t)) \<and> ops_ok H R (ts_msg t) (mset (ts_ops t))"
  by (auto simp: good_below_def items_ok_def ops_ok_def distinct_keys)

lemma good_below_insert:
  assumes t: "good_below H R t" and c: "op_ok op" "next_msg H R op (ts_msg t) = Inr (ts_msg c)" "good H R c"
    and f: "\<And>e. good H R e \<Longrightarrow> ts_msg e = ts_msg c \<Longrightarrow> good H R (f e) \<and> ts_msg (f e) = ts_msg e"
  shows "good_below H R (insert_op f op c t)"
proof -
  have a: "distinct (ts_attestations (insert_op f op c t))" "list_all att_ok (ts_attestations (insert_op f op c t))"
    using t mset_eq_imp_distinct_iff [of "ts_attestations (insert_op f op c t)" "ts_attestations t"]
    by (auto simp: good_below_iff list_all_iff)
  show ?thesis
  proof (cases rule: insert_op_cases [of op t f c])
    case new
    then show ?thesis using t c a by (auto simp: good_below_iff ops_ok_def keys_once_add)
  next
    case (old e others)
    then have "good H R e" "ts_msg e = ts_msg c" using t c(2) by (auto simp: good_below_iff ops_ok_def)
    with f old show ?thesis using t a by (fastforce simp: good_below_iff ops_ok_def keys_once_add)
  qed
qed

lemma merge_good:
  "good_below H R t \<Longrightarrow> good_below H R b \<Longrightarrow> ts_msg b = ts_msg t \<Longrightarrow> good H R (merge t b) \<and> ts_msg (merge t b) = ts_msg t"
  "good_below H R t \<Longrightarrow> ops_ok H R (ts_msg t) (mset ops) \<Longrightarrow>
     good_below H R (merge_ops t ops) \<and> ts_msg (merge_ops t ops) = ts_msg t"
proof (induction t b and t ops rule: merge_merge_ops.induct)
  case (1 t m atts ops)
  then have "good_below H R (fold add_attestation atts t)" by (intro good_below_fold) (auto simp: good_below_def items_ok_def)
  with 1 show ?case by (auto simp: good_below_iff [of _ _ "Timestamp m atts ops"] intro: good_canonicalize)
next
  case (3 t op child ops)
  have c: "op_ok op" "next_msg H R op (ts_msg t) = Inr (ts_msg child)" "good H R child" "ops_ok H R (ts_msg t) (mset ops)"
    using "3.prems"(2) by (auto simp: ops_ok_def)
  have "good_below H R (insert_op (\<lambda>existing. merge existing child) op child t)"
    using "3.IH"(1) c(3) by (intro good_below_insert "3.prems"(1) c(1-3)) (simp add: good_iff)
  from "3.IH"(2) [OF this] c(4) show ?case by simp
qed simp

lemma merge_join: "good H R e \<Longrightarrow> good H R c \<Longrightarrow> ts_msg e = ts_msg c \<Longrightarrow> good H R (merge e c) \<and> ts_msg (merge e c) = ts_msg e"
  using merge_good(1) [of H R e c] good_iff by metis

definition sum_ops :: "(op \<Rightarrow> timestamp \<Rightarrow> nat) \<Rightarrow> (op \<times> timestamp) list \<Rightarrow> nat" where
  "sum_ops f ops = sum_list (map (\<lambda>(op, c). f op c) ops)"

lemma sum_ops_cong [fundef_cong]: "xs = ys \<Longrightarrow> (\<And>op c. (op, c) \<in> set ys \<Longrightarrow> f op c = g op c) \<Longrightarrow> sum_ops f xs = sum_ops g ys"
  unfolding sum_ops_def by (metis (mono_tags, lifting) case_prod_conv map_cong prod.collapse split_beta)

lemma sum_ops_mset: "sum_ops f ops = sum_mset (image_mset (\<lambda>(op, c). f op c) (mset ops))"
  by (simp add: sum_ops_def sum_mset_sum_list [symmetric])

text \<open>The length of the written tree, with one byte more.\<close>

function weight :: "timestamp \<Rightarrow> nat" where
  "weight (Timestamp m atts ops) = sum_list (map (\<lambda>a. 2 + length (write_attestation a)) atts)
     + sum_ops (\<lambda>op c. 1 + length (op_argument op) + weight c) ops"
  by pat_completeness auto
termination
  by (relation "measure size") (auto dest: size_child simp del: timestamp.size)

lemma weight_mset:
  "weight t = sum_mset (image_mset (\<lambda>a. 2 + length (write_attestation a)) (mset (ts_attestations t)))
     + sum_mset (image_mset (\<lambda>(op, c). 1 + length (op_argument op) + weight c) (mset (ts_ops t)))"
  by (cases t) (simp add: sum_ops_mset sum_mset_sum_list [symmetric])

lemma weight_canonicalize [simp]: "weight (canonicalize t) = weight t"
  by (simp add: weight_mset [of "canonicalize t"] weight_mset [of t])

lemma weight_add_attestation: "weight (add_attestation a t) \<le> weight t + 2 + length (write_attestation a)"
  by (cases t) (simp add: add_attestation_def)

lemma weight_fold: "weight (fold add_attestation as t) \<le> weight t + sum_list (map (\<lambda>a. 2 + length (write_attestation a)) as)"
proof (induction as arbitrary: t)
  case (Cons a as)
  show ?case using weight_add_attestation [of a t] Cons [of "add_attestation a t"] by simp
qed simp

lemma weight_insert:
  assumes "\<And>e. weight (f e) \<le> weight e + weight c"
  shows "weight (insert_op f op c t) \<le> weight t + 1 + length (op_argument op) + weight c"
proof (cases rule: insert_op_cases [of op t f c])
  case new
  then show ?thesis by (simp add: weight_mset [of "insert_op _ _ _ _"] weight_mset [of t])
next
  case (old e others)
  then show ?thesis using assms [of e] by (simp add: weight_mset [of "insert_op _ _ _ _"] weight_mset [of t])
qed

lemma merge_weight:
  "weight (merge t b) \<le> weight t + weight b"
  "weight (merge_ops t ops) \<le> weight t + sum_ops (\<lambda>op c. 1 + length (op_argument op) + weight c) ops"
proof (induction t b and t ops rule: merge_merge_ops.induct)
  case (1 t m atts ops)
  then show ?case using weight_fold [of atts t] by simp
next
  case (3 t op child ops)
  then show ?case using weight_insert [of "\<lambda>existing. merge existing child" child op t, OF "3.IH"(1)] by (simp add: sum_ops_def)
qed (simp add: sum_ops_def)

text \<open>The nesting a reader needs, and trees without an empty node.\<close>

primrec depth_le :: "nat \<Rightarrow> timestamp \<Rightarrow> bool" where
  "depth_le 0 t = False"
| "depth_le (Suc n) t = (\<forall>(op, c) \<in> set (ts_ops t). depth_le n c)"

definition complete :: "timestamp \<Rightarrow> bool" where
  "complete = every_node (\<lambda>t. ts_attestations t \<noteq> [] \<or> ts_ops t \<noteq> [])"

lemma complete_iff:
  "complete t \<longleftrightarrow> (ts_attestations t \<noteq> [] \<or> ts_ops t \<noteq> []) \<and> (\<forall>(op, c) \<in> set (ts_ops t). complete c)"
  unfolding complete_def by (subst every_node_iff) simp

lemma insert_op_set:
  assumes "(o', x) \<in> set (ts_ops (insert_op f op c t))"
  shows "(o', x) \<in> set (ts_ops t) \<or> o' = op \<and> (x = c \<or> (\<exists>e. (op, e) \<in> set (ts_ops t) \<and> x = f e))"
proof (cases rule: insert_op_cases [of op t f c])
  case new
  then show ?thesis using assms by (metis Pair_inject insert_iff set_mset_add_mset_insert set_mset_mset)
next
  case (old e others)
  then have "(o', x) = (op, f e) \<or> (o', x) \<in># others" "(op, e) \<in> set (ts_ops t)" "set_mset others \<subseteq> set (ts_ops t)"
    using assms by (metis insert_iff set_mset_add_mset_insert set_mset_mset subset_insertI)+
  then show ?thesis by auto
qed

lemma insert_op_all:
  assumes "\<forall>(op, c) \<in> set (ts_ops t). P c" "P c" "\<And>e. P e \<Longrightarrow> P (f e)"
  shows "\<forall>(op, c) \<in> set (ts_ops (insert_op f op c t)). P c"
proof clarify
  fix o' x
  assume "(o', x) \<in> set (ts_ops (insert_op f op c t))"
  from insert_op_set [OF this] show "P x" using assms by blast
qed

lemma insert_op_nonempty [simp]: "ts_ops (insert_op f op c t) \<noteq> []"
  by (cases rule: insert_op_cases [of op t f c]) auto

lemma depth_le_same_ops: "set (ts_ops t) = set (ts_ops t') \<Longrightarrow> depth_le n t = depth_le n t'"
  by (cases n) simp_all

lemma merge_depth:
  "depth_le n t \<Longrightarrow> depth_le n b \<Longrightarrow> depth_le n (merge t b)"
  "depth_le (Suc n) t \<Longrightarrow> \<forall>(op, c) \<in> set ops. depth_le n c \<Longrightarrow> depth_le (Suc n) (merge_ops t ops)"
proof (induction t b and t ops arbitrary: n and n rule: merge_merge_ops.induct)
  case (1 t m atts ops)
  obtain k where n: "n = Suc k" using "1.prems"(1) by (cases n) simp_all
  have "depth_le (Suc k) (fold add_attestation atts t)"
    using "1.prems"(1) unfolding n by (subst depth_le_same_ops [of _ t]) simp_all
  moreover have "\<forall>(op, c) \<in> set ops. depth_le k c" using "1.prems"(2) unfolding n by simp
  ultimately have "depth_le (Suc k) (merge_ops (fold add_attestation atts t) ops)" by (rule "1.IH")
  moreover have "set (ts_ops (merge t (Timestamp m atts ops))) = set (ts_ops (merge_ops (fold add_attestation atts t) ops))"
    by simp
  ultimately show ?case using depth_le_same_ops n by metis
next
  case (3 t op child ops)
  have c: "depth_le n child" using "3.prems"(2) by simp
  have "\<forall>(op, c) \<in> set (ts_ops t). depth_le n c" using "3.prems"(1) by simp
  then have "depth_le (Suc n) (insert_op (\<lambda>existing. merge existing child) op child t)"
    unfolding depth_le.simps by (rule insert_op_all [OF _ c "3.IH"(1) [OF _ c]])
  from "3.IH"(2) [OF this] "3.prems"(2) show ?case unfolding merge_ops.simps by simp
qed simp

lemma merge_complete:
  "\<forall>(op, c) \<in> set (ts_ops t). complete c \<Longrightarrow> complete b \<Longrightarrow> complete (merge t b)"
  "\<forall>(op, c) \<in> set (ts_ops t). complete c \<Longrightarrow> \<forall>(op, c) \<in> set ops. complete c \<Longrightarrow>
    (\<forall>(op, c) \<in> set (ts_ops (merge_ops t ops)). complete c)
    \<and> (ops \<noteq> [] \<or> ts_ops t \<noteq> [] \<longrightarrow> ts_ops (merge_ops t ops) \<noteq> [])
    \<and> set (ts_attestations (merge_ops t ops)) = set (ts_attestations t)"
proof (induction t b and t ops rule: merge_merge_ops.induct)
  case (1 t m atts ops)
  have c: "\<forall>(op, c) \<in> set ops. complete c" "atts \<noteq> [] \<or> ops \<noteq> []" using "1.prems"(2) by (simp_all add: complete_iff [of "Timestamp m atts ops"])
  define t' where "t' = merge_ops (fold add_attestation atts t) ops"
  have "\<forall>(op, c) \<in> set (ts_ops (fold add_attestation atts t)). complete c" using "1.prems"(1) by simp
  from "1.IH" [OF this c(1), folded t'_def]
  have "\<forall>(op, c) \<in> set (ts_ops t'). complete c" "ops \<noteq> [] \<longrightarrow> ts_ops t' \<noteq> []"
    "set (ts_attestations t') = set atts \<union> set (ts_attestations t)"
    by simp_all
  moreover from this have "set (ts_attestations (canonicalize t')) \<noteq> {} \<or> set (ts_ops (canonicalize t')) \<noteq> {}"
    using c(2) by auto
  ultimately have "complete (canonicalize t')"
    unfolding complete_iff [of "canonicalize t'"] set_empty by simp
  then show ?case by (simp add: t'_def)
next
  case (3 t op child ops)
  have j: "complete (merge e child)" if "complete e" for e
    using "3.IH"(1) [of e] that complete_iff [of e] "3.prems"(2) by simp
  have "\<forall>(op, c) \<in> set (ts_ops (insert_op (\<lambda>existing. merge existing child) op child t)). complete c"
    using "3.prems"(2) by (intro insert_op_all [OF "3.prems"(1)] j) simp_all
  from "3.IH"(2) [OF this] "3.prems"(2) show ?case unfolding merge_ops.simps by simp
qed simp

definition branch :: "op \<times> timestamp \<Rightarrow> (bytes \<times> attestation) set" where
  "branch x = (if evaluated (fst x) then set (attestations_of (snd x)) else {})"

lemma attestations_set: "set (attestations_of t) = Pair (ts_msg t) ` set (ts_attestations t) \<union> (\<Union>x \<in> set (ts_ops t). branch x)"
  by (cases t) (auto simp: branch_def split: if_splits)

lemma attestations_mset: "set (attestations_of t) = Pair (ts_msg t) ` set (ts_attestations t) \<union> (\<Union>x \<in> set_mset (mset (ts_ops t)). branch x)"
  using attestations_set by simp

lemma attestations_canonicalize [simp]: "set (attestations_of (canonicalize t)) = set (attestations_of t)"
  by (simp add: attestations_set [of "canonicalize t"] attestations_set [of t])

lemma attestations_fold:
  "set (attestations_of (fold add_attestation as t)) = Pair (ts_msg t) ` set as \<union> set (attestations_of t)"
  by (auto simp: attestations_set [of "fold add_attestation as t"] attestations_set [of t])

lemma attestations_insert:
  assumes "\<And>e. (op, e) \<in> set (ts_ops t) \<Longrightarrow> set (attestations_of (f e)) = set (attestations_of e) \<union> set (attestations_of c)"
  shows "set (attestations_of (insert_op f op c t)) = set (attestations_of t) \<union> branch (op, c)"
proof (cases rule: insert_op_cases [of op t f c])
  case new
  then show ?thesis by (auto simp: attestations_mset [of "insert_op _ _ _ _"] attestations_mset [of t])
next
  case (old e others)
  then have "(op, e) \<in> set (ts_ops t)" by (metis set_mset_mset union_single_eq_member)
  from assms [OF this] have "branch (op, f e) = branch (op, e) \<union> branch (op, c)" by (simp add: branch_def)
  with old show ?thesis by (auto simp: attestations_mset [of "insert_op _ _ _ _"] attestations_mset [of t])
qed

lemma merge_attestations:
  "good_below H R t \<Longrightarrow> good_below H R b \<Longrightarrow> ts_msg b = ts_msg t \<Longrightarrow>
    set (attestations_of (merge t b)) = set (attestations_of t) \<union> set (attestations_of b)"
  "good_below H R t \<Longrightarrow> ops_ok H R (ts_msg t) (mset ops) \<Longrightarrow>
     set (attestations_of (merge_ops t ops)) = set (attestations_of t) \<union> (\<Union>x \<in> set ops. branch x)"
proof (induction t b and t ops rule: merge_merge_ops.induct)
  case (1 t m atts ops)
  have g: "good_below H R (fold add_attestation atts t)" "ops_ok H R (ts_msg (fold add_attestation atts t)) (mset ops)"
    using "1.prems" good_below_fold [of H R t atts] by (simp_all add: good_below_iff [of H R "Timestamp m atts ops"])
  show ?case using "1.IH" [OF g] "1.prems"(3)
    by (auto simp: attestations_fold attestations_set [of "Timestamp _ atts ops"] simp del: attestations_of.simps)
next
  case (3 t op child ops)
  have c: "op_ok op" "next_msg H R op (ts_msg t) = Inr (ts_msg child)" "good H R child" "ops_ok H R (ts_msg t) (mset ops)"
    using "3.prems"(2) by (auto simp: ops_ok_def)
  have g: "good_below H R (insert_op (\<lambda>existing. merge existing child) op child t)"
    by (rule good_below_insert [OF "3.prems"(1) c(1-3) merge_join [OF _ c(3)]])
  have "set (attestations_of (merge e child)) = set (attestations_of e) \<union> set (attestations_of child)"
    if "(op, e) \<in> set (ts_ops t)" for e
  proof -
    have "good H R e" "ts_msg e = ts_msg child" using that "3.prems"(1) c(2) by (auto simp: good_below_iff ops_ok_def)
    then show ?thesis using "3.IH"(1) c(3) by (simp add: good_iff)
  qed
  from attestations_insert [OF this] "3.IH"(2) [OF g] c(4) show ?case by auto
qed simp

section \<open>Reading\<close>

inductive reads :: "hasher \<Rightarrow> (bytes \<Rightarrow> bytes) \<Rightarrow> nat \<Rightarrow> timestamp \<Rightarrow> bytes \<Rightarrow> timestamp \<Rightarrow> bytes \<Rightarrow> bool"
  and reads_item :: "hasher \<Rightarrow> (bytes \<Rightarrow> bytes) \<Rightarrow> nat \<Rightarrow> timestamp \<Rightarrow> bytes \<Rightarrow> timestamp \<Rightarrow> bytes \<Rightarrow> bool"
  for H R where
  item_attestation: "read_attestation bs = Inr (a, bs') \<Longrightarrow>
    reads_item H R d t (TAG_ATTESTATION # bs) (add_attestation a t) bs'"
| item_op: "read_op tag bs = Inr (op, bs1) \<Longrightarrow> next_msg H R op (ts_msg t) = Inr msg \<Longrightarrow> d \<noteq> 0 \<Longrightarrow>
    reads H R d (timestamp_new msg) bs1 c bs' \<Longrightarrow> reads_item H R (Suc d) t (tag # bs) (add_op op c t) bs'"
| reads_last: "reads_item H R d t bs t' bs' \<Longrightarrow> reads H R d t bs (canonicalize t') bs'"
| reads_fork: "reads_item H R d t bs t1 bs1 \<Longrightarrow> reads H R d t1 bs1 t' bs' \<Longrightarrow> reads H R d t (TAG_FORK # bs) t' bs'"

definition item_of :: "hasher \<Rightarrow> (bytes \<Rightarrow> bytes) \<Rightarrow> nat \<Rightarrow> timestamp \<Rightarrow> u8 \<Rightarrow> bytes \<Rightarrow> ots_error + timestamp \<times> bytes" where
  "item_of H R d t tag bs1 =
     (if tag = TAG_ATTESTATION then
          and_then (read_attestation bs1) (\<lambda>(att, bs2). Inr (add_attestation att t, bs2))
        else
          and_then (read_op tag bs1) (\<lambda>(op, bs2).
          and_then (next_msg H R op (ts_msg t)) (\<lambda>msg.
          and_then
            (if d - 1 = 0 then Inl (Malformed ''proof nests too deeply'')
             else read_loop H R (d - 1) (timestamp_new msg) bs2)
            (\<lambda>(child, bs3). Inr (add_op op child t, bs3)))))"

lemma read_loop_item:
  "read_loop H R d t bs =
     and_then (read_byte bs) (\<lambda>(tag0, bs0).
     and_then (if tag0 = TAG_FORK then read_byte bs0 else Inr (tag0, bs0)) (\<lambda>(tag, bs1).
     and_then (item_of H R d t tag bs1) (\<lambda>(t, bs3).
       if tag0 = TAG_FORK then read_loop H R d t bs3 else Inr (canonicalize t, bs3))))"
  unfolding item_of_def by (rule read_loop.simps)

lemma reads_read_loop:
  "reads H R d t bs t' bs' \<Longrightarrow> read_loop H R d t bs = Inr (t', bs')"
  "reads_item H R d t bs t' bs' \<Longrightarrow> \<exists>tag bs1. bs = tag # bs1 \<and> tag \<noteq> TAG_FORK \<and> item_of H R d t tag bs1 = Inr (t', bs')"
proof (induction rule: reads_reads_item.inducts)
  case (item_op tag bs op bs1 t msg d c bs')
  then show ?case using read_op_canonical(2) [OF item_op(1)] by (simp add: item_of_def)
next
  case (reads_last d t bs t' bs')
  then show ?case by (subst read_loop_item) (auto simp del: and_then_Inr)
next
  case (reads_fork d t bs t1 bs1 t' bs')
  then show ?case by (subst read_loop_item) (auto simp del: and_then_Inr)
qed (simp add: item_of_def)

lemma read_loop_reads: "read_loop H R d t bs = Inr (t', bs') \<Longrightarrow> d \<noteq> 0 \<Longrightarrow> reads H R d t bs t' bs'"
proof (induction H R d t bs arbitrary: t' bs' rule: read_loop.induct)
  case (1 H R d t bs)
  obtain tag0 bs0 tag bs1 node bs3 where t0: "read_byte bs = Inr (tag0, bs0)"
    and t1: "(if tag0 = TAG_FORK then read_byte bs0 else Inr (tag0, bs0)) = Inr (tag, bs1)"
    and mid: "item_of H R d t tag bs1 = Inr (node, bs3)"
    and rest: "(if tag0 = TAG_FORK then read_loop H R d node bs3 else Inr (canonicalize node, bs3)) = Inr (t', bs')"
    using "1.prems"(1) unfolding read_loop_item [of H R d t bs] by (auto simp del: read_byte.simps)
  have item: "reads_item H R d t (tag # bs1) node bs3"
  proof (cases "tag = TAG_ATTESTATION")
    case True
    then show ?thesis using mid by (auto simp: item_of_def intro: item_attestation)
  next
    case False
    then obtain op bs2 msg child where o: "read_op tag bs1 = Inr (op, bs2)" "next_msg H R op (ts_msg t) = Inr msg"
      "d - 1 \<noteq> 0" "read_loop H R (d - 1) (timestamp_new msg) bs2 = Inr (child, bs3)" "node = add_op op child t"
      using mid by (auto simp: item_of_def split: if_splits)
    have "reads H R (d - 1) (timestamp_new msg) bs2 child bs3"
      by (rule "1.IH"(1) [OF t0 HOL.refl t1 HOL.refl False o(1) HOL.refl o(2,3,4) o(3)])
    from item_op [OF o(1,2,3) this] show ?thesis using o(3,5) by simp
  qed
  show ?case
  proof (cases "tag0 = TAG_FORK")
    case True
    then have "reads H R d node bs3 t' bs'"
      using "1.IH"(2) [OF t0 HOL.refl t1 HOL.refl mid [unfolded item_of_def] HOL.refl True] rest "1.prems"(2) by simp
    moreover have "bs = TAG_FORK # tag # bs1" using t0 t1 True by (cases bs; cases bs0) auto
    ultimately show ?thesis using reads_fork [OF item] by simp
  next
    case False
    moreover have "bs = tag # bs1" using t0 t1 False by (cases bs) auto
    ultimately show ?thesis using reads_last [OF item] rest by simp
  qed
qed

lemma good_below_new [simp]: "good_below H R (timestamp_new m)" "ts_ops (timestamp_new m) = []" "ts_msg (timestamp_new m) = m"
  "ts_attestations (timestamp_new m) = []" "weight (timestamp_new m) = 0"
  by (simp_all add: timestamp_new_def good_below_def items_ok_def sum_ops_def)

lemma good_below_add_op:
  assumes "good_below H R t" "op_ok op" "next_msg H R op (ts_msg t) = Inr (ts_msg c)" "good H R c"
  shows "good_below H R (add_op op c t)"
  unfolding add_op_def by (rule good_below_insert [OF assms merge_join [OF _ assms(4)]])

text \<open>What is read is canonical, free of empty nodes, within the depth, and never longer than the input.\<close>

definition readable :: "hasher \<Rightarrow> (bytes \<Rightarrow> bytes) \<Rightarrow> nat \<Rightarrow> timestamp \<Rightarrow> bool" where
  "readable H R d t \<longleftrightarrow> good H R t \<and> complete t \<and> depth_le d t"

definition readable_below :: "hasher \<Rightarrow> (bytes \<Rightarrow> bytes) \<Rightarrow> nat \<Rightarrow> timestamp \<Rightarrow> bool" where
  "readable_below H R d t \<longleftrightarrow> good_below H R t \<and> (\<forall>(op, c) \<in> set (ts_ops t). complete c) \<and> depth_le d t"

lemma readable_canonicalize:
  assumes "readable_below H R d t" "ts_attestations t \<noteq> [] \<or> ts_ops t \<noteq> []"
  shows "readable H R d (canonicalize t)"
proof -
  have "set (ts_attestations (canonicalize t)) \<noteq> {} \<or> set (ts_ops (canonicalize t)) \<noteq> {}"
    using assms(2) unfolding canonicalize_sel set_empty .
  then have "complete (canonicalize t)"
    using assms(1) unfolding complete_iff [of "canonicalize t"] set_empty readable_below_def by simp
  moreover have "depth_le d (canonicalize t)"
    using assms(1) depth_le_same_ops [of "canonicalize t" t d] by (simp add: readable_below_def)
  ultimately show ?thesis using assms(1) good_canonicalize by (auto simp: readable_def readable_below_def)
qed

lemma readable_below_add_op:
  assumes "readable_below H R (Suc d) t" "readable H R d c" "op_ok op" "next_msg H R op (ts_msg t) = Inr (ts_msg c)"
  shows "readable_below H R (Suc d) (add_op op c t)"
proof -
  have c: "complete c" "depth_le d c" "good H R c" using assms(2) by (auto simp: readable_def)
  have j: "complete (merge e c)" if "complete e" for e
    using merge_complete(1) [of e c] that complete_iff [of e] c(1) by simp
  have "\<forall>(op, c) \<in> set (ts_ops (add_op op c t)). complete c"
    unfolding add_op_def using assms(1) c(1) by (intro insert_op_all j) (auto simp: readable_below_def)
  moreover have "\<forall>(op, c) \<in> set (ts_ops (add_op op c t)). depth_le d c"
    unfolding add_op_def using assms(1) c(2) by (intro insert_op_all merge_depth(1)) (auto simp: readable_below_def)
  ultimately show ?thesis
    using assms(1,3,4) c(3) good_below_add_op [of H R t op c] by (simp add: readable_below_def)
qed

lemma reads_readable:
  "reads H R d t bs t' bs' \<Longrightarrow> readable_below H R d t \<Longrightarrow>
    readable H R d t' \<and> ts_msg t' = ts_msg t \<and> weight t' + length bs' \<le> weight t + length bs + 1"
  "reads_item H R d t bs t' bs' \<Longrightarrow> readable_below H R d t \<Longrightarrow>
    readable_below H R d t' \<and> ts_msg t' = ts_msg t \<and> weight t' + length bs' \<le> weight t + length bs + 1
    \<and> (ts_attestations t' \<noteq> [] \<or> ts_ops t' \<noteq> [])"
proof (induction rule: reads_reads_item.inducts)
  case (item_attestation bs a bs' d t)
  have "set (ts_attestations (add_attestation a t)) \<noteq> {}" by simp
  then have "ts_attestations (add_attestation a t) \<noteq> []" unfolding set_empty .
  moreover have "depth_le d (add_attestation a t)"
    using item_attestation(2) depth_le_same_ops [of "add_attestation a t" t d] by (simp add: readable_below_def)
  ultimately show ?case
    using item_attestation weight_add_attestation [of a t] read_attestation_canonical [OF item_attestation(1)]
    by (auto simp: readable_below_def good_below_add_attestation)
next
  case (item_op tag bs op bs1 t msg d c bs')
  have "readable_below H R d (timestamp_new msg)" using item_op(2) by (cases d) (simp_all add: readable_below_def)
  then have c: "readable H R d c" "ts_msg c = msg" "weight c + length bs' \<le> length bs1 + 1" using item_op.IH by simp_all
  note o = read_op_canonical [OF item_op(1)]
  have "weight (add_op op c t) \<le> weight t + 1 + length (op_argument op) + weight c"
    unfolding add_op_def by (rule weight_insert) (rule merge_weight)
  moreover have "readable_below H R (Suc d) (add_op op c t)"
    using item_op c o by (intro readable_below_add_op) simp_all
  ultimately show ?case using c o(3) by (simp add: add_op_def)
next
  case (reads_last d t bs t' bs')
  then show ?case using readable_canonicalize [of H R d t'] by simp
next
  case (reads_fork d t bs t1 bs1 t' bs')
  then show ?case by auto
qed

end
