(* ===== verification/Ots_Sound.thy ===== *)
theory Ots_Sound
  imports Ots_Correct
begin

text \<open>
  The statements on OpenTimestamps proofs (\<open>Ots\<close>): reading and writing, the calendar workflow, the
  path behind a Bitcoin attestation with the work of its header, and the hosts an upgrade may ask.
\<close>

section \<open>Writing and reading back\<close>

fun join_forks :: "bytes list \<Rightarrow> bytes" where
  "join_forks [] = []"
| "join_forks [e] = e"
| "join_forks (e # f # es) = TAG_FORK # e @ join_forks (f # es)"

lemma forked_join: "forked es = join_forks es"
proof -
  have "concat (map (\<lambda>(i, e). (if i < total then [TAG_FORK] else []) @ e) (zip [k..<Suc total] es)) = join_forks es"
    if "k + length es = Suc total" for k total
    using that
  proof (induction es arbitrary: k rule: join_forks.induct)
    case (2 e)
    then show ?case by simp
  next
    case (3 e f es)
    then have "[k..<Suc total] = k # [Suc k..<Suc total]" by (intro upt_conv_Cons) simp
    then show ?case using 3 by (simp del: upt_Suc)
  qed simp
  from this [of 1 "length es"] show ?thesis by (simp add: forked_def)
qed

lemma length_join_forks: "es \<noteq> [] \<Longrightarrow> Suc (length (join_forks es)) = sum_list (map (\<lambda>e. Suc (length e)) es)"
  by (induction es rule: join_forks.induct) auto

lemma reads_entries:
  assumes "es \<noteq> []" "ts_msg u = m"
    and "\<And>e g u rest. (e, g) \<in> set es \<Longrightarrow> ts_msg u = m \<Longrightarrow> reads_item H R d u (e @ rest) (g u) rest \<and> ts_msg (g u) = m"
  shows "reads H R d u (join_forks (map fst es) @ rest) (canonicalize (fold snd es u)) rest"
  using assms
proof (induction es arbitrary: u)
  case (Cons x es)
  obtain e g where x: "x = (e, g)" by (cases x)
  have i: "reads_item H R d u (e @ rest) (g u) rest" "ts_msg (g u) = m" for rest using Cons.prems(2,3) x by auto
  show ?case
  proof (cases es)
    case Nil
    then show ?thesis using reads_last [OF i(1)] by (simp add: x)
  next
    case (Cons y ys)
    have "reads H R d (g u) (join_forks (map fst es) @ rest) (canonicalize (fold snd es (g u))) rest"
      using Cons Cons.prems(3) i(2) by (intro Cons.IH) auto
    from reads_fork [OF i(1) this] show ?thesis using Cons by (simp add: x)
  qed
qed simp

lemma fold_add_attestation_distinct:
  "distinct (xs @ as) \<Longrightarrow> fold add_attestation as (Timestamp m xs ops) = Timestamp m (xs @ as) ops"
proof (induction as arbitrary: xs)
  case (Cons a as)
  then have "add_attestation a (Timestamp m xs ops) = Timestamp m (xs @ [a]) ops" by (simp add: add_attestation_def)
  then show ?case using Cons by simp
qed simp

lemma fold_add_op_sorted:
  assumes "distinct (map fst (xs @ ops))" "sorted (map op_key (xs @ ops))" "sorted (map attestation_sort_key as)"
  shows "fold (\<lambda>(op, c). add_op op c) ops (Timestamp m as xs) = Timestamp m as (xs @ ops)"
  using assms(1,2)
proof (induction ops arbitrary: xs)
  case (Cons x ops)
  obtain op c where x: "x = (op, c)" by (cases x)
  have "in_order (Timestamp m as (xs @ [(op, c)]))"
    using Cons.prems(2) assms(3) x by (auto simp: in_order_def sorted_append)
  then have "add_op op c (Timestamp m as xs) = Timestamp m as (xs @ [(op, c)])"
    using Cons.prems(1) x by (auto simp: add_op_def insert_op_def canonicalize_id)
  then show ?case using Cons.IH [of "xs @ [x]"] Cons.prems x by simp
qed simp

lemma reads_write: "readable H R d t \<Longrightarrow> reads H R d (timestamp_new (ts_msg t)) (write_timestamp t @ rest) t rest"
proof (induction d arbitrary: t rest)
  case (Suc d)
  obtain m atts ops where t: "t = Timestamp m atts ops" by (cases t)
  have g: "good_below H R t" "in_order t" "complete t" "depth_le (Suc d) t"
    using Suc.prems by (auto simp: readable_def good_iff)
  define es where "es = map (\<lambda>a. (TAG_ATTESTATION # write_attestation a, add_attestation a)) atts
    @ map (\<lambda>(op, c). (op_tag op # op_argument op @ write_timestamp c, add_op op c)) ops"
  have w: "write_timestamp t = join_forks (map fst es)"
  proof -
    have "sort_key attestation_sort_key atts = atts" "sort_key op_key ops = ops"
      using g(2) by (auto simp: t in_order_def intro: sort_key_id)
    then have "write_timestamp t = join_forks (map (\<lambda>a. TAG_ATTESTATION # write_attestation a) atts
        @ map (\<lambda>(op, c). op_tag op # op_argument op @ write_timestamp c) ops)"
      by (simp add: t forked_join)
    then show ?thesis by (simp add: es_def comp_def case_prod_unfold)
  qed
  have f: "fold snd es (timestamp_new m) = t"
  proof -
    have "fold snd es (timestamp_new m) = fold (\<lambda>(op, c). add_op op c) ops (fold add_attestation atts (Timestamp m [] []))"
      by (simp add: es_def timestamp_new_def fold_map comp_def case_prod_unfold)
    also have "\<dots> = t" using g(1,2) fold_add_attestation_distinct [of "[]" atts m "[]"] fold_add_op_sorted [of "[]" ops atts m]
      by (simp add: t good_below_def items_ok_def in_order_def)
    finally show ?thesis .
  qed
  have "reads_item H R (Suc d) u (e @ rest) (k u) rest \<and> ts_msg (k u) = m" if "(e, k) \<in> set es" "ts_msg u = m" for e k u rest
    using that(1) unfolding es_def set_append set_map
  proof (elim UnE imageE)
    fix a
    assume "(e, k) = (TAG_ATTESTATION # write_attestation a, add_attestation a)" "a \<in> set atts"
    then show ?thesis using g(1) that(2)
      by (auto simp: t good_below_def items_ok_def list_all_iff intro!: item_attestation read_write_attestation)
  next
    fix x
    assume x: "(e, k) = (case x of (op, c) \<Rightarrow> (op_tag op # op_argument op @ write_timestamp c, add_op op c))" "x \<in> set ops"
    obtain op c where oc: "x = (op, c)" by (cases x)
    have c: "op_ok op" "next_msg H R op m = Inr (ts_msg c)" "good H R c" using g(1) x(2) by (auto simp: t oc good_below_def items_ok_def)
    have "depth_le d c" "complete c" using g(3,4) x(2) complete_iff [of t] by (auto simp: t oc)
    then have "reads H R d (timestamp_new (ts_msg c)) (write_timestamp c @ rest) c rest" "d \<noteq> 0"
      using Suc.IH [of c rest] c(3) by (simp_all add: readable_def) (cases d; simp)
    from item_op [OF read_write_op [OF c(1)] _ this(2,1), of u] show ?thesis
      using x(1) c(2) that(2) by (simp add: oc add_op_def)
  qed
  moreover have "es \<noteq> []" using g(3) complete_iff [of t] by (auto simp: t es_def)
  ultimately have "reads H R (Suc d) (timestamp_new m) (join_forks (map fst es) @ rest) (canonicalize (fold snd es (timestamp_new m))) rest"
    by (intro reads_entries) simp_all
  then show ?case using w f g(2) by (simp add: t canonicalize_id)
qed (simp add: readable_def)

lemma length_write: "complete t \<Longrightarrow> Suc (length (write_timestamp t)) = weight t"
proof (induction t rule: write_timestamp.induct)
  case (1 m atts ops)
  have c: "complete c" if "(op, c) \<in> set ops" for op c
    using that "1.prems" complete_iff [of "Timestamp m atts ops"] by auto
  let ?e = "map (\<lambda>a. TAG_ATTESTATION # write_attestation a) (sort_key attestation_sort_key atts)
       @ map (\<lambda>(op, child). op_tag op # op_argument op @ write_timestamp child) (sort_key op_key ops)"
  have "set atts \<noteq> {} \<or> set ops \<noteq> {}" using "1.prems" complete_iff [of "Timestamp m atts ops"] by simp
  then have "set ?e \<noteq> {}" by auto
  then have "Suc (length (write_timestamp (Timestamp m atts ops))) = sum_list (map (\<lambda>e. Suc (length e)) ?e)"
    unfolding set_empty write_timestamp.simps forked_join by (rule length_join_forks)
  also have "\<dots> = sum_list (map (\<lambda>a. 2 + length (write_attestation a)) (sort_key attestation_sort_key atts))
      + sum_ops (\<lambda>op c. Suc (Suc (length (op_argument op) + length (write_timestamp c)))) (sort_key op_key ops)"
    by (simp add: sum_ops_def comp_def case_prod_unfold)
  also have "sum_ops (\<lambda>op c. Suc (Suc (length (op_argument op) + length (write_timestamp c)))) (sort_key op_key ops)
      = sum_ops (\<lambda>op c. 1 + length (op_argument op) + weight c) (sort_key op_key ops)"
  proof (rule sum_ops_cong [OF HOL.refl])
    fix op c
    assume x: "(op, c) \<in> set (sort_key op_key ops)"
    then have "complete c" using c by simp
    from "1.IH" [OF x HOL.refl this]
    show "Suc (Suc (length (op_argument op) + length (write_timestamp c))) = 1 + length (op_argument op) + weight c" by simp
  qed
  also have "sum_list (map (\<lambda>a. 2 + length (write_attestation a)) (sort_key attestation_sort_key atts))
      + sum_ops (\<lambda>op c. 1 + length (op_argument op) + weight c) (sort_key op_key ops) = weight (Timestamp m atts ops)"
    using weight_canonicalize [of "Timestamp m atts ops"] by (simp add: canonicalize_def)
  finally show ?case .
qed

lemma read_timestamp_Inr:
  assumes "read_timestamp H R d m bs = Inr (t, rest)"
  shows "readable H R d t" "ts_msg t = m" "length (write_timestamp t) + length rest \<le> length bs"
proof -
  have d: "d \<noteq> 0" and r: "reads H R d (timestamp_new m) bs t rest"
    using assms by (auto simp: read_timestamp_def intro: read_loop_reads split: if_splits)
  have "readable_below H R d (timestamp_new m)" using d by (cases d) (simp_all add: readable_below_def)
  from reads_readable(1) [OF r this]
  show "readable H R d t" "ts_msg t = m" "length (write_timestamp t) + length rest \<le> length bs"
    using length_write [of t] by (auto simp: readable_def)
qed

lemma read_timestamp_write:
  assumes "readable H R d t"
  shows "read_timestamp H R d (ts_msg t) (write_timestamp t @ rest) = Inr (t, rest)"
  using assms reads_read_loop(1) [OF reads_write [OF assms, of rest]] by (cases d) (auto simp: read_timestamp_def readable_def)

lemma detached_parse_Inr:
  assumes "detached_parse H R bs = Inr d"
  shows "readable H R MAX_DEPTH d" "length (ts_msg d) = 32" "length (detached_serialize d) \<le> length bs" "length bs \<le> MAX_PROOF_BYTES"
proof -
  obtain b1 b2 digest b3 where p: "take (length MAGIC) bs = MAGIC" "varuint (drop (length MAGIC) bs) = Inr (ucast MAJOR_VERSION, b1)"
    "read_byte b1 = Inr (TAG_SHA256, b2)" "read_take 32 b2 = Inr (digest, b3)" "read_timestamp H R MAX_DEPTH digest b3 = Inr (d, [])"
    and l: "length bs \<le> MAX_PROOF_BYTES"
    using assms by (auto simp: detached_parse_def split: if_splits)
  note r = read_timestamp_Inr [OF p(5)]
  have t: "length digest = 32" "length b2 = 32 + length b3" "length b1 = Suc (length b2)"
    using p(3,4) by (cases b1; auto simp: read_take_def split: if_splits)+
  have "length b1 < length (drop (length MAGIC) bs)" 
    by (rule varuint_loop_shorter [OF p(2) [unfolded varuint_def]])
  then show "length (detached_serialize d) \<le> length bs" using r t by (simp add: detached_serialize_def)
  show "readable H R MAX_DEPTH d" "length (ts_msg d) = 32" "length bs \<le> MAX_PROOF_BYTES" using r t l by simp_all
qed

lemma detached_parse_serialize:
  assumes "readable H R MAX_DEPTH d" "length (ts_msg d) = 32" "length (detached_serialize d) \<le> MAX_PROOF_BYTES"
  shows "detached_parse H R (detached_serialize d) = Inr d"
proof -
  have "[MAJOR_VERSION] = write_varuint (ucast MAJOR_VERSION)"
    by (subst write_varuint.simps) (simp add: MAJOR_VERSION_def Let_def)
  then have v: "varuint (MAJOR_VERSION # bs) = Inr (ucast MAJOR_VERSION, bs)" for bs
    using varuint_write [of "ucast MAJOR_VERSION" bs] by (metis append_Cons append_Nil)
  show ?thesis using assms read_timestamp_write [OF assms(1), of "[]"]
    by (simp add: detached_parse_def v detached_serialize_def read_take_def del: and_then_Inr)
qed

text \<open>
  C24. Reading normalises: whatever file is accepted, in whatever order and with whatever duplicate
  branches it was written, serializing the result gives a file that is no longer, and that reads back
  as exactly the same proof.
\<close>

theorem ots_parse_normalises:
  assumes "detached_parse H R bs = Inr d"
  shows "detached_parse H R (detached_serialize d) = Inr d \<and> length (detached_serialize d) \<le> length bs"
  using detached_parse_Inr [OF assms] detached_parse_serialize [of H R d] by simp

definition example_proof :: timestamp where
  "example_proof = Timestamp (replicate 32 0) [Bitcoin 5] []"

lemma example_proof_readable: "readable H R MAX_DEPTH example_proof" "length (detached_serialize example_proof) \<le> MAX_PROOF_BYTES"
proof -
  have "good H R example_proof" "complete example_proof"
    by (simp_all add: example_proof_def good_def complete_def items_ok_def in_order_def att_ok_def)
  moreover have "depth_le (Suc 255) example_proof" unfolding depth_le.simps by (simp add: example_proof_def)
  moreover have "MAX_DEPTH = Suc 255" by (simp add: MAX_DEPTH_def)
  ultimately show "readable H R MAX_DEPTH example_proof" by (simp only: readable_def simp_thms)
  have "length (write_varbytes (write_varuint 5)) \<le> 20"
    using length_varuint_10 [of 5] length_varuint_10 [of "of_nat (length (write_varuint 5))"] by (simp add: write_varbytes_def)
  then show "length (detached_serialize example_proof) \<le> MAX_PROOF_BYTES"
    by (simp add: detached_serialize_def example_proof_def forked_join BITCOIN_def MAX_PROOF_BYTES_def MAGIC_def)
qed

theorem ots_parse_normalises_witness:
  "\<exists>bs d. detached_parse poly_hash rev bs = Inr d
    \<and> detached_parse poly_hash rev (detached_serialize d) = Inr d \<and> length (detached_serialize d) \<le> length bs"
proof -
  have "detached_parse poly_hash rev (detached_serialize example_proof) = Inr example_proof"
    using detached_parse_serialize [OF example_proof_readable(1)] example_proof_readable(2) by (simp add: example_proof_def)
  from ots_parse_normalises [OF this] this show ?thesis by blast
qed

section \<open>The calendar workflow\<close>

lemma goodD:
  assumes "good H R t" "(op, c) \<in> set (ts_ops t)"
  shows "op_ok op" "next_msg H R op (ts_msg t) = Inr (ts_msg c)" "good H R c"
  using assms(2) iffD1 [OF good_iff assms(1)] unfolding good_below_def items_ok_def by auto

lemma goodI:
  assumes "distinct atts" "list_all att_ok atts" "distinct (map fst ops)" "sorted (map attestation_sort_key atts)"
    "sorted (map op_key ops)" "\<And>op c. (op, c) \<in> set ops \<Longrightarrow> op_ok op \<and> next_msg H R op m = Inr (ts_msg c) \<and> good H R c"
  shows "good H R (Timestamp m atts ops)"
  unfolding good_iff [of H R "Timestamp m atts ops"] good_below_def items_ok_def in_order_def using assms by auto

text \<open>The operations of a path from one message to another.\<close>

fun run_ops :: "hasher \<Rightarrow> (bytes \<Rightarrow> bytes) \<Rightarrow> op list \<Rightarrow> bytes \<Rightarrow> bytes option" where
  "run_ops H R [] m = Some m"
| "run_ops H R (op # ops) m = Option.bind (apply_op H R op m) (run_ops H R ops)"

lemma attested_path:
  "good H R t \<Longrightarrow> (m, a) \<in> set (attestations_of t) \<Longrightarrow> \<exists>ops. run_ops H R ops (ts_msg t) = Some m"
proof (induction t rule: attestations_of.induct)
  case (1 m0 atts ops)
  let ?t = "Timestamp m0 atts ops"
  from "1.prems"(2) consider "m = m0" | op c where "(op, c) \<in> set ops" "evaluated op" "(m, a) \<in> set (attestations_of c)"
    by (auto split: if_splits)
  then show ?case
  proof cases
    case 1
    then show ?thesis by (intro exI [of _ "[]"]) simp
  next
    case (2 op c)
    have "next_msg H R op m0 = Inr (ts_msg c)" "good H R c"
      using 2(1) goodD [OF "1.prems"(1), of op c] by simp_all
    moreover obtain ops' where "run_ops H R ops' (ts_msg c) = Some m"
      using "1.IH" [OF 2(1) HOL.refl 2(2) calculation(2) 2(3)] by blast
    ultimately show ?thesis using 2(2) by (intro exI [of _ "op # ops'"]) (simp add: next_msg_def)
  qed
qed

definition same_branch :: "hasher \<Rightarrow> (bytes \<Rightarrow> bytes) \<Rightarrow> op \<times> timestamp \<Rightarrow> op \<times> timestamp \<Rightarrow> bool" where
  "same_branch H R x y \<longleftrightarrow> fst y = fst x \<and> good H R (snd y) \<and> ts_msg (snd y) = ts_msg (snd x)"

lemma same_branch_refl: "\<forall>(op, c) \<in> set ops. good H R c \<Longrightarrow> list_all2 (same_branch H R) ops ops"
  by (induction ops) (auto simp: same_branch_def)

lemma good_replace:
  assumes g: "good H R (Timestamp m atts ops)" and l: "list_all2 (same_branch H R) ops ops'"
  shows "good H R (Timestamp m atts ops')"
proof -
  have k: "map fst ops' = map fst ops"
    using l by (induction rule: list_all2_induct) (auto simp: same_branch_def)
  have "map op_key xs = map op_sort_key (map fst xs)" for xs :: "(op \<times> timestamp) list" by (simp add: case_prod_unfold)
  then have k': "map op_key ops' = map op_key ops" using k by metis
  have c: "\<exists>c. (op, c) \<in> set ops \<and> good H R c' \<and> ts_msg c' = ts_msg c" if "(op, c') \<in> set ops'" for op c'
    using l that by (induction rule: list_all2_induct) (auto simp: same_branch_def)
  have p: "distinct atts" "list_all att_ok atts" "distinct (map fst ops)" "sorted (map attestation_sort_key atts)" "sorted (map op_key ops)"
    using iffD1 [OF good_iff g] unfolding good_below_def items_ok_def in_order_def by auto
  show ?thesis
  proof (rule goodI [OF p(1,2) _ p(4)])
    fix op c'
    assume "(op, c') \<in> set ops'"
    from c [OF this] obtain c where "(op, c) \<in> set ops" "good H R c'" "ts_msg c' = ts_msg c" by blast
    then show "op_ok op \<and> next_msg H R op m = Inr (ts_msg c') \<and> good H R c'" using goodD [OF g, of op c] by simp
  qed (use p k k' in simp_all)
qed

lemma good_update_first:
  assumes "good H R t" "map_of (ts_ops t) op = Some e" "good H R (f e)" "ts_msg (f e) = ts_msg e"
  shows "good H R (Timestamp (ts_msg t) (ts_attestations t) (update_first op f (ts_ops t)))"
proof -
  have "\<forall>(op, c) \<in> set (ts_ops t). good H R c" using goodD(3) [OF assms(1)] by auto
  then have "list_all2 (same_branch H R) (ts_ops t) (update_first op f (ts_ops t))"
    using assms(2)
  proof (induction "ts_ops t" arbitrary: t)
    case Nil
    then show ?case by simp
  next
    case (Cons x xs)
    then show ?case using assms(3,4) same_branch_refl [of xs H R] Cons.hyps(1) [of "Timestamp m as xs" for m as]
      by (cases x) (auto simp: same_branch_def simp flip: Cons.hyps(2))
  qed
  from good_replace [OF _ this] assms(1) show ?thesis by (cases t) simp
qed

lemma timestamp_op_good:
  assumes t: "good H R t" and op: "op_ok op" "evaluated op" "apply_op H R op (ts_msg t) = Some m"
    and f: "\<And>c. good H R c \<Longrightarrow> ts_msg c = m \<Longrightarrow> good H R (fst (f c)) \<and> ts_msg (fst (f c)) = m"
  obtains c where "good H R (fst (timestamp_op H R op f t))" "ts_msg (fst (timestamp_op H R op f t)) = ts_msg t"
    "snd (timestamp_op H R op f t) = Some (snd (f c))" "good H R c" "ts_msg c = m"
proof -
  define t1 where "t1 = (if op \<in> fst ` set (ts_ops t) then t else insert_op (\<lambda>e. e) op (timestamp_new m) t)"
  have n: "next_msg H R op (ts_msg t) = Inr m" using op by (simp add: next_msg_def)
  have "good H R (timestamp_new m)" unfolding timestamp_new_def by (rule goodI) simp_all
  then have "good_below H R (insert_op (\<lambda>e. e) op (timestamp_new m) t)"
    using iffD1 [OF good_iff t] op(1) n by (intro good_below_insert) auto
  then have "good H R (insert_op (\<lambda>e. e) op (timestamp_new m) t)" by (intro iffD2 [OF good_iff]) simp
  then have t1: "good H R t1" "ts_msg t1 = ts_msg t" using t by (simp_all add: t1_def)
  have "op \<in> fst ` set (ts_ops t1)" by (auto simp: t1_def insert_op_def)
  then obtain c where c: "map_of (ts_ops t1) op = Some c" by (metis map_of_eq_None_iff not_Some_eq)
  then have "(op, c) \<in> set (ts_ops t1)" by (rule map_of_SomeD)
  then have gc: "good H R c" "ts_msg c = m" using goodD [OF t1(1)] t1(2) n by auto
  have e: "timestamp_op H R op f t
      = (Timestamp (ts_msg t1) (ts_attestations t1) (update_first op (\<lambda>c. fst (f c)) (ts_ops t1)),
         map_option (\<lambda>c. snd (f c)) (map_of (ts_ops t1) op))"
    by (simp add: timestamp_op_def t1_def insert_op_def op(3) Let_def)
  have "good H R (fst (timestamp_op H R op f t))"
    unfolding e using good_update_first [OF t1(1) c, of "\<lambda>c. fst (f c)"] f [OF gc] gc(2) by simp
  then show ?thesis using that [of c] e c t1(2) gc by simp
qed

lemma find_mut_good:
  assumes f: "\<And>n. good H R n \<Longrightarrow> ts_msg n = msg \<Longrightarrow> good H R (f n) \<and> ts_msg (f n) = msg"
  shows "find_mut msg f t = Some t' \<Longrightarrow> good H R t \<Longrightarrow> good H R t' \<and> ts_msg t' = ts_msg t"
    and "find_map_ops msg f ops = Some ops' \<Longrightarrow> (\<forall>(op, c) \<in> set ops. good H R c) \<Longrightarrow> list_all2 (same_branch H R) ops ops'"
  using f
proof (induction msg f t and msg f ops arbitrary: t' and ops' rule: find_mut_find_map_ops.induct)
  case (1 msg f m atts ops)
  show ?case
  proof (cases "m = msg")
    case True
    then show ?thesis using "1.prems"(1,2) "1.prems"(3) [of "Timestamp m atts ops"] by simp
  next
    case False
    then obtain ops' where o: "find_map_ops msg f ops = Some ops'" "t' = Timestamp m atts ops'" using "1.prems"(1) by auto
    have "\<forall>(op, c) \<in> set ops. good H R c" using goodD(3) [OF "1.prems"(2)] by auto
    from "1.IH" [OF False o(1) this "1.prems"(3)] show ?thesis using good_replace [OF "1.prems"(2)] o(2) by simp
  qed
next
  case (3 msg f op c ops)
  have refl: "list_all2 (same_branch H R) ops ops" using "3.prems"(2) by (intro same_branch_refl) simp
  show ?case
  proof (cases "find_mut msg f c")
    case None
    with "3.prems"(1) obtain os where "find_map_ops msg f ops = Some os" "ops' = (op, c) # os" by auto
    then show ?thesis using "3.IH"(2) [OF None] "3.prems"(2,3) by (simp add: same_branch_def)
  next
    case (Some c')
    then have "good H R c' \<and> ts_msg c' = ts_msg c" using "3.prems"(2,3) by (intro "3.IH"(1)) auto
    then have "same_branch H R (op, c) (op, c')" by (simp add: same_branch_def)
    then show ?thesis using Some "3.prems"(1) refl by auto
  qed
qed simp

lemma prepare_submission_good:
  assumes d: "good H R d" "length (ts_msg d) = 32" and n: "length nonce = 16"
  shows "good H R (snd (prepare_submission H R nonce d))" "ts_msg (snd (prepare_submission H R nonce d)) = ts_msg d"
    "fst (prepare_submission H R nonce d) = Some (hash_bytes (H (ts_msg d @ nonce)))"
proof -
  let ?f = "timestamp_op H R Sha256 (\<lambda>c. (c, ts_msg c))"
  have sha: "apply_op H R Sha256 m = Some (hash_bytes (H m))" for m by (simp add: apply_op_def MAX_MSG_def)
  have f: "good H R (fst (?f c)) \<and> ts_msg (fst (?f c)) = ts_msg c \<and> snd (?f c) = Some (hash_bytes (H (ts_msg c)))"
    if g: "good H R c" for c
    by (rule timestamp_op_good [OF g _ _ sha, of "\<lambda>c. (c, ts_msg c)"]) (simp_all add: op_ok_def evaluated_def)
  have a: "apply_op H R (Append nonce) (ts_msg d) = Some (ts_msg d @ nonce)" using d(2) n by (simp add: apply_op_def MAX_MSG_def)
  have o: "op_ok (Append nonce)" "evaluated (Append nonce)" using n by (auto simp: op_ok_def MAX_MSG_def evaluated_def)
  obtain c where "good H R (fst (timestamp_op H R (Append nonce) ?f d))" "ts_msg (fst (timestamp_op H R (Append nonce) ?f d)) = ts_msg d"
    "snd (timestamp_op H R (Append nonce) ?f d) = Some (snd (?f c))" "good H R c" "ts_msg c = ts_msg d @ nonce"
    by (rule timestamp_op_good [OF d(1) o a, of ?f]) (use f in auto)
  then show "good H R (snd (prepare_submission H R nonce d))" "ts_msg (snd (prepare_submission H R nonce d)) = ts_msg d"
    "fst (prepare_submission H R nonce d) = Some (hash_bytes (H (ts_msg d @ nonce)))"
    using f [of c] by (auto simp: prepare_submission_def expect_32_def case_prod_unfold Let_def)
qed

lemma deserialize_good:
  assumes "deserialize H R body m = Inr t"
  shows "good H R t" "ts_msg t = m"
  using assms read_timestamp_Inr [of H R MAX_DEPTH m body t "[]"]
  by (auto simp: deserialize_def readable_def split: if_splits)

lemma merge_calendar_response_good:
  assumes "good H R d"
  shows "good H R (snd (merge_calendar_response H R c body d))" "ts_msg (snd (merge_calendar_response H R c body d)) = ts_msg d"
proof -
  have "good H R d' \<and> ts_msg d' = ts_msg d"
    if u: "deserialize H R body c = Inr u" and f: "find_mut c (\<lambda>n. merge n u) d = Some d'" for u d'
    by (rule find_mut_good(1) [OF _ f assms]) (use deserialize_good [OF u] merge_join in metis)
  then show "good H R (snd (merge_calendar_response H R c body d))" "ts_msg (snd (merge_calendar_response H R c body d)) = ts_msg d"
    using assms by (auto simp: merge_calendar_response_def split: sum.splits option.splits)
qed

text \<open>The calls that change a detached timestamp; a nonce is 16 bytes.\<close>

datatype ots_call = Prepare "128 word" | Respond bytes bytes

definition ots_step :: "hasher \<Rightarrow> (bytes \<Rightarrow> bytes) \<Rightarrow> ots_call \<Rightarrow> detached_timestamp \<Rightarrow> (bytes option + (ots_error + unit)) \<times> detached_timestamp" where
  "ots_step H R call d =
     (case call of
        Prepare nonce \<Rightarrow> (let (r, d') = prepare_submission H R (be_bytes 16 nonce) d in (Inl r, d'))
      | Respond commitment body \<Rightarrow> (let (r, d') = merge_calendar_response H R commitment body d in (Inr r, d')))"

definition proof_of :: "hasher \<Rightarrow> (bytes \<Rightarrow> bytes) \<Rightarrow> bytes \<Rightarrow> detached_timestamp \<Rightarrow> bool" where
  "proof_of H R digest d \<longleftrightarrow> good H R d \<and> ts_msg d = digest \<and> length digest = 32"

lemma proof_of_step: "proof_of H R digest d \<Longrightarrow> proof_of H R digest (snd (ots_step H R call d))"
  using prepare_submission_good [of H R d] merge_calendar_response_good [of H R d]
  by (cases call) (auto simp: proof_of_def ots_step_def case_prod_unfold Let_def)

lemma proof_of_new: "proof_of H R (hash_bytes g) (detached_new (hash_bytes g))"
  unfolding proof_of_def detached_new_def timestamp_new_def by (auto intro: goodI)

lemma proof_of_parse: "detached_parse H R bs = Inr d \<Longrightarrow> proof_of H R (ts_msg d) d"
  using detached_parse_Inr [of H R bs d] by (simp add: proof_of_def readable_def)

interpretation ots: machine "detached_new (hash_bytes g)" "ots_step H R" "proof_of H R (hash_bytes g)" for H R g
  by unfold_locales (simp_all add: proof_of_new proof_of_step)

text \<open>An accepted answer adds the attestations of the answer, and only those.\<close>

lemma find_mut_attestations:
  assumes f: "\<And>n. good H R n \<Longrightarrow> ts_msg n = msg \<Longrightarrow> set (attestations_of n) \<subseteq> set (attestations_of (f n))
      \<and> set (attestations_of (f n)) \<subseteq> set (attestations_of n) \<union> A"
  shows "find_mut msg f t = Some t' \<Longrightarrow> good H R t \<Longrightarrow>
      set (attestations_of t) \<subseteq> set (attestations_of t') \<and> set (attestations_of t') \<subseteq> set (attestations_of t) \<union> A"
    and "find_map_ops msg f ops = Some ops' \<Longrightarrow> (\<forall>(op, c) \<in> set ops. good H R c) \<Longrightarrow>
      (\<Union>x \<in> set ops. branch x) \<subseteq> (\<Union>x \<in> set ops'. branch x) \<and> (\<Union>x \<in> set ops'. branch x) \<subseteq> (\<Union>x \<in> set ops. branch x) \<union> A"
  using f
proof (induction msg f t and msg f ops arbitrary: t' and ops' rule: find_mut_find_map_ops.induct)
  case (1 msg f m atts ops)
  show ?case
  proof (cases "m = msg")
    case True
    then have "t' = f (Timestamp m atts ops)" using "1.prems"(1) by simp
    then show ?thesis using "1.prems"(3) [OF "1.prems"(2)] True unfolding timestamp.sel by blast
  next
    case False
    then obtain ops' where o: "find_map_ops msg f ops = Some ops'" "t' = Timestamp m atts ops'" using "1.prems"(1) by auto
    have "\<forall>(op, c) \<in> set ops. good H R c" using goodD(3) [OF "1.prems"(2)] by auto
    from "1.IH" [OF False o(1) this "1.prems"(3)] show ?thesis
      unfolding o(2) attestations_set [of "Timestamp _ _ _"] timestamp.sel by blast
  qed
next
  case (3 msg f op c ops)
  show ?case
  proof (cases "find_mut msg f c")
    case None
    with "3.prems"(1) obtain os where o: "find_map_ops msg f ops = Some os" "ops' = (op, c) # os" by auto
    have g: "\<forall>(op, c) \<in> set ops. good H R c" using "3.prems"(2) by simp
    from "3.IH"(2) [OF None o(1) g "3.prems"(3)] show ?thesis unfolding o(2) list.set UN_insert by blast
  next
    case (Some c')
    have g: "good H R c" using "3.prems"(2) by simp
    from "3.IH"(1) [OF Some g "3.prems"(3)] have "branch (op, c) \<subseteq> branch (op, c') \<and> branch (op, c') \<subseteq> branch (op, c) \<union> A" by (auto simp: branch_def)
    moreover have e: "ops' = (op, c') # ops" using Some "3.prems"(1) by simp
    ultimately show ?thesis unfolding e list.set UN_insert by blast
  qed
qed simp

lemma merge_calendar_response_attestations:
  assumes "good H R d" "merge_calendar_response H R c body d = (Inr (), d')" "deserialize H R body c = Inr u"
  shows "set (attestations_of d) \<subseteq> set (attestations_of d')" "set (attestations_of d') \<subseteq> set (attestations_of d) \<union> set (attestations_of u)"
proof -
  have f: "find_mut c (\<lambda>n. merge n u) d = Some d'"
    using assms(2,3) by (auto simp: merge_calendar_response_def split: option.splits)
  note u = deserialize_good [OF assms(3)]
  have "set (attestations_of (merge n u)) = set (attestations_of n) \<union> set (attestations_of u)" if "good H R n" "ts_msg n = c" for n
    using merge_attestations(1) [of H R n u] iffD1 [OF good_iff that(1)] iffD1 [OF good_iff u(1)] that(2) u(2) by simp
  from find_mut_attestations(1) [OF _ f assms(1), of "set (attestations_of u)"] this
  show "set (attestations_of d) \<subseteq> set (attestations_of d')" "set (attestations_of d') \<subseteq> set (attestations_of d) \<union> set (attestations_of u)"
    by blast+
qed

definition live_msg :: bytes where
  "live_msg = replicate 32 0 @ [1]"

definition lost_leaf :: timestamp where
  "lost_leaf = Timestamp live_msg [Pending (ascii ''https://a'')] []"

definition lost_proof :: "timestamp \<Rightarrow> timestamp" where
  "lost_proof leaf = Timestamp (replicate 32 0) [] [(Sha1, Timestamp [] [] [(Prepend live_msg, leaf)]), (Append [1], lost_leaf)]"

lemma lost_proof_readable: "readable H R MAX_DEPTH (lost_proof lost_leaf)"
proof -
  have u: "att_ok (Pending (ascii ''https://a''))" by (simp add: att_ok_def valid_uri_def uri_byte_def ascii_def MAX_URI_def)
  have l: "good H R lost_leaf" unfolding lost_leaf_def using u by (intro goodI) simp_all
  have "good H R (Timestamp [] [] [(Prepend live_msg, lost_leaf)])"
    using l by (intro goodI) (auto simp: op_ok_def next_msg_def evaluated_def apply_op_def lost_leaf_def live_msg_def MAX_MSG_def)
  then have "good H R (lost_proof lost_leaf)" unfolding lost_proof_def
    using l by (intro goodI) (auto simp: op_ok_def next_msg_def evaluated_def apply_op_def lost_leaf_def live_msg_def MAX_MSG_def
        op_sort_key_def TAG_SHA1_def TAG_APPEND_def)
  moreover have "complete (lost_proof lost_leaf)" by (simp add: complete_def lost_proof_def lost_leaf_def)
  moreover have "depth_le (Suc (Suc (Suc 253))) (lost_proof lost_leaf)" unfolding depth_le.simps by (simp add: lost_proof_def lost_leaf_def)
  moreover have "MAX_DEPTH = Suc (Suc (Suc 253))" by (simp add: MAX_DEPTH_def)
  ultimately show ?thesis by (simp only: readable_def simp_thms)
qed

lemma lost_answer:
  defines "u \<equiv> Timestamp live_msg [Bitcoin 5] []"
  shows "deserialize H R (write_timestamp u) live_msg = Inr u"
proof -
  have "good H R u" unfolding u_def by (intro goodI) (simp_all add: att_ok_def)
  moreover have "complete u" by (simp add: u_def complete_def)
  moreover have "depth_le (Suc 255) u" unfolding depth_le.simps by (simp add: u_def)
  moreover have "MAX_DEPTH = Suc 255" by (simp add: MAX_DEPTH_def)
  ultimately have r: "readable H R MAX_DEPTH u" by (simp only: readable_def simp_thms)
  have "length (write_varbytes (write_varuint 5)) \<le> 20"
    using length_varuint_10 [of 5] length_varuint_10 [of "of_nat (length (write_varuint 5))"] by (simp add: write_varbytes_def)
  then have "length (write_timestamp u) \<le> MAX_PROOF_BYTES" by (simp add: u_def forked_join BITCOIN_def MAX_PROOF_BYTES_def)
  then show ?thesis using read_timestamp_write [OF r, of "[]"] by (simp add: deserialize_def u_def del: and_then_Inr)
qed

lemma length_varbytes: "length (write_varbytes b) \<le> 10 + length b"
  using length_varuint_10 [of "of_nat (length b)"] by (simp add: write_varbytes_def)

lemma lost_proof_short: "length (detached_serialize (lost_proof lost_leaf)) \<le> MAX_PROOF_BYTES"
proof -
  have s: "Suc (length (write_timestamp (lost_proof lost_leaf))) = weight (lost_proof lost_leaf)"
    using lost_proof_readable by (intro length_write) (simp add: readable_def)
  have "length (write_attestation (Pending (ascii ''https://a''))) \<le> 40"
    using length_varbytes [of "write_varbytes (ascii ''https://a'')"] length_varbytes [of "ascii ''https://a''"]
    by (simp add: PENDING_def)
  then have "weight (lost_proof lost_leaf) \<le> 400"
    using length_varbytes [of live_msg] length_varbytes [of "[1]"]
    by (simp add: lost_proof_def lost_leaf_def sum_ops_def op_argument_def live_msg_def del: write_attestation.simps)
  then show ?thesis using s by (simp add: detached_serialize_def MAGIC_def lost_proof_def MAX_PROOF_BYTES_def)
qed

text \<open>
  C37. An upgrade can be lost. The search for the node to upgrade also enters the branches behind SHA-1
  and Keccak, which are carried with an empty message and whose attestations are ignored. There is an
  accepted proof with a pending attestation for a message, and a valid answer that anchors that message
  in a Bitcoin block, such that merging the answer succeeds and leaves the attestations as they were:
  it went to a node with the same message in an ignored branch.
\<close>

theorem upgrade_lost_in_dead_branch:
  "\<exists>file d body u d'. detached_parse H R file = Inr d \<and> (live_msg, ascii ''https://a'') \<in> set (detached_pending d)
    \<and> deserialize H R body live_msg = Inr u \<and> (live_msg, Bitcoin 5) \<in> set (attestations_of u)
    \<and> merge_calendar_response H R live_msg body d = (Inr (), d') \<and> attestations_of d' = attestations_of d"
proof -
  let ?u = "Timestamp live_msg [Bitcoin 5] []" and ?d = "lost_proof lost_leaf"
  have p: "detached_parse H R (detached_serialize ?d) = Inr ?d"
    using lost_proof_readable lost_proof_short by (intro detached_parse_serialize) (simp_all add: lost_proof_def)
  have a: "attestations_of (lost_proof x) = [(live_msg, Pending (ascii ''https://a''))]" for x
    by (simp add: lost_proof_def lost_leaf_def evaluated_def)
  have "find_mut live_msg f ?d = Some (lost_proof (f lost_leaf))" for f
    by (simp add: lost_proof_def lost_leaf_def live_msg_def)
  then have m: "merge_calendar_response H R live_msg (write_timestamp ?u) ?d = (Inr (), lost_proof (merge lost_leaf ?u))"
    using lost_answer by (simp add: merge_calendar_response_def)
  show ?thesis
  proof (intro exI conjI)
    show "(live_msg, ascii ''https://a'') \<in> set (detached_pending ?d)"
      by (simp add: detached_pending_def a map_filter_simps)
    show "(live_msg, Bitcoin 5) \<in> set (attestations_of ?u)" by simp
    show "attestations_of (lost_proof (merge lost_leaf ?u)) = attestations_of ?d" by (simp only: a)
  qed (rule p lost_answer m)+
qed

section \<open>The work of a header\<close>

lemma le_val_append: "le_val (xs @ ys) = le_val xs + 256 ^ length xs * le_val ys"
  by (induction xs) (simp_all add: algebra_simps)

lemma le_val_less: "le_val xs < 256 ^ length xs"
proof (induction xs)
  case (Cons b bs)
  then show ?case using unat_lt2p [of b] by simp
qed simp

lemma le_val_zeros [simp]: "le_val (replicate n 0) = 0"
  by (induction n) simp_all

lemma lexicographic_value:
  "length xs = length ys \<Longrightarrow> xs < ys \<longleftrightarrow> le_val (rev xs) < le_val (rev ys)" for xs ys :: bytes
proof (induction xs ys rule: list_induct2)
  case (Cons x xs y ys)
  let ?P = "256 ^ length ys :: nat"
  have b: "le_val (rev xs) < ?P" "le_val (rev ys) < ?P"
    using le_val_less [of "rev xs"] le_val_less [of "rev ys"] Cons.hyps by simp_all
  consider "x < y" | "x = y" | "y < x" by (meson neqE)
  then show ?case
  proof cases
    case 1
    then have "?P * Suc (unat x) \<le> ?P * unat y" by (intro mult_le_mono2) (simp add: word_less_nat_alt)
    then show ?thesis using 1 b Cons.hyps by (simp add: le_val_append)
  next
    case 2
    then show ?thesis using Cons by (simp add: le_val_append)
  next
    case 3
    then have "?P * Suc (unat y) \<le> ?P * unat x" by (intro mult_le_mono2) (simp add: word_less_nat_alt)
    then show ?thesis using 3 b Cons.hyps by (auto simp: le_val_append)
  qed
qed simp

lemma takeWhile_top: "i < N \<Longrightarrow> N - length (takeWhile P (rev [0..<N])) \<le> i \<Longrightarrow> P i"
proof (induction N)
  case (Suc N)
  then show ?case by (cases "i = N") (auto split: if_splits)
qed simp

lemma leading_zeros_bound: "Suc (unat b) * 2 ^ leading_zeros b \<le> 256"
proof -
  define N where "N = (8 :: nat)"
  define n where "n = length (takeWhile (\<lambda>i. \<not> bit b i) (rev [0..<N]))"
  have lz: "leading_zeros b = n" by (simp only: leading_zeros_def n_def N_def)
  have "n \<le> length (rev [0..<N])" unfolding n_def by (rule length_takeWhile_le)
  then have n8: "n \<le> 8" by (simp add: N_def)
  have high: "\<not> bit b i" if "i < 8" "8 - n \<le> i" for i
    using takeWhile_top [of i N "\<lambda>i. \<not> bit b i"] that unfolding n_def N_def by blast
  have "take_bit (8 - n) b = b"
  proof (rule bit_eqI)
    fix i
    assume "possible_bit TYPE(u8) i"
    then have "i < 8" by simp
    then show "bit (take_bit (8 - n) b) i = bit b i" using high [of i] by (cases "8 - n \<le> i") (auto simp: bit_take_bit_iff)
  qed
  then have "unat b = take_bit (8 - n) (unat b)" by (metis unsigned_take_bit_eq)
  then have "unat b < 2 ^ (8 - n)" by (metis take_bit_nat_less_exp)
  then have "Suc (unat b) * 2 ^ n \<le> 2 ^ (8 - n) * 2 ^ n" by (intro mult_le_mono1) simp
  also have "(2 :: nat) ^ (8 - n) * 2 ^ n = 2 ^ 8" using n8 by (subst power_add [symmetric]) simp
  finally show ?thesis by (simp add: lz)
qed

lemma leading_zero_bits_bound: "le_val (rev bs) * 2 ^ leading_zero_bits bs < 256 ^ length bs"
proof (induction bs)
  case (Cons b bs)
  show ?case
  proof (cases "b = 0")
    case True
    then show ?thesis using Cons by (simp add: le_val_append power_add)
  next
    case False
    have "le_val (rev (b # bs)) * 2 ^ leading_zeros b < 256 ^ length bs * Suc (unat b) * 2 ^ leading_zeros b"
      using le_val_less [of "rev bs"] by (intro mult_less_mono1) (simp_all add: le_val_append)
    also have "\<dots> \<le> 256 ^ length bs * 256"
      unfolding mult.assoc by (intro mult_le_mono2 leading_zeros_bound)
    finally show ?thesis using False by (simp add: mult.commute)
  qed
qed simp

text \<open>The 256-bit number a compact \<open>nBits\<close> stands for.\<close>

definition target_value :: "u32 \<Rightarrow> nat" where
  "target_value bits = unat (bits AND 0xffffff) * 256 ^ (unat (drop_bit 24 bits) - 3)"

lemma take_le_bytes: "n \<le> k \<Longrightarrow> take n (le_bytes k w) = le_bytes n w"
proof (induction k arbitrary: n w)
  case (Suc k)
  then show ?case by (cases n) simp_all
qed simp

lemma target_of_value:
  assumes "target_of bits = Some t"
  shows "length t = 32" "le_val (rev t) = target_value bits"
proof -
  define e where "e = unat (drop_bit 24 bits)"
  define m where "m = bits AND 0xffffff"
  have e: "3 \<le> e" "e \<le> 32" and t: "t = replicate (32 - e) 0 @ drop 1 (be_bytes 4 m) @ replicate (e - 3) 0"
    using assms by (auto simp: target_of_def Let_def e_def m_def min_def split: if_splits)
  show "length t = 32" using e by (simp add: t)
  have "m = take_bit 24 bits" by (simp add: m_def take_bit_eq_mask mask_eq_exp_minus_1)
  then have "unat m < 2 ^ 24" by (simp only: unsigned_take_bit_eq take_bit_nat_less_exp)
  moreover have "rev (drop 1 (be_bytes 4 m)) = le_bytes 3 m"
    using take_le_bytes [of 3 4 m] by (simp add: be_bytes_def rev_drop del: le_bytes.simps)
  ultimately have "le_val (rev (drop 1 (be_bytes 4 m))) = unat m" by (simp add: le_val_le_bytes del: le_bytes.simps)
  then show "le_val (rev t) = target_value bits" by (simp add: t le_val_append target_value_def e_def m_def mult.commute)
qed

text \<open>
  C16. What a confirmed proof shows. Whatever submissions were prepared and whatever bytes calendars
  sent, starting from a fresh proof or from any accepted file: if the proof passes against a header at
  a height and the header is confirmed, then evaluated operations lead from the digest to the Merkle
  root in that header; the double hash of the header is at most the target its bits encode, and that
  target is below 2^192, so that about 2^64 hashes are behind it; and the hash is the one the trusted
  source names, up to case and surrounding blanks.
\<close>

theorem bitcoin_proof_sound:
  assumes "d = detached_new (hash_bytes g) \<or> detached_parse H R file = Inr d \<and> ts_msg d = hash_bytes g"
    and "verify_bitcoin H (fold (\<lambda>call d. snd (ots_step H R call d)) calls d) h header = Inr b"
    and "header_confirm b trusted = Inr c"
  shows "(\<exists>ops. run_ops H R ops (hash_bytes g) = Some (slice 36 68 header))
    \<and> le_val (hash_bytes (H (hash_bytes (H header)))) \<le> target_value (u32_le (slice 72 76 header))
    \<and> target_value (u32_le (slice 72 76 header)) < 2 ^ 192
    \<and> bc_height c = h
    \<and> map ascii_lower (trim_text trusted)
        = map ascii_lower (codes (bytes_to_hex (rev (hash_bytes (H (hash_bytes (H header)))))))"
proof -
  define d' where "d' = fold (\<lambda>call d. snd (ots_step H R call d)) calls d"
  define hh where "hh = hash_bytes (H (hash_bytes (H header)))"
  have "proof_of H R (hash_bytes g) d" using assms(1) proof_of_new proof_of_parse by metis
  then have "proof_of H R (hash_bytes g) d'" unfolding d'_def by (rule ots.inv_fold)
  then have good: "good H R d'" "ts_msg d' = hash_bytes g" by (simp_all add: proof_of_def)
  obtain t where v: "list_ex (\<lambda>(msg, a). a = Bitcoin h \<and> msg = slice 36 68 header) (attestations_of d')"
    "target_of (u32_le (slice 72 76 header)) = Some t" "MIN_TARGET_ZERO_BITS \<le> leading_zero_bits t" "\<not> rev hh > t"
    "bh_height b = h" "bh_block_hash b = bytes_to_hex (rev hh)"
    using assms(2) by (auto simp: verify_bitcoin_def Let_def not_less d'_def hh_def split: if_splits)
  note tv = target_of_value [OF v(2)]
  have "(slice 36 68 header, Bitcoin h) \<in> set (attestations_of d')" using v(1) by (auto simp: list_ex_iff)
  from attested_path [OF good(1) this] have "\<exists>ops. run_ops H R ops (hash_bytes g) = Some (slice 36 68 header)"
    by (simp only: good(2))
  moreover have "le_val hh \<le> target_value (u32_le (slice 72 76 header))"
    using v(4) lexicographic_value [of t "rev hh"] tv by (simp add: hh_def)
  moreover have "target_value (u32_le (slice 72 76 header)) < 2 ^ 192"
  proof -
    have "target_value (u32_le (slice 72 76 header)) * 2 ^ 64 \<le> le_val (rev t) * 2 ^ leading_zero_bits t"
      using v(3) tv by (intro mult_le_mono power_increasing) (simp_all add: MIN_TARGET_ZERO_BITS_def)
    also have "\<dots> < 2 ^ 192 * 2 ^ 64" using leading_zero_bits_bound [of t] tv(1) by simp
    finally show ?thesis by simp
  qed
  moreover have "bc_height c = h" "map ascii_lower (trim_text trusted) = map ascii_lower (codes (bytes_to_hex (rev hh)))"
    using assms(3) v(5,6) by (auto simp: header_confirm_def split: if_splits)
  ultimately show ?thesis by (simp add: hh_def)
qed

definition example_header :: bytes where
  "example_header = replicate 72 0 @ [1, 0, 0, 3] @ replicate 4 0"

lemma hash_bytes_0: "hash_bytes 0 = replicate 32 0"
proof -
  have "le_bytes n (0 :: hash) = replicate n 0" for n by (induction n) simp_all
  then show ?thesis by (simp only: hash_bytes_def be_bytes_def rev_replicate)
qed

lemma example_header_root: "slice 36 68 example_header = replicate 32 0"
  by code_simp

lemma example_header_time: "u32_le (slice 68 72 example_header) = 0"
  by code_simp

lemma example_header_bits: "u32_le (slice 72 76 example_header) = 0x03000001"
proof -
  have "slice 72 76 example_header = [1, 0, 0, 3]" by code_simp
  then show ?thesis by (simp add: u32_le_def)
qed

lemma example_header_target: "target_of 0x03000001 = Some (replicate 31 0 @ [1])"
  by code_simp

lemma example_target_work: "leading_zero_bits (replicate 31 0 @ [1]) = 255"
  by code_simp

lemma example_target_order: "\<not> replicate 32 0 > replicate 31 0 @ [1 :: u8]"
  by code_simp

lemma example_header_accepted:
  "verify_bitcoin (\<lambda>_. 0) example_proof 5 example_header
    = Inr \<lparr> bh_height = 5, bh_block_hash = bytes_to_hex (replicate 32 0), bh_block_time = 0 \<rparr>"
  using example_header_root example_header_time example_header_bits example_header_target example_target_work example_target_order
  by (simp add: verify_bitcoin_def Let_def hash_bytes_0 example_proof_def MIN_TARGET_ZERO_BITS_def del: replicate_append_same)

theorem bitcoin_proof_sound_witness:
  "\<exists>file d b c. detached_parse (\<lambda>_. 0) rev file = Inr d \<and> ts_msg d = hash_bytes 0
    \<and> verify_bitcoin (\<lambda>_. 0) (fold (\<lambda>call d. snd (ots_step (\<lambda>_. 0) rev call d)) [Respond [] []] d) 5 example_header = Inr b
    \<and> header_confirm b (codes (bytes_to_hex (replicate 32 0))) = Inr c
    \<and> (\<exists>ops. run_ops (\<lambda>_. 0) rev ops (hash_bytes 0) = Some (slice 36 68 example_header))
    \<and> target_value (u32_le (slice 72 76 example_header)) < 2 ^ 192 \<and> bc_height c = 5"
proof -
  let ?H = "\<lambda>_ :: bytes. 0 :: hash"
  have p: "detached_parse ?H rev (detached_serialize example_proof) = Inr example_proof"
    using detached_parse_serialize [OF example_proof_readable(1)] example_proof_readable(2) by (simp add: example_proof_def)
  have m: "ts_msg example_proof = hash_bytes 0" by (simp add: example_proof_def hash_bytes_0)
  have "deserialize ?H rev [] [] = Inl end_of_proof"
    by (simp add: deserialize_def read_timestamp_def MAX_DEPTH_def read_loop_item [of _ _ _ _ "[]"])
  then have "fold (\<lambda>call d. snd (ots_step ?H rev call d)) [Respond [] []] example_proof = example_proof"
    by (simp add: ots_step_def merge_calendar_response_def)
  then have v: "verify_bitcoin ?H (fold (\<lambda>call d. snd (ots_step ?H rev call d)) [Respond [] []] example_proof) 5 example_header
      = Inr \<lparr> bh_height = 5, bh_block_hash = bytes_to_hex (replicate 32 0), bh_block_time = 0 \<rparr>"
    using example_header_accepted by simp
  have z: "codes (bytes_to_hex (replicate 32 0)) = replicate 64 48" by code_simp
  obtain c where c: "header_confirm \<lparr> bh_height = 5, bh_block_hash = bytes_to_hex (replicate 32 0), bh_block_time = 0 \<rparr>
      (codes (bytes_to_hex (replicate 32 0))) = Inr c"
    by (simp add: header_confirm_def z trim_text_def is_whitespace_def)
  show ?thesis using bitcoin_proof_sound [OF disjI2 [OF conjI [OF p m]] v c] p m v c by blast
qed

section \<open>Hosts\<close>

lemma byte_prefix_Some: "byte_prefix p s = Some r \<longleftrightarrow> s = p @ r"
  by (auto simp: byte_prefix_def) (metis append_take_drop_id)

lemma trim_slashes_host: "host \<noteq> [] \<Longrightarrow> 47 \<notin> set host \<Longrightarrow> trim_slashes (pre @ host) = pre @ host"
  by (cases host rule: rev_cases) (auto simp: trim_slashes_def)

lemma trim_slashes_slash: "trim_slashes (s @ [47]) = trim_slashes s"
  by (simp add: trim_slashes_def)

definition host_allowed :: "bytes \<Rightarrow> bytes list \<Rightarrow> bool" where
  "host_allowed host allowed \<longleftrightarrow> host \<noteq> [] \<and> 47 \<notin> set host \<and> 58 \<notin> set host
     \<and> ((ascii ''https://'' @ host \<in> set allowed \<and> hd host \<noteq> 42)
       \<or> (\<exists>label suffix. label \<noteq> [] \<and> host = label @ suffix \<and> ascii ''https://*'' @ suffix \<in> set allowed))"

definition host_of :: "bytes \<Rightarrow> bytes" where
  "host_of v = (if v \<noteq> [] \<and> last v = 47 then butlast v else v)"

lemma host_of_cases: "v = host_of v \<or> v = host_of v @ [47]"
  by (simp add: host_of_def) (metis append_butlast_last_id)

lemma host_of_host: "47 \<notin> set h \<Longrightarrow> host_of h = h" "host_of (h @ [47]) = h"
proof -
  show "host_of h = h" if "47 \<notin> set h"
    using that by (metis host_of_def last_in_set)
qed (simp add: host_of_def)

lemma strict_suffix: "length s < length h \<and> drop (length h - length s) h = s \<longleftrightarrow> (\<exists>l. l \<noteq> [] \<and> h = l @ s)"
proof
  assume a: "length s < length h \<and> drop (length h - length s) h = s"
  then have "h = take (length h - length s) h @ s" by (metis append_take_drop_id)
  moreover have "take (length h - length s) h \<noteq> []" using a by auto
  ultimately show "\<exists>l. l \<noteq> [] \<and> h = l @ s" by blast
qed auto

lemma url_matches_host:
  "url_matches p u \<longleftrightarrow> (\<exists>v. u = ascii ''https://'' @ v \<and> host_allowed (host_of v) [p])"
proof (cases "\<exists>q v. p = ascii ''https://'' @ q \<and> u = ascii ''https://'' @ v")
  case True
  then obtain q v where p: "p = ascii ''https://'' @ q" and u: "u = ascii ''https://'' @ v" by blast
  have star: "ascii ''https://*'' = ascii ''https://'' @ [42]" "ascii ''*'' = [42]" by (simp_all add: ascii_def)
  have b: "byte_prefix x (x @ r) = Some r" for x r by (simp add: byte_prefix_def)
  have "url_matches p u \<longleftrightarrow> host_of v \<noteq> [] \<and> 47 \<notin> set (host_of v) \<and> 58 \<notin> set (host_of v)
      \<and> (case byte_prefix [42] q of Some s \<Rightarrow> \<exists>l. l \<noteq> [] \<and> host_of v = l @ s | None \<Rightarrow> host_of v = q)"
    unfolding url_matches_def p u b prod.case option.case star(2) host_of_def [symmetric] Let_def strict_suffix by simp
  also have "\<dots> \<longleftrightarrow> host_allowed (host_of v) [p]"
  proof (cases q)
    case (Cons x r)
    then show ?thesis by (auto simp: host_allowed_def p star byte_prefix_def)
  qed (auto simp: host_allowed_def p star byte_prefix_def)
  finally show ?thesis by (simp add: u)
next
  case False
  then have "\<not> url_matches p u"
    by (auto simp: url_matches_def byte_prefix_Some split: option.splits)
  moreover have "\<exists>q. p = ascii ''https://'' @ q" if "host_allowed h [p]" for h
    using that by (auto simp: host_allowed_def ascii_def)
  ultimately show ?thesis using False by blast
qed

text \<open>
  C25. An upgrade is asked of allowed hosts only. The URL built for a pending attestation (which an
  untrusted calendar chose) is \<open>https://HOST/timestamp/HEX\<close>, where \<open>HEX\<close> spells the commitment and
  \<open>HOST\<close> has no slash and no colon, so neither a path nor a port, and either is the host of an entry of
  the list or extends, by at least one byte, the suffix after the star of such an entry. Every other
  address is refused.
\<close>

theorem upgrade_asks_allowed_hosts:
  "calendar_upgrade_path u commitment allowed = Inr url \<longleftrightarrow>
     valid_uri u \<and> (\<exists>host. host_allowed host allowed
       \<and> (u = ascii ''https://'' @ host \<or> u = ascii ''https://'' @ host @ ascii ''/'')
       \<and> url = ascii ''https://'' @ host @ ascii ''/timestamp/'' @ ascii (bytes_to_hex commitment))"
proof -
  have slash: "ascii ''/'' = [47]" by (simp add: ascii_def)
  have any: "host_allowed h allowed \<longleftrightarrow> (\<exists>p \<in> set allowed. host_allowed h [p])" for h
    by (auto simp: host_allowed_def)
  have t: "trim_slashes (ascii ''https://'' @ v) = ascii ''https://'' @ host_of v" if "host_allowed (host_of v) allowed" for v
    using that host_of_cases [of v] trim_slashes_host [of "host_of v" "ascii ''https://''"]
      trim_slashes_slash [of "ascii ''https://'' @ host_of v"] unfolding host_allowed_def by (metis append_assoc)
  have "list_ex (\<lambda>p. url_matches p u) allowed \<longleftrightarrow> (\<exists>v. u = ascii ''https://'' @ v \<and> host_allowed (host_of v) allowed)"
    unfolding list_ex_iff url_matches_host any by blast
  then have "calendar_upgrade_path u commitment allowed = Inr url \<longleftrightarrow>
      valid_uri u \<and> (\<exists>v. u = ascii ''https://'' @ v \<and> host_allowed (host_of v) allowed
        \<and> url = ascii ''https://'' @ host_of v @ ascii ''/timestamp/'' @ ascii (bytes_to_hex commitment))"
    using t by (auto simp: calendar_upgrade_path_def)
  also have "\<dots> \<longleftrightarrow> valid_uri u \<and> (\<exists>host. host_allowed host allowed
       \<and> (u = ascii ''https://'' @ host \<or> u = ascii ''https://'' @ host @ ascii ''/'')
       \<and> url = ascii ''https://'' @ host @ ascii ''/timestamp/'' @ ascii (bytes_to_hex commitment))"
    unfolding slash using host_of_cases host_of_host unfolding host_allowed_def by metis
  finally show ?thesis .
qed

end
