(* ===== verification/Hybrid.thy ===== *)
theory Hybrid
  imports Receipt Merkle_Cache
begin

text \<open>
  Hybrid signatures (\<open>src/src/hybrid.rs\<close>): an Ed25519 and an ML-DSA-65 signature over one tagged
  digest, both required, and batches that sign the head of a Merkle tree over many digests once.

  Ed25519 is the parameter \<open>E\<close> and ML-DSA-65 the parameter \<open>Q\<close>; a private key is its seed. An encoded
  ML-DSA key or signature that does not decode is refused by \<open>pq_key_ok\<close> and \<open>pq_sig_ok\<close>.
\<close>

section \<open>Signatures\<close>

record ml_dsa =
  pq_public :: "bytes \<Rightarrow> bytes"
  pq_sign :: "bytes \<Rightarrow> bytes \<Rightarrow> bytes \<Rightarrow> bytes option"
  pq_key_ok :: "bytes \<Rightarrow> bool"
  pq_sig_ok :: "bytes \<Rightarrow> bool"
  pq_verify :: "bytes \<Rightarrow> bytes \<Rightarrow> bytes \<Rightarrow> bytes \<Rightarrow> bool"

definition HYBRID_TAG :: bytes where
  "HYBRID_TAG = ascii ''calyhyb1''"

definition ML_DSA_CONTEXT :: bytes where
  "ML_DSA_CONTEXT = ascii ''calybris''"

definition BATCH_TAG :: bytes where
  "BATCH_TAG = ascii ''calyhbt1''"

datatype hybrid_error =
    MalformedEd25519
  | MalformedMlDsa
  | Ed25519Invalid
  | MlDsaInvalid
  | SigningFailed
  | EmptyBatch
  | NotInBatch

record hybrid_public_key =
  hp_ed25519 :: bytes
  hp_ml_dsa_65 :: bytes

record hybrid_signature =
  hg_ed25519 :: bytes
  hg_ml_dsa_65 :: bytes

record hybrid_signer =
  hs_ed25519 :: bytes
  hs_ml_dsa :: bytes

definition hybrid_message :: "hash \<Rightarrow> bytes" where
  "hybrid_message digest = HYBRID_TAG @ hash_bytes digest"

definition from_seeds :: "bytes \<Rightarrow> bytes \<Rightarrow> hybrid_signer" where
  "from_seeds ed25519_seed ml_dsa_seed = \<lparr> hs_ed25519 = ed25519_seed, hs_ml_dsa = ml_dsa_seed \<rparr>"

definition hybrid_public :: "signature_scheme \<Rightarrow> ml_dsa \<Rightarrow> hybrid_signer \<Rightarrow> hybrid_public_key" where
  "hybrid_public E Q s = \<lparr> hp_ed25519 = ss_public E (hs_ed25519 s), hp_ml_dsa_65 = pq_public Q (hs_ml_dsa s) \<rparr>"

definition hybrid_sign :: "signature_scheme \<Rightarrow> ml_dsa \<Rightarrow> hybrid_signer \<Rightarrow> hash \<Rightarrow> hybrid_error + hybrid_signature" where
  "hybrid_sign E Q s digest =
     (let m = hybrid_message digest; ed = ss_sign E (hs_ed25519 s) m in
      and_then (ok_or SigningFailed (pq_sign Q (hs_ml_dsa s) m ML_DSA_CONTEXT)) (\<lambda>pq.
        Inr \<lparr> hg_ed25519 = ed, hg_ml_dsa_65 = pq \<rparr>))"

definition hybrid_verify ::
  "signature_scheme \<Rightarrow> ml_dsa \<Rightarrow> hybrid_public_key \<Rightarrow> hash \<Rightarrow> hybrid_signature \<Rightarrow> hybrid_error + unit" where
  "hybrid_verify E Q public digest sg =
     (let m = hybrid_message digest in
      if \<not> ss_key_ok E (hp_ed25519 public) then Inl MalformedEd25519
      else if length (hg_ed25519 sg) \<noteq> 64 then Inl MalformedEd25519
      else if \<not> ss_verify E (hp_ed25519 public) m (hg_ed25519 sg) then Inl Ed25519Invalid
      else if \<not> pq_key_ok Q (hp_ml_dsa_65 public) then Inl MalformedMlDsa
      else if \<not> pq_sig_ok Q (hg_ml_dsa_65 sg) then Inl MalformedMlDsa
      else if pq_verify Q (hp_ml_dsa_65 public) m ML_DSA_CONTEXT (hg_ml_dsa_65 sg) then Inr ()
      else Inl MlDsaInvalid)"

section \<open>Batches\<close>

record batch_signature =
  bs_size :: u64
  bs_root :: hash
  bs_signature :: hybrid_signature

record batch_item =
  bi_index :: u64
  bi_proof :: "hash list"

definition batch_bytes :: "u64 \<Rightarrow> hash \<Rightarrow> bytes" where
  "batch_bytes n root = BATCH_TAG @ be_bytes 8 n @ hash_bytes root"

definition batch_digest :: "hasher \<Rightarrow> u64 \<Rightarrow> hash \<Rightarrow> hash" where
  "batch_digest H n root = H (batch_bytes n root)"

definition sign_batch ::
  "hasher \<Rightarrow> signature_scheme \<Rightarrow> ml_dsa \<Rightarrow> hybrid_signer \<Rightarrow> hash list \<Rightarrow> hybrid_error + batch_signature \<times> batch_item list" where
  "sign_batch H E Q s digests =
     (if digests = [] then Inl EmptyBatch
      else
        let leaves = map (\<lambda>d. leaf_hash H (hash_bytes d)) digests;
            n = of_nat (length leaves);
            root = root_of H leaves in
        and_then (hybrid_sign E Q s (batch_digest H n root)) (\<lambda>sg.
          let items = map (\<lambda>(i, p). \<lparr> bi_index = of_nat i, bi_proof = p \<rparr>)
                (enumerate 0 (all_inclusion_proofs H leaves)) in
          Inr (\<lparr> bs_size = n, bs_root = root, bs_signature = sg \<rparr>, items)))"

definition verify_item :: "hasher \<Rightarrow> batch_signature \<Rightarrow> hash \<Rightarrow> batch_item \<Rightarrow> hybrid_error + unit" where
  "verify_item H batch digest item =
     (let head = \<lparr> th_size = unat (bs_size batch), th_root = bs_root batch \<rparr> in
      map_err (\<lambda>_. NotInBatch)
        (verify_inclusion H head (unat (bi_index item)) (leaf_hash H (hash_bytes digest)) (bi_proof item)))"

definition verify_batch ::
  "hasher \<Rightarrow> signature_scheme \<Rightarrow> ml_dsa \<Rightarrow> hybrid_public_key \<Rightarrow> batch_signature \<Rightarrow> hybrid_error + batch_signature" where
  "verify_batch H E Q public batch =
     (if bs_size batch = 0 then Inl EmptyBatch
      else
        and_then (hybrid_verify E Q public (batch_digest H (bs_size batch) (bs_root batch)) (bs_signature batch)) (\<lambda>_.
          Inr batch))"

definition verify_batch_item ::
  "hasher \<Rightarrow> signature_scheme \<Rightarrow> ml_dsa \<Rightarrow> hybrid_public_key \<Rightarrow> hash \<Rightarrow> batch_item \<Rightarrow> batch_signature \<Rightarrow> hybrid_error + unit" where
  "verify_batch_item H E Q public digest item batch =
     and_then (verify_batch H E Q public batch) (\<lambda>batch. verify_item H batch digest item)"

section \<open>What an accepted item shows\<close>

text \<open>The digests a holder signed: batches of digests, and artifacts on their own.\<close>

definition signed_digests :: "hasher \<Rightarrow> hash list list \<Rightarrow> bytes list \<Rightarrow> hash set" where
  "signed_digests H batches artifacts =
     (\<lambda>ds. batch_digest H (of_nat (length ds)) (root_of H (map (\<lambda>d. leaf_hash H (hash_bytes d)) ds))) ` set batches
     \<union> H ` set artifacts"

text \<open>One of the two schemes is unbroken: the key verifies nothing but what was signed with it.\<close>

definition half_unforgeable :: "signature_scheme \<Rightarrow> ml_dsa \<Rightarrow> hybrid_public_key \<Rightarrow> hash set \<Rightarrow> bool" where
  "half_unforgeable E Q public S \<longleftrightarrow>
     (\<forall>m sg. ss_verify E (hp_ed25519 public) m sg \<longrightarrow> m \<in> hybrid_message ` S)
     \<or> (\<forall>m sg. pq_verify Q (hp_ml_dsa_65 public) m ML_DSA_CONTEXT sg \<longrightarrow> m \<in> hybrid_message ` S)"

lemma hybrid_message_inject [simp]: "hybrid_message d = hybrid_message e \<longleftrightarrow> d = e"
  by (simp add: hybrid_message_def)

lemma batch_bytes_inject [simp]: "batch_bytes n r = batch_bytes n' r' \<longleftrightarrow> n = n' \<and> r = r'"
  by (auto simp: batch_bytes_def be_bytes_inject)

lemma hybrid_verify_signed:
  "hybrid_verify E Q public d sg = Inr () \<Longrightarrow> half_unforgeable E Q public S \<Longrightarrow> d \<in> S"
  by (auto simp: hybrid_verify_def half_unforgeable_def Let_def split: if_splits)

definition item_inputs :: "hasher \<Rightarrow> hash \<Rightarrow> batch_item \<Rightarrow> batch_signature \<Rightarrow> bytes list" where
  "item_inputs H digest item batch =
     batch_bytes (bs_size batch) (bs_root batch) # (LEAF_PREFIX # hash_bytes digest)
     # path_inputs H (unat (bi_index item)) (unat (bs_size batch)) (leaf_hash H (hash_bytes digest)) (bi_proof item)"

definition batch_inputs :: "hasher \<Rightarrow> hash list \<Rightarrow> bytes list" where
  "batch_inputs H ds =
     (let leaves = map (\<lambda>d. leaf_hash H (hash_bytes d)) ds in
      batch_bytes (of_nat (length ds)) (root_of H leaves) # tree_inputs H leaves @ map (\<lambda>d. LEAF_PREFIX # hash_bytes d) ds)"

lemma item_of_batch:
  fixes H :: hasher and ds :: "hash list"
  defines "ls \<equiv> map (\<lambda>d. leaf_hash H (hash_bytes d)) ds"
  assumes n: "unat (bs_size batch) = length ds" and r: "bs_root batch = root_of H ls"
    and inc: "verify_inclusion H \<lparr> th_size = unat (bs_size batch), th_root = bs_root batch \<rparr> (unat (bi_index item))
        (leaf_hash H (hash_bytes digest)) (bi_proof item) = Inr ()"
  shows "unat (bi_index item) < length ds \<and> (ds ! unat (bi_index item) = digest
    \<or> collision H (item_inputs H digest item batch) (batch_inputs H ds))"
proof -
  let ?i = "unat (bi_index item)" and ?leaf = "leaf_hash H (hash_bytes digest)"
  have "verify_inclusion H (head_over H ls) ?i ?leaf (bi_proof item) = Inr ()" using inc n r by (simp add: head_over_def ls_def)
  then have i: "?i < length ds"
    and s: "?leaf = ls ! ?i \<or> collision H (path_inputs H ?i (length ds) ?leaf (bi_proof item)) (tree_inputs H ls)"
    using fold_path_sound [of ?i ls H ?leaf "bi_proof item"] by (auto simp: verify_inclusion_Inr head_over_def ls_def)
  show ?thesis
  proof (cases "ds ! ?i = digest")
    case False
    from s have "collision H (item_inputs H digest item batch) (batch_inputs H ds)"
    proof
      assume "?leaf = ls ! ?i"
      then show ?thesis using i False
        by (intro collisionI [of H "LEAF_PREFIX # hash_bytes digest" "LEAF_PREFIX # hash_bytes (ds ! ?i)"])
          (auto simp: leaf_hash_def item_inputs_def batch_inputs_def Let_def ls_def)
    next
      assume "collision H (path_inputs H ?i (length ds) ?leaf (bi_proof item)) (tree_inputs H ls)"
      then show ?thesis by (rule collision_mono) (auto simp: item_inputs_def batch_inputs_def Let_def n ls_def)
    qed
    with i show ?thesis by simp
  qed (use i in simp)
qed

text \<open>
  C17. An item accepted in a batch was signed in a batch, as long as one of the two schemes stands: if
  either half of the public key verifies nothing but what its holder signed, then an accepted digest is
  the digest at that index of a batch the holder signed, unless two of the byte strings hashed while
  checking and while signing collide. Artifacts signed on their own, under the same tag, are no way
  around this as long as their bytes do not start with the batch tag.
\<close>

theorem batch_item_was_signed:
  assumes "verify_batch_item H E Q public digest item batch = Inr ()"
    and "half_unforgeable E Q public (signed_digests H batches artifacts)"
    and "\<forall>x \<in> set artifacts. take 8 x \<noteq> BATCH_TAG" "\<forall>ds \<in> set batches. length ds < 2 ^ 64"
  shows "(\<exists>ds \<in> set batches. unat (bi_index item) < length ds \<and> ds ! unat (bi_index item) = digest)
    \<or> collision H (item_inputs H digest item batch) (concat (map (batch_inputs H) batches) @ artifacts)"
proof -
  let ?i = "unat (bi_index item)" and ?leaf = "leaf_hash H (hash_bytes digest)"
  have v: "hybrid_verify E Q public (batch_digest H (bs_size batch) (bs_root batch)) (bs_signature batch) = Inr ()"
    and inc: "verify_inclusion H \<lparr> th_size = unat (bs_size batch), th_root = bs_root batch \<rparr> ?i ?leaf (bi_proof item) = Inr ()"
    using assms(1) by (auto simp: verify_batch_item_def verify_batch_def verify_item_def Let_def split: if_splits)
  from hybrid_verify_signed [OF v assms(2)]
  consider (single) x where "x \<in> set artifacts" "batch_digest H (bs_size batch) (bs_root batch) = H x"
    | (batch) ds where "ds \<in> set batches" "batch_digest H (bs_size batch) (bs_root batch)
        = batch_digest H (of_nat (length ds)) (root_of H (map (\<lambda>d. leaf_hash H (hash_bytes d)) ds))"
    unfolding signed_digests_def by auto
  then show ?thesis
  proof cases
    case single
    have "take 8 (batch_bytes n r) = BATCH_TAG" for n r by (simp add: batch_bytes_def BATCH_TAG_def)
    then have "batch_bytes (bs_size batch) (bs_root batch) \<noteq> x" using single(1) assms(3) by metis
    then have "collision H (item_inputs H digest item batch) (concat (map (batch_inputs H) batches) @ artifacts)"
      using single by (intro collisionI [of H "batch_bytes (bs_size batch) (bs_root batch)" x])
        (auto simp: batch_digest_def item_inputs_def)
    then show ?thesis ..
  next
    case (batch ds)
    let ?ls = "map (\<lambda>d. leaf_hash H (hash_bytes d)) ds"
    have sub: "set (batch_inputs H ds) \<subseteq> set (concat (map (batch_inputs H) batches) @ artifacts)" using batch(1) by auto
    show ?thesis
    proof (cases "bs_size batch = of_nat (length ds) \<and> bs_root batch = root_of H ?ls")
      case False
      then have "collision H (item_inputs H digest item batch) (batch_inputs H ds)"
        using batch(2) by (intro collisionI [of H "batch_bytes (bs_size batch) (bs_root batch)" "batch_bytes (of_nat (length ds)) (root_of H ?ls)"])
          (auto simp: batch_digest_def item_inputs_def batch_inputs_def Let_def)
      from collision_mono [OF this order_refl sub] show ?thesis ..
    next
      case True
      then have "unat (bs_size batch) = length ds" using batch(1) assms(4) by (simp add: unat_of_nat take_bit_eq_mod)
      from item_of_batch [OF this _ inc] True sub batch(1) show ?thesis
        using collision_mono [OF _ order_refl sub, of H "item_inputs H digest item batch"] by blast
    qed
  qed
qed

text \<open>What the code relies on of ML-DSA-65: encodings decode, and a signature verifies under its key and context.\<close>

definition ml_dsa_ok :: "ml_dsa \<Rightarrow> bool" where
  "ml_dsa_ok Q \<longleftrightarrow> (\<forall>seed m ctx sg. pq_key_ok Q (pq_public Q seed)
     \<and> (pq_sign Q seed m ctx = Some sg \<longrightarrow> pq_sig_ok Q sg \<and> pq_verify Q (pq_public Q seed) m ctx sg))"

lemma hybrid_sign_verifies:
  assumes "scheme_ok E" "ml_dsa_ok Q" "hybrid_sign E Q s d = Inr sg"
  shows "hybrid_verify E Q (hybrid_public E Q s) d sg = Inr ()"
  using assms scheme_okD [OF assms(1)]
  by (auto simp: hybrid_sign_def hybrid_verify_def hybrid_public_def Let_def ml_dsa_ok_def)

lemma sign_batch_Inl_iff:
  "sign_batch H E Q s ds = Inl e \<longleftrightarrow>
     ds = [] \<and> e = EmptyBatch
     \<or> ds \<noteq> [] \<and> e = SigningFailed
       \<and> pq_sign Q (hs_ml_dsa s)
           (hybrid_message (batch_digest H (of_nat (length ds)) (root_of H (map (\<lambda>d. leaf_hash H (hash_bytes d)) ds))))
           ML_DSA_CONTEXT = None"
  by (cases "pq_sign Q (hs_ml_dsa s)
      (hybrid_message (batch_digest H (of_nat (length ds)) (root_of H (map (\<lambda>d. leaf_hash H (hash_bytes d)) ds)))) ML_DSA_CONTEXT")
    (auto simp: sign_batch_def hybrid_sign_def Let_def)

lemma sign_batch_items:
  assumes "scheme_ok E" "ml_dsa_ok Q" "length ds < 2 ^ 64" "sign_batch H E Q s ds = Inr (batch, items)"
  shows "bs_size batch = of_nat (length ds) \<and> map bi_index items = map of_nat [0 ..< length ds]
    \<and> list_all2 (\<lambda>d item. verify_batch_item H E Q (hybrid_public E Q s) d item batch = Inr ()) ds items"
proof -
  define ls where "ls = map (\<lambda>d. leaf_hash H (hash_bytes d)) ds"
  have ne: "ds \<noteq> []" and b: "bs_size batch = of_nat (length ds)" "bs_root batch = root_of H ls"
    and sg: "hybrid_sign E Q s (batch_digest H (bs_size batch) (bs_root batch)) = Inr (bs_signature batch)"
    and items: "items = map (\<lambda>(i, p). \<lparr> bi_index = of_nat i, bi_proof = p \<rparr>) (enumerate 0 (all_inclusion_proofs H ls))"
    using assms(4) by (auto simp: sign_batch_def Let_def ls_def split: if_splits)
  have n: "unat (bs_size batch) = length ls" using assms(3) by (simp add: b ls_def unat_of_nat take_bit_eq_mod)
  have l: "length items = length ds" by (simp add: items all_inclusion_proofs_eq ls_def)
  have "verify_batch_item H E Q (hybrid_public E Q s) (ds ! i) (items ! i) batch = Inr ()" if i: "i < length ds" for i
  proof -
    have it: "items ! i = \<lparr> bi_index = of_nat i, bi_proof = path H i ls \<rparr>"
      using i by (simp add: items all_inclusion_proofs_eq nth_enumerate_eq ls_def)
    have "unat (of_nat i :: u64) = i" using i assms(3) by (simp add: unat_of_nat take_bit_eq_mod)
    moreover have "verify_inclusion H (head_over H ls) i (ls ! i) (path H i ls) = Inr ()"
      using i path_fold [of i ls H] by (simp add: verify_inclusion_Inr head_over_def ls_def)
    ultimately have "verify_item H batch (ds ! i) (items ! i) = Inr ()"
      using i n b by (simp add: verify_item_def it head_over_def ls_def)
    moreover have "bs_size batch \<noteq> 0" using n ne by (auto simp: ls_def)
    ultimately show ?thesis
      using hybrid_sign_verifies [OF assms(1,2) sg] by (simp add: verify_batch_item_def verify_batch_def)
  qed
  moreover have "map bi_index items = map of_nat [0 ..< length ds]"
    by (rule nth_equalityI) (simp_all add: l items all_inclusion_proofs_eq nth_enumerate_eq ls_def)
  ultimately show ?thesis using l b(1) by (simp add: list_all2_conv_all_nth)
qed

text \<open>
  C23. Signing a batch fails exactly in two cases: \<open>EmptyBatch\<close> exactly for no digests, and
  \<open>SigningFailed\<close> exactly when there are digests and ML-DSA does not sign the tagged digest of the size
  and the Merkle root of the batch. Otherwise it gives the batch of that size and one item per digest,
  with the indices 0, 1, 2 and so on in order, and every digest verifies with its item under the public
  key of the signer, for every size of the batch.
\<close>

theorem signed_batch_verifies:
  assumes "scheme_ok E" "ml_dsa_ok Q" "length ds < 2 ^ 64"
  shows "(\<forall>e. sign_batch H E Q s ds = Inl e \<longleftrightarrow>
       ds = [] \<and> e = EmptyBatch
       \<or> ds \<noteq> [] \<and> e = SigningFailed
         \<and> pq_sign Q (hs_ml_dsa s)
             (hybrid_message (batch_digest H (of_nat (length ds)) (root_of H (map (\<lambda>d. leaf_hash H (hash_bytes d)) ds))))
             ML_DSA_CONTEXT = None)
    \<and> (\<forall>batch items. sign_batch H E Q s ds = Inr (batch, items) \<longrightarrow>
       bs_size batch = of_nat (length ds) \<and> map bi_index items = map of_nat [0 ..< length ds]
       \<and> list_all2 (\<lambda>d item. verify_batch_item H E Q (hybrid_public E Q s) d item batch = Inr ()) ds items)"
  by (intro conjI allI impI sign_batch_Inl_iff) (simp_all only: sign_batch_items [OF assms])

section \<open>Instances\<close>

definition sole_ml_dsa :: "bytes \<Rightarrow> ml_dsa" where
  "sole_ml_dsa m0 =
     \<lparr> pq_public = \<lambda>seed. seed, pq_sign = \<lambda>seed m ctx. if m = m0 then Some (seed @ m @ ctx) else None,
       pq_key_ok = \<lambda>_. True, pq_sig_ok = \<lambda>_. True, pq_verify = \<lambda>k m ctx sg. m = m0 \<and> sg = k @ m @ ctx \<rparr>"

abbreviation example_message :: bytes where
  "example_message \<equiv> hybrid_message (batch_digest poly_hash 2 (root_of poly_hash (map (\<lambda>d. leaf_hash poly_hash (hash_bytes d)) [3, 4])))"

lemma example_batch:
  "\<exists>batch items. sign_batch poly_hash mirror_scheme (sole_ml_dsa example_message) (from_seeds [1] [2]) [3, 4] = Inr (batch, items)"
  by (simp add: sign_batch_def hybrid_sign_def sole_ml_dsa_def Let_def)

lemma sole_ml_dsa_ok: "ml_dsa_ok (sole_ml_dsa m)"
  by (simp add: ml_dsa_ok_def sole_ml_dsa_def)

theorem signed_batch_verifies_witness:
  "\<exists>batch items. sign_batch poly_hash mirror_scheme (sole_ml_dsa example_message) (from_seeds [1] [2]) [3, 4] = Inr (batch, items)
    \<and> map bi_index items = [0, 1] \<and> list_all2 (\<lambda>d item. verify_batch_item poly_hash mirror_scheme (sole_ml_dsa example_message)
        (hybrid_public mirror_scheme (sole_ml_dsa example_message) (from_seeds [1] [2])) d item batch = Inr ()) [3, 4] items"
proof -
  obtain batch items where b: "sign_batch poly_hash mirror_scheme (sole_ml_dsa example_message) (from_seeds [1] [2]) [3, 4] = Inr (batch, items)"
    using example_batch by blast
  have "length [3, 4 :: hash] < 2 ^ 64" by simp
  from signed_batch_verifies [OF mirror_scheme_ok sole_ml_dsa_ok [of example_message] this, where H = poly_hash and s = "from_seeds [1] [2]"] b
  have "map bi_index items = map of_nat [0 ..< length [3, 4 :: hash]] \<and> list_all2 (\<lambda>d item.
      verify_batch_item poly_hash mirror_scheme (sole_ml_dsa example_message)
        (hybrid_public mirror_scheme (sole_ml_dsa example_message) (from_seeds [1] [2])) d item batch = Inr ()) [3, 4] items"
    by blast
  moreover have "map of_nat [0 ..< length [3, 4 :: hash]] = [0, 1 :: u64]" by (simp add: upt_rec)
  ultimately show ?thesis using b by metis
qed

theorem batch_item_was_signed_witness:
  "\<exists>item batch. verify_batch_item poly_hash mirror_scheme (sole_ml_dsa example_message)
        (hybrid_public mirror_scheme (sole_ml_dsa example_message) (from_seeds [1] [2])) 3 item batch = Inr ()
    \<and> half_unforgeable mirror_scheme (sole_ml_dsa example_message)
        (hybrid_public mirror_scheme (sole_ml_dsa example_message) (from_seeds [1] [2])) (signed_digests poly_hash [[3, 4]] [[7]])
    \<and> (unat (bi_index item) < 2 \<and> [3, 4] ! unat (bi_index item) = (3 :: hash)
      \<or> collision poly_hash (item_inputs poly_hash 3 item batch) (concat (map (batch_inputs poly_hash) [[3, 4]]) @ [[7]]))"
proof -
  obtain batch items where "sign_batch poly_hash mirror_scheme (sole_ml_dsa example_message) (from_seeds [1] [2]) [3, 4] = Inr (batch, items)"
    using example_batch by blast
  then obtain item where v: "verify_batch_item poly_hash mirror_scheme (sole_ml_dsa example_message)
      (hybrid_public mirror_scheme (sole_ml_dsa example_message) (from_seeds [1] [2])) 3 item batch = Inr ()"
    using sign_batch_items [OF mirror_scheme_ok sole_ml_dsa_ok [of example_message], of "[3, 4]" poly_hash "from_seeds [1] [2]"]
    by (auto simp: list_all2_Cons1)
  have u: "half_unforgeable mirror_scheme (sole_ml_dsa example_message)
      (hybrid_public mirror_scheme (sole_ml_dsa example_message) (from_seeds [1] [2])) (signed_digests poly_hash [[3, 4]] [[7]])"
    by (simp add: half_unforgeable_def signed_digests_def sole_ml_dsa_def)
  have "\<forall>x \<in> set [[7]]. take 8 x \<noteq> BATCH_TAG" "\<forall>ds \<in> set [[3, 4 :: hash]]. length ds < 2 ^ 64"
    by (simp_all add: BATCH_TAG_def ascii_def)
  from batch_item_was_signed [OF v u this]
  have "unat (bi_index item) < 2 \<and> [3, 4] ! unat (bi_index item) = (3 :: hash)
      \<or> collision poly_hash (item_inputs poly_hash 3 item batch) (concat (map (batch_inputs poly_hash) [[3, 4]]) @ [[7]])"
    by (simp add: numeral_2_eq_2)
  then show ?thesis using v u by blast
qed

end
