(* ===== verification/Spec2Isabelle.thy ===== *)
theory Spec2Isabelle
  imports Prescribe_Correct Budget_Spec Budget_Concurrent Merkle_Cache State_Chain Counterfactual Wal_Correct Exploration Finance Witness_Correct Persistence_Correct Setup Receipt Audit_Correct Ots_Sound Hybrid
begin

text \<open>
  Verification of calybris-core, the library under \<open>src/src/\<close>: a decision kernel that selects a model
  for a request under a policy, a budget engine that reserves and settles money per tenant, and the
  evidence around both: digests, logs, Merkle trees, signed checkpoints, witnesses, receipts,
  certificates, timestamps and crash recovery.

  \<^bold>\<open>How the parts interact.\<close> A policy and a request go through the kernel, which returns a decision. The
  decision is bound to both by digests, recorded in a hash-chained log, in a trajectory of states and in
  a receipt, and can be replayed by anyone. The budget engine admits and settles the spend of a decision;
  its snapshots are persisted together with an anchor of the log. A Merkle tree over the log gives tree
  heads, which the log signs as checkpoints, witnesses cosign, and OpenTimestamps dates. An auditor
  follows the checkpoints and checks records against them.

  \<^bold>\<open>Theories, sources and what is shown.\<close>

  \<^item> \<open>Calybris_Prelude\<close>: Rust integers as words with the checked and saturating operations, byte
    encodings, collisions of a hash function, results as sums, and the locale \<open>machine\<close> of systems that
    keep an invariant, which the budget engine and the timestamp workflow interpret.
  \<^item> \<open>Kernel\<close>, \<open>Policy\<close>, \<open>Prescribe\<close>, \<open>Prescribe_Correct\<close> (\<open>kernel.rs\<close>): models, requests, gates and the
    pricing arithmetic; construction and validation of policies; the one-pass decision loop, rejection
    reasons, \<open>explain\<close> and every entry point. The loop equals sorting the eligible models by exact
    utility, cost, quality and identifier (locale \<open>key_ranking\<close>, interpreted by the tie-break of the
    code); a request is rejected exactly when nothing is eligible; no 128-bit operation overflows.
  \<^item> \<open>Budget\<close>, \<open>Budget_Inv\<close>, \<open>Budget_Spec\<close>, \<open>Budget_Concurrent\<close> (\<open>budget.rs\<close>): the engine one completed
    operation at a time, its conservation invariant after any sequence of operations, the refinement of
    an abstract ledger by every operation that changes the state and by the balance queries, settlement
    at most once, snapshots and migration; and the atomic steps of the compare-and-swap loops as an
    inductive step relation, with conservation under every interleaving.
  \<^item> \<open>Digest\<close>, \<open>Verify\<close>, \<open>State_Chain\<close> (\<open>digest.rs\<close>, \<open>verify.rs\<close>, \<open>proof.rs\<close>, \<open>state.rs\<close>): canonical byte
    layouts and their injectivity, replay, audit bundles and proof envelopes, and trajectories with the
    exact conditions under which their verifiers accept.
  \<^item> \<open>Counterfactual\<close> (\<open>counterfactual.rs\<close>): what a candidate needs to win and how far a winner may move;
    the binary searches agree with trying every value.
  \<^item> \<open>Outcome\<close>, \<open>Exploration\<close> (\<open>outcome.rs\<close>, \<open>exploration.rs\<close>, the integer part of \<open>ope.rs\<close>): records of
    what was acted on and with what probability; the sampling loop returns the remainder of the first
    kept word, returns whenever some word is kept, and is unbiased.
  \<^item> \<open>Finance\<close> (\<open>finance.rs\<close>): ledger digests, conservation proofs, and certificates that partition the
    spend.
  \<^item> \<open>Merkle\<close>, \<open>Merkle_Verify\<close>, \<open>Merkle_Cache\<close> (\<open>merkle.rs\<close>): tree hashing, proof builders and the RFC 9162
    verifiers, which are sound up to a collision and accept what the builders return; the cached tree
    agrees with recomputation (locale \<open>subtree_provider\<close>).
  \<^item> \<open>Wal\<close>, \<open>Wal_Correct\<close> (\<open>wal.rs\<close>, \<open>bounded_io.rs\<close>): writer, line format, readers, anchors and audited
    replay; the round trip of a log, what its head binds, and the exact acceptance of replay.
  \<^item> \<open>Persistence\<close>, \<open>Persistence_Correct\<close> (\<open>persistence.rs\<close>): atomic replacement, checkpoints, recovery
    plans; a coordinated checkpoint is atomic under failures and crashes, and a recovery plan is exact.
  \<^item> \<open>Checkpoint\<close>, \<open>Checkpoint_Correct\<close>, \<open>Witness\<close>, \<open>Witness_Correct\<close> (\<open>checkpoint.rs\<close>, \<open>witness.rs\<close>): notes,
    keys, signing and cosigning with their round trip; the handler of a witness, interleaved at its store
    (locale \<open>head_memory\<close>), never cosigns a fork.
  \<^item> \<open>Auditing\<close>, \<open>Audit_Correct\<close> (\<open>audit.rs\<close>): quorums, the view of an auditor, split-view evidence and
    revoked keys, with one history under overlapping thresholds.
  \<^item> \<open>Provenance\<close>, \<open>Receipt\<close> (\<open>provenance.rs\<close>, \<open>certificate.rs\<close>, \<open>receipt.rs\<close>): signed policies,
    certificates and receipts; a receipt whose signature is accepted was signed, and an issued and signed
    receipt is accepted.
  \<^item> \<open>Ots\<close>, \<open>Ots_Correct\<close>, \<open>Ots_Sound\<close> (\<open>ots.rs\<close>): the proof tree with its format, merging, the calendar
    workflow and block headers; reading normalises, and an accepted proof has a path of operations to
    the header.
  \<^item> \<open>Hybrid\<close> (\<open>hybrid.rs\<close>): hybrid Ed25519 and ML-DSA signatures and Merkle batches; an accepted item was
    signed if either half is unforgeable, and signing fails exactly in the two documented cases.
  \<^item> \<open>Setup\<close> (\<open>config.rs\<close>, \<open>builder.rs\<close>): configuration and builders; what they build carries exactly what
    was given and is well typed, and every refusal has the error of the first check that fails.

  \<^bold>\<open>State, errors and integers.\<close> A struct is a record, an enum a datatype, a method that changes its
  receiver a function that also returns the new state, and a \<open>Result\<close> a sum with the error on the left. A
  panic is \<open>None\<close>. Machine integers are words and wrap as the release build does; the places where the
  code checks are checks of the model. Hash maps are finite maps. Files are lists of bytes, and the
  outcome of every write, rename and crash is an argument, so that the theorems hold for all of them.

  \<^bold>\<open>Parameters.\<close> Third-party code is an argument of the definitions that use it: SHA-256 (\<open>H\<close>), HMAC (\<open>M\<close>),
  Ed25519, ML-DSA, RIPEMD-160, base64 and the JSON codecs. What the theorems assume of them are named
  predicates such as \<open>scheme_ok\<close>, \<open>ml_dsa_ok\<close>, \<open>base64_ok\<close>, \<open>serde_ok\<close> and \<open>codecs_ok\<close>: decoding undoes
  encoding and a signature verifies under its key. Nothing is assumed of a hash function; a statement that
  rests on its strength exhibits the collision instead. Each witness instantiates the parameters by
  concrete functions.

  \<^bold>\<open>Bounds and termination.\<close> There is no fuel. Loops are structural recursion or have a termination proof;
  the one loop that may run forever, the rejection sampling of \<open>Exploration\<close>, is a partial function with
  the exact condition under which it returns. Hypotheses such as \<open>length ds < 2 ^ 64\<close> say that a list fits
  the memory of the machine.

  \<^bold>\<open>Deviations.\<close> Some theorems state what the code does where this is not what it means to do: the counter of
  over-budget models wraps at 65536, a log that lost its last newline is corrupted by the next append, an
  owned reservation can be consumed while its hold stays open, and a Bitcoin upgrade can be merged into a
  branch whose attestations are ignored.

  \<^bold>\<open>Not modelled.\<close> Texts of error messages; memory, allocation and time; opening and locking files. The
  asynchronous log, RFC 3161 timestamps (almost entirely third-party ASN.1 and certificate code), tracing,
  the command-line verifier, the C and Python interfaces with the Python packages, scripts, examples and
  tests. Of \<open>ope.rs\<close> the floating-point estimators are left out.
\<close>

end
